(* ===== verification/Prelude.thy ===== *)
theory Prelude
  imports Main "HOL-Library.Word" "HOL-Library.Monad_Syntax"
begin

unbundle bit_operations_syntax

text \<open>
  Shared vocabulary of the GEFS development: bytes, byte memories, the big-endian
  \<open>PACK\<close>/\<open>UNPACK\<close> macros of \<^verbatim>\<open>src/src/gefs_storage.h\<close>, C strings, and the option
  monad in which the operations are written.

  \<^item> A C object of characters (a block buffer, an on-disk image) is a \<open>mem\<close>: a function
    from byte offsets to bytes. \<open>rd\<close> reads a run of bytes and \<open>wr\<close> is \<^verbatim>\<open>memmove\<close>/\<^verbatim>\<open>memcpy\<close>
    of a run of bytes to an offset. Offsets are integers, so an offset below the start of
    the object is expressible and is caught by the operations that compute it.
  \<^item> A function of the program whose C execution can leave defined behaviour (a failed
    \<^verbatim>\<open>assert\<close>, an access outside the object, a null dereference, a loop that does not end)
    returns an \<open>option\<close>; \<open>None\<close> stands for exactly those executions. Error codes the C
    code returns are ordinary values, of type \<open>errno + 'a\<close>.
\<close>

section \<open>Automation collections\<close>

named_theorems mem_simps \<open>reading back from written memory\<close>
named_theorems pack_simps \<open>lengths and inverses of the packing functions\<close>
named_theorems blk_defs \<open>the layout constants of the on-disk format\<close>
named_theorems frame_simps \<open>what an operation leaves unchanged\<close>

section \<open>Bytes and byte memories\<close>

type_synonym byte = "8 word"
type_synonym u16 = int
type_synonym u32 = "32 word"
type_synonym u64 = "64 word"
type_synonym mem = "int \<Rightarrow> byte"

definition rd :: "mem \<Rightarrow> int \<Rightarrow> nat \<Rightarrow> byte list" where
  "rd m a n = map (\<lambda>i. m (a + int i)) [0..<n]"

definition wr :: "mem \<Rightarrow> int \<Rightarrow> byte list \<Rightarrow> mem" where
  "wr m a bs = (\<lambda>i. if a \<le> i \<and> i < a + int (length bs) then bs ! nat (i - a) else m i)"

definition zeros :: mem where
  "zeros = (\<lambda>_. 0)"

lemma length_rd [simp, pack_simps]: "length (rd m a n) = n"
  by (simp add: rd_def)

lemma nth_rd [simp]: "i < n \<Longrightarrow> rd m a n ! i = m (a + int i)"
  by (simp add: rd_def)

lemma rd_0 [simp]: "rd m a 0 = []"
  by (simp add: rd_def)

lemma rd_Suc: "rd m a (Suc n) = m a # rd m (a + 1) n"
  by (rule nth_equalityI) (auto simp: nth_Cons' algebra_simps of_nat_diff)

lemma rd_add: "rd m a (n + k) = rd m a n @ rd m (a + int n) k"
  by (rule nth_equalityI) (auto simp: nth_append algebra_simps of_nat_diff)

lemma take_rd: "k \<le> n \<Longrightarrow> take k (rd m a n) = rd m a k"
  by (rule nth_equalityI) auto

lemma drop_rd: "drop k (rd m a n) = rd m (a + int k) (n - k)"
  by (rule nth_equalityI) (auto simp: algebra_simps)

lemma rd_cong:
  assumes "\<And>i. a \<le> i \<Longrightarrow> i < a + int n \<Longrightarrow> m i = m' i"
  shows "rd m a n = rd m' a n"
  using assms by (intro nth_equalityI) auto

lemma wr_Nil [simp]: "wr m a [] = m"
  by (rule ext) (auto simp: wr_def)

lemma wr_inside: "a \<le> i \<Longrightarrow> i < a + int (length bs) \<Longrightarrow> wr m a bs i = bs ! nat (i - a)"
  by (simp add: wr_def)

lemma wr_outside: "i < a \<or> a + int (length bs) \<le> i \<Longrightarrow> wr m a bs i = m i"
  by (auto simp: wr_def)

lemma rd_wr_same [simp, mem_simps]: "n = length bs \<Longrightarrow> rd (wr m a bs) a n = bs"
  by (rule nth_equalityI) (auto simp: wr_def)

lemma rd_wr_disjoint [mem_simps]:
  "b + int n \<le> a \<or> a + int (length bs) \<le> b \<Longrightarrow> rd (wr m a bs) b n = rd m b n"
  by (rule rd_cong) (auto simp: wr_outside)

lemma rd_wr_within:
  assumes "a \<le> b" "b + int n \<le> a + int (length bs)"
  shows "rd (wr m a bs) b n = take n (drop (nat (b - a)) bs)"
proof (rule nth_equalityI)
  show "length (rd (wr m a bs) b n) = length (take n (drop (nat (b - a)) bs))"
    using assms by simp
next
  fix i assume "i < length (rd (wr m a bs) b n)"
  then have i: "i < n" by simp
  have "nat (b + int i - a) = nat (b - a) + i" using assms by simp
  then show "rd (wr m a bs) b n ! i = take n (drop (nat (b - a)) bs) ! i"
    using i assms by (simp add: wr_inside)
qed

lemma wr_wr_same_range:
  "length bs = length cs \<Longrightarrow> wr (wr m a bs) a cs = wr m a cs"
  by (auto simp: wr_def)

lemma wr_rd_id: "wr m a (rd m a n) = m"
  by (rule ext) (auto simp: wr_def)

lemma rd_zeros: "rd zeros a n = replicate n 0"
  by (rule nth_equalityI) (auto simp: zeros_def)

section \<open>Fields of a byte list\<close>

definition fld :: "byte list \<Rightarrow> nat \<Rightarrow> nat \<Rightarrow> byte list" where
  "fld bs a n = take n (drop a bs)"

lemma length_fld [simp]: "a + n \<le> length bs \<Longrightarrow> length (fld bs a n) = n"
  by (simp add: fld_def)

lemma fld_append1 [pack_simps]: "a + n \<le> length xs \<Longrightarrow> fld (xs @ ys) a n = fld xs a n"
  by (simp add: fld_def)

lemma fld_append2 [pack_simps]: "length xs \<le> a \<Longrightarrow> fld (xs @ ys) a n = fld ys (a - length xs) n"
  by (simp add: fld_def)

lemma fld_all [pack_simps]: "length xs = n \<Longrightarrow> fld xs 0 n = xs"
  by (simp add: fld_def)

lemma fld_rd: "a + n \<le> k \<Longrightarrow> fld (rd m b k) a n = rd m (b + int a) n"
  by (simp add: fld_def drop_rd take_rd)

section \<open>The \<open>PACK\<close> and \<open>UNPACK\<close> macros\<close>

text \<open>
  \<^verbatim>\<open>src/src/gefs_storage.h\<close>: big-endian encodings. Sixteen-bit quantities are kept as
  integers because the code computes them in \<^verbatim>\<open>int\<close>; \<open>pack16\<close> keeps the low sixteen bits,
  as the macro's casts to \<^verbatim>\<open>uint8_t\<close> do, and \<open>s16\<close> is the conversion to \<^verbatim>\<open>int16_t\<close> that a
  store into a \<^verbatim>\<open>short\<close> field performs.
\<close>

definition pack8 :: "byte \<Rightarrow> byte list" where
  "pack8 v = [v]"

definition pack16 :: "int \<Rightarrow> byte list" where
  "pack16 v = [word_of_int (v div 256), word_of_int v]"

definition pack32 :: "u32 \<Rightarrow> byte list" where
  "pack32 v = [ucast (drop_bit 24 v), ucast (drop_bit 16 v), ucast (drop_bit 8 v), ucast v]"

definition pack64 :: "u64 \<Rightarrow> byte list" where
  "pack64 v = [ucast (drop_bit 56 v), ucast (drop_bit 48 v), ucast (drop_bit 40 v),
     ucast (drop_bit 32 v), ucast (drop_bit 24 v), ucast (drop_bit 16 v),
     ucast (drop_bit 8 v), ucast v]"

definition unpack16 :: "byte list \<Rightarrow> int" where
  "unpack16 bs = uint (bs ! 0) * 256 + uint (bs ! 1)"

definition unpack32 :: "byte list \<Rightarrow> u32" where
  "unpack32 bs = push_bit 24 (ucast (bs ! 0)) OR push_bit 16 (ucast (bs ! 1))
     OR push_bit 8 (ucast (bs ! 2)) OR ucast (bs ! 3)"

definition unpack64 :: "byte list \<Rightarrow> u64" where
  "unpack64 bs = push_bit 32 (ucast (unpack32 (take 4 bs))) OR ucast (unpack32 (drop 4 bs))"

definition s16 :: "int \<Rightarrow> int" where
  "s16 v = (v + 2 ^ 15) mod 2 ^ 16 - 2 ^ 15"

lemma length_pack [simp, pack_simps]:
  "length (pack8 b) = 1" "length (pack16 v) = 2" "length (pack32 w) = 4" "length (pack64 x) = 8"
  by (simp_all add: pack8_def pack16_def pack32_def pack64_def)

lemma unpack16_pack16 [simp, pack_simps]: "unpack16 (pack16 v) = v mod 65536"
proof -
  have "v mod 65536 = 256 * (v div 256 mod 256) + v mod 256"
    using zmod_zmult2_eq [of 256 v 256] by simp
  then show ?thesis
    by (simp add: unpack16_def pack16_def uint_word_of_int take_bit_eq_mod)
qed

lemma unpack32_pack32 [simp, pack_simps]: "unpack32 (pack32 w) = w"
proof (rule bit_word_eqI)
  fix n assume "n < LENGTH(32)"
  then have n: "n < 32" by simp
  then consider "n < 8" | "8 \<le> n" "n < 16" | "16 \<le> n" "n < 24" | "24 \<le> n"
    by linarith
  then show "bit (unpack32 (pack32 w)) n = bit w n"
    using n by cases
      (auto simp add: unpack32_def pack32_def bit_or_iff bit_push_bit_iff bit_ucast_iff
        bit_drop_bit_eq nth_Cons)
qed

lemma pack64_split: "pack64 v = pack32 (ucast (drop_bit 32 v)) @ pack32 (ucast v)"
  by (auto simp: pack64_def pack32_def intro!: bit_word_eqI
      simp: bit_ucast_iff bit_drop_bit_eq add.commute)

lemma unpack64_pack64 [simp, pack_simps]: "unpack64 (pack64 v) = v"
  unfolding unpack64_def pack64_split
  by (rule bit_word_eqI)
    (auto simp: bit_or_iff bit_push_bit_iff bit_ucast_iff bit_drop_bit_eq not_le)

text \<open>The other way round: bytes that are unpacked and packed again.\<close>

lemma no_high_bit: "LENGTH('a) \<le> n \<Longrightarrow> \<not> bit (w :: 'a :: len word) n"
  using bit_imp_le_length not_le by blast

lemma pack32_unpack32: "length xs = 4 \<Longrightarrow> pack32 (unpack32 xs) = xs"
proof -
  assume "length xs = 4"
  then obtain a b c d where "xs = [a, b, c, d]" by (auto simp: length_Suc_conv eval_nat_numeral)
  moreover have "pack32 (unpack32 [a, b, c, d]) = [a, b, c, d]"
    by (auto simp: pack32_def unpack32_def bit_simps no_high_bit intro!: bit_word_eqI)
  ultimately show ?thesis by simp
qed

lemma pack64_unpack64: "length xs = 8 \<Longrightarrow> pack64 (unpack64 xs) = xs"
proof -
  assume len: "length xs = 8"
  have w: "ucast (drop_bit 32 (push_bit 32 (ucast (a :: u32)) OR (ucast (b :: u32)) :: u64)) = a"
    "ucast (push_bit 32 (ucast (a :: u32)) OR (ucast (b :: u32)) :: u64) = b" for a b
    by (auto simp: bit_simps no_high_bit intro!: bit_word_eqI)
  show ?thesis
    unfolding pack64_split unpack64_def w using len by (simp add: pack32_unpack32)
qed

lemma pack64_inject [simp]: "pack64 v = pack64 w \<longleftrightarrow> v = w"
  by (metis unpack64_pack64)

lemma pack32_inject [simp]: "pack32 v = pack32 w \<longleftrightarrow> v = w"
  by (metis unpack32_pack32)

lemma unpack16_range: "0 \<le> unpack16 bs \<and> unpack16 bs < 65536"
  using uint_bounded [of "bs ! 0"] uint_bounded [of "bs ! 1"]
  by (simp add: unpack16_def)

lemma s16_id [simp]: "- 32768 \<le> v \<Longrightarrow> v < 32768 \<Longrightarrow> s16 v = v"
  by (simp add: s16_def)

lemma sint_addr: "0 \<le> a \<Longrightarrow> a < 2 ^ 63 \<Longrightarrow> sint (word_of_int a :: u64) = a"
  by (subst signed_of_int) (simp add: signed_take_bit_int_eq_self)

end
