(* ===== verification/MetroHash.thy ===== *)
theory MetroHash
  imports Prelude
begin

text \<open>
  The two 64-bit checksums of the repository: \<open>metrohash64\<close> of the FreeBSD port
  (\<^verbatim>\<open>src/src/gefs_storage.c\<close>) and \<open>metrohash64_1\<close> of the Plan 9 sources
  (\<^verbatim>\<open>src/src/hash.c\<close>). Both read the buffer through native-order loads
  (\<^verbatim>\<open>*(const uint64_t*)ptr\<close>); the model fixes a little-endian machine, as amd64 and arm64 are.
  Unsigned arithmetic wraps, as it does on \<open>word\<close>. The buffer is the list of its bytes.
\<close>

section \<open>Loads and rotations\<close>

definition le_word :: "byte list \<Rightarrow> u64" where
  "le_word bs = foldr (\<lambda>b acc. ucast b OR push_bit 8 acc) bs 0"

definition read_u64 :: "byte list \<Rightarrow> u64" where
  "read_u64 bs = le_word (take 8 bs)"

definition read_u32 :: "byte list \<Rightarrow> u64" where
  "read_u32 bs = le_word (take 4 bs)"

definition read_u16 :: "byte list \<Rightarrow> u64" where
  "read_u16 bs = le_word (take 2 bs)"

definition read_u8 :: "byte list \<Rightarrow> u64" where
  "read_u8 bs = le_word (take 1 bs)"

definition rol64 :: "u64 \<Rightarrow> nat \<Rightarrow> u64" where
  "rol64 x b = push_bit b x OR drop_bit (64 - b) x"

definition rotate_right :: "u64 \<Rightarrow> nat \<Rightarrow> u64" where
  "rotate_right v k = drop_bit k v OR push_bit (64 - k) v"

definition k0 :: u64 where "k0 = 0xC83A91E1"
definition k1 :: u64 where "k1 = 0x8648DBDB"
definition k2 :: u64 where "k2 = 0x7BDEC03B"
definition k3 :: u64 where "k3 = 0x2F5870A5"

type_synonym lanes = "u64 \<times> u64 \<times> u64 \<times> u64"

section \<open>The port's hash\<close>

definition mh_round :: "lanes \<Rightarrow> byte list \<Rightarrow> lanes" where
  "mh_round v ptr =
     (let (v0, v1, v2, v3) = v;
          v0 = rol64 (v0 + read_u64 ptr * k0) 29 + v2;
          v1 = rol64 (v1 + read_u64 (drop 8 ptr) * k1) 29 + v3;
          v2 = rol64 (v2 + read_u64 (drop 16 ptr) * k2) 29 + v0;
          v3 = rol64 (v3 + read_u64 (drop 24 ptr) * k3) 29 + v1
      in (v0, v1, v2, v3))"

text \<open>The \<^verbatim>\<open>do ... while (ptr <= end - 32)\<close> loop, entered with at least 32 bytes left.\<close>

function mh_blocks :: "(lanes \<Rightarrow> byte list \<Rightarrow> lanes) \<Rightarrow> lanes \<Rightarrow> byte list \<Rightarrow> lanes \<times> byte list" where
  "mh_blocks rnd v ptr =
     (if 32 \<le> length ptr then mh_blocks rnd (rnd v ptr) (drop 32 ptr) else (v, ptr))"
  by pat_completeness auto
termination
  by (relation "measure (\<lambda>(rnd, v, ptr). length ptr)") auto

declare mh_blocks.simps [simp del]

definition mh_mix :: "lanes \<Rightarrow> u64" where
  "mh_mix v =
     (let (v0, v1, v2, v3) = v;
          v2 = v2 XOR rol64 ((v0 + v3) * k0 + v1) 37 * k1;
          v3 = v3 XOR rol64 ((v1 + v2) * k1 + v0) 37 * k0;
          v0 = v0 XOR rol64 ((v0 + v2) * k0 + v3) 37 * k1;
          v1 = v1 XOR rol64 ((v1 + v3) * k1 + v2) 37 * k0
      in v0 XOR v1)"

definition mh_bulk :: "u64 \<Rightarrow> byte list \<Rightarrow> u64 \<times> byte list" where
  "mh_bulk h ptr =
     (if 32 \<le> length ptr
      then (let (v, ptr) = mh_blocks mh_round (h, h, h, h) ptr in (h + mh_mix v, ptr))
      else (h, ptr))"

definition mh_16 :: "u64 \<times> byte list \<Rightarrow> u64 \<times> byte list" where
  "mh_16 s =
     (let (h, ptr) = s in
      if 16 \<le> length ptr
      then (let v0 = rol64 (h + read_u64 ptr * k2) 29 * k3;
                v1 = rol64 (h + read_u64 (drop 8 ptr) * k2) 29 * k3;
                v0 = v0 XOR rol64 (v0 * k2) 37 * k3
            in (h + (v0 XOR v1), drop 16 ptr))
      else (h, ptr))"

definition mh_8 :: "nat \<Rightarrow> u64 \<times> byte list \<Rightarrow> u64 \<times> byte list" where
  "mh_8 r s =
     (let (h, ptr) = s in
      if 8 \<le> length ptr
      then (let h = h + read_u64 ptr * k3; h = h XOR rol64 h r * k1 in (h, drop 8 ptr))
      else (h, ptr))"

definition mh_4 :: "nat \<Rightarrow> u64 \<times> byte list \<Rightarrow> u64 \<times> byte list" where
  "mh_4 r s =
     (let (h, ptr) = s in
      if 4 \<le> length ptr
      then (let h = h + read_u32 ptr * k3; h = h XOR rol64 h r * k1 in (h, drop 4 ptr))
      else (h, ptr))"

definition mh_2 :: "nat \<Rightarrow> u64 \<times> byte list \<Rightarrow> u64 \<times> byte list" where
  "mh_2 r s =
     (let (h, ptr) = s in
      if 2 \<le> length ptr
      then (let h = h + read_u16 ptr * k3; h = h XOR rol64 h r * k1 in (h, drop 2 ptr))
      else (h, ptr))"

definition mh_1 :: "nat \<Rightarrow> u64 \<times> byte list \<Rightarrow> u64" where
  "mh_1 r s =
     (let (h, ptr) = s in
      if 1 \<le> length ptr
      then (let h = h + read_u8 ptr * k3 in h XOR rol64 h r * k1)
      else h)"

definition metrohash64 :: "byte list \<Rightarrow> u32 \<Rightarrow> u64" where
  "metrohash64 key seed =
     (let h = (ucast seed + k2) * k0 + of_nat (length key);
          h = mh_1 37 (mh_2 48 (mh_4 26 (mh_8 55 (mh_16 (mh_bulk h key)))));
          h = h XOR rol64 h 28;
          h = h * k0
      in h XOR rol64 h 29)"

definition gefs_bufhash :: "byte list \<Rightarrow> u64" where
  "gefs_bufhash src = metrohash64 src 0x6765"

section \<open>The Plan 9 hash\<close>

definition mh1_round :: "lanes \<Rightarrow> byte list \<Rightarrow> lanes" where
  "mh1_round v ptr =
     (let (v0, v1, v2, v3) = v;
          v0 = rotate_right (v0 + read_u64 ptr * k0) 29 + v2;
          v1 = rotate_right (v1 + read_u64 (drop 8 ptr) * k1) 29 + v3;
          v2 = rotate_right (v2 + read_u64 (drop 16 ptr) * k2) 29 + v0;
          v3 = rotate_right (v3 + read_u64 (drop 24 ptr) * k3) 29 + v1
      in (v0, v1, v2, v3))"

definition mh1_mix :: "lanes \<Rightarrow> u64" where
  "mh1_mix v =
     (let (v0, v1, v2, v3) = v;
          v2 = v2 XOR rotate_right ((v0 + v3) * k0 + v1) 33 * k1;
          v3 = v3 XOR rotate_right ((v1 + v2) * k1 + v0) 33 * k0;
          v0 = v0 XOR rotate_right ((v0 + v2) * k0 + v3) 33 * k1;
          v1 = v1 XOR rotate_right ((v1 + v3) * k1 + v2) 33 * k0
      in v0 XOR v1)"

definition mh1_bulk :: "u64 \<Rightarrow> byte list \<Rightarrow> u64 \<times> byte list" where
  "mh1_bulk h ptr =
     (if 32 \<le> length ptr
      then (let (v, ptr) = mh_blocks mh1_round (h, h, h, h) ptr in (h + mh1_mix v, ptr))
      else (h, ptr))"

definition mh1_16 :: "u64 \<times> byte list \<Rightarrow> u64 \<times> byte list" where
  "mh1_16 s =
     (let (h, ptr) = s in
      if 16 \<le> length ptr
      then (let v0 = rotate_right (h + read_u64 ptr * k0) 33 * k1;
                v1 = rotate_right (h + read_u64 (drop 8 ptr) * k1) 33 * k2;
                v0 = v0 XOR (rotate_right (v0 * k0) 35 + v1);
                v1 = v1 XOR (rotate_right (v1 * k3) 35 + v0)
            in (h + v1, drop 16 ptr))
      else (h, ptr))"

definition mh1_step :: "nat \<Rightarrow> nat \<Rightarrow> u64 \<times> byte list \<Rightarrow> u64 \<times> byte list" where
  "mh1_step n r s =
     (let (h, ptr) = s in
      if n \<le> length ptr
      then (let h = h + le_word (take n ptr) * k3; h = h XOR rotate_right h r * k1
            in (h, drop n ptr))
      else (h, ptr))"

definition metrohash64_1 :: "byte list \<Rightarrow> u32 \<Rightarrow> u64" where
  "metrohash64_1 key seed =
     (let h = (ucast seed + k2) * k0 + of_nat (length key);
          h = fst (mh1_step 1 25 (mh1_step 2 13 (mh1_step 4 15 (mh1_step 8 33
                (mh1_16 (mh1_bulk h key))))));
          h = h XOR rotate_right h 33;
          h = h * k0
      in h XOR rotate_right h 33)"

definition bufhash :: "byte list \<Rightarrow> u64" where
  "bufhash src = metrohash64_1 src 0x6765"

definition ihash :: "u64 \<Rightarrow> u64" where
  "ihash x =
     (let x = (x XOR drop_bit 30 x) * 0xbf58476d1ce4e5b9;
          x = (x XOR drop_bit 27 x) * 0x94d049bb133111eb;
          x = x XOR drop_bit 31 x
      in x AND 0xFFFFFFFF)"

section \<open>Properties\<close>

text \<open>
  Rotation is invertible: the port's left rotation and the Plan 9 right rotation undo each
  other, so neither loses bits of the state.
\<close>

lemma rol64_rotate_right: "0 < k \<Longrightarrow> k < 64 \<Longrightarrow> rol64 (rotate_right v k) k = v"
proof (rule bit_word_eqI)
  fix n assume k: "0 < k" "k < 64" and "n < LENGTH(64)"
  then have n: "n < 64" by simp
  show "bit (rol64 (rotate_right v k) k) n = bit v n"
  proof (cases "n < k")
    case True
    with k n show ?thesis
      by (auto simp: rol64_def rotate_right_def bit_or_iff bit_push_bit_iff bit_drop_bit_eq
          dest: bit_imp_le_length)
  next
    case False
    with k n show ?thesis
      by (auto simp: rol64_def rotate_right_def bit_or_iff bit_push_bit_iff bit_drop_bit_eq
          dest: bit_imp_le_length)
  qed
qed

lemma mh_blocks_rest:
  "snd (mh_blocks rnd v ptr) = drop (32 * (length ptr div 32)) ptr"
proof (induction rnd v ptr rule: mh_blocks.induct)
  case (1 rnd v ptr)
  show ?case
  proof (cases "32 \<le> length ptr")
    case True
    then have "32 * (length ptr div 32) = 32 * ((length ptr - 32) div 32) + 32"
      by (simp add: le_div_geq)
    with True "1.IH" show ?thesis
      by (simp add: mh_blocks.simps [of rnd v ptr] add.commute)
  next
    case False
    then show ?thesis
      by (simp add: mh_blocks.simps [of rnd v ptr])
  qed
qed

end
