(* ===== verification/Serial.thy ===== *)
theory Serial
  imports MetroHash
begin

text \<open>
  Serialization of the on-disk structures (\<^verbatim>\<open>src/src/gefs_storage.c\<close>, "Serialization
  Functions", and the packers of \<^verbatim>\<open>src/src/gefs_ream.c\<close>). A packer that advances a pointer
  through a caller's buffer is a function to the bytes it writes; where it returns \<^verbatim>\<open>NULL\<close>
  because the buffer is too small the result is \<open>None\<close>. A C string is the list of its bytes
  without the terminator. Fields of C type \<^verbatim>\<open>int64_t\<close> and \<^verbatim>\<open>int32_t\<close> are kept as words and
  read with \<open>sint\<close> where the code compares them as signed.
\<close>

section \<open>Constants of the format\<close>

definition BLKSZ :: int where [simp, blk_defs]: "BLKSZ = 16384"
definition KEYMAX :: nat where [simp, blk_defs]: "KEYMAX = 256"
definition INLMAX :: nat where [simp, blk_defs]: "INLMAX = 512"
definition KVMAX :: nat where [simp, blk_defs]: "KVMAX = KEYMAX + INLMAX"
definition PTRSZ :: nat where [simp, blk_defs]: "PTRSZ = 24"
definition SNAPSZ :: nat where [simp, blk_defs]: "SNAPSZ = 9"
definition TREESZ :: nat where [simp, blk_defs]: "TREESZ = 4+4+4+4+8+8+8+8+PTRSZ"
definition ARENASZ :: nat where [simp, blk_defs]: "ARENASZ = 8+8+8+8"

definition KDAT :: byte where [simp]: "KDAT = 0"
definition KENT :: byte where [simp]: "KENT = 1"
definition KUP :: byte where [simp]: "KUP = 2"
definition KLABEL :: byte where [simp]: "KLABEL = 3"
definition KSNAP :: byte where [simp]: "KSNAP = 4"

definition QTDIR :: byte where [simp]: "QTDIR = 0x80"
definition QTSYMLINK :: byte where [simp]: "QTSYMLINK = 0x02"
definition QTFILE :: byte where [simp]: "QTFILE = 0x00"
definition DMDIR :: u32 where [simp]: "DMDIR = 0x80000000"
definition LMUT :: u32 where [simp]: "LMUT = 1"
definition LTSNAP :: u32 where [simp]: "LTSNAP = 4"

text \<open>
  The error codes the port returns, as their negated \<^verbatim>\<open>errno\<close> values; the literal \<^verbatim>\<open>-1\<close>
  that \<^verbatim>\<open>gefs_unpacksb\<close> returns is \<open>EPERM\<close>.
\<close>

datatype errno = EPERM | ENOENT | EIO | ENOMEM | EEXIST | ENOTDIR | EISDIR | EINVAL | ENOSPC
  | EROFS | ENOTEMPTY

section \<open>Structures\<close>

record qid =
  qpath :: u64
  qvers :: u32
  qtype :: byte

record bptr =
  bp_addr :: u64
  bp_hash :: u64
  bp_gen :: u64

record xdir =
  xflag :: u64
  xqid :: qid
  xmode :: u32
  xatime :: u64
  xmtime :: u64
  xlength :: u64
  xuid :: u32
  xgid :: u32
  xmuid :: u32
  xname :: "byte list option"

record gtree =
  t_nref :: u32
  t_nlbl :: u32
  t_ht :: u32
  t_flag :: u32
  t_bp :: bptr
  t_gen :: u64
  t_pred :: u64
  t_succ :: u64
  t_base :: u64

record super =
  sb_blksz :: u32
  sb_bufspc :: u32
  sb_narena :: u32
  sb_snap :: gtree
  sb_flag :: u64
  sb_nextqid :: u64
  sb_nextgen :: u64
  sb_qgen :: u64
  sb_arenabp :: "bptr list"

text \<open>A key-value pair: \<^verbatim>\<open>k\<close>/\<^verbatim>\<open>nk\<close> and \<^verbatim>\<open>v\<close>/\<^verbatim>\<open>nv\<close> are the two byte runs.\<close>

record kvp =
  kv_k :: "byte list"
  kv_v :: "byte list"

definition zero_bptr :: bptr where
  "zero_bptr = \<lparr>bp_addr = 0, bp_hash = 0, bp_gen = 0\<rparr>"

definition zero_tree :: gtree where
  "zero_tree = \<lparr>t_nref = 0, t_nlbl = 0, t_ht = 0, t_flag = 0, t_bp = zero_bptr, t_gen = 0,
     t_pred = 0, t_succ = 0, t_base = 0\<rparr>"

definition cstr :: "string \<Rightarrow> byte list" where
  "cstr s = map of_char s"

section \<open>Strings and directory keys\<close>

definition packstr :: "int \<Rightarrow> byte list \<Rightarrow> byte list option" where
  "packstr room s =
     (let n = length s in
      if room < int n + 3 then None else Some (pack16 (int n) @ s @ [0]))"

definition unpackstr :: "byte list \<Rightarrow> (byte list \<times> byte list) option" where
  "unpackstr p =
     (if length p < 3 then None
      else (let n = nat (unpack16 p) in
        if length p < n + 3 \<or> p ! (n + 2) \<noteq> 0 then None
        else Some (takeWhile (\<lambda>c. c \<noteq> 0) (drop 2 p), drop (3 + n) p)))"

definition packdkey :: "nat \<Rightarrow> u64 \<Rightarrow> byte list option \<Rightarrow> byte list option" where
  "packdkey sz up name =
     (let hd = pack8 KENT @ pack64 up in
      case name of
        None \<Rightarrow> Some hd
      | Some s \<Rightarrow> map_option (\<lambda>bs. hd @ bs) (packstr (int sz - 9) s))"

text \<open>
  \<^verbatim>\<open>gefs_unpackdkey\<close>. The outer option is undefined behaviour: when the string does not
  parse the C function returns an uninitialised pointer.
\<close>

definition unpackdkey :: "byte list \<Rightarrow> (u64 \<times> byte list) option option" where
  "unpackdkey p =
     (if length p < 9 then Some None
      else if p ! 0 \<noteq> KENT then Some None
      else (case unpackstr (drop 9 p) of
          None \<Rightarrow> None
        | Some (name, _) \<Rightarrow> Some (Some (unpack64 (fld p 1 8), name))))"

section \<open>Directory values\<close>

definition packdval_bytes :: "xdir \<Rightarrow> byte list" where
  "packdval_bytes d =
     pack64 (xflag d) @ pack64 (qpath (xqid d)) @ pack32 (qvers (xqid d)) @ pack8 (qtype (xqid d))
     @ pack32 (xmode d) @ pack64 (xatime d) @ pack64 (xmtime d) @ pack64 (xlength d)
     @ pack32 (xuid d) @ pack32 (xgid d) @ pack32 (xmuid d)"

definition packdval :: "nat \<Rightarrow> xdir \<Rightarrow> byte list option" where
  "packdval sz d =
     (let p = packdval_bytes d in if sz < length p then None else Some p)"

text \<open>
  \<^verbatim>\<open>gefs_kv2dir\<close>. A name that does not parse leaves the \<^verbatim>\<open>NULL\<close> of the \<^verbatim>\<open>memset\<close>; a value
  shorter than the 61 bytes the function reads is read past its end and is \<open>None\<close>.
\<close>

definition kv2dir :: "kvp \<Rightarrow> xdir option" where
  "kv2dir kv =
     (let v = kv_v kv in
      if length v < 61 then None
      else Some \<lparr>xflag = unpack64 (fld v 0 8),
        xqid = \<lparr>qpath = unpack64 (fld v 8 8), qvers = unpack32 (fld v 16 4), qtype = v ! 20\<rparr>,
        xmode = unpack32 (fld v 21 4),
        xatime = unpack64 (fld v 25 8),
        xmtime = unpack64 (fld v 33 8),
        xlength = unpack64 (fld v 41 8),
        xuid = unpack32 (fld v 49 4),
        xgid = unpack32 (fld v 53 4),
        xmuid = unpack32 (fld v 57 4),
        xname = map_option fst (unpackstr (drop 9 (kv_k kv)))\<rparr>)"

section \<open>Snapshot catalog entries and block pointers\<close>

definition packlbl :: "nat \<Rightarrow> byte list \<Rightarrow> byte list option" where
  "packlbl sz name = (if sz < length name + 1 then None else Some (KLABEL # name))"

definition packsnap :: "nat \<Rightarrow> u64 \<Rightarrow> byte list option" where
  "packsnap sz snapid = (if sz < SNAPSZ then None else Some (KSNAP # pack64 snapid))"

definition packbp :: "bptr \<Rightarrow> byte list" where
  "packbp bp = pack64 (bp_addr bp) @ pack64 (bp_hash bp) @ pack64 (bp_gen bp)"

text \<open>\<^verbatim>\<open>gefs_unpackbp\<close> ignores its size argument and reads 24 bytes.\<close>

definition unpackbp :: "byte list \<Rightarrow> bptr option" where
  "unpackbp p =
     (if length p < PTRSZ then None
      else Some \<lparr>bp_addr = unpack64 (fld p 0 8), bp_hash = unpack64 (fld p 8 8),
                 bp_gen = unpack64 (fld p 16 8)\<rparr>)"

definition packtree :: "gtree \<Rightarrow> byte list" where
  "packtree t =
     pack32 (t_nref t) @ pack32 (t_nlbl t) @ pack32 (t_ht t) @ pack32 (t_flag t)
     @ pack64 (t_gen t) @ pack64 (t_pred t) @ pack64 (t_succ t) @ pack64 (t_base t)
     @ packbp (t_bp t)"

definition unpacktree :: "byte list \<Rightarrow> gtree option" where
  "unpacktree p =
     (if length p < TREESZ then None
      else Some \<lparr>t_nref = unpack32 (fld p 0 4), t_nlbl = unpack32 (fld p 4 4),
        t_ht = unpack32 (fld p 8 4), t_flag = unpack32 (fld p 12 4),
        t_bp = \<lparr>bp_addr = unpack64 (fld p 48 8), bp_hash = unpack64 (fld p 56 8),
                bp_gen = unpack64 (fld p 64 8)\<rparr>,
        t_gen = unpack64 (fld p 16 8), t_pred = unpack64 (fld p 24 8),
        t_succ = unpack64 (fld p 32 8), t_base = unpack64 (fld p 40 8)\<rparr>)"

definition packlblval :: "u64 \<Rightarrow> u32 \<Rightarrow> byte list" where
  "packlblval snapid flags = KSNAP # pack64 snapid @ pack32 flags"

section \<open>Superblock\<close>

definition sb_magic :: "byte list" where
  "sb_magic = cstr ''gefs9.00''"

definition packsb_body :: "super \<Rightarrow> byte list" where
  "packsb_body sb =
     sb_magic @ pack32 (sb_blksz sb) @ pack32 (sb_bufspc sb) @ pack32 (sb_narena sb)
     @ pack32 (t_ht (sb_snap sb))
     @ pack64 (bp_addr (t_bp (sb_snap sb))) @ pack64 (bp_hash (t_bp (sb_snap sb)))
     @ pack64 (- 1) @ pack64 (- 1) @ pack64 (- 1) @ pack64 (- 1)
     @ pack64 (sb_flag sb) @ pack64 (sb_nextqid sb) @ pack64 (sb_nextgen sb) @ pack64 (sb_qgen sb)
     @ concat (map (\<lambda>bp. pack64 (bp_addr bp) @ pack64 (bp_hash bp)) (sb_arenabp sb))"

text \<open>
  \<^verbatim>\<open>pack_sb_block\<close> (and the identical \<^verbatim>\<open>packsb\<close> of the formatter): the zeroed block with the
  body and its hash at the front. The loop over \<^verbatim>\<open>narena\<close> reads that many array elements.
\<close>

definition pack_sb_block :: "int \<Rightarrow> super \<Rightarrow> mem option" where
  "pack_sb_block sz sb =
     (if sz < BLKSZ then None
      else (let body = packsb_body (sb\<lparr>sb_arenabp := take (nat (sint (sb_narena sb))) (sb_arenabp sb)\<rparr>)
            in Some (wr zeros 0 (body @ pack64 (gefs_bufhash body)))))"

definition unpack_arenabp :: "mem \<Rightarrow> nat \<Rightarrow> bptr" where
  "unpack_arenabp p0 i =
     \<lparr>bp_addr = unpack64 (rd p0 (104 + 16 * int i) 8),
      bp_hash = unpack64 (rd p0 (112 + 16 * int i) 8), bp_gen = - 1\<rparr>"

definition unpacksb :: "super \<Rightarrow> mem \<Rightarrow> int \<Rightarrow> errno + super" where
  "unpacksb fi p0 sz =
     (if sz \<noteq> BLKSZ then Inl EPERM
      else if rd p0 0 8 \<noteq> sb_magic then Inl EPERM
      else (let narena = unpack32 (rd p0 16 4);
                n = nat (sint narena);
                snap = (sb_snap fi)\<lparr>t_ht := unpack32 (rd p0 20 4),
                  t_bp := \<lparr>bp_addr = unpack64 (rd p0 24 8), bp_hash = unpack64 (rd p0 32 8),
                           bp_gen = - 1\<rparr>\<rparr>;
                fi = \<lparr>sb_blksz = unpack32 (rd p0 8 4), sb_bufspc = unpack32 (rd p0 12 4),
                  sb_narena = narena, sb_snap = snap,
                  sb_flag = unpack64 (rd p0 72 8), sb_nextqid = unpack64 (rd p0 80 8),
                  sb_nextgen = unpack64 (rd p0 88 8), sb_qgen = unpack64 (rd p0 96 8),
                  sb_arenabp = map (unpack_arenabp p0) [0..<n]\<rparr>
            in if sint narena \<le> 0 \<or> 512 < sint narena then Inl EPERM
               else if unpack64 (rd p0 (104 + 16 * int n) 8)
                       \<noteq> gefs_bufhash (rd p0 0 (104 + 16 * n))
               then Inl EINVAL
               else Inr fi))"

section \<open>Lengths\<close>

lemma length_packdval_bytes [simp, pack_simps]: "length (packdval_bytes d) = 61"
  by (simp add: packdval_bytes_def)

lemma length_packbp [simp, pack_simps]: "length (packbp bp) = 24"
  by (simp add: packbp_def)

lemma length_packtree [simp, pack_simps]: "length (packtree t) = 72"
  by (simp add: packtree_def)

lemma length_sb_magic [simp, pack_simps]: "length sb_magic = 8"
  by (simp add: sb_magic_def cstr_def)

lemma length_packsb_body [simp, pack_simps]:
  "length (packsb_body sb) = 104 + 16 * length (sb_arenabp sb)"
  by (simp add: packsb_body_def length_concat comp_def sum_list_triv)

lemma packstr_Some: "int (length s) + 3 \<le> room \<Longrightarrow> packstr room s = Some (pack16 (int (length s)) @ s @ [0])"
  by (simp add: packstr_def)

section \<open>Round trips\<close>

text \<open>A C string packed within the buffer reads back as itself, followed by what was after it.\<close>

lemma unpackstr_packstr:
  assumes "packstr room s = Some bs" and "0 \<notin> set s" and "length s < 65536"
  shows "unpackstr (bs @ rest) = Some (s, rest)"
proof -
  have bs: "bs = pack16 (int (length s)) @ s @ [0]"
    using assms(1) by (simp add: packstr_def Let_def split: if_splits)
  have n: "nat (unpack16 (bs @ rest)) = length s"
  proof -
    have "unpack16 (bs @ rest) = unpack16 (pack16 (int (length s)))"
      by (simp add: bs unpack16_def pack16_def)
    then show ?thesis
      using assms(3) by simp
  qed
  have "(bs @ rest) ! (length s + 2) = 0"
    by (simp add: bs nth_append)
  moreover have "takeWhile (\<lambda>c. c \<noteq> 0) (drop 2 (bs @ rest)) = s"
  proof -
    have "drop 2 (bs @ rest) = s @ 0 # rest"
      by (simp add: bs)
    moreover have "takeWhile (\<lambda>c. c \<noteq> 0) (s @ 0 # rest) = s"
      using assms(2) by (subst takeWhile_append2) auto
    ultimately show ?thesis by simp
  qed
  moreover have "drop (3 + length s) (bs @ rest) = rest"
    by (simp add: bs)
  ultimately show ?thesis
    using n by (simp add: unpackstr_def Let_def bs)
qed

lemma unpackdkey_packdkey:
  assumes "packdkey sz up (Some name) = Some k" and "0 \<notin> set name" and "length name < 65536"
  shows "unpackdkey k = Some (Some (up, name))"
proof -
  obtain bs where bs: "packstr (int sz - 9) name = Some bs" and k: "k = pack8 KENT @ pack64 up @ bs"
    using assms(1) by (auto simp: packdkey_def)
  have "unpackstr (drop 9 k) = Some (name, [])"
    using unpackstr_packstr [OF bs assms(2,3), of "[]"] by (simp add: k)
  moreover have "fld k 1 8 = pack64 up"
    by (simp add: k fld_def)
  ultimately show ?thesis
    by (simp add: unpackdkey_def k pack8_def)
qed

lemma packdkey_inject:
  assumes "packdkey sz up (Some n) = Some k" and "packdkey sz' up' (Some n') = Some k"
    and "0 \<notin> set n" and "0 \<notin> set n'" and "length n < 65536" and "length n' < 65536"
  shows "up = up' \<and> n = n'"
  using unpackdkey_packdkey [OF assms(1,3,5)] unpackdkey_packdkey [OF assms(2,4,6)] by simp

text \<open>A directory entry survives \<^verbatim>\<open>packdkey\<close>/\<^verbatim>\<open>packdval\<close> followed by \<^verbatim>\<open>kv2dir\<close>.\<close>

lemma kv2dir_packdval:
  assumes "packdkey sz up (Some name) = Some k" and "0 \<notin> set name" and "length name < 65536"
  shows "kv2dir \<lparr>kv_k = k, kv_v = packdval_bytes d\<rparr> = Some (d\<lparr>xname := Some name\<rparr>)"
proof -
  obtain bs where bs: "packstr (int sz - 9) name = Some bs" and k: "k = pack8 KENT @ pack64 up @ bs"
    using assms(1) by (auto simp: packdkey_def)
  have "unpackstr (drop 9 k) = Some (name, [])"
    using unpackstr_packstr [OF bs assms(2,3), of "[]"] by (simp add: k)
  moreover have "packdval_bytes d ! 20 = qtype (xqid d)"
    by (simp add: packdval_bytes_def nth_append pack8_def)
  ultimately show ?thesis
    by (simp add: kv2dir_def Let_def) (simp add: packdval_bytes_def pack_simps)
qed

lemma unpackbp_packbp [simp, pack_simps]: "unpackbp (packbp bp) = Some bp"
  by (simp add: unpackbp_def packbp_def pack_simps)

lemma unpacktree_packtree [simp, pack_simps]: "unpacktree (packtree t) = Some t"
  by (simp add: unpacktree_def packtree_def packbp_def pack_simps)

lemma concat_fixed_nth:
  assumes "\<And>x. length (f x) = w" and "i < length xs"
  shows "fld (concat (map f xs)) (w * i) w = f (xs ! i)"
  using assms(2)
proof (induction xs arbitrary: i)
  case Nil
  then show ?case by simp
next
  case (Cons x xs)
  show ?case
  proof (cases i)
    case 0
    then show ?thesis by (simp add: fld_def assms(1))
  next
    case (Suc j)
    with Cons have "fld (concat (map f xs)) (w * j) w = f (xs ! j)" by simp
    with Suc show ?thesis by (simp add: fld_def assms(1))
  qed
qed

text \<open>The superblocks the port writes: as many arena pointers as \<^verbatim>\<open>narena\<close> says, at most 512.\<close>

definition super_ok :: "super \<Rightarrow> bool" where
  "super_ok sb \<longleftrightarrow> 0 < sint (sb_narena sb) \<and> sint (sb_narena sb) \<le> 512
     \<and> int (length (sb_arenabp sb)) = sint (sb_narena sb)"

text \<open>What survives a superblock round trip: generations of the block pointers are not stored.\<close>

definition super_stored :: "gtree \<Rightarrow> super \<Rightarrow> super" where
  "super_stored t sb =
     sb\<lparr>sb_snap := t\<lparr>t_ht := t_ht (sb_snap sb), t_bp := (t_bp (sb_snap sb))\<lparr>bp_gen := - 1\<rparr>\<rparr>,
        sb_arenabp := map (\<lambda>bp. bp\<lparr>bp_gen := - 1\<rparr>) (sb_arenabp sb)\<rparr>"

lemma rd_packed:
  "a + n \<le> length bs \<Longrightarrow> rd (wr m 0 bs) (int a) n = fld bs a n"
  by (simp add: rd_wr_within fld_def)

lemma packsb_fields:
  fixes sb :: super
  shows "fld (packsb_body sb) 0 8 = sb_magic"
    "fld (packsb_body sb) 8 4 = pack32 (sb_blksz sb)"
    "fld (packsb_body sb) 12 4 = pack32 (sb_bufspc sb)"
    "fld (packsb_body sb) 16 4 = pack32 (sb_narena sb)"
    "fld (packsb_body sb) 20 4 = pack32 (t_ht (sb_snap sb))"
    "fld (packsb_body sb) 24 8 = pack64 (bp_addr (t_bp (sb_snap sb)))"
    "fld (packsb_body sb) 32 8 = pack64 (bp_hash (t_bp (sb_snap sb)))"
    "fld (packsb_body sb) 72 8 = pack64 (sb_flag sb)"
    "fld (packsb_body sb) 80 8 = pack64 (sb_nextqid sb)"
    "fld (packsb_body sb) 88 8 = pack64 (sb_nextgen sb)"
    "fld (packsb_body sb) 96 8 = pack64 (sb_qgen sb)"
  by (simp_all add: packsb_body_def pack_simps)

lemma packsb_arena_fields:
  assumes "i < length (sb_arenabp sb)"
  shows "fld (packsb_body sb) (104 + 16 * i) 16
     = pack64 (bp_addr (sb_arenabp sb ! i)) @ pack64 (bp_hash (sb_arenabp sb ! i))"
proof -
  let ?f = "\<lambda>bp. pack64 (bp_addr bp) @ pack64 (bp_hash bp)"
  have "fld (packsb_body sb) (104 + 16 * i) 16 = fld (concat (map ?f (sb_arenabp sb))) (16 * i) 16"
    by (simp add: packsb_body_def pack_simps)
  also have "\<dots> = ?f (sb_arenabp sb ! i)"
    by (rule concat_fixed_nth) (simp_all add: assms)
  finally show ?thesis .
qed

lemma fld_fld: "a + n \<le> k \<Longrightarrow> fld (fld bs b k) a n = fld bs (b + a) n"
  by (simp add: fld_def drop_take min_def add.commute)

lemma unpack_arenabp_packed:
  assumes "i < length (sb_arenabp sb)" and m: "m = wr zeros 0 (packsb_body sb @ tail)"
  shows "unpack_arenabp m i = (sb_arenabp sb ! i)\<lparr>bp_gen := - 1\<rparr>"
proof -
  let ?b = "packsb_body sb"
  have bound: "104 + 16 * i + 16 \<le> length ?b"
    using assms(1) by simp
  have a: "rd m (104 + 16 * int i) 8 = fld ?b (104 + 16 * i) 8"
    using rd_packed [of "104 + 16 * i" 8 "?b @ tail" zeros] bound
    by (simp add: m fld_append1)
  have h: "rd m (112 + 16 * int i) 8 = fld ?b (112 + 16 * i) 8"
    using rd_packed [of "112 + 16 * i" 8 "?b @ tail" zeros] bound
    by (simp add: m fld_append1)
  have "fld ?b (104 + 16 * i) 8 = fld (fld ?b (104 + 16 * i) 16) 0 8"
    and "fld ?b (112 + 16 * i) 8 = fld (fld ?b (104 + 16 * i) 16) 8 8"
    by (simp_all add: fld_fld)
  with a h show ?thesis
    by (simp add: unpack_arenabp_def packsb_arena_fields [OF assms(1)] pack_simps)
qed

lemma unpacksb_pack_sb_block:
  assumes ok: "super_ok sb" and m: "pack_sb_block BLKSZ sb = Some m"
  shows "unpacksb fi m BLKSZ = Inr (super_stored (sb_snap fi) sb)"
proof -
  let ?b = "packsb_body sb" and ?n = "length (sb_arenabp sb)"
  let ?bs = "?b @ pack64 (gefs_bufhash ?b)"
  have n: "nat (sint (sb_narena sb)) = ?n" and rng: "0 < ?n" "?n \<le> 512"
    using ok by (auto simp: super_ok_def)
  have m: "m = wr zeros 0 ?bs"
    using m n by (simp add: pack_sb_block_def Let_def)
  have rd: "rd m (int a) k = fld ?bs a k" if "a + k \<le> 112 + 16 * ?n" for a k
    unfolding m by (rule rd_packed) (use that in simp)
  have rdb: "rd m (int a) k = fld ?b a k" if "a + k \<le> 104 + 16 * ?n" for a k
    using rd [of a k] that by (simp add: fld_append1)
  have rdn: "rd m (numeral a) k = fld ?b (numeral a) k" if "numeral a + k \<le> 104 + 16 * ?n" for a k
    using rdb [of "numeral a" k] that by simp
  note flds = packsb_fields [of sb]
  have body: "rd m 0 (104 + 16 * ?n) = ?b"
    using rdb [of 0 "104 + 16 * ?n"] by (simp add: fld_def)
  have hash: "rd m (104 + 16 * int ?n) 8 = pack64 (gefs_bufhash ?b)"
    using rd [of "104 + 16 * ?n" 8] by (simp add: fld_def)
  have arenas: "map (unpack_arenabp m) [0..<?n] = map (\<lambda>bp. bp\<lparr>bp_gen := - 1\<rparr>) (sb_arenabp sb)"
    by (rule nth_equalityI) (auto simp: unpack_arenabp_packed [OF _ m])
  have si: "sint (sb_narena sb) = int ?n"
    using ok by (simp add: super_ok_def)
  show ?thesis
    using rng rdb [of 0 8]
    by (simp add: unpacksb_def Let_def rdn flds si body hash arenas super_stored_def)
qed

end
