(* ===== verification/Keys.thy ===== *)
theory Keys
  imports Serial "HOL-Library.List_Lexorder" "HOL-Library.Multiset"
begin

text \<open>
  Keys are byte runs compared by \<^verbatim>\<open>gefs_keycmp\<close> (\<^verbatim>\<open>src/src/gefs_storage.c\<close>) or
  \<^verbatim>\<open>keycmp\<close> (\<^verbatim>\<open>src/src/tree.c\<close>), which are the same function. It is shown to be the
  three-way comparison of the lexicographic order on byte lists, so the order theory of the
  library applies to keys. The insertion sort that \<^verbatim>\<open>gefs_btupsert\<close> runs over its messages
  (and \<^verbatim>\<open>stablesort\<close> of \<^verbatim>\<open>src/src/tree.c\<close>) is modelled with its two index loops and shown to be
  the stable sort by key.
\<close>

section \<open>Key comparison\<close>

type_synonym key = "byte list"

fun memcmp :: "byte list \<Rightarrow> byte list \<Rightarrow> int" where
  "memcmp (x # xs) (y # ys) = (if x = y then memcmp xs ys else uint x - uint y)"
| "memcmp _ _ = 0"

definition keycmp :: "key \<Rightarrow> key \<Rightarrow> int" where
  "keycmp a b =
     (let n = min (length a) (length b);
          c = memcmp (take n a) (take n b)
      in if c \<noteq> 0 then (if c < 0 then - 1 else 1)
         else if length a < length b then - 1
         else if length b < length a then 1
         else 0)"

lemma keycmp_Nil: "keycmp [] b = (if b = [] then 0 else - 1)" "keycmp a [] = (if a = [] then 0 else 1)"
  by (simp_all add: keycmp_def)

lemma keycmp_Cons:
  "keycmp (x # xs) (y # ys) = (if x = y then keycmp xs ys else if x < y then - 1 else 1)"
proof (cases "x = y")
  case True
  then show ?thesis by (simp add: keycmp_def Let_def)
next
  case False
  then have "uint x - uint y \<noteq> 0" by (simp add: word_uint_eq_iff)
  with False show ?thesis
    by (simp add: keycmp_def Let_def word_less_def)
qed

text \<open>\<^verbatim>\<open>keycmp\<close> is the comparison function of the lexicographic order.\<close>

lemma keycmp_order: "keycmp a b = (if a < b then - 1 else if a = b then 0 else 1)"
proof (induction a arbitrary: b)
  case Nil
  then show ?case by (cases b) (simp_all add: keycmp_Nil)
next
  case (Cons x xs)
  note IH = Cons.IH
  show ?case
  proof (cases b)
    case Nil
    then show ?thesis by (simp add: keycmp_Nil)
  next
    case (Cons y ys)
    with IH [of ys] show ?thesis by (auto simp: keycmp_Cons)
  qed
qed

lemma keycmp_iff:
  "keycmp a b = - 1 \<longleftrightarrow> a < b" "keycmp a b = 0 \<longleftrightarrow> a = b" "keycmp a b = 1 \<longleftrightarrow> b < a"
  "keycmp a b < 0 \<longleftrightarrow> a < b" "0 < keycmp a b \<longleftrightarrow> b < a" "keycmp a b \<le> 0 \<longleftrightarrow> a \<le> b"
  by (auto simp: keycmp_order)

section \<open>The insertion sort of \<^verbatim>\<open>gefs_btupsert\<close>\<close>

definition swap_at :: "nat \<Rightarrow> 'a list \<Rightarrow> 'a list" where
  "swap_at b m = m[b := m ! Suc b, Suc b := m ! b]"

text \<open>The inner loop, entered with \<^verbatim>\<open>b = a\<close> and counting down.\<close>

fun sort_inner :: "('a \<Rightarrow> key) \<Rightarrow> nat \<Rightarrow> 'a list \<Rightarrow> 'a list" where
  "sort_inner kf 0 m = m"
| "sort_inner kf (Suc b) m =
     (if keycmp (kf (m ! b)) (kf (m ! Suc b)) \<le> 0 then m else sort_inner kf b (swap_at b m))"

text \<open>The outer loop \<^verbatim>\<open>for (a = 1; a < n; a++)\<close>.\<close>

function sort_outer :: "('a \<Rightarrow> key) \<Rightarrow> nat \<Rightarrow> 'a list \<Rightarrow> 'a list" where
  "sort_outer kf a m = (if a < length m then sort_outer kf (Suc a) (sort_inner kf a m) else m)"
  by pat_completeness auto
termination
proof (relation "measure (\<lambda>(kf, a, m). length m - a)")
  fix kf :: "'a \<Rightarrow> key" and a and m :: "'a list"
  assume "a < length m"
  moreover have "length (sort_inner kf b m) = length m" for b
    by (induction b arbitrary: m) (auto simp: swap_at_def)
  ultimately show "((kf, Suc a, sort_inner kf a m), kf, a, m) \<in> measure (\<lambda>(kf, a, m). length m - a)"
    by simp
qed simp

declare sort_outer.simps [simp del]

definition stablesort :: "('a \<Rightarrow> key) \<Rightarrow> 'a list \<Rightarrow> 'a list" where
  "stablesort kf m = sort_outer kf 1 m"

text \<open>
  Both lists hold the same elements and, for every key, the same sequence of elements with
  that key.
\<close>

definition stable_perm :: "('a \<Rightarrow> key) \<Rightarrow> 'a list \<Rightarrow> 'a list \<Rightarrow> bool" where
  "stable_perm kf xs ys \<longleftrightarrow>
     mset xs = mset ys \<and> (\<forall>k. filter (\<lambda>x. kf x = k) xs = filter (\<lambda>x. kf x = k) ys)"

lemma stable_perm_trans: "stable_perm kf xs ys \<Longrightarrow> stable_perm kf ys zs \<Longrightarrow> stable_perm kf xs zs"
  by (simp add: stable_perm_def)

lemma swap_at_decomp:
  assumes "Suc b < length m"
  shows "m = take b m @ [m ! b, m ! Suc b] @ drop (b + 2) m"
    and "swap_at b m = take b m @ [m ! Suc b, m ! b] @ drop (b + 2) m"
proof -
  show m: "m = take b m @ [m ! b, m ! Suc b] @ drop (b + 2) m"
    using assms by (simp add: Cons_nth_drop_Suc)
  have "swap_at b (take b m @ [m ! b, m ! Suc b] @ drop (b + 2) m)
      = take b m @ [m ! Suc b, m ! b] @ drop (b + 2) m"
    using assms by (simp add: swap_at_def nth_append list_update_append min_def)
  with m show "swap_at b m = take b m @ [m ! Suc b, m ! b] @ drop (b + 2) m" by simp
qed

lemma stable_perm_swap:
  assumes "Suc b < length m" and "kf (m ! b) \<noteq> kf (m ! Suc b)"
  shows "stable_perm kf m (swap_at b m)"
proof -
  have "mset m = mset (swap_at b m)"
    by (subst swap_at_decomp(1) [OF assms(1)], subst swap_at_decomp(2) [OF assms(1)]) simp
  moreover have "filter (\<lambda>x. kf x = k) m = filter (\<lambda>x. kf x = k) (swap_at b m)" for k
    by (subst swap_at_decomp(1) [OF assms(1)], subst swap_at_decomp(2) [OF assms(1)])
      (use assms(2) in auto)
  ultimately show ?thesis by (simp add: stable_perm_def)
qed

lemma stable_perm_inner: "b < length m \<Longrightarrow> stable_perm kf m (sort_inner kf b m)"
proof (induction b arbitrary: m)
  case 0
  then show ?case by (simp add: stable_perm_def)
next
  case (Suc b)
  show ?case
  proof (cases "keycmp (kf (m ! b)) (kf (m ! Suc b)) \<le> 0")
    case True
    then show ?thesis by (simp add: stable_perm_def)
  next
    case False
    have "stable_perm kf m (swap_at b m)"
      using Suc.prems False by (intro stable_perm_swap) (auto simp: keycmp_order split: if_splits)
    moreover have "stable_perm kf (swap_at b m) (sort_inner kf b (swap_at b m))"
      using Suc.prems by (intro Suc.IH) (simp add: swap_at_def)
    ultimately show ?thesis
      using False by (auto intro: stable_perm_trans)
  qed
qed

text \<open>
  The loop invariant of the inner loop: positions up to \<open>a\<close> are in order except that the
  element at \<open>b\<close> may still have to move left.
\<close>

definition sorted_but :: "('a \<Rightarrow> key) \<Rightarrow> nat \<Rightarrow> nat \<Rightarrow> 'a list \<Rightarrow> bool" where
  "sorted_but kf a b m \<longleftrightarrow>
     (\<forall>i j. i < j \<longrightarrow> j \<le> a \<longrightarrow> i \<noteq> b \<longrightarrow> j \<noteq> b \<longrightarrow> kf (m ! i) \<le> kf (m ! j))
     \<and> (\<forall>j. b < j \<longrightarrow> j \<le> a \<longrightarrow> kf (m ! b) \<le> kf (m ! j))"

definition sorted_upto :: "('a \<Rightarrow> key) \<Rightarrow> nat \<Rightarrow> 'a list \<Rightarrow> bool" where
  "sorted_upto kf a m \<longleftrightarrow> (\<forall>i j. i < j \<longrightarrow> j \<le> a \<longrightarrow> kf (m ! i) \<le> kf (m ! j))"

lemma sorted_but_stop:
  assumes "sorted_but kf a (Suc b) m" and "kf (m ! b) \<le> kf (m ! Suc b)"
  shows "sorted_upto kf a m"
  unfolding sorted_upto_def
proof (intro allI impI)
  fix i j assume ij: "i < j" "j \<le> a"
  show "kf (m ! i) \<le> kf (m ! j)"
  proof (cases "j = Suc b")
    case True
    show ?thesis
    proof (cases "i = b")
      case True
      with \<open>j = Suc b\<close> assms(2) show ?thesis by simp
    next
      case False
      with ij True have "kf (m ! i) \<le> kf (m ! b)"
        using assms(1) by (simp add: sorted_but_def)
      with True assms(2) show ?thesis by auto
    qed
  next
    case False
    with assms(1) ij show ?thesis by (auto simp: sorted_but_def)
  qed
qed

lemma nth_swap_at:
  "Suc b < length m \<Longrightarrow>
     swap_at b m ! i = (if i = b then m ! Suc b else if i = Suc b then m ! b else m ! i)"
  by (auto simp: swap_at_def nth_list_update)

lemma sorted_but_swap:
  assumes "sorted_but kf a (Suc b) m" and "kf (m ! Suc b) < kf (m ! b)"
    and "Suc b \<le> a" and "a < length m"
  shows "sorted_but kf a b (swap_at b m)"
proof -
  have nth: "swap_at b m ! i = (if i = b then m ! Suc b else if i = Suc b then m ! b else m ! i)" for i
    using assms(3,4) by (intro nth_swap_at) simp
  have "kf (m ! b) \<le> kf (m ! j)" if "Suc b < j" "j \<le> a" for j
    using assms(1) that by (auto simp: sorted_but_def)
  moreover have "kf (m ! i) \<le> kf (m ! j)" if "i < j" "j \<le> a" "i \<noteq> Suc b" "j \<noteq> Suc b" for i j
    using assms(1) that by (auto simp: sorted_but_def)
  moreover have "kf (m ! Suc b) \<le> kf (m ! j)" if "b < j" "j \<noteq> Suc b" "j \<le> a" for j
    using assms(1) that by (auto simp: sorted_but_def)
  ultimately show ?thesis
    using assms(2) unfolding sorted_but_def nth by auto
qed

lemma sorted_inner:
  "sorted_but kf a b m \<Longrightarrow> b \<le> a \<Longrightarrow> a < length m \<Longrightarrow> sorted_upto kf a (sort_inner kf b m)"
proof (induction b arbitrary: m)
  case 0
  then show ?case by (auto simp: sorted_but_def sorted_upto_def)
next
  case (Suc b)
  show ?case
  proof (cases "keycmp (kf (m ! b)) (kf (m ! Suc b)) \<le> 0")
    case True
    with Suc.prems show ?thesis by (simp add: keycmp_iff sorted_but_stop)
  next
    case False
    then have "kf (m ! Suc b) < kf (m ! b)" by (simp add: keycmp_iff)
    with Suc.prems have "sorted_but kf a b (swap_at b m)" by (intro sorted_but_swap) auto
    with Suc False show ?thesis by (simp add: swap_at_def)
  qed
qed

lemma length_sort_inner [simp]: "length (sort_inner kf b m) = length m"
  by (induction b arbitrary: m) (auto simp: swap_at_def)

lemma sort_outer_correct:
  "0 < a \<Longrightarrow> sorted_upto kf (a - 1) m \<Longrightarrow>
     stable_perm kf m (sort_outer kf a m)
     \<and> sorted_upto kf (max (a - 1) (length m - 1)) (sort_outer kf a m)"
proof (induction kf a m rule: sort_outer.induct)
  case (1 kf a m)
  show ?case
  proof (cases "a < length m")
    case True
    have "sorted_but kf a a m"
      using "1.prems" by (auto simp: sorted_but_def sorted_upto_def)
    then have "sorted_upto kf (Suc a - 1) (sort_inner kf a m)"
      using True by (simp add: sorted_inner)
    with "1.IH" [OF True] have "stable_perm kf (sort_inner kf a m) (sort_outer kf a m)
        \<and> sorted_upto kf (max a (length m - 1)) (sort_outer kf a m)"
      using True by (simp add: sort_outer.simps [of kf a m])
    moreover have "stable_perm kf m (sort_inner kf a m)"
      using True by (rule stable_perm_inner)
    ultimately show ?thesis
      using True by (auto intro: stable_perm_trans simp: max_def split: if_splits)
  next
    case False
    then have "max (a - 1) (length m - 1) = a - 1" by simp
    with False "1.prems" show ?thesis
      by (simp add: sort_outer.simps [of kf a m] stable_perm_def)
  qed
qed

text \<open>The sort of the code is the library's stable sort by key.\<close>

lemma stablesort_sort_key: "stablesort kf m = sort_key kf m"
proof -
  have init: "sorted_upto kf (1 - 1) m" by (simp add: sorted_upto_def)
  have perm: "stable_perm kf m (stablesort kf m)"
    and srt: "sorted_upto kf (length m - 1) (stablesort kf m)"
    using sort_outer_correct [OF _ init] by (simp_all add: stablesort_def)
  have len: "length (stablesort kf m) = length m"
    using perm by (metis stable_perm_def size_mset)
  have "sort_key kf m = stablesort kf m"
  proof (rule properties_for_sort_key)
    show "mset (stablesort kf m) = mset m"
      using perm by (simp add: stable_perm_def)
  next
    fix k assume "k \<in> set (stablesort kf m)"
    have "filter (\<lambda>x. kf x = kf k) (stablesort kf m) = filter (\<lambda>x. kf x = kf k) m"
      using perm by (simp add: stable_perm_def)
    then show "filter (\<lambda>x. kf k = kf x) (stablesort kf m) = filter (\<lambda>x. kf k = kf x) m"
      by (simp add: eq_commute)
  next
    show "sorted (map kf (stablesort kf m))"
      using srt len unfolding sorted_iff_nth_mono_less
      by (auto simp: sorted_upto_def)
  qed
  then show ?thesis by simp
qed

end
