(* ===== verification/Blocks.thy ===== *)
theory Blocks
  imports Keys
begin

text \<open>
  The in-memory block (\<^verbatim>\<open>struct GefsBlk\<close>), access to the packed entries and messages of leaf
  and pivot blocks, appending an entry, and the header a block gets before it is written
  (\<^verbatim>\<open>src/src/gefs_storage.c\<close>; the formatter's \<^verbatim>\<open>setval\<close> and \<^verbatim>\<open>finalize_blk\<close> are the same
  code). Pointers into the buffer are offsets: \<open>doff\<close> is where \<^verbatim>\<open>data\<close> points.

  An access outside \<^verbatim>\<open>buf[GEFS_BLKSZ]\<close> is \<open>None\<close>. A stored value length that is negative as a
  \<^verbatim>\<open>short\<close>, or a value that runs past the end of the block, is also \<open>None\<close>: such a value
  cannot be copied out.

  The predicate \<open>vals_rep\<close> describes the layout of a well-formed entry area: a table of
  16-bit offsets growing upwards and the entries growing downwards from the end of the space,
  without overlap.
\<close>

section \<open>Blocks\<close>

definition TDAT :: int where [simp]: "TDAT = 0"
definition TPIVOT :: int where [simp]: "TPIVOT = 1"
definition TLEAF :: int where [simp]: "TLEAF = 2"
definition TLOG :: int where [simp]: "TLOG = 4"
definition TDLIST :: int where [simp]: "TDLIST = 5"
definition TARENA :: int where [simp]: "TARENA = 6"
definition TSUPER :: int where [simp]: "TSUPER = 0x6765"

definition PIVHDSZ :: int where [simp, blk_defs]: "PIVHDSZ = 10"
definition LEAFHDSZ :: int where [simp, blk_defs]: "LEAFHDSZ = 6"
definition LOGHDSZ :: int where [simp, blk_defs]: "LOGHDSZ = 36"
definition BUFSPC :: int where [simp, blk_defs]: "BUFSPC = (BLKSZ - PIVHDSZ) div 2"
definition PIVSPC :: int where [simp, blk_defs]: "PIVSPC = BLKSZ - PIVHDSZ - BUFSPC"
definition LEAFSPC :: int where [simp, blk_defs]: "LEAFSPC = BLKSZ - LEAFHDSZ"

record gblk =
  cnext :: "nat option"
  cprev :: "nat option"
  hnext :: "nat option"
  btype :: int
  nval :: int
  valsz :: int
  nbuf :: int
  bufsz :: int
  logsz :: int
  blk_bp :: bptr
  ref :: int
  doff :: int
  buf :: mem

text \<open>\<^verbatim>\<open>calloc(1, sizeof(GefsBlk))\<close>.\<close>

definition zero_blk :: gblk where
  "zero_blk = \<lparr>cnext = None, cprev = None, hnext = None, btype = 0, nval = 0, valsz = 0, nbuf = 0,
     bufsz = 0, logsz = 0, blk_bp = zero_bptr, ref = 0, doff = 0, buf = zeros\<rparr>"

record gmsg =
  m_op :: byte
  m_k :: "byte list"
  m_v :: "byte list"

definition OINSERT :: byte where [simp]: "OINSERT = 1"
definition ODELETE :: byte where [simp]: "ODELETE = 2"
definition OCLEARB :: byte where [simp]: "OCLEARB = 3"
definition OCLOBBER :: byte where [simp]: "OCLOBBER = 4"
definition OWSTAT :: byte where [simp]: "OWSTAT = 5"

section \<open>Reading and writing inside the buffer\<close>

definition bget :: "gblk \<Rightarrow> int \<Rightarrow> nat \<Rightarrow> byte list option" where
  "bget b a n = (if 0 \<le> a \<and> a + int n \<le> BLKSZ then Some (rd (buf b) a n) else None)"

definition bput :: "gblk \<Rightarrow> int \<Rightarrow> byte list \<Rightarrow> gblk option" where
  "bput b a bs =
     (if 0 \<le> a \<and> a + int (length bs) \<le> BLKSZ then Some (b\<lparr>buf := wr (buf b) a bs\<rparr>) else None)"

definition getval :: "gblk \<Rightarrow> int \<Rightarrow> kvp option" where
  "getval b i =
     (if 0 \<le> i \<and> i < nval b then do {
        ob \<leftarrow> bget b (doff b + 2 * i) 2;
        let p = doff b + unpack16 ob;
        nkb \<leftarrow> bget b p 2;
        let nk = unpack16 nkb;
        k \<leftarrow> bget b (p + 2) (nat nk);
        nvb \<leftarrow> bget b (p + 2 + nk) 2;
        let nv = s16 (unpack16 nvb);
        v \<leftarrow> (if nv < 0 then None else bget b (p + 2 + nk + 2) (nat nv));
        Some \<lparr>kv_k = k, kv_v = v\<rparr>
      } else None)"

definition getmsg :: "gblk \<Rightarrow> int \<Rightarrow> gmsg option" where
  "getmsg b i =
     (if btype b = TPIVOT \<and> 0 \<le> i \<and> i < nbuf b then do {
        ob \<leftarrow> bget b (doff b + PIVSPC + 2 * i) 2;
        let p = doff b + PIVSPC + unpack16 ob;
        opb \<leftarrow> bget b p 1;
        nkb \<leftarrow> bget b (p + 1) 2;
        let nk = unpack16 nkb;
        k \<leftarrow> bget b (p + 3) (nat nk);
        nvb \<leftarrow> bget b (p + 3 + nk) 2;
        let nv = s16 (unpack16 nvb);
        v \<leftarrow> (if nv < 0 then None else bget b (p + 3 + nk + 2) (nat nv));
        Some \<lparr>m_op = hd opb, m_k = k, m_v = v\<rparr>
      } else None)"

definition kvbytes :: "kvp \<Rightarrow> byte list" where
  "kvbytes kv = pack16 (int (length (kv_k kv))) @ kv_k kv @ pack16 (int (length (kv_v kv))) @ kv_v kv"

definition kvsz :: "kvp \<Rightarrow> int" where
  "kvsz kv = 2 + int (length (kv_k kv)) + 2 + int (length (kv_v kv))"

definition blk_spc :: "gblk \<Rightarrow> int" where
  "blk_spc b = (if btype b = TLEAF then LEAFSPC else PIVSPC)"

definition setval :: "gblk \<Rightarrow> kvp \<Rightarrow> gblk option" where
  "setval b kv =
     (let spc = blk_spc b;
          b = b\<lparr>valsz := s16 (valsz b + kvsz kv)\<rparr>;
          off = spc - valsz b
      in do {
        b \<leftarrow> bput b (doff b + 2 * nval b) (pack16 off);
        b \<leftarrow> bput b (doff b + off) (kvbytes kv);
        Some (b\<lparr>nval := s16 (nval b + 1)\<rparr>)
      })"

section \<open>Headers\<close>

definition finalize_hdr :: "gblk \<Rightarrow> mem" where
  "finalize_hdr b =
     (let m = (if btype b = TDAT then buf b else wr (buf b) 0 (pack16 (btype b))) in
      if btype b = TPIVOT then
        wr m 2 (pack16 (nval b) @ pack16 (valsz b) @ pack16 (nbuf b) @ pack16 (bufsz b))
      else if btype b = TLEAF then
        wr m 2 (pack16 (nval b) @ pack16 (valsz b))
      else if btype b = TDLIST \<or> btype b = TLOG then
        wr m 2 (pack16 (logsz b) @ pack64 (gefs_bufhash (rd m (doff b) (nat (logsz b))))
                @ packbp (blk_bp b))
      else m)"

definition finalize_blk :: "gblk \<Rightarrow> gblk" where
  "finalize_blk b =
     (let b = b\<lparr>buf := finalize_hdr b\<rparr>;
          h = (if btype b = TLOG \<or> btype b = TDLIST
               then gefs_bufhash (rd (buf b) (doff b) (nat (logsz b)))
               else gefs_bufhash (rd (buf b) 0 (nat BLKSZ)))
      in b\<lparr>blk_bp := (blk_bp b)\<lparr>bp_hash := h\<rparr>\<rparr>)"

text \<open>The part of \<^verbatim>\<open>gefs_getblk\<close> that fills the fields of a block read from disk.\<close>

definition parse_blk :: "bptr \<Rightarrow> mem \<Rightarrow> gblk" where
  "parse_blk bp m =
     (let ty = s16 (unpack16 (rd m 0 2));
          b = zero_blk\<lparr>buf := m, blk_bp := bp, ref := 1, btype := ty\<rparr>
      in if ty = TLEAF \<or> ty = TPIVOT then
           (let b = b\<lparr>doff := (if ty = TLEAF then LEAFHDSZ else PIVHDSZ),
                      nval := s16 (unpack16 (rd m 2 2)), valsz := s16 (unpack16 (rd m 4 2))\<rparr>
            in if ty = TPIVOT
               then b\<lparr>nbuf := s16 (unpack16 (rd m 6 2)), bufsz := s16 (unpack16 (rd m 8 2))\<rparr>
               else b)
         else b)"

section \<open>Layout of the entry area\<close>

definition kv_small :: "kvp \<Rightarrow> bool" where
  "kv_small kv \<longleftrightarrow> length (kv_k kv) < 65536 \<and> length (kv_v kv) < 32768"

definition slot :: "gblk \<Rightarrow> nat \<Rightarrow> int" where
  "slot b i = unpack16 (rd (buf b) (doff b + 2 * int i) 2)"

definition kvs_size :: "kvp list \<Rightarrow> int" where
  "kvs_size es = (\<Sum>e\<leftarrow>es. kvsz e)"

definition entry_at :: "int \<Rightarrow> gblk \<Rightarrow> nat \<Rightarrow> kvp \<Rightarrow> bool" where
  "entry_at spc b i e \<longleftrightarrow> kv_small e \<and> spc - valsz b \<le> slot b i \<and> slot b i + kvsz e \<le> spc
     \<and> rd (buf b) (doff b + slot b i) (nat (kvsz e)) = kvbytes e"

definition vals_rep :: "int \<Rightarrow> gblk \<Rightarrow> kvp list \<Rightarrow> bool" where
  "vals_rep spc b es \<longleftrightarrow>
     nval b = int (length es) \<and> valsz b = kvs_size es \<and> 2 * nval b + valsz b \<le> spc
     \<and> 0 \<le> doff b \<and> doff b + spc \<le> BLKSZ \<and> (\<forall>i < length es. entry_at spc b i (es ! i))"

lemma length_kvbytes [simp]: "length (kvbytes kv) = nat (kvsz kv)"
  by (simp add: kvbytes_def kvsz_def)

lemma kvsz_ge: "4 \<le> kvsz kv"
  by (simp add: kvsz_def)

lemma kvs_size_simps [simp]:
  "kvs_size [] = 0" "kvs_size (e # es) = kvsz e + kvs_size es"
  "kvs_size (es @ fs) = kvs_size es + kvs_size fs"
  by (simp_all add: kvs_size_def)

lemma kvs_size_nonneg: "0 \<le> kvs_size es"
  by (induction es) (auto simp: kvsz_def)

lemma sub_rd: "rd m a n = bs \<Longrightarrow> j + k \<le> n \<Longrightarrow> rd m (a + int j) k = fld bs j k"
  by (auto simp: fld_rd)

lemma kvbytes_fields:
  assumes "rd m a (nat (kvsz e)) = kvbytes e"
  shows "rd m a 2 = pack16 (int (length (kv_k e)))"
    and "rd m (a + 2) (length (kv_k e)) = kv_k e"
    and "rd m (a + 2 + int (length (kv_k e))) 2 = pack16 (int (length (kv_v e)))"
    and "rd m (a + 4 + int (length (kv_k e))) (length (kv_v e)) = kv_v e"
  using sub_rd [OF assms, of 0 2] sub_rd [OF assms, of 2 "length (kv_k e)"]
    sub_rd [OF assms, of "2 + length (kv_k e)" 2]
    sub_rd [OF assms, of "4 + length (kv_k e)" "length (kv_v e)"]
  by (simp_all add: kvsz_def kvbytes_def pack_simps ac_simps)

text \<open>Reading entry \<open>i\<close> of a well-formed area returns it and stays inside the block.\<close>

lemma getval_rep:
  assumes rep: "vals_rep spc b es" and i: "i < length es"
  shows "getval b (int i) = Some (es ! i)"
proof -
  let ?e = "es ! i"
  let ?p = "doff b + slot b i"
  have at: "entry_at spc b i ?e" and fit: "2 * int (length es) + valsz b \<le> spc"
    and d: "0 \<le> doff b" "doff b + spc \<le> 16384" and n: "nval b = int (length es)"
    and vs: "0 \<le> valsz b"
    using rep i kvs_size_nonneg [of es] by (auto simp: vals_rep_def)
  have s: "kv_small ?e" "0 \<le> slot b i" "slot b i + kvsz ?e \<le> spc"
    using at fit vs by (auto simp: entry_at_def)
  have bnd: "0 \<le> ?p" "?p + kvsz ?e \<le> 16384"
    using s d by auto
  have tab: "doff b + (2 + 2 * int i) \<le> 16384"
    using i fit vs d by linarith
  note f = kvbytes_fields [of "buf b" ?p ?e]
  have "rd (buf b) ?p (nat (kvsz ?e)) = kvbytes ?e"
    using at by (simp add: entry_at_def)
  note f = f [OF this]
  have lens: "int (length (kv_k ?e)) < 65536" "int (length (kv_v ?e)) < 32768"
    using s(1) by (simp_all add: kv_small_def)
  have ob: "bget b (doff b + 2 * int i) 2 = Some (rd (buf b) (doff b + 2 * int i) 2)"
    using tab d by (simp add: bget_def)
  have g1: "bget b ?p 2 = Some (pack16 (int (length (kv_k ?e))))"
    using bnd f(1) by (simp add: bget_def kvsz_def)
  have g2: "bget b (?p + 2) (length (kv_k ?e)) = Some (kv_k ?e)"
    using bnd f(2) by (simp add: bget_def kvsz_def)
  have g3: "bget b (?p + 2 + int (length (kv_k ?e))) 2 = Some (pack16 (int (length (kv_v ?e))))"
    using bnd f(3) by (simp add: bget_def kvsz_def)
  have g4: "bget b (4 + (doff b + (slot b i + int (length (kv_k ?e))))) (length (kv_v ?e)) = Some (kv_v ?e)"
    using bnd f(4) by (simp add: bget_def kvsz_def add.commute add.left_commute)
  have idx: "0 \<le> int i" "int i < nval b"
    using i n by simp_all
  have md: "int (length (kv_k ?e)) mod 65536 = int (length (kv_k ?e))"
    "int (length (kv_v ?e)) mod 65536 = int (length (kv_v ?e))"
    "s16 (int (length (kv_v ?e))) = int (length (kv_v ?e))"
    using lens by simp_all
  show ?thesis
    unfolding getval_def
    by (simp add: Let_def idx ob slot_def [symmetric] g1 g2 g3 g4 md)
qed

section \<open>Appending an entry\<close>

definition same_frame :: "gblk \<Rightarrow> gblk \<Rightarrow> bool" where
  "same_frame b b' \<longleftrightarrow> cnext b' = cnext b \<and> cprev b' = cprev b \<and> hnext b' = hnext b
     \<and> btype b' = btype b \<and> nbuf b' = nbuf b \<and> bufsz b' = bufsz b \<and> logsz b' = logsz b
     \<and> blk_bp b' = blk_bp b \<and> ref b' = ref b \<and> doff b' = doff b"

lemma same_frame_refl [simp]: "same_frame b b"
  by (simp add: same_frame_def)

lemma same_frame_trans: "same_frame a b \<Longrightarrow> same_frame b c \<Longrightarrow> same_frame a c"
  by (simp add: same_frame_def)

lemma blk_spc_le: "blk_spc b \<le> 16378"
  by (simp add: blk_spc_def)

lemma blk_spc_upd [simp]:
  "blk_spc (b\<lparr>valsz := v\<rparr>) = blk_spc b" "blk_spc (b\<lparr>nval := v\<rparr>) = blk_spc b"
  "blk_spc (b\<lparr>buf := m\<rparr>) = blk_spc b"
  by (simp_all add: blk_spc_def)

text \<open>
  The code has no check that the entry fits. When it does, the entry is appended and the
  area stays well formed.
\<close>

lemma setval_rep:
  assumes rep: "vals_rep (blk_spc b) b es" and sm: "kv_small kv"
    and fit: "2 * (nval b + 1) + valsz b + kvsz kv \<le> blk_spc b"
  shows "\<exists>b'. setval b kv = Some b' \<and> vals_rep (blk_spc b) b' (es @ [kv]) \<and> same_frame b b'"
proof -
  define spc where "spc = blk_spc b"
  define n where "n = length es"
  define vs where "vs = valsz b + kvsz kv"
  define off where "off = spc - vs"
  define m1 where "m1 = wr (buf b) (doff b + 2 * int n) (pack16 off)"
  define m2 where "m2 = wr m1 (doff b + off) (kvbytes kv)"
  define b' where "b' = b\<lparr>valsz := vs, buf := m2, nval := int n + 1\<rparr>"
  have n: "nval b = int n" and d: "0 \<le> doff b" "doff b + spc \<le> 16384"
    and v0: "0 \<le> valsz b" "valsz b = kvs_size es"
    and at: "\<And>i. i < n \<Longrightarrow> entry_at spc b i (es ! i)"
    using rep kvs_size_nonneg [of es] by (auto simp: vals_rep_def n_def spc_def)
  have k4: "4 \<le> kvsz kv" by (rule kvsz_ge)
  have spc: "spc \<le> 16378" unfolding spc_def by (rule blk_spc_le)
  have off: "2 * int n + 2 \<le> off" "off + kvsz kv \<le> spc" "off + kvsz kv = spc - valsz b" "off \<le> 16378"
    using fit n v0 k4 spc by (auto simp: off_def vs_def spc_def)
  have vs16: "s16 (valsz b + kvsz kv) = vs" and nv16: "s16 (int n + 1) = int n + 1"
    using fit n v0 k4 spc by (simp_all add: vs_def spc_def)
  have set: "setval b kv = Some b'"
    using d off n k4 v0(1) spc_def [symmetric] off_def [symmetric]
    by (simp add: setval_def Let_def vs16 nv16 bput_def b'_def m2_def m1_def)
  have b': "buf b' = m2" "doff b' = doff b" "valsz b' = vs" "nval b' = int n + 1"
    by (simp_all add: b'_def)
  have slots: "slot b' i = slot b i" if "i < n" for i
    using that off k4 by (simp add: slot_def b' m1_def m2_def rd_wr_disjoint)
  have last_slot: "slot b' n = off"
    using off k4 n by (simp add: slot_def b' m1_def m2_def rd_wr_disjoint)
  have "entry_at spc b' i ((es @ [kv]) ! i)" if i: "i < Suc n" for i
  proof (cases "i < n")
    case True
    have "rd m2 (doff b + slot b i) (nat (kvsz (es ! i)))
        = rd (buf b) (doff b + slot b i) (nat (kvsz (es ! i)))"
      using at [OF True] off k4 kvsz_ge [of "es ! i"]
      by (simp add: m1_def m2_def entry_at_def rd_wr_disjoint)
    with at [OF True] True k4 show ?thesis
      by (simp add: entry_at_def slots b' vs_def nth_append n_def)
  next
    case False
    with i have "i = n" and "(es @ [kv]) ! n = kv" by (simp_all add: n_def)
    moreover have "spc - vs = off" by (simp add: off_def)
    ultimately show ?thesis
      using sm off by (simp add: entry_at_def last_slot b' m2_def)
  qed
  then have "vals_rep spc b' (es @ [kv])"
    using v0 fit n d by (simp add: vals_rep_def b' n_def [symmetric] vs_def spc_def)
  then show ?thesis
    using set by (intro exI [of _ b']) (simp add: same_frame_def b'_def spc_def)
qed

text \<open>
  When the entry does not fit at all, \<^verbatim>\<open>off\<close> is below the start of \<^verbatim>\<open>buf\<close> and the copy writes
  in front of the buffer.
\<close>

lemma setval_underflow:
  assumes "doff b + blk_spc b < valsz b + kvsz kv" and "0 \<le> valsz b" and "valsz b + kvsz kv < 32768"
    and "0 \<le> doff b"
  shows "setval b kv = None"
proof -
  have "s16 (valsz b + kvsz kv) = valsz b + kvsz kv"
    using assms kvsz_ge [of kv] by simp
  then show ?thesis
    using assms by (simp add: setval_def Let_def bput_def)
qed

section \<open>Leaf blocks\<close>

definition leaf_rep :: "gblk \<Rightarrow> kvp list \<Rightarrow> bool" where
  "leaf_rep b es \<longleftrightarrow> btype b = TLEAF \<and> doff b = LEAFHDSZ \<and> vals_rep LEAFSPC b es"

definition leaf_fits :: "kvp list \<Rightarrow> bool" where
  "leaf_fits es \<longleftrightarrow> 2 * int (length es) + kvs_size es \<le> LEAFSPC \<and> list_all kv_small es"

lemma leaf_rep_fits: "leaf_rep b es \<Longrightarrow> leaf_fits es"
  by (auto simp: leaf_rep_def leaf_fits_def vals_rep_def entry_at_def list_all_length)

lemma leaf_rep_getval: "leaf_rep b es \<Longrightarrow> i < length es \<Longrightarrow> getval b (int i) = Some (es ! i)"
  by (auto simp: leaf_rep_def intro: getval_rep)

lemma leaf_rep_nval: "leaf_rep b es \<Longrightarrow> nval b = int (length es)"
  by (simp add: leaf_rep_def vals_rep_def)

lemma leaf_rep_inj:
  assumes "leaf_rep b es" and "leaf_rep b fs"
  shows "es = fs"
proof (rule nth_equalityI)
  show len: "length es = length fs"
    using assms by (auto dest!: leaf_rep_nval)
  show "es ! i = fs ! i" if "i < length es" for i
    using leaf_rep_getval [OF assms(1) that] leaf_rep_getval [OF assms(2), of i] that len by simp
qed

lemma leaf_rep_setval:
  assumes "leaf_rep b es" and "leaf_fits (es @ [kv])"
  shows "\<exists>b'. setval b kv = Some b' \<and> leaf_rep b' (es @ [kv]) \<and> same_frame b b'"
proof -
  have spc: "blk_spc b = LEAFSPC"
    using assms(1) by (simp add: leaf_rep_def blk_spc_def)
  have "vals_rep (blk_spc b) b es" and "kv_small kv"
    and "2 * (nval b + 1) + valsz b + kvsz kv \<le> blk_spc b"
    using assms spc by (auto simp: leaf_rep_def leaf_fits_def vals_rep_def)
  then obtain b' where "setval b kv = Some b'" "vals_rep (blk_spc b) b' (es @ [kv])" "same_frame b b'"
    using setval_rep by blast
  then show ?thesis
    using assms(1) spc by (auto simp: leaf_rep_def same_frame_def)
qed

lemma leaf_fits_prefix: "leaf_fits (es @ fs) \<Longrightarrow> leaf_fits es"
  using kvs_size_nonneg [of fs] by (simp add: leaf_fits_def)

text \<open>The empty leaf that \<^verbatim>\<open>gefs_btupsert\<close> and the formatter start from.\<close>

lemma leaf_rep_empty:
  "btype b = TLEAF \<Longrightarrow> doff b = LEAFHDSZ \<Longrightarrow> nval b = 0 \<Longrightarrow> valsz b = 0 \<Longrightarrow> leaf_rep b []"
  by (simp add: leaf_rep_def vals_rep_def)

text \<open>The entry area is read through four fields of the block only.\<close>

lemma vals_rep_cong:
  assumes "vals_rep spc b es" and "nval b' = nval b" "valsz b' = valsz b" "doff b' = doff b"
    and same: "\<And>i. doff b \<le> i \<Longrightarrow> i < doff b + spc \<Longrightarrow> buf b' i = buf b i"
  shows "vals_rep spc b' es"
proof -
  have fit: "2 * int (length es) + valsz b \<le> spc" and v: "0 \<le> valsz b"
    using assms(1) kvs_size_nonneg [of es] by (auto simp: vals_rep_def)
  have rds: "rd (buf b') a n = rd (buf b) a n" if "doff b \<le> a" "a + int n \<le> doff b + spc" for a n
    using that by (intro rd_cong same) auto
  have slots: "slot b' i = slot b i" if "i < length es" for i
    using that fit v by (simp add: slot_def assms(4) rds)
  have "entry_at spc b' i (es ! i)" if "i < length es" for i
  proof -
    have at: "entry_at spc b i (es ! i)"
      using assms(1) that by (simp add: vals_rep_def)
    then have "rd (buf b') (doff b + slot b i) (nat (kvsz (es ! i)))
        = rd (buf b) (doff b + slot b i) (nat (kvsz (es ! i)))"
      using fit v kvsz_ge [of "es ! i"] by (intro rds) (auto simp: entry_at_def)
    with at show ?thesis
      by (simp add: entry_at_def assms(3,4) slots [OF that])
  qed
  with assms(1-4) show ?thesis
    by (simp add: vals_rep_def)
qed

lemma buf_finalize_blk [simp]: "buf (finalize_blk b) = finalize_hdr b"
  by (simp add: finalize_blk_def Let_def)

lemma finalize_blk_fields [simp]:
  "btype (finalize_blk b) = btype b" "doff (finalize_blk b) = doff b" "nval (finalize_blk b) = nval b"
  "valsz (finalize_blk b) = valsz b" "bp_addr (blk_bp (finalize_blk b)) = bp_addr (blk_bp b)"
  "bp_gen (blk_bp (finalize_blk b)) = bp_gen (blk_bp b)" "ref (finalize_blk b) = ref b"
  by (simp_all add: finalize_blk_def Let_def)

lemma leaf_rep_finalize:
  assumes "leaf_rep b es"
  shows "leaf_rep (finalize_blk b) es"
proof -
  have "vals_rep LEAFSPC b es"
    using assms by (simp add: leaf_rep_def)
  then have "vals_rep LEAFSPC (finalize_blk b) es"
    by (rule vals_rep_cong)
      (use assms in \<open>auto simp: leaf_rep_def finalize_hdr_def Let_def wr_outside\<close>)
  then show ?thesis
    using assms by (simp add: leaf_rep_def)
qed

text \<open>A leaf that is finalized and read back from its bytes is the same leaf.\<close>

lemma parse_finalize_leaf:
  assumes "leaf_rep b es"
  shows "leaf_rep (parse_blk bp (finalize_hdr b)) es"
proof -
  have ty: "btype b = 2" and d: "doff b = 6" and rep: "vals_rep LEAFSPC b es"
    using assms by (simp_all add: leaf_rep_def)
  have rng: "0 \<le> nval b" "nval b < 32768" "0 \<le> valsz b" "valsz b < 32768"
    using rep kvs_size_nonneg [of es] by (auto simp: vals_rep_def)
  let ?m = "wr (wr (buf b) 0 (pack16 2)) 2 (pack16 (nval b) @ pack16 (valsz b))"
  have m: "finalize_hdr b = ?m"
    using ty by (simp add: finalize_hdr_def)
  have hdr: "rd ?m 0 2 = pack16 2" "rd ?m 2 2 = pack16 (nval b)" "rd ?m 4 2 = pack16 (valsz b)"
    by (simp_all add: rd_wr_disjoint rd_wr_within)
  let ?p = "parse_blk bp ?m"
  have p: "btype ?p = 2" "doff ?p = 6" "nval ?p = nval b" "valsz ?p = valsz b" "buf ?p = ?m"
    using rng by (simp_all add: parse_blk_def Let_def hdr)
  have "vals_rep LEAFSPC ?p es"
    using rep by (rule vals_rep_cong) (auto simp: p d wr_outside)
  with p m show ?thesis
    by (simp add: leaf_rep_def)
qed

end
