(* ===== verification/Search.thy ===== *)
theory Search
  imports Blocks
begin

text \<open>
  Binary search over the packed entries (\<^verbatim>\<open>blksearch\<close>) and messages (\<^verbatim>\<open>bufsearch\<close>) of a
  block. The two C functions differ only in the accessor they call, so the loop is one
  function over the accessor. The locale \<open>keyed_items\<close> states what the search relies on of an
  accessor: that it reads, without leaving the block, the items a representation predicate
  names. The search lemmas are proved once there and the locale is interpreted for the entry
  area and for the message buffer.
\<close>

section \<open>The search loop\<close>

function search_loop :: "(int \<Rightarrow> key option) \<Rightarrow> key \<Rightarrow> int \<Rightarrow> int \<Rightarrow> int \<Rightarrow> (int \<times> int) option" where
  "search_loop get k lo hi ri =
     (if lo \<le> hi then
        (let mid = (hi + lo) div 2 in
         case get mid of
           None \<Rightarrow> None
         | Some ck \<Rightarrow>
             (let r = keycmp k ck in
              if r = - 1 then search_loop get k lo (mid - 1) ri
              else if r = 0 then search_loop get k lo (mid - 1) mid
              else search_loop get k (mid + 1) hi ri))
      else Some (lo, ri))"
  by pat_completeness auto
termination
  by (relation "measure (\<lambda>(get, k, lo, hi, ri). nat (hi - lo + 1))") auto

declare search_loop.simps [simp del]

definition search :: "(int \<Rightarrow> 'e option) \<Rightarrow> ('e \<Rightarrow> key) \<Rightarrow> int \<Rightarrow> key \<Rightarrow> (int \<times> bool \<times> 'e option) option" where
  "search get kf n k = do {
     (lo, ri) \<leftarrow> search_loop (\<lambda>i. map_option kf (get i)) k 0 (n - 1) (- 1);
     let same = (ri \<noteq> - 1);
     let ri = (if ri = - 1 then lo - 1 else ri);
     if 0 \<le> ri then do { e \<leftarrow> get ri; Some (ri, same, Some e) }
     else Some (ri, same, None)
   }"

definition blksearch :: "gblk \<Rightarrow> key \<Rightarrow> (int \<times> bool \<times> kvp option) option" where
  "blksearch b k = search (getval b) kv_k (nval b) k"

definition bufsearch :: "gblk \<Rightarrow> key \<Rightarrow> (int \<times> bool \<times> gmsg option) option" where
  "bufsearch b k = search (getmsg b) m_k (nbuf b) k"

section \<open>Position of a key in a sorted list\<close>

definition below :: "key \<Rightarrow> key list \<Rightarrow> nat" where
  "below k ks = length (takeWhile (\<lambda>x. x < k) ks)"

lemma below_le: "below k ks \<le> length ks"
  by (simp add: below_def length_takeWhile_le)

lemma below_less: "i < below k ks \<Longrightarrow> ks ! i < k"
  unfolding below_def by (metis nth_mem set_takeWhileD takeWhile_nth)

lemma below_ge:
  assumes "sorted ks" and "below k ks \<le> i" and "i < length ks"
  shows "k \<le> ks ! i"
proof -
  have "below k ks < length ks" using assms by simp
  then have "\<not> ks ! below k ks < k"
    unfolding below_def by (rule nth_length_takeWhile)
  moreover have "ks ! below k ks \<le> ks ! i"
    using assms by (simp add: sorted_nth_mono)
  ultimately show ?thesis by simp
qed

lemma below_unique:
  assumes "sorted ks" and "n \<le> length ks" and "\<And>i. i < n \<Longrightarrow> ks ! i < k"
    and "\<And>i. n \<le> i \<Longrightarrow> i < length ks \<Longrightarrow> k \<le> ks ! i"
  shows "below k ks = n"
proof (rule antisym)
  show "below k ks \<le> n"
  proof (rule ccontr)
    assume "\<not> below k ks \<le> n"
    then have "n < below k ks" by simp
    with below_less [OF this] below_le [of k ks] assms(4) [of n] show False by simp
  qed
  show "n \<le> below k ks"
  proof (rule ccontr)
    assume "\<not> n \<le> below k ks"
    then have "below k ks < n" by simp
    with below_ge [OF assms(1), of k "below k ks"] assms(2,3) show False by fastforce
  qed
qed

section \<open>Correctness of the loop\<close>

text \<open>
  The loop invariant: everything left of \<open>lo\<close> is below the key, everything right of \<open>hi\<close> is
  not, and \<open>ri\<close> is the leftmost equal position seen, which is \<open>hi + 1\<close>.
\<close>

lemma search_loop_correct:
  assumes get: "\<And>i. i < length ks \<Longrightarrow> get (int i) = Some (ks ! i)"
    and srt: "sorted ks"
  shows "0 \<le> lo \<Longrightarrow> lo \<le> hi + 1 \<Longrightarrow> hi < int (length ks) \<Longrightarrow>
     (\<forall>i. int i < lo \<longrightarrow> ks ! i < k) \<Longrightarrow>
     (\<forall>i < length ks. hi < int i \<longrightarrow> k \<le> ks ! i) \<Longrightarrow>
     (if ri = - 1 then \<forall>i < length ks. hi < int i \<longrightarrow> k \<noteq> ks ! i
      else ri = hi + 1 \<and> ri < int (length ks) \<and> ks ! nat ri = k) \<Longrightarrow>
     search_loop get k lo hi ri =
       Some (int (below k ks), if k \<in> set ks then int (below k ks) else - 1)"
proof (induction "nat (hi - lo + 1)" arbitrary: lo hi ri rule: less_induct)
  case less
  note lo0 = less.prems(1) and lohi = less.prems(2) and hin = less.prems(3)
    and left = less.prems(4) and right = less.prems(5) and found = less.prems(6)
  show ?case
  proof (cases "lo \<le> hi")
    case False
    then have hi: "hi = lo - 1" using lohi by simp
    have "below k ks = nat lo"
      using srt lo0 hi hin left right by (intro below_unique) auto
    moreover have "k \<in> set ks \<longleftrightarrow> ri \<noteq> - 1"
    proof
      assume "k \<in> set ks"
      then obtain i where i: "i < length ks" "ks ! i = k" by (auto simp: in_set_conv_nth)
      with left have "hi < int i" using hi by (metis less_irrefl not_less zle_diff1_eq)
      with i found show "ri \<noteq> - 1" by auto
    next
      assume "ri \<noteq> - 1"
      then have "ks ! nat lo = k" "nat lo < length ks" using found lo0 hi by auto
      then show "k \<in> set ks" by (metis nth_mem)
    qed
    moreover have "search_loop get k lo hi ri = Some (lo, ri)"
      using False by (simp add: search_loop.simps)
    ultimately show ?thesis
      using lo0 hi found by (auto split: if_splits)
  next
    case True
    define mid where "mid = (hi + lo) div 2"
    have mid: "lo \<le> mid" "mid \<le> hi" using True by (simp_all add: mid_def)
    then have nm: "nat mid < length ks" "int (nat mid) = mid" using lo0 hin by auto
    have gm: "get mid = Some (ks ! nat mid)" using get [OF nm(1)] nm(2) by simp
    have rle: "ks ! nat mid \<le> ks ! i" if "mid \<le> int i" "i < length ks" for i
      using srt that nm by (intro sorted_nth_mono) auto
    have lle: "ks ! i \<le> ks ! nat mid" if "int i \<le> mid" for i
      using srt that nm by (intro sorted_nth_mono) auto
    consider (lt) "k < ks ! nat mid" | (eq) "k = ks ! nat mid" | (gt) "ks ! nat mid < k"
      by fastforce
    then show ?thesis
    proof cases
      case lt
      have "search_loop get k lo hi ri = search_loop get k lo (mid - 1) ri"
        using True gm lt
        by (subst search_loop.simps) (simp add: mid_def [symmetric] keycmp_order)
      moreover have "ri = - 1"
      proof (rule ccontr)
        assume "ri \<noteq> - 1"
        with found have r: "ks ! nat ri = k" "mid \<le> ri" "ri < int (length ks)" using mid by auto
        then have "nat ri < length ks" "mid \<le> int (nat ri)" using lo0 mid by linarith+
        with rle [of "nat ri"] r lt show False by simp
      qed
      moreover have "\<forall>i < length ks. mid - 1 < int i \<longrightarrow> k < ks ! i"
        using rle lt by (auto intro: less_le_trans)
      ultimately show ?thesis
        using less.hyps [of "mid - 1" lo ri] True mid lo0 hin left by fastforce
    next
      case eq
      have "search_loop get k lo hi ri = search_loop get k lo (mid - 1) mid"
        using True gm eq [symmetric]
        by (subst search_loop.simps) (simp add: mid_def [symmetric] keycmp_order)
      moreover have "\<forall>i < length ks. mid - 1 < int i \<longrightarrow> k \<le> ks ! i"
        using rle eq by auto
      ultimately show ?thesis
        using less.hyps [of "mid - 1" lo mid] True mid lo0 hin left nm eq by fastforce
    next
      case gt
      have "search_loop get k lo hi ri = search_loop get k (mid + 1) hi ri"
        using True gm gt
        by (subst search_loop.simps) (auto simp: mid_def [symmetric] keycmp_order Let_def)
      moreover have "\<forall>i. int i < mid + 1 \<longrightarrow> ks ! i < k"
        using lle gt by (auto intro: le_less_trans)
      ultimately show ?thesis
        using less.hyps [of hi "mid + 1" ri] True mid lo0 hin right found by fastforce
    qed
  qed
qed

section \<open>Searching keyed items\<close>

locale keyed_items =
  fixes get :: "'b \<Rightarrow> int \<Rightarrow> 'e option"
    and kf :: "'e \<Rightarrow> key"
    and cnt :: "'b \<Rightarrow> int"
    and rep :: "'b \<Rightarrow> 'e list \<Rightarrow> bool"
  assumes rep_cnt: "rep b es \<Longrightarrow> cnt b = int (length es)"
    and rep_get: "rep b es \<Longrightarrow> i < length es \<Longrightarrow> get b (int i) = Some (es ! i)"
begin

lemma search_found:
  assumes "rep b es" and "sorted (map kf es)" and "k \<in> kf ` set es"
  shows "search (get b) kf (cnt b) k
     = Some (int (below k (map kf es)), True, Some (es ! below k (map kf es)))
     \<and> below k (map kf es) < length es \<and> kf (es ! below k (map kf es)) = k"
proof -
  let ?ks = "map kf es"
  have loop: "search_loop (\<lambda>i. map_option kf (get b i)) k 0 (cnt b - 1) (- 1)
      = Some (int (below k ?ks), if k \<in> set ?ks then int (below k ?ks) else - 1)"
    using assms(1,2) by (intro search_loop_correct) (auto simp: rep_get rep_cnt)
  obtain i where i: "i < length es" "kf (es ! i) = k"
    using assms(3) by (auto simp: in_set_conv_nth)
  have lt: "below k ?ks < length es"
  proof (rule ccontr)
    assume "\<not> below k ?ks < length es"
    then have "i < below k ?ks" using i by simp
    from below_less [OF this] i show False by simp
  qed
  have "k \<le> ?ks ! below k ?ks"
    using assms(2) lt by (intro below_ge) auto
  moreover have "?ks ! below k ?ks \<le> ?ks ! i"
  proof -
    have "below k ?ks \<le> i"
      using below_less [of i k ?ks] i by (metis less_irrefl linorder_not_le nth_map)
    then show ?thesis using assms(2) i by (intro sorted_nth_mono) auto
  qed
  ultimately have "kf (es ! below k ?ks) = k"
    using i lt by auto
  then show ?thesis
    using loop lt assms(1,3) by (auto simp: search_def rep_get)
qed

lemma search_absent:
  assumes "rep b es" and "sorted (map kf es)" and "k \<notin> kf ` set es"
  shows "search (get b) kf (cnt b) k
     = Some (int (below k (map kf es)) - 1, False,
         if below k (map kf es) = 0 then None else Some (es ! (below k (map kf es) - 1)))"
proof -
  let ?ks = "map kf es"
  have loop: "search_loop (\<lambda>i. map_option kf (get b i)) k 0 (cnt b - 1) (- 1)
      = Some (int (below k ?ks), if k \<in> set ?ks then int (below k ?ks) else - 1)"
    using assms(1,2) by (intro search_loop_correct) (auto simp: rep_get rep_cnt)
  show ?thesis
  proof (cases "below k ?ks")
    case 0
    then show ?thesis using loop assms(3) by (simp add: search_def)
  next
    case (Suc n)
    then have "n < length es" using below_le [of k ?ks] by simp
    then have "get b (int n) = Some (es ! n)" using assms(1) by (simp add: rep_get)
    then show ?thesis using loop assms(3) Suc by (simp add: search_def)
  qed
qed

text \<open>The search always returns, and says whether the key is there.\<close>

lemma search_total:
  assumes "rep b es" and "sorted (map kf es)"
  shows "\<exists>ri e. search (get b) kf (cnt b) k = Some (ri, k \<in> kf ` set es, e)"
  using search_found [OF assms, of k] search_absent [OF assms, of k] by (cases "k \<in> kf ` set es") auto

end

definition msgs_rep :: "gblk \<Rightarrow> gmsg list \<Rightarrow> bool" where
  "msgs_rep b ms \<longleftrightarrow> nbuf b = int (length ms) \<and> (\<forall>i < length ms. getmsg b (int i) = Some (ms ! i))"

definition blk_vals :: "gblk \<Rightarrow> kvp list \<Rightarrow> bool" where
  "blk_vals b es \<longleftrightarrow> nval b = int (length es) \<and> (\<forall>i < length es. getval b (int i) = Some (es ! i))"

lemma vals_rep_blk_vals: "vals_rep spc b es \<Longrightarrow> blk_vals b es"
  by (auto simp: blk_vals_def getval_rep) (simp add: vals_rep_def)

lemma leaf_rep_blk_vals: "leaf_rep b es \<Longrightarrow> blk_vals b es"
  by (auto simp: leaf_rep_def intro: vals_rep_blk_vals)

interpretation entries: keyed_items getval kv_k nval blk_vals
  by unfold_locales (auto simp: blk_vals_def)

interpretation messages: keyed_items getmsg m_k nbuf msgs_rep
  by unfold_locales (auto simp: msgs_rep_def)

end
