(* ===== verification/Format_Spec.thy ===== *)
theory Format_Spec
  imports Search
begin

text \<open>
  What the on-disk format promises: byte strings read back as the data they were packed from,
  keys are ordered and distinct, the sort and the searches agree with their reference
  definitions, and leaf blocks hold the entries put into them.
\<close>

section \<open>Packed data\<close>

text \<open>
  C20: a superblock written by \<^verbatim>\<open>pack_sb_block\<close> is read back by \<^verbatim>\<open>gefs_unpacksb\<close> with every field it
  stores, its hash accepted; only the generations of block pointers, which are not stored, become
  the marker -1.
\<close>

theorem superblock_roundtrip:
  assumes "super_ok sb"
  shows "\<exists>m. pack_sb_block BLKSZ sb = Some m \<and> unpacksb fi m BLKSZ = Inr (super_stored (sb_snap fi) sb)"
proof -
  obtain m where "pack_sb_block BLKSZ sb = Some m" by (simp add: pack_sb_block_def Let_def)
  then show ?thesis using unpacksb_pack_sb_block [OF assms] by blast
qed

theorem superblock_roundtrip_witness:
  "\<exists>m. pack_sb_block BLKSZ \<lparr>sb_blksz = 16384, sb_bufspc = 8187, sb_narena = 1, sb_snap = zero_tree\<lparr>t_ht := 1\<rparr>,
       sb_flag = 0, sb_nextqid = 16, sb_nextgen = 8, sb_qgen = 0, sb_arenabp = [zero_bptr]\<rparr> = Some m
     \<and> (case unpacksb \<lparr>sb_blksz = 0, sb_bufspc = 0, sb_narena = 0, sb_snap = zero_tree,
       sb_flag = 0, sb_nextqid = 0, sb_nextgen = 0, sb_qgen = 0, sb_arenabp = []\<rparr> m BLKSZ of
          Inl _ \<Rightarrow> False | Inr sb \<Rightarrow> sb_nextqid sb = 16 \<and> t_ht (sb_snap sb) = 1)"
  using superblock_roundtrip [of "\<lparr>sb_blksz = 16384, sb_bufspc = 8187, sb_narena = 1, sb_snap = zero_tree\<lparr>t_ht := 1\<rparr>,
       sb_flag = 0, sb_nextqid = 16, sb_nextgen = 8, sb_qgen = 0, sb_arenabp = [zero_bptr]\<rparr>"
      "\<lparr>sb_blksz = 0, sb_bufspc = 0, sb_narena = 0, sb_snap = zero_tree,
       sb_flag = 0, sb_nextqid = 0, sb_nextgen = 0, sb_qgen = 0, sb_arenabp = []\<rparr>"]
  by (auto simp: super_ok_def super_stored_def)

text \<open>
  C21: a directory entry survives \<^verbatim>\<open>gefs_packdkey\<close>, \<^verbatim>\<open>gefs_packdval\<close> and \<^verbatim>\<open>gefs_kv2dir\<close> for every name that
  is a C string of at most 244 bytes; a longer name does not fit its key and is refused.
\<close>

theorem direntry_roundtrip:
  assumes "0 \<notin> set name" and "length name < 65536"
  shows "if length name \<le> 244
     then \<exists>k v. packdkey KEYMAX up (Some name) = Some k \<and> packdval INLMAX d = Some v
       \<and> kv2dir \<lparr>kv_k = k, kv_v = v\<rparr> = Some (d\<lparr>xname := Some name\<rparr>) \<and> unpackdkey k = Some (Some (up, name))
     else packdkey KEYMAX up (Some name) = None"
proof (cases "length name \<le> 244")
  case True
  then obtain k where k: "packdkey KEYMAX up (Some name) = Some k" by (auto simp: packdkey_def packstr_def)
  moreover have "packdval INLMAX d = Some (packdval_bytes d)" by (simp add: packdval_def Let_def)
  ultimately show ?thesis
    using True kv2dir_packdval [OF k assms] unpackdkey_packdkey [OF k assms] by simp
qed (simp add: packdkey_def packstr_def)

theorem direntry_roundtrip_witness:
  "\<exists>k v. packdkey KEYMAX 7 (Some [0x61, 0x62]) = Some k
     \<and> packdval INLMAX \<lparr>xflag = 0, xqid = \<lparr>qpath = 9, qvers = 1, qtype = 0\<rparr>, xmode = 0x1A4, xatime = 1, xmtime = 2,
         xlength = 3, xuid = 4, xgid = 5, xmuid = 6, xname = None\<rparr> = Some v
     \<and> kv2dir \<lparr>kv_k = k, kv_v = v\<rparr> = Some \<lparr>xflag = 0, xqid = \<lparr>qpath = 9, qvers = 1, qtype = 0\<rparr>, xmode = 0x1A4, xatime = 1, xmtime = 2,
         xlength = 3, xuid = 4, xgid = 5, xmuid = 6, xname = Some [0x61, 0x62]\<rparr>"
  using direntry_roundtrip [of "[0x61, 0x62]" 7 "\<lparr>xflag = 0, xqid = \<lparr>qpath = 9, qvers = 1, qtype = 0\<rparr>, xmode = 0x1A4, xatime = 1, xmtime = 2,
         xlength = 3, xuid = 4, xgid = 5, xmuid = 6, xname = None\<rparr>"] by auto

text \<open>What unpacks packs to the bytes it came from.\<close>

lemma packtree_unpacktree: "map_option packtree (unpacktree ys) = (if length ys < 72 then None else Some (take 72 ys))"
proof (cases "length ys < 72")
  case False
  have step: "fld ys a n @ fld ys (a + n) m = fld ys a (n + m)" for a n m
    unfolding fld_def take_add drop_drop by (simp add: add.commute [of n a])
  have "take 72 ys = fld ys 0 4 @ fld ys 4 4 @ fld ys 8 4 @ fld ys 12 4 @ fld ys 16 8 @ fld ys 24 8 @ fld ys 32 8 @ fld ys 40 8
      @ fld ys 48 8 @ fld ys 56 8 @ fld ys 64 8"
    using step [of 64 8 0] step [of 56 8 8] step [of 48 8 16] step [of 40 8 24] step [of 32 8 32] step [of 24 8 40] step [of 16 8 48]
      step [of 12 4 56] step [of 8 4 60] step [of 4 4 64] step [of 0 4 68] by (simp add: fld_def)
  then show ?thesis
    using False by (simp add: unpacktree_def packtree_def packbp_def pack32_unpack32 pack64_unpack64)
qed (simp add: unpacktree_def)

lemma packbp_unpackbp: "map_option packbp (unpackbp ys) = (if length ys < 24 then None else Some (take 24 ys))"
proof (cases "length ys < 24")
  case False
  have step: "fld ys a n @ fld ys (a + n) m = fld ys a (n + m)" for a n m
    unfolding fld_def take_add drop_drop by (simp add: add.commute [of n a])
  have "take 24 ys = fld ys 0 8 @ fld ys 8 8 @ fld ys 16 8"
    using step [of 16 8 0] step [of 8 8 8] step [of 0 8 16] by (simp add: fld_def)
  then show ?thesis using False by (simp add: unpackbp_def packbp_def pack64_unpack64)
qed (simp add: unpackbp_def)

text \<open>
  C22: block pointers and tree descriptors are packed in 24 and 72 bytes (the comment at
  \<^verbatim>\<open>src/src/gefs_storage.h\<close>, line 25, says 64 for the tree, the expression beside it comes to 72).
  \<^verbatim>\<open>gefs_unpackbp\<close> and \<^verbatim>\<open>gefs_unpacktree\<close> read back exactly what was packed, from every field value and
  whatever follows it in the buffer. Conversely any 24 and any 72 bytes unpack, and pack to
  themselves again, so that no two byte strings stand for the same value; from fewer bytes a tree is
  refused and a pointer read outside the value.
\<close>

theorem tree_roundtrip:
  "length (packbp bp) = 24 \<and> length (packtree t) = 72
     \<and> unpackbp (packbp bp @ xs) = Some bp \<and> unpacktree (packtree t @ xs) = Some t
     \<and> map_option packbp (unpackbp ys) = (if length ys < 24 then None else Some (take 24 ys))
     \<and> map_option packtree (unpacktree ys) = (if length ys < 72 then None else Some (take 72 ys))"
  unfolding packbp_unpackbp packtree_unpacktree
  by (simp add: unpackbp_def unpacktree_def packbp_def packtree_def pack_simps)

section \<open>Keys\<close>

text \<open>
  C23: \<^verbatim>\<open>gefs_keycmp\<close> is the lexicographic order of byte strings, a prefix before its extensions: it
  is total, antisymmetric and transitive.
\<close>

theorem keycmp_total_order:
  "keycmp a b = (if a < b then - 1 else if a = b then 0 else 1) \<and> keycmp b a = - keycmp a b
     \<and> (keycmp a b = 0 \<longleftrightarrow> a = b) \<and> \<not> (keycmp a b < 0 \<and> keycmp b c < 0 \<and> 0 \<le> keycmp a c)"
  by (auto simp: keycmp_order)

text \<open>
  The insertion sort over messages (\<^verbatim>\<open>stablesort\<close>, in \<^verbatim>\<open>gefs_btupsert\<close> and in \<^verbatim>\<open>tree.c\<close>) equals the
  library's stable sort by key: a sorted permutation in which messages of one key keep their order.
\<close>

theorem stablesort_is_stable_sort:
  "stablesort kf m = sort_key kf m \<and> sorted (map kf (stablesort kf m)) \<and> mset (stablesort kf m) = mset m
     \<and> filter (\<lambda>x. kf x = k) (stablesort kf m) = filter (\<lambda>x. kf x = k) m"
  by (simp add: stablesort_sort_key sort_key_stable)

section \<open>Leaf blocks\<close>

abbreviation empty_leaf :: gblk where
  "empty_leaf \<equiv> zero_blk\<lparr>btype := TLEAF, doff := LEAFHDSZ\<rparr>"

lemma empty_leaf_rep: "leaf_rep empty_leaf []"
  by (rule leaf_rep_empty) (simp_all add: zero_blk_def)

lemma one_entry: "\<exists>b. setval empty_leaf \<lparr>kv_k = [1], kv_v = [2, 3]\<rparr> = Some b \<and> leaf_rep b [\<lparr>kv_k = [1], kv_v = [2, 3]\<rparr>]"
  using leaf_rep_setval [OF empty_leaf_rep, of "\<lparr>kv_k = [1], kv_v = [2, 3]\<rparr>"]
  by (auto simp: leaf_fits_def kv_small_def kvs_size_def kvsz_def)

text \<open>
  \<^verbatim>\<open>blk_setval\<close> on a leaf with room appends the entry: it writes inside the block only, every
  entry put in before is still read by \<^verbatim>\<open>gefs_getval\<close>, and the new one is read at the end.
\<close>

theorem setval_then_getval:
  assumes "leaf_rep b es" and "leaf_fits (es @ [kv])"
  shows "\<exists>b'. setval b kv = Some b' \<and> nval b' = int (length es) + 1
     \<and> (\<forall>i. i < length es \<longrightarrow> getval b' (int i) = Some (es ! i)) \<and> getval b' (int (length es)) = Some kv"
proof -
  obtain b' where b': "setval b kv = Some b'" "leaf_rep b' (es @ [kv])" using leaf_rep_setval [OF assms] by blast
  then show ?thesis using leaf_rep_getval [OF b'(2)] leaf_rep_nval [OF b'(2)] by (force simp: nth_append)
qed

theorem setval_then_getval_witness:
  "\<exists>b'. setval empty_leaf \<lparr>kv_k = [1], kv_v = [2, 3]\<rparr> = Some b' \<and> nval b' = 1
     \<and> getval b' 0 = Some \<lparr>kv_k = [1], kv_v = [2, 3]\<rparr>"
  using setval_then_getval [OF empty_leaf_rep, of "\<lparr>kv_k = [1], kv_v = [2, 3]\<rparr>"]
  by (auto simp: leaf_fits_def kv_small_def kvs_size_def kvsz_def)

text \<open>
  C25: \<^verbatim>\<open>blk_setval\<close> has no capacity check. When an entry does not fit, the offset it computes lies
  before the buffer and the copy leaves the block's memory.
\<close>

theorem setval_writes_outside:
  assumes "leaf_rep b es" and "LEAFSPC + LEAFHDSZ < kvs_size es + kvsz kv" and "kvs_size es + kvsz kv < 32768"
  shows "setval b kv = None"
  by (rule setval_underflow) (use assms kvs_size_nonneg [of es] in \<open>auto simp: leaf_rep_def vals_rep_def blk_spc_def\<close>)

theorem setval_writes_outside_witness:
  "setval empty_leaf \<lparr>kv_k = [], kv_v = replicate 16384 0\<rparr> = None"
  by (rule setval_writes_outside [OF empty_leaf_rep]) (simp_all add: kvsz_def)

text \<open>
  A leaf written out by \<^verbatim>\<open>blk_finalize\<close> and parsed again by \<^verbatim>\<open>gefs_getblk\<close> holds the same entries
  at the same positions.
\<close>

theorem leaf_roundtrip:
  assumes "leaf_rep b es"
  shows "leaf_rep (parse_blk bp (finalize_hdr b)) es \<and> nval (parse_blk bp (finalize_hdr b)) = nval b
     \<and> (\<forall>i. i < length es \<longrightarrow> getval (parse_blk bp (finalize_hdr b)) (int i) = getval b (int i))"
  using parse_finalize_leaf [OF assms, of bp] leaf_rep_getval leaf_rep_nval assms by metis

theorem leaf_roundtrip_witness:
  "\<exists>b. setval empty_leaf \<lparr>kv_k = [1], kv_v = [2, 3]\<rparr> = Some b
     \<and> getval (parse_blk zero_bptr (finalize_hdr b)) 0 = Some \<lparr>kv_k = [1], kv_v = [2, 3]\<rparr>"
proof -
  obtain b where b: "setval empty_leaf \<lparr>kv_k = [1], kv_v = [2, 3]\<rparr> = Some b" "leaf_rep b [\<lparr>kv_k = [1], kv_v = [2, 3]\<rparr>]"
    using one_entry by blast
  show ?thesis using leaf_roundtrip [OF b(2), of zero_bptr] leaf_rep_getval [OF b(2), of 0] b(1) by auto
qed

section \<open>Searching\<close>

text \<open>
  C24: the binary search \<^verbatim>\<open>gefs_blksearch\<close> on a block with sorted keys always ends and finds the
  first entry with the key, or else the last one before it, which is what the linear reference
  (the number of keys below) gives; it says exactly whether the key is there.
\<close>

theorem blksearch_finds:
  assumes "blk_vals b es" and "sorted (map kv_k es)"
  shows "blksearch b k =
     (let n = below k (map kv_k es) in
      Some (if k \<in> kv_k ` set es then (int n, True, Some (es ! n))
            else (int n - 1, False, if n = 0 then None else Some (es ! (n - 1)))))"
  using entries.search_found [OF assms, of k] entries.search_absent [OF assms, of k]
  by (auto simp: blksearch_def Let_def)

theorem blksearch_finds_witness:
  "\<exists>b. setval empty_leaf \<lparr>kv_k = [1], kv_v = [2, 3]\<rparr> = Some b
     \<and> blksearch b [1] = Some (0, True, Some \<lparr>kv_k = [1], kv_v = [2, 3]\<rparr>)
     \<and> blksearch b [0, 9] = Some (- 1, False, None)"
proof -
  obtain b where b: "setval empty_leaf \<lparr>kv_k = [1], kv_v = [2, 3]\<rparr> = Some b" "leaf_rep b [\<lparr>kv_k = [1], kv_v = [2, 3]\<rparr>]"
    using one_entry by blast
  show ?thesis
    using blksearch_finds [OF leaf_rep_blk_vals [OF b(2)], of "[1]"] blksearch_finds [OF leaf_rep_blk_vals [OF b(2)], of "[0, 9]"] b(1)
    by (auto simp: below_def Let_def)
qed

section \<open>Checksums\<close>

text \<open>
  The port's checksum \<^verbatim>\<open>gefs_bufhash\<close> is not the
  checksum of the file system it reads (\<^verbatim>\<open>bufhash\<close> of \<^verbatim>\<open>hash.c\<close>): they differ on the empty buffer.
\<close>

theorem port_hash_differs: "gefs_bufhash [] \<noteq> bufhash []"
  by code_simp

end
