(* ===== verification/Cache.thy ===== *)
theory Cache
  imports Search
begin

text \<open>
  The block cache of the port (\<^verbatim>\<open>src/src/gefs_storage.c\<close>, "Block Cache"): a table of hash
  chains and a doubly linked LRU list threaded through the blocks. The pointers are modelled:
  \<open>heap\<close> maps the address of an allocated \<^verbatim>\<open>GefsBlk\<close> to its contents, \<open>brk\<close> is the next
  address \<^verbatim>\<open>calloc\<close> hands out, and dereferencing an address that is not allocated is \<open>None\<close>.
  Pointer walks are partial functions; walking a cyclic chain is \<open>None\<close> too.

  \<^verbatim>\<open>calloc\<close> is assumed to succeed. The device is a byte array with a size;
  \<^verbatim>\<open>pread\<close> of a whole block fails when the block is not inside it.

  \<open>cache_inv\<close> ties the pointer structure to an LRU list and to the list of every hash chain.
  The lemmas show that every operation keeps it, that no operation on a well-formed cache
  dereferences a dangling pointer or walks forever, and what \<^verbatim>\<open>gefs_getblk\<close> returns.
\<close>

section \<open>The device\<close>

record device =
  dbytes :: mem
  dsize :: int

definition pread_blk :: "device \<Rightarrow> int \<Rightarrow> mem option" where
  "pread_blk d a =
     (if 0 \<le> a \<and> a + BLKSZ \<le> dsize d
      then Some (\<lambda>i. if 0 \<le> i \<and> i < BLKSZ then dbytes d (a + i) else 0) else None)"

text \<open>\<^verbatim>\<open>pwrite\<close> of a block; writing at a negative offset fails and its result is ignored.\<close>

definition pwrite_blk :: "device \<Rightarrow> int \<Rightarrow> mem \<Rightarrow> device" where
  "pwrite_blk d a m =
     (if a < 0 then d
      else d\<lparr>dbytes := wr (dbytes d) a (rd m 0 (nat BLKSZ)), dsize := max (dsize d) (a + BLKSZ)\<rparr>)"

section \<open>Cache state\<close>

record bcache =
  heap :: "nat \<rightharpoonup> gblk"
  brk :: nat
  chead :: "nat option"
  ctail :: "nat option"
  buckets :: "nat \<Rightarrow> nat option"
  ccount :: int
  cmax :: int

text \<open>The cache fields of a context cleared by \<^verbatim>\<open>memset\<close>, before anything is allocated.\<close>

definition zero_cache :: bcache where
  "zero_cache = \<lparr>heap = Map.empty, brk = 0, chead = None, ctail = None, buckets = (\<lambda>_. None), ccount = 0, cmax = 0\<rparr>"

definition NBUCKETS :: nat where [simp]: "NBUCKETS = 1024"

definition cache_hash :: "u64 \<Rightarrow> nat" where
  "cache_hash a =
     (let x = a;
          x = (x XOR drop_bit 30 x) * 0xbf58476d1ce4e5b9;
          x = (x XOR drop_bit 27 x) * 0x94d049bb133111eb;
          x = x XOR drop_bit 31 x
      in unat x mod NBUCKETS)"

text \<open>\<^verbatim>\<open>gefs_cache_init\<close>; the blocks that are already allocated stay allocated.\<close>

definition cache_init :: "int \<Rightarrow> bcache \<Rightarrow> bcache" where
  "cache_init max_blocks c =
     c\<lparr>chead := None, ctail := None, buckets := (\<lambda>_. None), ccount := 0,
       cmax := (if 0 < max_blocks then max_blocks else 2048)\<rparr>"

definition modify :: "bcache \<Rightarrow> nat \<Rightarrow> (gblk \<Rightarrow> gblk) \<Rightarrow> bcache option" where
  "modify c p f = map_option (\<lambda>b. c\<lparr>heap := (heap c)(p \<mapsto> f b)\<rparr>) (heap c p)"

definition modify_opt :: "bcache \<Rightarrow> nat option \<Rightarrow> (gblk \<Rightarrow> gblk) \<Rightarrow> bcache option" where
  "modify_opt c q f = (case q of None \<Rightarrow> Some c | Some p \<Rightarrow> modify c p f)"

section \<open>LRU list\<close>

definition lru_unlink :: "bcache \<Rightarrow> nat \<Rightarrow> bcache option" where
  "lru_unlink c p = do {
     b \<leftarrow> heap c p;
     c \<leftarrow> modify_opt c (cprev b) (cnext_update (\<lambda>_. cnext b));
     b \<leftarrow> heap c p;
     modify_opt c (cnext b) (cprev_update (\<lambda>_. cprev b))
   }"

definition lru_push :: "bcache \<Rightarrow> nat \<Rightarrow> bcache option" where
  "lru_push c p = do {
     c \<leftarrow> modify c p (\<lambda>b. b\<lparr>cprev := None, cnext := chead c\<rparr>);
     c \<leftarrow> modify_opt c (chead c) (cprev_update (\<lambda>_. Some p));
     let c = c\<lparr>chead := Some p\<rparr>;
     Some (if ctail c = None then c\<lparr>ctail := Some p\<rparr> else c)
   }"

definition lru_top :: "bcache \<Rightarrow> nat \<Rightarrow> bcache option" where
  "lru_top c p =
     (if chead c = Some p then Some c
      else do {
        c \<leftarrow> lru_unlink c p;
        b \<leftarrow> heap c p;
        let c = (if ctail c = Some p then c\<lparr>ctail := cprev b\<rparr> else c);
        lru_push c p
      })"

definition lru_remove :: "bcache \<Rightarrow> nat \<Rightarrow> bcache option" where
  "lru_remove c p = do {
     c \<leftarrow> lru_unlink c p;
     b \<leftarrow> heap c p;
     let c = (if chead c = Some p then c\<lparr>chead := cnext b\<rparr> else c);
     let c = (if ctail c = Some p then c\<lparr>ctail := cprev b\<rparr> else c);
     modify c p (\<lambda>b. b\<lparr>cprev := None, cnext := None\<rparr>)
   }"

section \<open>Hash chains and eviction\<close>

partial_function (option) chain_find :: "(nat \<rightharpoonup> gblk) \<Rightarrow> nat option \<Rightarrow> u64 \<Rightarrow> nat option option" where
  "chain_find h p a =
     (case p of
        None \<Rightarrow> Some None
      | Some q \<Rightarrow> Option.bind (h q)
          (\<lambda>b. if bp_addr (blk_bp b) = a then Some (Some q) else chain_find h (hnext b) a))"

partial_function (option) victim_find :: "(nat \<rightharpoonup> gblk) \<Rightarrow> nat option \<Rightarrow> nat option option" where
  "victim_find h p =
     (case p of
        None \<Rightarrow> Some None
      | Some q \<Rightarrow> Option.bind (h q)
          (\<lambda>b. if 0 < ref b then victim_find h (cprev b) else Some (Some q)))"

text \<open>
  \<^verbatim>\<open>while (*pp && *pp != victim) pp = &(*pp)->hnext; if (*pp) *pp = victim->hnext;\<close> with \<open>prev\<close>
  the block whose \<^verbatim>\<open>hnext\<close> field \<^verbatim>\<open>pp\<close> points to, or the bucket itself.
\<close>

partial_function (option) chain_unlink ::
  "bcache \<Rightarrow> nat \<Rightarrow> nat option \<Rightarrow> nat option \<Rightarrow> nat \<Rightarrow> bcache option" where
  "chain_unlink c h prev cur v =
     (case cur of
        None \<Rightarrow> Some c
      | Some q \<Rightarrow> Option.bind (heap c q)
          (\<lambda>b. if q = v then
                 (case prev of
                    None \<Rightarrow> Some (c\<lparr>buckets := (buckets c)(h := hnext b)\<rparr>)
                  | Some r \<Rightarrow> modify c r (hnext_update (\<lambda>_. hnext b)))
               else chain_unlink c h (Some q) (hnext b) v))"

definition evict :: "bcache \<Rightarrow> bcache option" where
  "evict c =
     (if cmax c \<le> ccount c then do {
        v \<leftarrow> victim_find (heap c) (ctail c);
        case v of
          None \<Rightarrow> Some c
        | Some p \<Rightarrow> do {
            b \<leftarrow> heap c p;
            let vh = cache_hash (bp_addr (blk_bp b));
            c \<leftarrow> chain_unlink c vh None (buckets c vh) p;
            c \<leftarrow> lru_remove c p;
            Some (c\<lparr>heap := (heap c)(p := None), ccount := ccount c - 1\<rparr>)
          }
      } else Some c)"

text \<open>
  Entering a freshly allocated block at the head of its chain and of the LRU list, as
  \<^verbatim>\<open>gefs_getblk\<close>, \<^verbatim>\<open>gefs_btupsert\<close> and \<^verbatim>\<open>gefs_write_file\<close> all do.
\<close>

definition cache_insert :: "bcache \<Rightarrow> gblk \<Rightarrow> (bcache \<times> nat) option" where
  "cache_insert c b =
     (let p = brk c;
          h = cache_hash (bp_addr (blk_bp b));
          b = b\<lparr>hnext := buckets c h, cnext := chead c, cprev := None\<rparr>;
          c = c\<lparr>heap := (heap c)(p \<mapsto> b), brk := Suc p, buckets := (buckets c)(h := Some p)\<rparr>
      in do {
        c \<leftarrow> modify_opt c (chead c) (cprev_update (\<lambda>_. Some p));
        let c = c\<lparr>chead := Some p\<rparr>;
        let c = (if ctail c = None then c\<lparr>ctail := Some p\<rparr> else c);
        Some (c\<lparr>ccount := ccount c + 1\<rparr>, p)
      })"

definition getblk :: "device \<Rightarrow> bcache \<Rightarrow> bptr \<Rightarrow> (bcache \<times> nat option) option" where
  "getblk d c bp = do {
     hit \<leftarrow> chain_find (heap c) (buckets c (cache_hash (bp_addr bp))) (bp_addr bp);
     case hit of
       Some p \<Rightarrow> do {
         c \<leftarrow> modify c p (\<lambda>b. b\<lparr>ref := ref b + 1\<rparr>);
         c \<leftarrow> lru_top c p;
         Some (c, Some p)
       }
     | None \<Rightarrow> do {
         c \<leftarrow> evict c;
         case pread_blk d (sint (bp_addr bp)) of
           None \<Rightarrow> Some (c, None)
         | Some m \<Rightarrow> do {
             (c, p) \<leftarrow> cache_insert c (parse_blk bp m);
             Some (c, Some p)
           }
       }
   }"

definition holdblk :: "bcache \<Rightarrow> nat \<Rightarrow> bcache option" where
  "holdblk c p = modify c p (\<lambda>b. b\<lparr>ref := ref b + 1\<rparr>)"

definition dropblk :: "bcache \<Rightarrow> nat option \<Rightarrow> bcache option" where
  "dropblk c q =
     modify_opt c q (\<lambda>b. b\<lparr>ref := (let r = ref b - 1 in if r < 0 then 0 else r)\<rparr>)"

partial_function (option) free_list :: "(nat \<rightharpoonup> gblk) \<Rightarrow> nat option \<Rightarrow> (nat \<rightharpoonup> gblk) option" where
  "free_list h p =
     (case p of
        None \<Rightarrow> Some h
      | Some q \<Rightarrow> Option.bind (h q) (\<lambda>b. free_list (h(q := None)) (cnext b)))"

definition cache_free :: "bcache \<Rightarrow> bcache option" where
  "cache_free c = do {
     h \<leftarrow> free_list (heap c) (chead c);
     Some (c\<lparr>heap := h, chead := None, ctail := None, buckets := (\<lambda>_. None), ccount := 0, cmax := 0\<rparr>)
   }"

section \<open>Doubly linked segments\<close>

definition nxt :: "nat list \<Rightarrow> nat option \<Rightarrow> nat option" where
  "nxt xs nx = (case xs of [] \<Rightarrow> nx | q # _ \<Rightarrow> Some q)"

definition lst :: "nat option \<Rightarrow> nat list \<Rightarrow> nat option" where
  "lst pr xs = (if xs = [] then pr else Some (last xs))"

primrec dseg :: "(nat \<rightharpoonup> gblk) \<Rightarrow> nat option \<Rightarrow> nat list \<Rightarrow> nat option \<Rightarrow> bool" where
  "dseg h pr [] nx \<longleftrightarrow> True"
| "dseg h pr (p # ps) nx \<longleftrightarrow>
     (\<exists>b. h p = Some b \<and> cprev b = pr \<and> cnext b = nxt ps nx) \<and> dseg h (Some p) ps nx"

text \<open>The contents of a block apart from its LRU links.\<close>

definition core :: "gblk \<Rightarrow> gblk" where
  "core b = b\<lparr>cnext := None, cprev := None\<rparr>"

definition same_core :: "(nat \<rightharpoonup> gblk) \<Rightarrow> (nat \<rightharpoonup> gblk) \<Rightarrow> bool" where
  "same_core h h' \<longleftrightarrow> (\<forall>p. map_option core (h' p) = map_option core (h p))"

definition lru_frame :: "bcache \<Rightarrow> bcache \<Rightarrow> bool" where
  "lru_frame c c' \<longleftrightarrow> same_core (heap c) (heap c') \<and> brk c' = brk c \<and> buckets c' = buckets c
     \<and> ccount c' = ccount c \<and> cmax c' = cmax c"

definition lru_ok :: "bcache \<Rightarrow> nat list \<Rightarrow> bool" where
  "lru_ok c L \<longleftrightarrow> distinct L \<and> dseg (heap c) None L None \<and> chead c = nxt L None \<and> ctail c = lst None L"

lemma nxt_simps [simp]: "nxt [] nx = nx" "nxt (q # qs) nx = Some q" "nxt (xs @ ys) nx = nxt xs (nxt ys nx)"
  by (simp_all add: nxt_def split: list.split)

lemma lst_simps [simp]: "lst pr [] = pr" "lst pr (xs @ [x]) = Some x" "lst pr (x # xs) = lst (Some x) xs"
  "lst pr (xs @ ys) = lst (lst pr xs) ys"
  by (auto simp: lst_def)

lemma core_simps [simp]:
  "core (b\<lparr>cnext := x\<rparr>) = core b" "core (b\<lparr>cprev := x\<rparr>) = core b"
  "core (b\<lparr>cprev := x, cnext := y\<rparr>) = core b"
  by (simp_all add: core_def)

lemma core_eqD:
  assumes "core b = core b'"
  shows "hnext b' = hnext b" "btype b' = btype b" "nval b' = nval b" "valsz b' = valsz b"
    "nbuf b' = nbuf b" "bufsz b' = bufsz b" "logsz b' = logsz b" "blk_bp b' = blk_bp b"
    "ref b' = ref b" "doff b' = doff b" "buf b' = buf b"
  using assms by (cases b; cases b'; simp add: core_def)+

lemma same_core_refl [simp]: "same_core h h"
  by (simp add: same_core_def)

lemma same_core_trans: "same_core h h' \<Longrightarrow> same_core h' h'' \<Longrightarrow> same_core h h''"
  by (simp add: same_core_def)

lemma same_core_upd: "h p = Some b \<Longrightarrow> core b' = core b \<Longrightarrow> same_core h (h(p \<mapsto> b'))"
  by (simp add: same_core_def)

lemma same_core_Some: "same_core h h' \<Longrightarrow> h p = Some b \<Longrightarrow> \<exists>b'. h' p = Some b' \<and> core b' = core b"
  by (metis (no_types, lifting) map_option_eq_Some option.simps(9) same_core_def)

lemma same_core_None: "same_core h h' \<Longrightarrow> h' p = None \<longleftrightarrow> h p = None"
  by (metis map_option_is_None same_core_def)

lemma lru_frame_refl [simp]: "lru_frame c c"
  by (simp add: lru_frame_def)

lemma lru_frame_trans: "lru_frame c c' \<Longrightarrow> lru_frame c' c'' \<Longrightarrow> lru_frame c c''"
  by (auto simp: lru_frame_def intro: same_core_trans)

lemma dseg_append: "dseg h pr (xs @ ys) nx \<longleftrightarrow> dseg h pr xs (nxt ys nx) \<and> dseg h (lst pr xs) ys nx"
  by (induction xs arbitrary: pr) auto

lemma dseg_upd_other [simp]: "p \<notin> set xs \<Longrightarrow> dseg (h(p := v)) pr xs nx = dseg h pr xs nx"
  by (induction xs arbitrary: pr) auto

lemma dseg_alloc: "dseg h pr xs nx \<Longrightarrow> p \<in> set xs \<Longrightarrow> \<exists>b. h p = Some b"
  by (induction xs arbitrary: pr) auto

lemma dseg_links_cong:
  "dseg h pr xs nx \<Longrightarrow>
     (\<And>p b. p \<in> set xs \<Longrightarrow> h p = Some b \<Longrightarrow> \<exists>b'. h' p = Some b' \<and> cnext b' = cnext b \<and> cprev b' = cprev b) \<Longrightarrow>
     dseg h' pr xs nx"
proof (induction xs arbitrary: pr)
  case Nil
  then show ?case by simp
next
  case (Cons x xs)
  then show ?case by fastforce
qed

lemma dseg_set_next:
  assumes "dseg h pr (xs @ [q]) nx" and "distinct (xs @ [q])" and "h q = Some b"
  shows "dseg (h(q \<mapsto> b\<lparr>cnext := nx'\<rparr>)) pr (xs @ [q]) nx'"
  using assms by (simp add: dseg_append)

lemma dseg_set_prev:
  assumes "dseg h pr (y # ys) nx" and "distinct (y # ys)" and "h y = Some b"
  shows "dseg (h(y \<mapsto> b\<lparr>cprev := pr'\<rparr>)) pr' (y # ys) nx"
  using assms by simp

text \<open>Unlinking a block joins the two halves of the list around it.\<close>

lemma lru_unlink_ok:
  assumes seg: "dseg (heap c) None (xs @ p # ys) None" and dist: "distinct (xs @ p # ys)"
  shows "\<exists>c' b. lru_unlink c p = Some c' \<and> dseg (heap c') None (xs @ ys) None
     \<and> heap c' p = Some b \<and> cprev b = lst None xs \<and> cnext b = nxt ys None
     \<and> lru_frame c c' \<and> chead c' = chead c \<and> ctail c' = ctail c"
proof -
  obtain b where b: "heap c p = Some b" "cprev b = lst None xs" "cnext b = nxt ys None"
    and segx: "dseg (heap c) None xs (Some p)" and segy: "dseg (heap c) (Some p) ys None"
    using seg by (auto simp: dseg_append)
  obtain c1 where c1: "modify_opt c (cprev b) (cnext_update (\<lambda>_. cnext b)) = Some c1"
    and s1: "dseg (heap c1) None xs (nxt ys None)" "dseg (heap c1) (Some p) ys None"
    "heap c1 p = Some b" "lru_frame c c1" "chead c1 = chead c" "ctail c1 = ctail c"
  proof (cases xs rule: rev_cases)
    case Nil
    then show ?thesis
      using that [of c] b segy by (simp add: modify_opt_def)
  next
    case (snoc xs' q)
    obtain bq where bq: "heap c q = Some bq"
      using segx snoc by (auto simp: dseg_append)
    let ?h = "(heap c)(q \<mapsto> bq\<lparr>cnext := nxt ys None\<rparr>)"
    have "modify_opt c (cprev b) (cnext_update (\<lambda>_. cnext b)) = Some (c\<lparr>heap := ?h\<rparr>)"
      using b snoc bq by (simp add: modify_opt_def modify_def)
    moreover have "dseg ?h None xs (nxt ys None)"
      using dseg_set_next [of "heap c" None xs' q "Some p" bq] segx dist snoc bq by simp
    moreover have "dseg ?h (Some p) ys None" "?h p = Some b" "lru_frame c (c\<lparr>heap := ?h\<rparr>)"
      using segy dist snoc b bq by (auto simp: lru_frame_def intro: same_core_upd)
    ultimately show ?thesis
      using that by simp
  qed
  obtain c2 where c2: "modify_opt c1 (cnext b) (cprev_update (\<lambda>_. cprev b)) = Some c2"
    and s2: "dseg (heap c2) None xs (nxt ys None)" "dseg (heap c2) (lst None xs) ys None"
    "heap c2 p = Some b" "lru_frame c c2" "chead c2 = chead c" "ctail c2 = ctail c"
  proof (cases ys)
    case Nil
    then show ?thesis
      using that [of c1] b s1 by (simp add: modify_opt_def)
  next
    case (Cons q ys')
    obtain bq where bq: "heap c1 q = Some bq"
      using s1(2) Cons by auto
    let ?h = "(heap c1)(q \<mapsto> bq\<lparr>cprev := lst None xs\<rparr>)"
    have "modify_opt c1 (cnext b) (cprev_update (\<lambda>_. cprev b)) = Some (c1\<lparr>heap := ?h\<rparr>)"
      using b Cons bq by (simp add: modify_opt_def modify_def)
    moreover have "dseg ?h (lst None xs) ys None"
      using dseg_set_prev [of "heap c1" "Some p" q ys' None bq] s1(2) dist Cons bq by simp
    moreover have "dseg ?h None xs (nxt ys None)" "?h p = Some b"
      using s1 dist Cons by auto
    moreover have "lru_frame c (c1\<lparr>heap := ?h\<rparr>)"
      using s1(4) bq
      by (auto simp: lru_frame_def intro: same_core_trans [OF _ same_core_upd])
    ultimately show ?thesis
      using that s1 by simp
  qed
  have "lru_unlink c p = Some c2"
    using b(1) c1 s1(3) c2 by (simp add: lru_unlink_def)
  then show ?thesis
    using s2 b by (auto simp: dseg_append)
qed

lemma lru_push_ok:
  assumes "lru_ok c L" and "p \<notin> set L" and "heap c p = Some b"
  shows "\<exists>c'. lru_push c p = Some c' \<and> lru_ok c' (p # L) \<and> lru_frame c c'"
proof -
  let ?h = "(heap c)(p \<mapsto> b\<lparr>cprev := None, cnext := nxt L None\<rparr>)"
  have hd: "chead c = nxt L None" and tl: "ctail c = lst None L" and dist: "distinct L"
    and seg: "dseg (heap c) None L None"
    using assms(1) by (auto simp: lru_ok_def)
  show ?thesis
  proof (cases L)
    case Nil
    then have "lru_push c p = Some (c\<lparr>heap := ?h, chead := Some p, ctail := Some p\<rparr>)"
      using assms(3) hd tl by (simp add: lru_push_def modify_def modify_opt_def)
    then show ?thesis
      using Nil assms(3) by (auto simp: lru_ok_def lru_frame_def intro: same_core_upd)
  next
    case (Cons q qs)
    obtain bq where bq: "heap c q = Some bq" using seg Cons by auto
    have qp: "q \<noteq> p" using assms(2) Cons by auto
    let ?h2 = "?h(q \<mapsto> bq\<lparr>cprev := Some p\<rparr>)"
    have "lru_push c p = Some (c\<lparr>heap := ?h2, chead := Some p\<rparr>)"
      using assms(3) hd tl Cons bq qp by (simp add: lru_push_def modify_def modify_opt_def lst_def)
    moreover have "dseg ?h2 (Some p) L None"
      using dseg_set_prev [of ?h None q qs None bq "Some p"] seg dist assms(2) Cons bq qp by simp
    then have "lru_ok (c\<lparr>heap := ?h2, chead := Some p\<rparr>) (p # L)"
      using dist assms(2) tl Cons qp by (simp add: lru_ok_def lst_def)
    moreover have "same_core (heap c) ?h2"
      using assms(3) bq qp by (simp add: same_core_def)
    ultimately show ?thesis
      by (auto simp: lru_frame_def)
  qed
qed

lemma lru_top_ok:
  assumes ok: "lru_ok c L" and p: "p \<in> set L"
  shows "\<exists>c'. lru_top c p = Some c' \<and> lru_ok c' (p # remove1 p L) \<and> lru_frame c c'"
proof (cases "chead c = Some p")
  case True
  then have "p # remove1 p L = L"
    using ok p by (cases L) (auto simp: lru_ok_def)
  then show ?thesis
    using True ok by (simp add: lru_top_def)
next
  case False
  obtain xs ys where L: "L = xs @ p # ys" and pxs: "p \<notin> set xs"
    using p by (meson split_list_first)
  have dist: "distinct (xs @ p # ys)" and seg: "dseg (heap c) None (xs @ p # ys) None"
    and tl: "ctail c = lst None (xs @ p # ys)" and hd: "chead c = nxt xs (Some p)"
    using ok L by (auto simp: lru_ok_def)
  have xs: "xs \<noteq> []" using False hd by auto
  obtain c1 b where u: "lru_unlink c p = Some c1" "dseg (heap c1) None (xs @ ys) None"
    "heap c1 p = Some b" "cprev b = lst None xs" "lru_frame c c1" "chead c1 = chead c" "ctail c1 = ctail c"
    using lru_unlink_ok [OF seg dist] by blast
  let ?c2 = "if ctail c1 = Some p then c1\<lparr>ctail := cprev b\<rparr> else c1"
  have "ctail ?c2 = lst None (xs @ ys)"
  proof (cases ys rule: rev_cases)
    case Nil
    then show ?thesis using u tl by simp
  next
    case (snoc ys' z)
    then show ?thesis using u tl dist by auto
  qed
  then have "lru_ok ?c2 (xs @ ys)"
    using u dist hd xs by (auto simp: lru_ok_def neq_Nil_conv)
  moreover have "p \<notin> set (xs @ ys)" "heap ?c2 p = Some b"
    using dist u by auto
  ultimately obtain c' where "lru_push ?c2 p = Some c'" "lru_ok c' (p # xs @ ys)" "lru_frame ?c2 c'"
    using lru_push_ok by blast
  moreover have "lru_frame c ?c2"
    using u(5) by (simp add: lru_frame_def)
  moreover have "remove1 p L = xs @ ys"
    using L pxs by (simp add: remove1_append)
  ultimately show ?thesis
    using False u by (auto simp: lru_top_def Let_def intro: lru_frame_trans)
qed

lemma lru_remove_ok:
  assumes ok: "lru_ok c L" and p: "p \<in> set L"
  shows "\<exists>c'. lru_remove c p = Some c' \<and> lru_ok c' (remove1 p L) \<and> lru_frame c c'"
proof -
  obtain xs ys where L: "L = xs @ p # ys" and pxs: "p \<notin> set xs"
    using p by (meson split_list_first)
  have dist: "distinct (xs @ p # ys)" and seg: "dseg (heap c) None (xs @ p # ys) None"
    and tl: "ctail c = lst None (xs @ p # ys)" and hd: "chead c = nxt xs (Some p)"
    using ok L by (auto simp: lru_ok_def)
  obtain c1 b where u: "lru_unlink c p = Some c1" "dseg (heap c1) None (xs @ ys) None"
    "heap c1 p = Some b" "cprev b = lst None xs" "cnext b = nxt ys None" "lru_frame c c1"
    "chead c1 = chead c" "ctail c1 = ctail c"
    using lru_unlink_ok [OF seg dist] by blast
  let ?c2 = "if chead c1 = Some p then c1\<lparr>chead := cnext b\<rparr> else c1"
  let ?c3 = "if ctail ?c2 = Some p then ?c2\<lparr>ctail := cprev b\<rparr> else ?c2"
  let ?h = "(heap c1)(p \<mapsto> b\<lparr>cprev := None, cnext := None\<rparr>)"
  have "chead ?c3 = nxt (xs @ ys) None"
    using u hd dist by (cases xs) auto
  moreover have "ctail ?c3 = lst None (xs @ ys)"
  proof (cases ys rule: rev_cases)
    case Nil
    then show ?thesis using u tl by simp
  next
    case (snoc ys' z)
    then show ?thesis using u tl dist by auto
  qed
  ultimately have "lru_ok (?c3\<lparr>heap := ?h\<rparr>) (xs @ ys)"
    using u(2) dist by (simp add: lru_ok_def)
  moreover have "lru_remove c p = Some (?c3\<lparr>heap := ?h\<rparr>)"
    using u by (simp add: lru_remove_def modify_def Let_def)
  moreover have "lru_frame c (?c3\<lparr>heap := ?h\<rparr>)"
    using u(3,6) by (auto simp: lru_frame_def intro: same_core_trans [OF _ same_core_upd])
  moreover have "remove1 p L = xs @ ys"
    using L pxs by (simp add: remove1_append)
  ultimately show ?thesis by auto
qed

section \<open>Hash chains\<close>

primrec chain :: "(nat \<rightharpoonup> gblk) \<Rightarrow> nat option \<Rightarrow> nat list \<Rightarrow> bool" where
  "chain h p [] \<longleftrightarrow> p = None"
| "chain h p (q # qs) \<longleftrightarrow> p = Some q \<and> (\<exists>b. h q = Some b \<and> chain h (hnext b) qs)"

abbreviation blk_addr :: "gblk \<Rightarrow> u64" where
  "blk_addr b \<equiv> bp_addr (blk_bp b)"

lemma chain_cong:
  "chain h p qs \<Longrightarrow>
     (\<And>q b. q \<in> set qs \<Longrightarrow> h q = Some b \<Longrightarrow> \<exists>b'. h' q = Some b' \<and> hnext b' = hnext b) \<Longrightarrow> chain h' p qs"
proof (induction qs arbitrary: p)
  case Nil
  then show ?case by simp
next
  case (Cons q qs)
  from Cons.prems(1) obtain b where b: "p = Some q" "h q = Some b" "chain h (hnext b) qs" by auto
  obtain b' where b': "h' q = Some b'" "hnext b' = hnext b"
    using Cons.prems(2) [of q b] b(2) by auto
  have "chain h' (hnext b) qs"
    using Cons.IH [OF b(3)] Cons.prems(2) by simp
  with b b' show ?case by simp
qed

lemma chain_upd_other [simp]: "p \<notin> set qs \<Longrightarrow> chain (h(p := v)) q qs = chain h q qs"
  by (induction qs arbitrary: q) auto

lemma chain_alloc: "chain h p qs \<Longrightarrow> q \<in> set qs \<Longrightarrow> \<exists>b. h q = Some b"
  by (induction qs arbitrary: p) auto

lemma chain_same_core: "chain h p qs \<Longrightarrow> same_core h h' \<Longrightarrow> chain h' p qs"
  by (erule chain_cong) (metis core_eqD(1) same_core_Some)

lemma chain_find_ok:
  "chain h p qs \<Longrightarrow>
     (\<exists>q b. chain_find h p a = Some (Some q) \<and> q \<in> set qs \<and> h q = Some b \<and> blk_addr b = a)
     \<or> (chain_find h p a = Some None \<and> (\<forall>q \<in> set qs. \<forall>b. h q = Some b \<longrightarrow> blk_addr b \<noteq> a))"
proof (induction qs arbitrary: p)
  case Nil
  then show ?case by (simp add: chain_find.simps [of h None])
next
  case (Cons q qs)
  then obtain b where b: "p = Some q" "h q = Some b" "chain h (hnext b) qs" by auto
  show ?case
  proof (cases "blk_addr b = a")
    case True
    with b have "chain_find h p a = Some (Some q)" by (simp add: chain_find.simps [of h "Some q"])
    with True b show ?thesis by simp
  next
    case False
    with b have "chain_find h p a = chain_find h (hnext b) a"
      by (simp add: chain_find.simps [of h "Some q"])
    with Cons.IH [OF b(3)] False b show ?thesis by auto
  qed
qed

lemma victim_find_ok:
  "dseg h None xs nx \<Longrightarrow>
     (\<exists>q b. victim_find h (lst None xs) = Some (Some q) \<and> q \<in> set xs \<and> h q = Some b \<and> ref b \<le> 0)
     \<or> victim_find h (lst None xs) = Some None"
proof (induction xs arbitrary: nx rule: rev_induct)
  case Nil
  then show ?case by (simp add: victim_find.simps)
next
  case (snoc q xs)
  then obtain b where b: "h q = Some b" "cprev b = lst None xs" "dseg h None xs (Some q)"
    by (auto simp: dseg_append)
  show ?case
  proof (cases "0 < ref b")
    case True
    with b have "victim_find h (lst None (xs @ [q])) = victim_find h (lst None xs)"
      by (simp add: victim_find.simps [of h "Some q"])
    with snoc.IH [OF b(3)] show ?thesis by auto
  next
    case False
    with b show ?thesis by (simp add: victim_find.simps [of h "Some q"])
  qed
qed

text \<open>Contents of a block apart from all links.\<close>

definition payload :: "gblk \<Rightarrow> gblk" where
  "payload b = b\<lparr>cnext := None, cprev := None, hnext := None\<rparr>"

definition same_payload :: "(nat \<rightharpoonup> gblk) \<Rightarrow> (nat \<rightharpoonup> gblk) \<Rightarrow> bool" where
  "same_payload h h' \<longleftrightarrow> (\<forall>p. map_option payload (h' p) = map_option payload (h p))"

lemma payload_simps [simp]:
  "payload (b\<lparr>hnext := x\<rparr>) = payload b" "payload (b\<lparr>cnext := x\<rparr>) = payload b"
  "payload (b\<lparr>cprev := x\<rparr>) = payload b"
  by (simp_all add: payload_def)

lemma payload_core: "core b = core b' \<Longrightarrow> payload b = payload b'"
  by (cases b; cases b'; simp add: core_def payload_def)

lemma same_core_payload:
  assumes "same_core h h'"
  shows "same_payload h h'"
  unfolding same_payload_def
proof
  fix p
  have "map_option core (h' p) = map_option core (h p)"
    using assms by (simp add: same_core_def)
  then show "map_option payload (h' p) = map_option payload (h p)"
    by (cases "h p"; cases "h' p") (auto intro: payload_core)
qed

lemma same_payload_refl [simp]: "same_payload h h"
  by (simp add: same_payload_def)

lemma same_payload_trans: "same_payload h h' \<Longrightarrow> same_payload h' h'' \<Longrightarrow> same_payload h h''"
  by (simp add: same_payload_def)

lemma payload_eqD:
  assumes "payload b = payload b'"
  shows "btype b' = btype b" "nval b' = nval b" "valsz b' = valsz b"
    "nbuf b' = nbuf b" "bufsz b' = bufsz b" "logsz b' = logsz b" "blk_bp b' = blk_bp b"
    "ref b' = ref b" "doff b' = doff b" "buf b' = buf b"
  using assms by (cases b; cases b'; simp add: payload_def)+

lemma same_payload_Some:
  "same_payload h h' \<Longrightarrow> h p = Some b \<Longrightarrow> \<exists>b'. h' p = Some b' \<and> payload b' = payload b"
  by (metis (no_types, lifting) map_option_eq_Some option.simps(9) same_payload_def)

lemma same_payload_sym: "same_payload h h' \<Longrightarrow> same_payload h' h"
  by (simp add: same_payload_def)

lemma same_payload_dom:
  assumes "same_payload h h'"
  shows "dom h' = dom h"
proof -
  have "h' p = None \<longleftrightarrow> h p = None" for p
    using assms by (metis option.map_disc_iff same_payload_def)
  then show ?thesis by (auto simp: dom_def)
qed

lemma same_payload_hnext:
  assumes "\<And>p b. h p = Some b \<Longrightarrow> \<exists>x. h' p = Some (b\<lparr>hnext := x\<rparr>)" and "dom h' = dom h"
  shows "same_payload h h'"
  unfolding same_payload_def
proof
  fix p
  show "map_option payload (h' p) = map_option payload (h p)"
  proof (cases "h p")
    case None
    then show ?thesis using assms(2) by (metis domIff)
  next
    case (Some b)
    then show ?thesis using assms(1) [OF Some] by auto
  qed
qed

lemma chain_splice:
  assumes "chain h q (xs @ r # v # zs)" and "distinct (xs @ r # v # zs)"
    and r: "h r = Some br" and v: "h v = Some b"
  shows "chain (h(r \<mapsto> br\<lparr>hnext := hnext b\<rparr>)) q (xs @ r # zs)"
  using assms(1,2)
proof (induction xs arbitrary: q)
  case Nil
  then have "q = Some r" "chain h (hnext b) zs" "r \<notin> set zs"
    using r v by auto
  then show ?case by (simp del: fun_upd_apply) simp
next
  case (Cons x xs)
  then show ?case by auto
qed

text \<open>Unlinking a block from its hash chain, from any point of the walk before it.\<close>

lemma chain_unlink_ok:
  "chain (heap c) (buckets c k) (ws @ us @ v # zs) \<Longrightarrow> distinct (ws @ us @ v # zs) \<Longrightarrow>
   chain (heap c) cur (us @ v # zs) \<Longrightarrow> prev = lst None ws \<Longrightarrow>
   \<exists>c'. chain_unlink c k prev cur v = Some c' \<and> chain (heap c') (buckets c' k) (ws @ us @ zs)
     \<and> (\<forall>k'. k' \<noteq> k \<longrightarrow> buckets c' k' = buckets c k')
     \<and> (\<forall>p. p \<notin> set (ws @ us) \<longrightarrow> heap c' p = heap c p)
     \<and> (\<forall>p b. heap c p = Some b \<longrightarrow> (\<exists>x. heap c' p = Some (b\<lparr>hnext := x\<rparr>)))
     \<and> dom (heap c') = dom (heap c)
     \<and> chead c' = chead c \<and> ctail c' = ctail c \<and> brk c' = brk c \<and> ccount c' = ccount c \<and> cmax c' = cmax c"
proof (induction us arbitrary: ws cur prev)
  case Nil
  then obtain b where b: "cur = Some v" "heap c v = Some b" "chain (heap c) (hnext b) zs" by auto
  have hn: "\<exists>x. heap c p = Some (ba\<lparr>hnext := x\<rparr>)" if "heap c p = Some ba" for p ba
    by (rule exI [of _ "hnext ba"]) (simp add: that)
  show ?case
  proof (cases ws rule: rev_cases)
    case Nil
    then have "chain_unlink c k prev cur v = Some (c\<lparr>buckets := (buckets c)(k := hnext b)\<rparr>)"
      using b Nil.prems(4) by (simp add: chain_unlink.simps [of c k None "Some v" v])
    then show ?thesis
      using b Nil hn by simp
  next
    case (snoc ws' r)
    have "\<exists>br. heap c r = Some br"
      using Nil.prems(1) snoc by (auto intro: chain_alloc)
    then obtain br where br: "heap c r = Some br" by blast
    let ?h = "(heap c)(r \<mapsto> br\<lparr>hnext := hnext b\<rparr>)"
    have un: "chain_unlink c k prev cur v = Some (c\<lparr>heap := ?h\<rparr>)"
      using b Nil.prems(4) snoc br by (simp add: chain_unlink.simps [of c k "Some r" "Some v" v] modify_def)
    have "chain ?h (buckets c k) (ws' @ r # zs)"
      using Nil.prems(1,2) snoc br b by (intro chain_splice) auto
    then have "chain ?h (buckets c k) (ws @ zs)"
      using snoc by simp
    moreover have "\<exists>x. ?h p = Some (ba\<lparr>hnext := x\<rparr>)" if "heap c p = Some ba" for p ba
      using that br hn by (cases "p = r") auto
    ultimately show ?thesis
      using un snoc br by (auto simp: dom_def)
  qed
next
  case (Cons u us)
  then obtain b where b: "cur = Some u" "heap c u = Some b" "chain (heap c) (hnext b) (us @ v # zs)"
    by auto
  have "u \<noteq> v" using Cons.prems(2) by auto
  then have "chain_unlink c k prev cur v = chain_unlink c k (Some u) (hnext b) v"
    using b by (simp add: chain_unlink.simps [of c k prev "Some u" v])
  moreover note Cons.IH [of "ws @ [u]" "hnext b" "Some u"]
  ultimately show ?case
    using Cons.prems b by simp
qed

end
