(* ===== verification/Store.thy ===== *)
theory Store
  imports Cache
begin

text \<open>
  The contract of the block cache. \<open>cache_inv\<close> is the structural invariant of the pointer
  structure; \<open>sees\<close> is what a client observes, the contents \<^verbatim>\<open>gefs_getblk\<close> gives at an address;
  \<open>cache_ok\<close> adds, for a list of pointers the caller currently holds, that the reference
  counts cover them and that a block which could be evicted agrees with the device. The
  locale \<open>block_store\<close> is the interface the tree code relies on, interpreted for the cache.
\<close>

section \<open>The structural invariant\<close>

text \<open>What the hash chains and the LRU list say about the set of cached addresses.\<close>

definition addrs :: "(nat \<rightharpoonup> gblk) \<Rightarrow> nat \<rightharpoonup> u64" where
  "addrs h p = map_option blk_addr (h p)"

definition index_ok :: "(nat \<rightharpoonup> u64) \<Rightarrow> nat list \<Rightarrow> (nat \<Rightarrow> nat list) \<Rightarrow> nat \<Rightarrow> bool" where
  "index_ok A L C n \<longleftrightarrow>
     (\<forall>k. distinct (C k)) \<and> (\<forall>k p. p \<in> set (C k) \<longleftrightarrow> (\<exists>a. A p = Some a \<and> cache_hash a = k))
     \<and> set L = dom A \<and> (\<forall>p \<in> dom A. p < n) \<and> inj_on A (dom A)"

definition cache_inv :: "bcache \<Rightarrow> nat list \<Rightarrow> (nat \<Rightarrow> nat list) \<Rightarrow> bool" where
  "cache_inv c L C \<longleftrightarrow>
     lru_ok c L \<and> (\<forall>k. chain (heap c) (buckets c k) (C k))
     \<and> index_ok (addrs (heap c)) L C (brk c) \<and> ccount c = int (length L)"

lemma addrs_upd [simp]:
  "addrs (h(p \<mapsto> b)) = (addrs h)(p \<mapsto> blk_addr b)" "addrs (h(p := None)) = (addrs h)(p := None)"
  by (auto simp: addrs_def)

lemma addrs_Some: "h p = Some b \<Longrightarrow> addrs h p = Some (blk_addr b)"
  by (simp add: addrs_def)

lemma dom_addrs [simp]: "dom (addrs h) = dom h"
  by (auto simp: addrs_def dom_def)

lemma addrs_payload:
  assumes "same_payload h h'"
  shows "addrs h' = addrs h"
proof
  fix p
  have "map_option payload (h' p) = map_option payload (h p)"
    using assms by (simp add: same_payload_def)
  then show "addrs h' p = addrs h p"
    by (cases "h p"; cases "h' p") (auto simp: addrs_def dest: payload_eqD(7))
qed

lemma addrs_core: "same_core h h' \<Longrightarrow> addrs h' = addrs h"
  by (intro addrs_payload same_core_payload)

lemma index_ok_remove:
  assumes "index_ok A L C n" and "distinct L" and p: "A p = Some a"
  shows "index_ok (A(p := None)) (remove1 p L) (C(cache_hash a := remove1 p (C (cache_hash a)))) n"
proof -
  have "inj_on (A(p := None)) (dom A - {p})"
    using assms(1) by (auto simp: index_ok_def inj_on_def)
  then show ?thesis
    using assms unfolding index_ok_def by (auto simp: set_remove1_eq)
qed

lemma index_ok_insert:
  assumes "index_ok A L C n" and new: "a \<notin> ran A"
  shows "index_ok (A(n \<mapsto> a)) (n # L) (C(cache_hash a := n # C (cache_hash a))) (Suc n)"
proof -
  have n: "A n = None" and nC: "n \<notin> set (C k)" for k
    using assms(1) by (auto simp: index_ok_def)
  have "inj_on (A(n \<mapsto> a)) (insert n (dom A))"
    using assms n by (auto simp: index_ok_def inj_on_def ran_def)
  then show ?thesis
    using assms n nC unfolding index_ok_def by (auto simp: less_Suc_eq)
qed

lemma cache_inv_frame:
  assumes inv: "cache_inv c L C" and frame: "lru_frame c c'" and ok: "lru_ok c' L'"
    and elems: "set L' = set L"
  shows "cache_inv c' L' C"
proof -
  have sc: "same_core (heap c) (heap c')" and rest: "brk c' = brk c" "buckets c' = buckets c"
    "ccount c' = ccount c"
    using frame by (auto simp: lru_frame_def)
  have len: "length L' = length L"
    using inv ok elems by (metis cache_inv_def distinct_card lru_ok_def)
  show ?thesis
    using inv ok elems len rest addrs_core [OF sc]
    by (auto simp: cache_inv_def index_ok_def intro: chain_same_core [OF _ sc])
qed

text \<open>Updates of a block that keep its links and its address, such as a reference count.\<close>

lemma cache_inv_modify:
  assumes inv: "cache_inv c L C" and p: "heap c p = Some b"
    and keep: "cnext b' = cnext b" "cprev b' = cprev b" "hnext b' = hnext b" "blk_addr b' = blk_addr b"
  shows "cache_inv (c\<lparr>heap := (heap c)(p \<mapsto> b')\<rparr>) L C"
proof -
  let ?h = "(heap c)(p \<mapsto> b')"
  have upd: "\<exists>bq'. ?h q = Some bq' \<and> cnext bq' = cnext bq \<and> cprev bq' = cprev bq \<and> hnext bq' = hnext bq"
    if "heap c q = Some bq" for q bq
    using that p keep by (cases "q = p") auto
  have "dseg (heap c) None L None"
    using inv by (simp add: cache_inv_def lru_ok_def)
  then have "dseg ?h None L None"
    by (rule dseg_links_cong) (use upd in blast)
  moreover have "chain ?h (buckets c k) (C k)" for k
  proof -
    have "chain (heap c) (buckets c k) (C k)" using inv by (simp add: cache_inv_def)
    then show ?thesis by (rule chain_cong) (use upd in blast)
  qed
  moreover have "addrs ?h = addrs (heap c)"
    using p keep by (auto simp: addrs_def)
  ultimately show ?thesis
    using inv unfolding cache_inv_def lru_ok_def by simp
qed

section \<open>Eviction\<close>

lemma cache_inv_unlinked:
  assumes inv: "cache_inv c L C" and p: "heap c p = Some b" and k: "k = cache_hash (blk_addr b)"
  shows "\<exists>c1. chain_unlink c k None (buckets c k) p = Some c1
     \<and> (\<forall>k'. chain (heap c1) (buckets c1 k') ((C(k := remove1 p (C k))) k'))
     \<and> lru_ok c1 L \<and> same_payload (heap c) (heap c1) \<and> brk c1 = brk c \<and> ccount c1 = ccount c
     \<and> cmax c1 = cmax c"
proof -
  have ch: "chain (heap c) (buckets c k') (C k')" "distinct (C k')" for k'
    using inv by (auto simp: cache_inv_def index_ok_def)
  have mem: "p' \<in> set (C k') \<longleftrightarrow> (\<exists>a. addrs (heap c) p' = Some a \<and> cache_hash a = k')" for p' k'
    using inv by (auto simp: cache_inv_def index_ok_def)
  have "p \<in> set (C k)" using mem addrs_Some [of "heap c", OF p] k by auto
  then obtain us zs where C: "C k = us @ p # zs" and pus: "p \<notin> set us"
    by (meson split_list_first)
  obtain c1 where c1: "chain_unlink c k None (buckets c k) p = Some c1"
    and r: "chain (heap c1) (buckets c1 k) (us @ zs)" "\<forall>k'. k' \<noteq> k \<longrightarrow> buckets c1 k' = buckets c k'"
    "\<forall>p. p \<notin> set us \<longrightarrow> heap c1 p = heap c p"
    and hn: "\<And>p b. heap c p = Some b \<Longrightarrow> \<exists>x. heap c1 p = Some (b\<lparr>hnext := x\<rparr>)"
    and dom: "dom (heap c1) = dom (heap c)"
    and rest: "chead c1 = chead c" "ctail c1 = ctail c" "brk c1 = brk c" "ccount c1 = ccount c" "cmax c1 = cmax c"
    using chain_unlink_ok [of c k "[]" us p zs "buckets c k" None] ch(1) [of k] ch(2) [of k] C by auto
  have other: "chain (heap c1) (buckets c1 k') (C k')" if "k' \<noteq> k" for k'
  proof -
    have out: "q \<notin> set us" if "q \<in> set (C k')" for q
    proof
      assume "q \<in> set us"
      then have "q \<in> set (C k)" using C by simp
      then show False using mem [of q k] mem [of q k'] that \<open>k' \<noteq> k\<close> by auto
    qed
    have "chain (heap c1) (buckets c k') (C k')"
      using ch(1) [of k'] by (rule chain_cong) (use r(3) out in auto)
    then show ?thesis using r(2) that by simp
  qed
  have "remove1 p (C k) = us @ zs"
    using C pus by (simp add: remove1_append)
  then have "chain (heap c1) (buckets c1 k') ((C(k := remove1 p (C k))) k')" for k'
    using r(1) other by simp
  moreover have "dseg (heap c1) None L None"
  proof (rule dseg_links_cong)
    show "dseg (heap c) None L None" using inv by (simp add: cache_inv_def lru_ok_def)
  qed (use hn in fastforce)
  then have "lru_ok c1 L" using inv rest by (simp add: cache_inv_def lru_ok_def)
  moreover have "same_payload (heap c) (heap c1)"
    using same_payload_hnext [OF hn dom] .
  ultimately show ?thesis
    using c1 rest by blast
qed

text \<open>
  \<^verbatim>\<open>gefs_getblk\<close>'s eviction keeps the structure; it only ever drops a block nobody holds.
\<close>

lemma evict_ok:
  assumes inv: "cache_inv c L C"
  shows "\<exists>c'. evict c = Some c' \<and> (\<exists>L' C'. cache_inv c' L' C') \<and> brk c' = brk c
     \<and> (c' = c \<or> (\<exists>p b. heap c p = Some b \<and> ref b \<le> 0 \<and> same_payload ((heap c)(p := None)) (heap c')))"
proof (cases "cmax c \<le> ccount c")
  case False
  then show ?thesis using inv by (auto simp: evict_def)
next
  case True
  have seg: "dseg (heap c) None L None" and tl: "ctail c = lst None L" and dL: "distinct L"
    using inv by (auto simp: cache_inv_def lru_ok_def)
  from victim_find_ok [OF seg] tl show ?thesis
  proof (elim disjE exE conjE)
    assume "victim_find (heap c) (lst None L) = Some None"
    then show ?thesis using True inv tl by (auto simp: evict_def)
  next
    fix p b
    assume v: "victim_find (heap c) (lst None L) = Some (Some p)" and b: "heap c p = Some b" and ref: "ref b \<le> 0"
      and pL: "p \<in> set L"
    let ?k = "cache_hash (blk_addr b)"
    let ?C = "C(?k := remove1 p (C ?k))"
    obtain c1 where c1: "chain_unlink c ?k None (buckets c ?k) p = Some c1"
      and ch: "\<And>k'. chain (heap c1) (buckets c1 k') (?C k')"
      and ok1: "lru_ok c1 L" and sp1: "same_payload (heap c) (heap c1)" and r1: "brk c1 = brk c" "ccount c1 = ccount c"
      using cache_inv_unlinked [OF inv b refl] by blast
    obtain c2 where c2: "lru_remove c1 p = Some c2" and ok2: "lru_ok c2 (remove1 p L)" and fr: "lru_frame c1 c2"
      using lru_remove_ok [OF ok1 pL] by blast
    let ?c' = "c2\<lparr>heap := (heap c2)(p := None), ccount := ccount c2 - 1\<rparr>"
    have ev: "evict c = Some ?c'"
      using True v b c1 c2 tl by (simp add: evict_def Let_def)
    have sc2: "same_core (heap c1) (heap c2)" and fr2: "brk c2 = brk c1" "buckets c2 = buckets c1" "ccount c2 = ccount c1"
      using fr by (auto simp: lru_frame_def)
    have sp: "same_payload ((heap c)(p := None)) ((heap c2)(p := None))"
      using same_payload_trans [OF sp1 same_core_payload [OF sc2]] by (simp add: same_payload_def)
    have idx: "index_ok (addrs ((heap c2)(p := None))) (remove1 p L) ?C (brk c)"
      using index_ok_remove [OF _ dL, of _ C "brk c" p "blk_addr b"] inv addrs_Some [of "heap c", OF b]
        addrs_payload [OF sp] by (simp add: cache_inv_def del: addrs_upd) (simp add: addrs_upd)
    have "p \<notin> set (?C k')" for k'
      using idx unfolding index_ok_def by auto
    then have "chain ((heap c2)(p := None)) (buckets c2 k') (?C k')" for k'
      using chain_same_core [OF ch [of k'] sc2] fr2 by simp
    moreover have "ccount c2 - 1 = int (length (remove1 p L))"
      using inv pL fr2 r1 length_pos_if_in_set [OF pL]
      by (simp add: cache_inv_def length_remove1 int_ops(6))
    moreover have "lru_ok ?c' (remove1 p L)"
      using ok2 dL by (simp add: lru_ok_def set_remove1_eq)
    ultimately have "cache_inv ?c' (remove1 p L) ?C"
      using idx fr2 r1 by (simp add: cache_inv_def)
    then show ?thesis
      using ev b ref sp fr2 r1 by (intro exI [of _ ?c']) auto
  qed
qed

section \<open>Insertion\<close>

lemma cache_insert_ok:
  assumes inv: "cache_inv c L C" and new: "blk_addr b \<notin> ran (addrs (heap c))"
  shows "\<exists>c'. cache_insert c b = Some (c', brk c) \<and> (\<exists>L' C'. cache_inv c' L' C')
     \<and> same_payload ((heap c)(brk c \<mapsto> b)) (heap c')"
proof -
  let ?p = "brk c" let ?k = "cache_hash (blk_addr b)"
  let ?b = "b\<lparr>hnext := buckets c ?k, cnext := chead c, cprev := None\<rparr>"
  let ?C = "C(?k := ?p # C ?k)"
  have ok: "lru_ok c L" and idx: "index_ok (addrs (heap c)) L C ?p"
    and ch: "\<And>k. chain (heap c) (buckets c k) (C k)" and cnt: "ccount c = int (length L)"
    using inv by (auto simp: cache_inv_def)
  have "?p \<notin> dom (addrs (heap c))"
    using idx unfolding index_ok_def by blast
  then have pL: "?p \<notin> set L" and pC: "?p \<notin> set (C k)" for k
    using idx unfolding index_ok_def by (blast, metis domI)
  let ?c1 = "c\<lparr>heap := (heap c)(?p \<mapsto> ?b), brk := Suc ?p, buckets := (buckets c)(?k := Some ?p)\<rparr>"
  have ok1: "lru_ok ?c1 L"
    using ok pL by (simp add: lru_ok_def)
  obtain c2 where c2: "lru_push ?c1 ?p = Some c2" and ok2: "lru_ok c2 (?p # L)" and fr: "lru_frame ?c1 c2"
    using lru_push_ok [OF ok1 pL, of ?b] by auto
  have swap: "x\<lparr>cprev := u, cnext := v\<rparr> = x\<lparr>cnext := v, cprev := u\<rparr>" for x :: gblk and u v
    by simp
  have ins: "cache_insert c b = Some (c2\<lparr>ccount := ccount c2 + 1\<rparr>, ?p)"
    using c2 by (auto simp: swap cache_insert_def lru_push_def modify_def modify_opt_def Let_def
        split: option.splits if_splits bind_splits)
  have sc: "same_core (heap ?c1) (heap c2)"
    using fr by (simp add: lru_frame_def)
  have "chain (heap ?c1) (buckets ?c1 k) (?C k)" for k
    using ch pC by simp
  then have "chain (heap c2) (buckets c2 k) (?C k)" for k
    using chain_same_core [OF _ sc, of "buckets ?c1 k" "?C k"] fr by (simp add: lru_frame_def)
  moreover have "index_ok (addrs (heap c2)) (?p # L) ?C (brk c2)"
    using index_ok_insert [OF idx new] addrs_core [OF sc] fr by (simp add: lru_frame_def)
  ultimately have "cache_inv (c2\<lparr>ccount := ccount c2 + 1\<rparr>) (?p # L) ?C"
    using ok2 cnt fr by (simp add: cache_inv_def lru_ok_def lru_frame_def)
  moreover have "same_payload ((heap c)(?p \<mapsto> b)) (heap c2)"
    using same_core_payload [OF sc] by (simp add: same_payload_def)
  ultimately show ?thesis using ins by auto
qed

section \<open>What a client sees\<close>

text \<open>
  The contents of a block as far as the tree code is concerned. Blocks are cached by address;
  the block pointer a cached block carries is the one it was first read with.
\<close>

definition norm :: "gblk \<Rightarrow> gblk" where
  "norm b = b\<lparr>cnext := None, cprev := None, hnext := None, ref := 0, blk_bp := zero_bptr\<rparr>"

definition cached :: "bcache \<Rightarrow> u64 \<Rightarrow> gblk option" where
  "cached c a =
     (case chain_find (heap c) (buckets c (cache_hash a)) a of Some (Some p) \<Rightarrow> heap c p | _ \<Rightarrow> None)"

definition on_disk :: "device \<Rightarrow> u64 \<Rightarrow> gblk option" where
  "on_disk d a = map_option (\<lambda>m. norm (parse_blk zero_bptr m)) (pread_blk d (sint a))"

definition view :: "device \<Rightarrow> bcache \<Rightarrow> u64 \<Rightarrow> gblk option" where
  "view d c a = (case cached c a of Some b \<Rightarrow> Some (norm b) | None \<Rightarrow> on_disk d a)"

definition held :: "nat list \<Rightarrow> nat \<Rightarrow> int" where
  "held hs p = int (count_list hs p)"

text \<open>
  \<open>hs\<close> lists the references the caller holds, \<open>S\<close> the addresses it relies on.
\<close>

definition covered :: "device \<Rightarrow> nat list \<Rightarrow> u64 set \<Rightarrow> nat \<Rightarrow> gblk \<Rightarrow> bool" where
  "covered d hs S p b \<longleftrightarrow> held hs p \<le> ref b
     \<and> (blk_addr b \<in> S \<longrightarrow> on_disk d (blk_addr b) = Some (norm b) \<or> held hs p < ref b)"

definition cache_ok :: "device \<Rightarrow> bcache \<Rightarrow> nat list \<Rightarrow> u64 set \<Rightarrow> bool" where
  "cache_ok d c hs S \<longleftrightarrow>
     (\<exists>L C. cache_inv c L C) \<and> set hs \<subseteq> dom (heap c)
     \<and> (\<forall>p b. heap c p = Some b \<longrightarrow> covered d hs S p b)"

lemma norm_payload: "payload b = payload b' \<Longrightarrow> norm b = norm b'"
  by (cases b; cases b'; simp add: norm_def payload_def)

lemma norm_simps [simp]:
  "norm (b\<lparr>ref := r\<rparr>) = norm b" "norm (b\<lparr>blk_bp := bp\<rparr>) = norm b"
  by (simp_all add: norm_def)

lemma norm_parse: "norm (parse_blk bp m) = norm (parse_blk zero_bptr m)"
  by (simp add: norm_def parse_blk_def Let_def zero_blk_def)

lemma ref_parse_blk [simp]: "ref (parse_blk bp m) = 1" and addr_parse_blk [simp]: "blk_bp (parse_blk bp m) = bp"
  by (simp_all add: parse_blk_def Let_def zero_blk_def)

lemma cached_iff:
  assumes inv: "cache_inv c L C"
  shows "cached c a = Some b \<longleftrightarrow> (\<exists>p. heap c p = Some b \<and> blk_addr b = a)"
proof -
  let ?k = "cache_hash a"
  have ch: "chain (heap c) (buckets c ?k) (C ?k)"
    and mem: "\<And>p. p \<in> set (C ?k) \<longleftrightarrow> (\<exists>a. addrs (heap c) p = Some a \<and> cache_hash a = ?k)"
    and inj: "inj_on (addrs (heap c)) (dom (heap c))"
    using inv by (auto simp: cache_inv_def index_ok_def)
  have uniq: "p = q" if "heap c p = Some b" "heap c q = Some b'" "blk_addr b = blk_addr b'" for p q b b'
    using inj_onD [OF inj, of p q] that by (auto simp: addrs_def)
  from chain_find_ok [OF ch, of a] show ?thesis
  proof (elim disjE exE conjE)
    fix q b' assume f: "chain_find (heap c) (buckets c ?k) a = Some (Some q)" "heap c q = Some b'" "blk_addr b' = a"
    have "cached c a = Some b'" using f by (simp add: cached_def)
    moreover have "b = b'" if "heap c p = Some b" "blk_addr b = a" for p
      using uniq [OF that(1) f(2)] that f by auto
    ultimately show ?thesis using f by auto
  next
    assume nf: "chain_find (heap c) (buckets c ?k) a = Some None"
      and no: "\<forall>q\<in>set (C ?k). \<forall>b. heap c q = Some b \<longrightarrow> blk_addr b \<noteq> a"
    have "blk_addr b \<noteq> a" if "heap c p = Some b" for p
      using no mem [of p] that by (auto simp: addrs_def)
    then show ?thesis using nf by (auto simp: cached_def)
  qed
qed

lemma cached_None_iff:
  assumes "cache_inv c L C"
  shows "cached c a = None \<longleftrightarrow> a \<notin> ran (addrs (heap c))"
proof -
  have "a \<in> ran (addrs (heap c)) \<longleftrightarrow> (\<exists>b p. heap c p = Some b \<and> blk_addr b = a)"
    by (auto simp: ran_def addrs_def)
  then show ?thesis using cached_iff [OF assms, of a] by (metis not_None_eq)
qed

lemma view_cached: "cache_inv c L C \<Longrightarrow> heap c p = Some b \<Longrightarrow> view d c (blk_addr b) = Some (norm b)"
  using cached_iff [of c L C "blk_addr b" b] by (auto simp: view_def)

lemma view_uncached: "cache_inv c L C \<Longrightarrow> a \<notin> ran (addrs (heap c)) \<Longrightarrow> view d c a = on_disk d a"
  using cached_None_iff [of c L C a] by (simp add: view_def)

lemma ran_addrs: "a \<in> ran (addrs h) \<longleftrightarrow> (\<exists>p b. h p = Some b \<and> blk_addr b = a)"
  by (auto simp: ran_def addrs_def)

text \<open>Address and contents of the blocks on the heap; everything else is bookkeeping.\<close>

definition contents :: "(nat \<rightharpoonup> gblk) \<Rightarrow> nat \<rightharpoonup> bptr \<times> gblk" where
  "contents h p = map_option (\<lambda>b. (blk_bp b, norm b)) (h p)"

lemma contents_upd [simp]:
  "contents (h(p \<mapsto> b)) = (contents h)(p \<mapsto> (blk_bp b, norm b))" "contents (h(p := None)) = (contents h)(p := None)"
  by (auto simp: contents_def)

lemma contents_payload:
  assumes "same_payload h h'"
  shows "contents h' = contents h"
proof
  fix p
  have "map_option payload (h' p) = map_option payload (h p)"
    using assms by (simp add: same_payload_def)
  then show "contents h' p = contents h p"
    by (cases "h p"; cases "h' p") (auto simp: contents_def dest: payload_eqD(7) norm_payload)
qed

lemma addrs_contents: "contents h' = contents h \<Longrightarrow> addrs h' = addrs h"
proof -
  have "addrs h p = map_option (\<lambda>x. bp_addr (fst x)) (contents h p)" for h p
    by (cases "h p") (simp_all add: addrs_def contents_def)
  then show "contents h' = contents h \<Longrightarrow> addrs h' = addrs h" by auto
qed

lemma contents_eqD:
  assumes "contents h' = contents h" and "h p = Some b"
  shows "\<exists>b'. h' p = Some b' \<and> blk_bp b' = blk_bp b \<and> norm b' = norm b"
proof -
  have "contents h' p = Some (blk_bp b, norm b)"
    using assms by (simp add: contents_def)
  then show ?thesis by (auto simp: contents_def)
qed

lemma view_contents:
  assumes inv: "cache_inv c L C" and inv': "cache_inv c' L' C'" and eq: "contents (heap c') = contents (heap c)"
  shows "view d c' a = view d c a"
proof (cases "a \<in> ran (addrs (heap c))")
  case True
  then obtain p b where b: "heap c p = Some b" "blk_addr b = a" by (auto simp: ran_addrs)
  then obtain b' where "heap c' p = Some b'" "blk_bp b' = blk_bp b" "norm b' = norm b"
    using contents_eqD [OF eq] by blast
  then show ?thesis using view_cached [OF inv b(1), of d] view_cached [OF inv', of p b' d] b by simp
next
  case False
  then have "a \<notin> ran (addrs (heap c'))"
    using contents_eqD [OF eq [symmetric]] by (metis ran_addrs)
  then show ?thesis using False view_uncached [OF inv] view_uncached [OF inv'] by simp
qed

lemma held_simps [simp]: "held [] p = 0" "held (q # hs) p = (if q = p then 1 + held hs p else held hs p)"
  by (simp_all add: held_def)

lemma held_nonneg [simp]: "0 \<le> held hs p"
  by (simp add: held_def)

lemma held_pos: "p \<in> set hs \<Longrightarrow> 1 \<le> held hs p"
  by (induction hs) (auto simp: add_increasing2)

lemma held_remove1: "p \<in> set hs \<Longrightarrow> held (remove1 p hs) q = held hs q - (if q = p then 1 else 0)"
  by (induction hs) auto

text \<open>Eviction, insertion and reference counting against the contract.\<close>

lemma covered_payload: "payload b = payload b' \<Longrightarrow> covered d hs S p b = covered d hs S p b'"
  using payload_eqD [of b b'] norm_payload [of b b'] by (simp add: covered_def)

lemma view_evicted:
  assumes inv: "cache_inv c L C" and inv': "cache_inv c' L' C'" and b: "heap c p = Some b"
    and sp: "same_payload ((heap c)(p := None)) (heap c')"
    and disk: "a = blk_addr b \<longrightarrow> on_disk d a = Some (norm b)"
  shows "view d c' a = view d c a"
proof (cases "a \<in> ran (addrs (heap c'))")
  case True
  then obtain q b1 where q: "heap c' q = Some b1" "blk_addr b1 = a" by (auto simp: ran_addrs)
  then obtain b0 where "heap c q = Some b0" "payload b0 = payload b1"
    using same_payload_Some [OF same_payload_sym [OF sp] q(1)] by (auto split: if_splits)
  then show ?thesis
    using q payload_eqD(7) norm_payload view_cached [OF inv, of q b0 d] view_cached [OF inv', of q b1 d] by metis
next
  case False
  have "q = p" if "heap c q = Some b0" "blk_addr b0 = a" for q b0
    using False that addrs_payload [OF sp] addrs_Some [of "heap c" q b0]
    by (metis addrs_upd(2) fun_upd_other ranI)
  then have "a = blk_addr b \<or> a \<notin> ran (addrs (heap c))"
    using b by (metis option.inject ran_addrs)
  then show ?thesis
    using disk view_cached [OF inv b, of d] view_uncached [OF inv, of a d] view_uncached [OF inv' False, of d] by auto
qed

lemma evict_contract:
  assumes ok: "cache_ok d c hs S"
  shows "\<exists>c'. evict c = Some c' \<and> cache_ok d c' hs S \<and> (\<forall>a \<in> S. view d c' a = view d c a)
     \<and> ran (addrs (heap c')) \<subseteq> ran (addrs (heap c))
     \<and> (\<forall>q \<in> set hs. contents (heap c') q = contents (heap c) q)"
proof -
  obtain L C where inv: "cache_inv c L C" using ok by (auto simp: cache_ok_def)
  obtain c' L' C' where ev: "evict c = Some c'" and inv': "cache_inv c' L' C'"
    and cs: "c' = c \<or> (\<exists>p b. heap c p = Some b \<and> ref b \<le> 0 \<and> same_payload ((heap c)(p := None)) (heap c'))"
    using evict_ok [OF inv] by blast
  show ?thesis
  proof (cases "c' = c")
    case True
    then show ?thesis using ev ok by auto
  next
    case False
    then obtain p b where b: "heap c p = Some b" "ref b \<le> 0" and sp: "same_payload ((heap c)(p := None)) (heap c')"
      using cs by blast
    have cov: "covered d hs S p b"
      using ok b(1) unfolding cache_ok_def by blast
    have h0: "held hs p = 0" using cov b(2) held_nonneg [of hs p] unfolding covered_def by linarith
    then have disk: "blk_addr b \<in> S \<longrightarrow> on_disk d (blk_addr b) = Some (norm b)"
      using cov b(2) by (auto simp: covered_def)
    have ph: "p \<notin> set hs" using h0 held_pos by force
    have "covered d hs S q b1" if q: "heap c' q = Some b1" for q b1
    proof -
      obtain b0 where "heap c q = Some b0" "payload b0 = payload b1"
        using same_payload_Some [OF same_payload_sym [OF sp] q] by (auto split: if_splits)
      then show ?thesis using ok covered_payload unfolding cache_ok_def by blast
    qed
    moreover have "set hs \<subseteq> dom (heap c')"
      using ok ph same_payload_dom [OF sp] by (auto simp: cache_ok_def)
    ultimately have "cache_ok d c' hs S"
      using inv' unfolding cache_ok_def by blast
    moreover have "\<forall>a\<in>S. view d c' a = view d c a"
      using view_evicted [OF inv inv' b(1) sp] disk by metis
    moreover have "ran (addrs (heap c')) \<subseteq> ran (addrs (heap c))"
      using addrs_payload [OF sp] by (auto simp: ran_def split: if_splits)
    moreover have "\<forall>q\<in>set hs. contents (heap c') q = contents (heap c) q"
      using contents_payload [OF sp] ph by auto
    ultimately show ?thesis using ev by blast
  qed
qed

lemma view_inserted:
  assumes inv: "cache_inv c L C" and inv': "cache_inv c' L' C'" and out: "p \<notin> dom (heap c)"
    and sp: "same_payload ((heap c)(p \<mapsto> b)) (heap c')"
  shows "view d c' a = (if a = blk_addr b then Some (norm b) else view d c a)"
proof (cases "a \<in> ran (addrs (heap c'))")
  case True
  then obtain q b1 where q: "heap c' q = Some b1" "blk_addr b1 = a" by (auto simp: ran_addrs)
  have v: "view d c' a = Some (norm b1)" using view_cached [OF inv' q(1), of d] q by simp
  obtain b0 where b0: "((heap c)(p \<mapsto> b)) q = Some b0" "payload b0 = payload b1"
    using same_payload_Some [OF same_payload_sym [OF sp] q(1)] by blast
  have n: "norm b1 = norm b0" "blk_addr b0 = a" using b0 q payload_eqD(7) norm_payload by metis+
  show ?thesis
  proof (cases "q = p")
    case True
    then show ?thesis using v n b0 by simp
  next
    case False
    then have h: "heap c q = Some b0" using b0 by simp
    have "a \<noteq> blk_addr b"
    proof
      assume "a = blk_addr b"
      then have "addrs (heap c') q = addrs (heap c') p" "q \<in> dom (addrs (heap c'))" "p \<in> dom (addrs (heap c'))"
        using addrs_payload [OF sp] h n False by (auto simp: addrs_def)
      then show False using inv' False unfolding cache_inv_def index_ok_def by (metis inj_on_def)
    qed
    then show ?thesis using v n view_cached [OF inv h, of d] by simp
  qed
next
  case False
  then have "a \<noteq> blk_addr b" "a \<notin> ran (addrs (heap c))"
    using addrs_payload [OF sp] out by (simp_all add: addrs_def domIff)
  then show ?thesis using view_uncached [OF inv] view_uncached [OF inv' False] by simp
qed

lemma cache_insert_contract:
  assumes ok: "cache_ok d c hs S" and new: "blk_addr b \<notin> ran (addrs (heap c))"
    and ref: "0 < ref b"
  shows "\<exists>c' p b'. cache_insert c b = Some (c', p) \<and> heap c' p = Some b' \<and> payload b' = payload b
     \<and> cache_ok d c' hs S
     \<and> (on_disk d (blk_addr b) = Some (norm b) \<longrightarrow> cache_ok d c' (p # hs) S)
     \<and> (\<forall>a. view d c' a = (if a = blk_addr b then Some (norm b) else view d c a))
     \<and> ran (addrs (heap c')) = insert (blk_addr b) (ran (addrs (heap c)))
     \<and> (\<forall>q \<in> set hs. contents (heap c') q = contents (heap c) q)"
proof -
  obtain L C where inv: "cache_inv c L C" using ok by (auto simp: cache_ok_def)
  let ?p = "brk c"
  obtain c' L' C' where ins: "cache_insert c b = Some (c', ?p)" and inv': "cache_inv c' L' C'"
    and sp: "same_payload ((heap c)(?p \<mapsto> b)) (heap c')"
    using cache_insert_ok [OF inv new] by blast
  obtain b' where b': "heap c' ?p = Some b'" "payload b' = payload b"
    using same_payload_Some [OF sp, of ?p b] by auto
  have out: "?p \<notin> dom (heap c)"
    using inv by (auto simp: cache_inv_def index_ok_def)
  then have ph: "?p \<notin> set hs" and h0: "held hs ?p = 0"
    using ok by (auto simp: cache_ok_def held_def count_list_0_iff)
  have cover: "covered d hs S q b1" if q: "heap c' q = Some b1" for q b1
  proof -
    obtain b0 where "((heap c)(?p \<mapsto> b)) q = Some b0" "payload b0 = payload b1"
      using same_payload_Some [OF same_payload_sym [OF sp] q] by blast
    then have "covered d hs S q b0" "payload b0 = payload b1"
      using ok ref h0 by (auto simp: cache_ok_def covered_def split: if_splits)
    then show ?thesis using covered_payload by blast
  qed
  have sub: "set hs \<subseteq> dom (heap c')"
    using ok same_payload_dom [OF sp] by (auto simp: cache_ok_def)
  have "cache_ok d c' hs S"
    using inv' cover sub unfolding cache_ok_def by blast
  moreover have "cache_ok d c' (?p # hs) S" if "on_disk d (blk_addr b) = Some (norm b)"
  proof -
    have "covered d (?p # hs) S ?p b" using that h0 ref by (simp add: covered_def)
    then have "covered d (?p # hs) S ?p b'" using covered_payload [OF b'(2)] by blast
    moreover have "covered d (?p # hs) S q b1" if "heap c' q = Some b1" "q \<noteq> ?p" for q b1
      using cover [OF that(1)] that(2) by (simp add: covered_def)
    ultimately have "covered d (?p # hs) S q b1" if "heap c' q = Some b1" for q b1
      using that b'(1) by (cases "q = ?p") auto
    then show ?thesis using inv' sub b' unfolding cache_ok_def by auto
  qed
  moreover have "ran (addrs (heap c')) = insert (blk_addr b) (ran (addrs (heap c)))"
    using addrs_payload [OF sp] out by (simp add: addrs_def domIff)
  moreover have "\<forall>q\<in>set hs. contents (heap c') q = contents (heap c) q"
    using contents_payload [OF sp] ph by auto
  ultimately show ?thesis
    using ins b' view_inserted [OF inv inv' out sp] by blast
qed

text \<open>A change of one reference count that matches the change of the held references.\<close>

lemma ref_contract:
  assumes ok: "cache_ok d c hs S" and b: "heap c p = Some b" and r: "r - held hs' p = ref b - held hs p"
    and others: "\<And>q. q \<noteq> p \<Longrightarrow> held hs' q = held hs q" and sub: "set hs' \<subseteq> dom (heap c)"
  shows "cache_ok d (c\<lparr>heap := (heap c)(p \<mapsto> b\<lparr>ref := r\<rparr>)\<rparr>) hs' S"
proof -
  obtain L C where inv: "cache_inv c L C" using ok by (auto simp: cache_ok_def)
  let ?c = "c\<lparr>heap := (heap c)(p \<mapsto> b\<lparr>ref := r\<rparr>)\<rparr>"
  have "cache_inv ?c L C" by (rule cache_inv_modify [OF inv b]) simp_all
  moreover have "covered d hs S p b" using ok b by (simp add: cache_ok_def)
  then have "covered d hs' S p (b\<lparr>ref := r\<rparr>)" using r by (auto simp: covered_def)
  moreover have "covered d hs' S q b1" if "heap c q = Some b1" "q \<noteq> p" for q b1
    using ok that others by (simp add: cache_ok_def covered_def)
  ultimately show ?thesis
    using sub b unfolding cache_ok_def by auto
qed

lemma contents_ref: "h p = Some b \<Longrightarrow> contents (h(p \<mapsto> b\<lparr>ref := r\<rparr>)) = contents h"
  by (auto simp: contents_def)

lemma lru_top_contract:
  assumes ok: "cache_ok d c hs S" and p: "p \<in> dom (heap c)"
  shows "\<exists>c'. lru_top c p = Some c' \<and> cache_ok d c' hs S \<and> contents (heap c') = contents (heap c)"
proof -
  obtain L C where inv: "cache_inv c L C" using ok by (auto simp: cache_ok_def)
  then have lru: "lru_ok c L" and pL: "p \<in> set L" using p by (auto simp: cache_inv_def index_ok_def)
  obtain c' where c': "lru_top c p = Some c'" "lru_ok c' (p # remove1 p L)" "lru_frame c c'"
    using lru_top_ok [OF lru pL] by blast
  have "distinct L" using lru by (simp add: lru_ok_def)
  then have "set (p # remove1 p L) = set L" using pL by auto
  then have inv': "cache_inv c' (p # remove1 p L) C"
    using cache_inv_frame [OF inv c'(3,2)] by simp
  have sp: "same_payload (heap c) (heap c')"
    using c'(3) same_core_payload by (simp add: lru_frame_def)
  have "covered d hs S q b1" if "heap c' q = Some b1" for q b1
    using same_payload_Some [OF same_payload_sym [OF sp], of q b1] that ok covered_payload
    unfolding cache_ok_def by metis
  then have "cache_ok d c' hs S"
    using ok inv' same_payload_dom [OF sp] unfolding cache_ok_def by blast
  then show ?thesis using c' contents_payload [OF sp] by blast
qed

lemma view_ok:
  assumes "cache_ok d c hs S" and "cache_ok d' c' hs' S'" and "contents (heap c') = contents (heap c)"
  shows "view d0 c' a = view d0 c a"
  using assms view_contents unfolding cache_ok_def by metis

lemma getblk_hit:
  assumes ok: "cache_ok d c hs S" and b: "heap c p = Some b" "blk_addr b = bp_addr bp"
  shows "\<exists>c'. getblk d c bp = Some (c', Some p) \<and> cache_ok d c' (p # hs) S \<and> contents (heap c') = contents (heap c)"
proof -
  obtain L C where inv: "cache_inv c L C" using ok by (auto simp: cache_ok_def)
  let ?k = "cache_hash (bp_addr bp)"
  have ch: "chain (heap c) (buckets c ?k) (C ?k)" using inv by (simp add: cache_inv_def)
  have "p \<in> set (C ?k)" using inv addrs_Some [of "heap c", OF b(1)] b(2) by (auto simp: cache_inv_def index_ok_def)
  then obtain q bq where q: "chain_find (heap c) (buckets c ?k) (bp_addr bp) = Some (Some q)"
    "heap c q = Some bq" "blk_addr bq = bp_addr bp"
    using chain_find_ok [OF ch, of "bp_addr bp"] b by blast
  have "q = p"
    using inv q b unfolding cache_inv_def index_ok_def by (metis addrs_Some domI inj_on_def)
  let ?c1 = "c\<lparr>heap := (heap c)(p \<mapsto> b\<lparr>ref := ref b + 1\<rparr>)\<rparr>"
  have "cache_ok d ?c1 (p # hs) S"
    using ok b(1) by (intro ref_contract [OF ok b(1)]) (auto simp: cache_ok_def)
  then obtain c' where "lru_top ?c1 p = Some c'" "cache_ok d c' (p # hs) S" "contents (heap c') = contents (heap ?c1)"
    using lru_top_contract [of d ?c1 "p # hs" S p] by auto
  then show ?thesis
    using q \<open>q = p\<close> b contents_ref [of "heap c", OF b(1)] by (simp add: getblk_def modify_def)
qed

text \<open>A miss evicts a block if the cache is full and reads the block from the device.\<close>

lemma getblk_miss:
  assumes ok: "cache_ok d c hs S" and False: "bp_addr bp \<notin> ran (addrs (heap c))"
  shows "\<exists>c' r. getblk d c bp = Some (c', r) \<and> (\<forall>a \<in> S. view d c' a = view d c a)
     \<and> (\<forall>q \<in> set hs. contents (heap c') q = contents (heap c) q)
     \<and> ran (addrs (heap c')) \<subseteq> insert (bp_addr bp) (ran (addrs (heap c)))
     \<and> (case r of None \<Rightarrow> view d c (bp_addr bp) = None \<and> cache_ok d c' hs S
        | Some p \<Rightarrow> cache_ok d c' (p # hs) S
            \<and> (\<exists>b. heap c' p = Some b \<and> view d c (bp_addr bp) = Some (norm b)))"
proof -
  obtain L C where inv: "cache_inv c L C" using ok by (auto simp: cache_ok_def)
  let ?k = "cache_hash (bp_addr bp)"
  have "chain (heap c) (buckets c ?k) (C ?k)" using inv by (simp add: cache_inv_def)
  then have miss: "chain_find (heap c) (buckets c ?k) (bp_addr bp) = Some None"
    using chain_find_ok [of "heap c" _ "C ?k" "bp_addr bp"] False by (auto simp: ran_addrs)
  obtain c1 where ev: "evict c = Some c1" and ok1: "cache_ok d c1 hs S" and v1: "\<forall>a\<in>S. view d c1 a = view d c a"
    and sub: "ran (addrs (heap c1)) \<subseteq> ran (addrs (heap c))"
    and K1: "\<forall>q \<in> set hs. contents (heap c1) q = contents (heap c) q"
    using evict_contract [OF ok] by blast
  have dv: "view d c (bp_addr bp) = on_disk d (bp_addr bp)" using view_uncached [OF inv False] .
  show ?thesis
  proof (cases "pread_blk d (sint (bp_addr bp))")
    case None
    then have "getblk d c bp = Some (c1, None)" using miss ev by (simp add: getblk_def)
    moreover have "view d c (bp_addr bp) = None" using dv None by (simp add: on_disk_def)
    moreover have "ran (addrs (heap c1)) \<subseteq> insert (bp_addr bp) (ran (addrs (heap c)))" using sub by blast
    ultimately show ?thesis using ok1 v1 K1 by (intro exI [of _ c1] exI [of _ None]) simp
  next
    case (Some m)
    let ?b = "parse_blk bp m"
    have disk: "on_disk d (blk_addr ?b) = Some (norm ?b)" using Some by (simp add: on_disk_def norm_parse [of bp])
    have new: "blk_addr ?b \<notin> ran (addrs (heap c1))" using False sub by auto
    obtain c' p b' where ins: "cache_insert c1 ?b = Some (c', p)" "heap c' p = Some b'" "payload b' = payload ?b"
      and ok': "cache_ok d c' (p # hs) S"
      and v: "\<forall>a. view d c' a = (if a = blk_addr ?b then Some (norm ?b) else view d c1 a)"
      and ra: "ran (addrs (heap c')) = insert (blk_addr ?b) (ran (addrs (heap c1)))"
      and K: "\<forall>q \<in> set hs. contents (heap c') q = contents (heap c1) q"
      using cache_insert_contract [OF ok1 new] disk by auto
    have "getblk d c bp = Some (c', Some p)" using miss ev Some ins by (simp add: getblk_def)
    moreover have "view d c (bp_addr bp) = Some (norm b')" using dv disk norm_payload [OF ins(3)] by simp
    moreover have "\<forall>a\<in>S. view d c' a = view d c a" using v v1 dv disk by auto
    moreover have "ran (addrs (heap c')) \<subseteq> insert (bp_addr bp) (ran (addrs (heap c)))" using ra sub by auto
    ultimately show ?thesis using ok' K K1 ins(2) by (intro exI [of _ c'] exI [of _ "Some p"]) auto
  qed
qed

lemma getblk_contract:
  assumes ok: "cache_ok d c hs S"
  shows "\<exists>c' r. getblk d c bp = Some (c', r) \<and> (\<forall>a \<in> S. view d c' a = view d c a)
     \<and> (\<forall>q \<in> set hs. contents (heap c') q = contents (heap c) q)
     \<and> ran (addrs (heap c')) \<subseteq> insert (bp_addr bp) (ran (addrs (heap c)))
     \<and> (case r of None \<Rightarrow> view d c (bp_addr bp) = None \<and> cache_ok d c' hs S
        | Some p \<Rightarrow> cache_ok d c' (p # hs) S
            \<and> (\<exists>b. heap c' p = Some b \<and> view d c (bp_addr bp) = Some (norm b)))"
proof (cases "bp_addr bp \<in> ran (addrs (heap c))")
  case True
  then obtain p b where b: "heap c p = Some b" "blk_addr b = bp_addr bp" by (auto simp: ran_addrs)
  obtain c' where g: "getblk d c bp = Some (c', Some p)" and ok': "cache_ok d c' (p # hs) S"
    and K: "contents (heap c') = contents (heap c)"
    using getblk_hit [OF ok b] by blast
  obtain b' where b': "heap c' p = Some b'" "blk_bp b' = blk_bp b" "norm b' = norm b"
    using contents_eqD [OF K b(1)] by blast
  have v: "view d c' a = view d c a" for a using view_ok [OF ok ok' K] .
  have "view d c (bp_addr bp) = Some (norm b')"
    using b b' view_cached ok unfolding cache_ok_def by metis
  moreover have "ran (addrs (heap c')) = ran (addrs (heap c))"
    using addrs_contents [OF K] by simp
  ultimately show ?thesis using g ok' K b' v by (intro exI [of _ c'] exI [of _ "Some p"]) auto
next
  case False
  then show ?thesis using getblk_miss [OF ok] by blast
qed

lemma holdblk_contract:
  assumes ok: "cache_ok d c hs S" and p: "p \<in> dom (heap c)"
  shows "\<exists>c'. holdblk c p = Some c' \<and> cache_ok d c' (p # hs) S \<and> contents (heap c') = contents (heap c)"
proof -
  obtain b where b: "heap c p = Some b" using p by auto
  then have "cache_ok d (c\<lparr>heap := (heap c)(p \<mapsto> b\<lparr>ref := ref b + 1\<rparr>)\<rparr>) (p # hs) S"
    using ok p by (intro ref_contract [OF ok b]) (auto simp: cache_ok_def)
  then show ?thesis using b contents_ref [of "heap c", OF b] by (simp add: holdblk_def modify_def)
qed

lemma dropblk_contract:
  assumes ok: "cache_ok d c hs S" and p: "p \<in> set hs"
  shows "\<exists>c'. dropblk c (Some p) = Some c' \<and> cache_ok d c' (remove1 p hs) S \<and> contents (heap c') = contents (heap c)"
proof -
  obtain b where b: "heap c p = Some b" using p ok by (auto simp: cache_ok_def)
  have "covered d hs S p b" using ok b unfolding cache_ok_def by blast
  then have le: "1 \<le> ref b" using held_pos [OF p] by (simp add: covered_def)
  have "cache_ok d (c\<lparr>heap := (heap c)(p \<mapsto> b\<lparr>ref := ref b - 1\<rparr>)\<rparr>) (remove1 p hs) S"
    using ok p set_remove1_subset [of p hs] by (intro ref_contract [OF ok b]) (auto simp: cache_ok_def held_remove1)
  then show ?thesis
    using b le contents_ref [of "heap c", OF b] by (simp add: dropblk_def modify_opt_def modify_def Let_def)
qed

lemma ok_mono: "cache_ok d c hs S \<Longrightarrow> S' \<subseteq> S \<Longrightarrow> cache_ok d c hs S'"
  by (auto simp: cache_ok_def covered_def)

lemma cache_init_ok: "cache_ok d (cache_init n zero_cache) [] S"
  by (auto simp: zero_cache_def cache_ok_def cache_inv_def cache_init_def lru_ok_def index_ok_def addrs_def
      intro!: exI [of _ "[]"] exI [of _ "\<lambda>_. []"])

section \<open>The interface of the block store\<close>

text \<open>
  \<^verbatim>\<open>gefs_getblk\<close> as its callers use it: a reference to a block together with the contents
  found there. A cached block is never written to while a caller holds it (the contract says
  so: \<open>contents\<close> of held blocks stays), so the contents are passed on by value.
\<close>

definition fetch :: "device \<Rightarrow> bcache \<Rightarrow> bptr \<Rightarrow> (bcache \<times> (nat \<times> gblk) option) option" where
  "fetch d c bp = do {
     (c, q) \<leftarrow> getblk d c bp;
     case q of
       None \<Rightarrow> Some (c, None)
     | Some p \<Rightarrow> do { b \<leftarrow> heap c p; Some (c, Some (p, b)) }
   }"

definition release :: "bcache \<Rightarrow> nat \<Rightarrow> bcache option" where
  "release c p = dropblk c (Some p)"

definition known :: "bcache \<Rightarrow> u64 set" where
  "known c = ran (addrs (heap c))"

primrec release_all :: "('c \<Rightarrow> nat \<Rightarrow> 'c option) \<Rightarrow> 'c \<Rightarrow> nat list \<Rightarrow> 'c option" where
  "release_all rel c [] = Some c"
| "release_all rel c (p # ps) = do { c \<leftarrow> rel c p; release_all rel c ps }"

definition apart :: "int \<Rightarrow> u64 \<Rightarrow> bool" where
  "apart w a \<longleftrightarrow> w + BLKSZ \<le> sint a \<or> sint a + BLKSZ \<le> w"

locale block_store =
  fixes fetch :: "device \<Rightarrow> 'c \<Rightarrow> bptr \<Rightarrow> ('c \<times> (nat \<times> gblk) option) option"
    and hold :: "'c \<Rightarrow> nat \<Rightarrow> 'c option"
    and release :: "'c \<Rightarrow> nat \<Rightarrow> 'c option"
    and enter :: "'c \<Rightarrow> gblk \<Rightarrow> ('c \<times> nat) option"
    and view :: "device \<Rightarrow> 'c \<Rightarrow> u64 \<Rightarrow> gblk option"
    and known :: "'c \<Rightarrow> u64 set"
    and ok :: "device \<Rightarrow> 'c \<Rightarrow> nat list \<Rightarrow> u64 set \<Rightarrow> bool"
  assumes fetch_law: "ok d c hs S \<Longrightarrow> \<exists>c' r. fetch d c bp = Some (c', r)
      \<and> (\<forall>a \<in> S. view d c' a = view d c a) \<and> known c' \<subseteq> insert (bp_addr bp) (known c)
      \<and> (case r of None \<Rightarrow> view d c (bp_addr bp) = None \<and> ok d c' hs S
         | Some (p, b) \<Rightarrow> view d c (bp_addr bp) = Some (norm b) \<and> ok d c' (p # hs) S)"
    and hold_law: "ok d c hs S \<Longrightarrow> p \<in> set hs \<Longrightarrow> \<exists>c'. hold c p = Some c' \<and> ok d c' (p # hs) S
      \<and> (\<forall>a. view d c' a = view d c a) \<and> known c' = known c"
    and release_law: "ok d c hs S \<Longrightarrow> p \<in> set hs \<Longrightarrow> \<exists>c'. release c p = Some c'
      \<and> ok d c' (remove1 p hs) S \<and> (\<forall>a. view d c' a = view d c a) \<and> known c' = known c"
    and enter_law: "ok d c hs S \<Longrightarrow> blk_addr b \<notin> known c \<Longrightarrow> 0 < ref b \<Longrightarrow>
      \<exists>c' p. enter c b = Some (c', p) \<and> ok d c' hs S \<and> known c' = insert (blk_addr b) (known c)
        \<and> (\<forall>a. view d c' a = (if a = blk_addr b then Some (norm b) else view d c a))"
    and perm_law: "ok d c hs S \<Longrightarrow> mset hs = mset hs' \<Longrightarrow> ok d c hs' S"
    and extend_law: "ok d c hs S \<Longrightarrow> A \<inter> known c = {} \<Longrightarrow> ok d c hs (S \<union> A)"
    and write_law: "ok d c hs S \<Longrightarrow> w + BLKSZ \<le> dsize d \<Longrightarrow> (\<forall>a \<in> S. apart w a) \<Longrightarrow>
      ok (pwrite_blk d w m) c hs S \<and> (\<forall>a \<in> S. view (pwrite_blk d w m) c a = view d c a)"
begin

lemma fetch_present:
  assumes "ok d c hs S" and "view d c (bp_addr bp) = Some v"
  shows "\<exists>c' p b. fetch d c bp = Some (c', Some (p, b)) \<and> norm b = v \<and> ok d c' (p # hs) S
     \<and> (\<forall>a \<in> S. view d c' a = view d c a) \<and> known c' \<subseteq> insert (bp_addr bp) (known c)"
  using fetch_law [OF assms(1), of bp] assms(2) by (auto split: option.splits prod.splits)

lemma fetch_absent:
  assumes "ok d c hs S" and "view d c (bp_addr bp) = None"
  shows "\<exists>c'. fetch d c bp = Some (c', None) \<and> ok d c' hs S
     \<and> (\<forall>a \<in> S. view d c' a = view d c a) \<and> known c' \<subseteq> insert (bp_addr bp) (known c)"
  using fetch_law [OF assms(1), of bp] assms(2)
  by (auto split: option.splits prod.splits simp: not_Some_eq [symmetric] simp del: not_Some_eq)

text \<open>Releasing what was fetched gives back a store in which the same references are held.\<close>

lemma release_all_law:
  assumes "ok d c (ps @ hs) S"
  shows "\<exists>c'. release_all release c ps = Some c' \<and> ok d c' hs S
     \<and> (\<forall>a. view d c' a = view d c a) \<and> known c' = known c"
  using assms
proof (induction ps arbitrary: c)
  case Nil
  then show ?case by simp
next
  case (Cons p ps)
  then obtain c1 where "release c p = Some c1" "ok d c1 (ps @ hs) S" "\<forall>a. view d c1 a = view d c a" "known c1 = known c"
    using release_law [OF Cons.prems, of p] by auto
  then show ?case using Cons.IH [of c1] by auto
qed

lemma fetch_release:
  assumes "ok d c hs S" and "view d c (bp_addr bp) = Some v"
  shows "\<exists>c1 c2 p b. fetch d c bp = Some (c1, Some (p, b)) \<and> release c1 p = Some c2 \<and> norm b = v
     \<and> ok d c2 hs S \<and> (\<forall>a \<in> S. view d c2 a = view d c a) \<and> known c2 \<subseteq> insert (bp_addr bp) (known c)"
proof -
  obtain c1 p b where f: "fetch d c bp = Some (c1, Some (p, b))" "norm b = v" "ok d c1 (p # hs) S"
    "\<forall>a \<in> S. view d c1 a = view d c a" "known c1 \<subseteq> insert (bp_addr bp) (known c)"
    using fetch_present [OF assms] by blast
  moreover obtain c2 where "release c1 p = Some c2" "ok d c2 hs S" "\<forall>a. view d c2 a = view d c1 a" "known c2 = known c1"
    using release_law [OF f(3), of p] by auto
  ultimately show ?thesis by (intro exI [of _ c1] exI [of _ c2]) auto
qed

end

section \<open>The block cache implements the interface\<close>

lemma fetch_contract:
  assumes "cache_ok d c hs S"
  shows "\<exists>c' r. fetch d c bp = Some (c', r)
      \<and> (\<forall>a \<in> S. view d c' a = view d c a) \<and> known c' \<subseteq> insert (bp_addr bp) (known c)
      \<and> (case r of None \<Rightarrow> view d c (bp_addr bp) = None \<and> cache_ok d c' hs S
         | Some (p, b) \<Rightarrow> view d c (bp_addr bp) = Some (norm b) \<and> cache_ok d c' (p # hs) S)"
proof -
  obtain c' r where g: "getblk d c bp = Some (c', r)" "\<forall>a \<in> S. view d c' a = view d c a"
    "ran (addrs (heap c')) \<subseteq> insert (bp_addr bp) (ran (addrs (heap c)))"
    and r: "case r of None \<Rightarrow> view d c (bp_addr bp) = None \<and> cache_ok d c' hs S
        | Some p \<Rightarrow> cache_ok d c' (p # hs) S \<and> (\<exists>b. heap c' p = Some b \<and> view d c (bp_addr bp) = Some (norm b))"
    using getblk_contract [OF assms, of bp] by blast
  show ?thesis
  proof (cases r)
    case None
    then show ?thesis using g r by (simp add: fetch_def known_def)
  next
    case (Some p)
    then show ?thesis using g r by (auto simp: fetch_def known_def)
  qed
qed

lemma pread_pwrite_same: "0 \<le> a \<Longrightarrow> pread_blk (pwrite_blk d a m) a = Some (\<lambda>i. if 0 \<le> i \<and> i < BLKSZ then m i else 0)"
  by (auto simp: pread_blk_def pwrite_blk_def wr_def intro!: ext)

lemma pread_pwrite_apart:
  assumes "a + BLKSZ \<le> b \<or> b + BLKSZ \<le> a" and "a + BLKSZ \<le> dsize d"
  shows "pread_blk (pwrite_blk d a m) b = pread_blk d b"
  using assms by (auto simp: pread_blk_def pwrite_blk_def wr_outside intro!: ext)

lemma write_contract:
  assumes ok: "cache_ok d c hs S" and w: "w + BLKSZ \<le> dsize d" and S: "\<forall>a \<in> S. apart w a"
  shows "cache_ok (pwrite_blk d w m) c hs S \<and> (\<forall>a \<in> S. view (pwrite_blk d w m) c a = view d c a)"
proof -
  have "on_disk (pwrite_blk d w m) a = on_disk d a" if "a \<in> S" for a
    using pread_pwrite_apart [OF _ w, of "sint a"] S that by (auto simp: on_disk_def apart_def)
  then show ?thesis
    using ok by (auto simp: cache_ok_def covered_def view_def split: option.splits)
qed

lemma hold_contract:
  assumes ok: "cache_ok d c hs S" and p: "p \<in> set hs"
  shows "\<exists>c'. holdblk c p = Some c' \<and> cache_ok d c' (p # hs) S \<and> (\<forall>a. view d c' a = view d c a) \<and> known c' = known c"
proof -
  have "p \<in> dom (heap c)" using assms by (auto simp: cache_ok_def)
  from holdblk_contract [OF ok this] show ?thesis
    using view_ok [OF ok] addrs_contents by (metis known_def)
qed

lemma release_contract:
  assumes ok: "cache_ok d c hs S" and p: "p \<in> set hs"
  shows "\<exists>c'. release c p = Some c' \<and> cache_ok d c' (remove1 p hs) S \<and> (\<forall>a. view d c' a = view d c a) \<and> known c' = known c"
  using dropblk_contract [OF assms] view_ok [OF ok] addrs_contents by (metis known_def release_def)

lemma enter_contract:
  assumes "cache_ok d c hs S" and "blk_addr b \<notin> known c" and "0 < ref b"
  shows "\<exists>c' p. cache_insert c b = Some (c', p) \<and> cache_ok d c' hs S \<and> known c' = insert (blk_addr b) (known c)
     \<and> (\<forall>a. view d c' a = (if a = blk_addr b then Some (norm b) else view d c a))"
  using cache_insert_contract [OF assms(1) _ assms(3)] assms(2) unfolding known_def by blast

lemma perm_contract: "cache_ok d c hs S \<Longrightarrow> mset hs = mset hs' \<Longrightarrow> cache_ok d c hs' S"
  by (auto simp: cache_ok_def covered_def held_def count_mset [symmetric] dest: mset_eq_setD)

lemma extend_contract:
  assumes "cache_ok d c hs S" and "A \<inter> known c = {}"
  shows "cache_ok d c hs (S \<union> A)"
proof -
  have "blk_addr b \<notin> A" if "heap c p = Some b" for p b
    using assms(2) that by (auto simp: known_def set_eq_iff ran_addrs)
  then show ?thesis using assms(1) by (auto simp: cache_ok_def covered_def)
qed

interpretation bstore: block_store fetch holdblk release cache_insert view known cache_ok
  by unfold_locales
    (fact fetch_contract hold_contract release_contract enter_contract perm_contract extend_contract write_contract)+

end
