(* ===== verification/Btree.thy ===== *)
theory Btree
  imports Store
begin

text \<open>
  Messages and tree lookup (\<^verbatim>\<open>statupdate\<close>, \<^verbatim>\<open>apply_msg\<close> and \<^verbatim>\<open>gefs_btlookup\<close> of
  \<^verbatim>\<open>src/src/gefs_storage.c\<close>). A lookup descends from the root along the pivots, searches the
  leaf and then applies the pending messages of the pivots from the bottom to the top.

  The result structure \<^verbatim>\<open>r\<close> of a lookup starts out uninitialised, then points into a block and
  is copied to the caller's buffer when the key is found; \<open>found\<close> records which. Updating a
  stat entry in place while \<^verbatim>\<open>r\<close> points into a cached block would write to that block; this
  and reading an uninitialised \<^verbatim>\<open>r\<close> are \<open>None\<close>.

  \<open>tree_at\<close> relates the blocks seen through the store to an abstract tree of entries and
  messages, and \<open>tree_get\<close> is the map such a tree denotes.
\<close>

section \<open>Messages\<close>

definition cpkvp :: "nat \<Rightarrow> kvp \<Rightarrow> kvp option" where
  "cpkvp n kv = (if length (kv_k kv) + length (kv_v kv) \<le> n then Some kv else None)"

fun take_fld :: "bool \<Rightarrow> nat \<Rightarrow> (byte list \<Rightarrow> xdir \<Rightarrow> xdir) \<Rightarrow> byte list \<times> xdir \<Rightarrow> (byte list \<times> xdir) option" where
  "take_fld on n upd (v, d) =
     (if \<not> on then Some (v, d)
      else if length v < n then None
      else Some (drop n v, upd (take n v) d))"

definition statupdate :: "kvp \<Rightarrow> gmsg \<Rightarrow> kvp option" where
  "statupdate kv m = do {
     d \<leftarrow> kv2dir kv;
     let v = m_v m;
     f \<leftarrow> (if length v < 4 then None else Some (unpack32 (take 4 v)));
     x \<leftarrow> take_fld (bit f 0) 8 (\<lambda>bs d. d\<lparr>xlength := unpack64 bs\<rparr>) (drop 4 v, d);
     x \<leftarrow> take_fld (bit f 1) 4 (\<lambda>bs d. d\<lparr>xmode := unpack32 bs\<rparr>) x;
     x \<leftarrow> take_fld (bit f 2) 8 (\<lambda>bs d. d\<lparr>xmtime := unpack64 bs\<rparr>) x;
     x \<leftarrow> take_fld (bit f 3) 8 (\<lambda>bs d. d\<lparr>xatime := unpack64 bs\<rparr>) x;
     x \<leftarrow> take_fld (bit f 4) 4 (\<lambda>bs d. d\<lparr>xuid := unpack32 bs\<rparr>) x;
     x \<leftarrow> take_fld (bit f 5) 4 (\<lambda>bs d. d\<lparr>xgid := unpack32 bs\<rparr>) x;
     (v, d) \<leftarrow> take_fld (bit f 6) 4 (\<lambda>bs d. d\<lparr>xmuid := unpack32 bs\<rparr>) x;
     Some (kv\<lparr>kv_v := packdval_bytes d @ drop 61 (kv_v kv)\<rparr>)
   }"

datatype found = Unset | InBlk kvp | InBuf kvp

primrec found_kv :: "found \<Rightarrow> kvp option" where
  "found_kv Unset = None"
| "found_kv (InBlk kv) = Some kv"
| "found_kv (InBuf kv) = Some kv"

definition apply_msg :: "nat \<Rightarrow> found \<Rightarrow> gmsg \<Rightarrow> (bool \<times> found) option" where
  "apply_msg n r m =
     (if m_op m \<in> {ODELETE, OCLEARB, OCLOBBER} then Some (False, r)
      else if m_op m = OINSERT then do {
        kv \<leftarrow> cpkvp n \<lparr>kv_k = m_k m, kv_v = m_v m\<rparr>;
        Some (True, InBuf kv)
      }
      else if m_op m = OWSTAT then
        (case r of
           Unset \<Rightarrow> None
         | InBlk kv \<Rightarrow> if keycmp (kv_k kv) (m_k m) = 0 then None else Some (True, r)
         | InBuf kv \<Rightarrow>
             if keycmp (kv_k kv) (m_k m) = 0 then do { kv \<leftarrow> statupdate kv m; Some (True, InBuf kv) }
             else Some (True, r))
      else Some (True, r))"

section \<open>Lookup\<close>

text \<open>
  The descent \<^verbatim>\<open>for (i = 1; i < h; i++)\<close>. The result is the part of \<^verbatim>\<open>p\<close> below the root that
  was filled in; the rest of the array is \<^verbatim>\<open>NULL\<close>.
\<close>

fun descend :: "nat \<Rightarrow> device \<Rightarrow> bcache \<Rightarrow> gblk \<Rightarrow> key \<Rightarrow> found
    \<Rightarrow> (bcache \<times> (nat \<times> gblk) list \<times> found) option" where
  "descend 0 d c b k r = Some (c, [], r)"
| "descend (Suc n) d c b k r = do {
     (ri, same, e) \<leftarrow> blksearch b k;
     if ri = - 1 then Some (c, [], r)
     else do {
       kv \<leftarrow> e;
       bp \<leftarrow> unpackbp (kv_v kv);
       (c, q) \<leftarrow> fetch d c bp;
       case q of
         None \<Rightarrow> Some (c, [], InBlk kv)
       | Some (p, b') \<Rightarrow> do {
           (c, ps, r) \<leftarrow> descend n d c b' k (InBlk kv);
           Some (c, (p, b') # ps, r)
         }
     }
   }"

function apply_rest :: "nat \<Rightarrow> key \<Rightarrow> gblk \<Rightarrow> int \<Rightarrow> bool \<times> found \<Rightarrow> (bool \<times> found) option" where
  "apply_rest n k b j st =
     (if j < nbuf b then
        (case getmsg b j of
           None \<Rightarrow> None
         | Some m \<Rightarrow>
             if keycmp k (m_k m) \<noteq> 0 then Some st
             else (case apply_msg n (snd st) m of
                 None \<Rightarrow> None
               | Some st' \<Rightarrow> apply_rest n k b (j + 1) st'))
      else Some st)"
  by pat_completeness auto
termination
  by (relation "measure (\<lambda>(n, k, b, j, st). nat (nbuf b - j))") auto

declare apply_rest.simps [simp del]

definition apply_node :: "nat \<Rightarrow> key \<Rightarrow> gblk \<Rightarrow> bool \<times> found \<Rightarrow> (bool \<times> found) option" where
  "apply_node n k b st = do {
     (j, same, m) \<leftarrow> bufsearch b k;
     if j < 0 \<or> \<not> same then Some st
     else do {
       m \<leftarrow> m;
       st \<leftarrow> (if fst st \<or> m_op m = OINSERT then apply_msg n (snd st) m else Some st);
       apply_rest n k b (j + 1) st
     }
   }"

primrec apply_nodes :: "nat \<Rightarrow> key \<Rightarrow> gblk list \<Rightarrow> bool \<times> found \<Rightarrow> (bool \<times> found) option" where
  "apply_nodes n k [] st = Some st"
| "apply_nodes n k (b # bs) st = do { st \<leftarrow> apply_node n k b st; apply_nodes n k bs st }"

text \<open>
  \<^verbatim>\<open>gefs_btlookup\<close> with \<open>n\<close> the size of the caller's buffer. For a negative height \<^verbatim>\<open>calloc\<close> is
  asked for an impossible size and fails; for height 0 the array has no first element. A
  result that is reported found while \<^verbatim>\<open>r\<close> is still uninitialised is \<open>None\<close>: every caller
  reads it.
\<close>

definition leaf_found :: "nat \<Rightarrow> gblk \<Rightarrow> key \<Rightarrow> found \<Rightarrow> (bool \<times> found) option" where
  "leaf_found n b k r = do {
     (_, ok, e) \<leftarrow> blksearch b k;
     let r = (case e of None \<Rightarrow> r | Some kv \<Rightarrow> InBlk kv);
     if ok then do { kv \<leftarrow> found_kv r; kv \<leftarrow> cpkvp n kv; Some (True, InBuf kv) }
     else Some (False, r)
   }"

definition btlookup :: "device \<Rightarrow> bcache \<Rightarrow> gtree \<Rightarrow> key \<Rightarrow> nat \<Rightarrow> (bcache \<times> kvp option) option" where
  "btlookup d c t k n = do {
     let h = sint (t_ht t);
     (c, q) \<leftarrow> fetch d c (t_bp t);
     case q of
       None \<Rightarrow> Some (c, None)
     | Some (p0, b0) \<Rightarrow>
         if h < 0 then do { c \<leftarrow> release c p0; Some (c, None) }
         else if h = 0 then None
         else do {
           c \<leftarrow> holdblk c p0;
           (c, ps, r) \<leftarrow> descend (nat h - 1) d c b0 k Unset;
           let path = (p0, b0) # ps;
           st \<leftarrow> (if length path = nat h then leaf_found n (snd (last path)) k r else Some (False, r));
           (ok, r) \<leftarrow> apply_nodes n k (rev (map snd (take (nat h - 1) path))) st;
           c \<leftarrow> release_all release c (map fst path @ [p0]);
           if ok then do { kv \<leftarrow> found_kv r; Some (c, Some kv) } else Some (c, None)
         }
   }"

section \<open>The map a tree denotes\<close>

datatype atree = ALeaf "kvp list" | APivot "(key \<times> atree) list" "gmsg list"

definition drops :: "gmsg \<Rightarrow> bool" where
  "drops m \<longleftrightarrow> m_op m \<in> {ODELETE, OCLEARB, OCLOBBER}"

text \<open>The effect of a message on the value of its key.\<close>

definition msg_eff :: "gmsg \<Rightarrow> kvp option \<Rightarrow> kvp option option" where
  "msg_eff m r =
     (if drops m then Some None
      else if m_op m = OINSERT then Some (Some \<lparr>kv_k = m_k m, kv_v = m_v m\<rparr>)
      else case r of
          None \<Rightarrow> Some None
        | Some kv \<Rightarrow> if m_op m = OWSTAT then map_option Some (statupdate kv m) else Some (Some kv))"

fun run_msgs :: "gmsg list \<Rightarrow> kvp option \<Rightarrow> kvp option option" where
  "run_msgs [] r = Some r"
| "run_msgs (m # ms) r = Option.bind (msg_eff m r) (run_msgs ms)"

definition child :: "key \<Rightarrow> (key \<times> 'a) list \<Rightarrow> 'a option" where
  "child k kids =
     (let ks = takeWhile (\<lambda>x. fst x \<le> k) kids in if ks = [] then None else Some (snd (last ks)))"

definition for_key :: "key \<Rightarrow> gmsg list \<Rightarrow> gmsg list" where
  "for_key k ms = filter (\<lambda>m. m_k m = k) ms"

lemma child_in_set: "child k kids = Some t \<Longrightarrow> \<exists>s. (s, t) \<in> set kids"
proof -
  assume "child k kids = Some t"
  then have "takeWhile (\<lambda>x. fst x \<le> k) kids \<noteq> []" "t = snd (last (takeWhile (\<lambda>x. fst x \<le> k) kids))"
    by (auto simp: child_def Let_def split: if_splits)
  then show ?thesis by (metis last_in_set prod.collapse set_takeWhileD)
qed

function tree_get :: "atree \<Rightarrow> key \<Rightarrow> kvp option option" where
  "tree_get (ALeaf es) k = Some (find (\<lambda>e. kv_k e = k) es)"
| "tree_get (APivot kids ms) k =
     (case child k kids of
        None \<Rightarrow> run_msgs (for_key k ms) None
      | Some t \<Rightarrow> Option.bind (tree_get t k) (run_msgs (for_key k ms)))"
  by pat_completeness auto
termination
proof (relation "measure (\<lambda>(t, k). size t)")
  fix kids :: "(key \<times> atree) list" and ms :: "gmsg list" and k t
  assume "child k kids = Some t"
  from child_in_set [OF this] obtain s where "(s, t) \<in> set kids" ..
  then have "size t < Suc (size_list (size_prod (\<lambda>_. 0) size) kids)"
    by (induction kids) auto
  then show "((t, k), (APivot kids ms, k)) \<in> measure (\<lambda>(t, k). size t)" by simp
qed simp

text \<open>
  What the code needs of the pending messages of a key: everything fits the caller's buffer,
  a stat message carries the fields its flags announce (\<open>run_msgs\<close> is defined), and after a
  deletion only an insertion or another deletion follows. \<^verbatim>\<open>gefs_btlookup\<close> does not check the
  last point: it reports a key as present after a deletion followed by a stat message.
\<close>

fun tame :: "nat \<Rightarrow> gmsg list \<Rightarrow> kvp option \<Rightarrow> bool" where
  "tame n [] r = True"
| "tame n (m # ms) r \<longleftrightarrow>
     (m_op m = OINSERT \<longrightarrow> length (m_k m) + length (m_v m) \<le> n)
     \<and> (case msg_eff m r of
          None \<Rightarrow> False
        | Some r' \<Rightarrow> (r' = None \<and> ms \<noteq> [] \<longrightarrow> drops (hd ms) \<or> m_op (hd ms) = OINSERT) \<and> tame n ms r')"

function tree_tame :: "nat \<Rightarrow> atree \<Rightarrow> key \<Rightarrow> bool" where
  "tree_tame n (ALeaf es) k \<longleftrightarrow> (\<forall>e \<in> set es. kv_k e = k \<longrightarrow> length (kv_k e) + length (kv_v e) \<le> n)"
| "tree_tame n (APivot kids ms) k \<longleftrightarrow>
     (case child k kids of
        None \<Rightarrow> tame n (for_key k ms) None
      | Some t \<Rightarrow> tree_tame n t k
          \<and> (case tree_get t k of None \<Rightarrow> False | Some r \<Rightarrow> tame n (for_key k ms) r))"
  by pat_completeness auto
termination
proof (relation "measure (\<lambda>(n, t, k). size t)")
  fix n kids ms k t
  assume "child k kids = Some (t :: atree)"
  from child_in_set [OF this] obtain s where "(s, t) \<in> set kids" ..
  then have "size t < Suc (size_list (size_prod (\<lambda>_. 0) size) kids)"
    by (induction kids) auto
  then show "((n, t, k), (n, APivot kids ms, k)) \<in> measure (\<lambda>(n, t, k). size t)" by simp
qed simp

inductive tree_at :: "(u64 \<Rightarrow> gblk option) \<Rightarrow> nat \<Rightarrow> u64 \<Rightarrow> atree \<Rightarrow> bool" for V where
  leaf: "V a = Some b \<Longrightarrow> btype b = TLEAF \<Longrightarrow> blk_vals b es \<Longrightarrow> sorted (map kv_k es) \<Longrightarrow> distinct (map kv_k es) \<Longrightarrow>
     tree_at V 1 a (ALeaf es)"
| pivot: "0 < h \<Longrightarrow> V a = Some b \<Longrightarrow> btype b = TPIVOT \<Longrightarrow> blk_vals b es \<Longrightarrow> sorted (map kv_k es) \<Longrightarrow> distinct (map kv_k es) \<Longrightarrow>
     msgs_rep b ms \<Longrightarrow> sorted (map m_k ms) \<Longrightarrow> map fst kids = map kv_k es \<Longrightarrow>
     (\<And>i. i < length es \<Longrightarrow> unpackbp (kv_v (es ! i)) = Some (bps i) \<and> tree_at V h (bp_addr (bps i)) (snd (kids ! i))) \<Longrightarrow>
     tree_at V (Suc h) a (APivot kids ms)"

inductive_cases tree_at_leafE: "tree_at V h a (ALeaf es)"
inductive_cases tree_at_pivotE: "tree_at V h a (APivot kids ms)"

section \<open>Applying messages\<close>

definition st_rel :: "key \<Rightarrow> bool \<times> found \<Rightarrow> kvp option \<Rightarrow> bool" where
  "st_rel k st r \<longleftrightarrow>
     (case r of None \<Rightarrow> \<not> fst st | Some kv \<Rightarrow> st = (True, InBuf kv) \<and> kv_k kv = k)"

lemma statupdate_key: "statupdate kv m = Some kv' \<Longrightarrow> kv_k kv' = kv_k kv"
  by (clarsimp simp: statupdate_def Let_def bind_eq_Some_conv)

lemma apply_msg_rel:
  assumes st: "st_rel k st r" and k: "m_k m = k" and eff: "msg_eff m r = Some r'"
    and sz: "m_op m = OINSERT \<longrightarrow> length (m_k m) + length (m_v m) \<le> n"
    and live: "r = None \<longrightarrow> drops m \<or> m_op m = OINSERT"
  shows "\<exists>st'. apply_msg n (snd st) m = Some st' \<and> st_rel k st' r'"
proof (cases "drops m \<or> m_op m = OINSERT")
  case True
  then consider (drop) "drops m" | (ins) "\<not> drops m" "m_op m = OINSERT" by blast
  then show ?thesis
  proof cases
    case drop
    then have "apply_msg n (snd st) m = Some (False, snd st)" "r' = None"
      using eff by (simp_all add: apply_msg_def msg_eff_def drops_def)
    then show ?thesis by (simp add: st_rel_def)
  next
    case ins
    let ?kv = "\<lparr>kv_k = m_k m, kv_v = m_v m\<rparr>"
    have "apply_msg n (snd st) m = Some (True, InBuf ?kv)"
      using ins sz by (simp add: apply_msg_def cpkvp_def)
    moreover have "r' = Some ?kv" using eff ins by (simp add: msg_eff_def)
    ultimately show ?thesis using k by (simp add: st_rel_def)
  qed
next
  case False
  then obtain kv where r: "r = Some kv" using live by (cases r) auto
  then have "st = (True, InBuf kv)" "kv_k kv = k" using st by (auto simp: st_rel_def)
  then show ?thesis using False r eff k statupdate_key [of kv m]
    by (auto simp: apply_msg_def msg_eff_def drops_def st_rel_def keycmp_iff simp del: split_paired_Ex
        split: if_splits)
qed

text \<open>A stat message behind a deletion: the key is reported as present again, with its old entry.\<close>

lemma stat_revives:
  assumes "drops m" and "m_op w = OWSTAT" and "m_k w = kv_k kv" and "statupdate kv w = Some kv'"
  shows "apply_msg n (InBuf kv) m = Some (False, InBuf kv)" and "apply_msg n (InBuf kv) w = Some (True, InBuf kv')"
    and "run_msgs [m, w] (Some kv) = Some None"
  using assms by (auto simp: apply_msg_def drops_def msg_eff_def keycmp_iff)

lemma apply_rest_rel:
  assumes rep: "msgs_rep b ms"
  shows "j \<le> length ms \<Longrightarrow> st_rel k st r \<Longrightarrow> seg = takeWhile (\<lambda>m. m_k m = k) (drop j ms) \<Longrightarrow>
     tame n seg r \<Longrightarrow> (r = None \<and> seg \<noteq> [] \<longrightarrow> drops (hd seg) \<or> m_op (hd seg) = OINSERT) \<Longrightarrow>
     \<exists>st' r'. apply_rest n k b (int j) st = Some st' \<and> run_msgs seg r = Some r' \<and> st_rel k st' r'"
proof (induction seg arbitrary: j st r)
  case Nil
  have "apply_rest n k b (int j) st = Some st"
  proof (cases "j < length ms")
    case True
    then have "drop j ms = ms ! j # drop (Suc j) ms" by (simp add: Cons_nth_drop_Suc)
    then have "m_k (ms ! j) \<noteq> k" using Nil.prems(3) by (auto split: if_splits)
    then show ?thesis using rep True by (subst apply_rest.simps) (auto simp: msgs_rep_def keycmp_iff)
  next
    case False
    then show ?thesis using rep by (subst apply_rest.simps) (simp add: msgs_rep_def)
  qed
  then show ?case using Nil.prems(2) by simp
next
  case (Cons m seg)
  then have j: "j < length ms" by (cases "j < length ms") auto
  have "drop j ms = ms ! j # drop (Suc j) ms" using j by (simp add: Cons_nth_drop_Suc)
  then have m: "m = ms ! j" "m_k m = k" "seg = takeWhile (\<lambda>m. m_k m = k) (drop (Suc j) ms)"
    using Cons.prems(3) by (auto split: if_splits)
  obtain r1 where eff: "msg_eff m r = Some r1" and tm: "tame n seg r1"
    and sz: "m_op m = OINSERT \<longrightarrow> length (m_k m) + length (m_v m) \<le> n"
    and nx: "r1 = None \<and> seg \<noteq> [] \<longrightarrow> drops (hd seg) \<or> m_op (hd seg) = OINSERT"
    using Cons.prems(4) by (auto split: option.splits)
  obtain st1 where ap: "apply_msg n (snd st) m = Some st1" and st1: "st_rel k st1 r1"
    using apply_msg_rel [OF Cons.prems(2) m(2) eff sz] Cons.prems(5) by auto
  have "apply_rest n k b (int j) st = apply_rest n k b (int (Suc j)) st1"
    using rep j m ap by (subst apply_rest.simps) (simp add: msgs_rep_def keycmp_iff add.commute)
  then show ?case
    using Cons.IH [OF _ st1 m(3) tm nx] j eff by simp
qed

lemma for_key_sorted:
  assumes "sorted (map m_k ms)"
  shows "for_key k ms = takeWhile (\<lambda>m. m_k m = k) (drop (below k (map m_k ms)) ms)"
  using assms
proof (induction ms)
  case Nil
  then show ?case by (simp add: for_key_def below_def)
next
  case (Cons m ms)
  show ?case
  proof (cases "m_k m < k")
    case True
    then show ?thesis using Cons by (auto simp: for_key_def below_def)
  next
    case False
    have "for_key k xs = takeWhile (\<lambda>m. m_k m = k) xs" if "sorted (map m_k xs)" "\<forall>x\<in>set xs. \<not> m_k x < k" for xs
      using that
    proof (induction xs)
      case (Cons x xs)
      show ?case
      proof (cases "m_k x = k")
        case True
        then show ?thesis using Cons by (simp add: for_key_def)
      next
        case False
        then have "\<forall>y\<in>set xs. k < m_k y" using Cons.prems by fastforce
        then show ?thesis using False by (auto simp: for_key_def filter_empty_conv)
      qed
    qed (simp add: for_key_def)
    then show ?thesis using False Cons.prems by (fastforce simp: below_def)
  qed
qed

lemma apply_node_rel:
  assumes rep: "msgs_rep b ms" and srt: "sorted (map m_k ms)" and st: "st_rel k st r"
    and tm: "tame n (for_key k ms) r"
  shows "\<exists>st' r'. apply_node n k b st = Some st' \<and> run_msgs (for_key k ms) r = Some r' \<and> st_rel k st' r'"
proof (cases "k \<in> m_k ` set ms")
  case False
  then have "for_key k ms = []" by (auto simp: for_key_def filter_empty_conv)
  moreover have "apply_node n k b st = Some st"
    using messages.search_absent [OF rep srt False] by (simp add: apply_node_def bufsearch_def)
  ultimately show ?thesis using st by simp
next
  case True
  let ?i = "below k (map m_k ms)"
  have srch: "bufsearch b k = Some (int ?i, True, Some (ms ! ?i))" and i: "?i < length ms" "m_k (ms ! ?i) = k"
    using messages.search_found [OF rep srt True] by (auto simp: bufsearch_def)
  let ?seg = "takeWhile (\<lambda>m. m_k m = k) (drop (Suc ?i) ms)"
  have fk: "for_key k ms = ms ! ?i # ?seg"
    using for_key_sorted [OF srt, of k] i by (simp add: Cons_nth_drop_Suc [symmetric])
  obtain r1 where eff: "msg_eff (ms ! ?i) r = Some r1" and tm1: "tame n ?seg r1"
    and sz: "m_op (ms ! ?i) = OINSERT \<longrightarrow> length (m_k (ms ! ?i)) + length (m_v (ms ! ?i)) \<le> n"
    and nx: "r1 = None \<and> ?seg \<noteq> [] \<longrightarrow> drops (hd ?seg) \<or> m_op (hd ?seg) = OINSERT"
    using tm unfolding fk by (auto split: option.splits)
  have "\<exists>st1. (if fst st \<or> m_op (ms ! ?i) = OINSERT then apply_msg n (snd st) (ms ! ?i) else Some st) = Some st1
      \<and> st_rel k st1 r1"
  proof (cases "r = None \<and> m_op (ms ! ?i) \<noteq> OINSERT")
    case True
    then show ?thesis using st eff by (auto simp: st_rel_def msg_eff_def split: if_splits)
  next
    case False
    then have "fst st \<or> m_op (ms ! ?i) = OINSERT" "r = None \<longrightarrow> drops (ms ! ?i) \<or> m_op (ms ! ?i) = OINSERT"
      using st by (auto simp: st_rel_def)
    then show ?thesis using apply_msg_rel [OF st i(2) eff sz] by simp
  qed
  then obtain st1 where st1: "(if fst st \<or> m_op (ms ! ?i) = OINSERT then apply_msg n (snd st) (ms ! ?i) else Some st) = Some st1"
    "st_rel k st1 r1" by blast
  have "apply_node n k b st = apply_rest n k b (int (Suc ?i)) st1"
    using srch st1(1) by (simp add: apply_node_def add.commute)
  then show ?thesis
    using apply_rest_rel [OF rep _ st1(2) refl tm1 nx] i(1) eff fk by simp
qed

section \<open>Lookup computes the map of the tree\<close>

lemma norm_fields [simp]:
  "nval (norm b) = nval b" "nbuf (norm b) = nbuf b" "btype (norm b) = btype b" "doff (norm b) = doff b"
  "valsz (norm b) = valsz b" "buf (norm b) = buf b"
  by (simp_all add: norm_def)

lemma bget_norm [simp]: "bget (norm b) = bget b"
  by (simp add: bget_def fun_eq_iff)

lemma norm_reads [simp]: "getval (norm b) = getval b" "getmsg (norm b) = getmsg b"
  unfolding getval_def getmsg_def norm_fields bget_norm by (rule refl)+

lemma norm_blk_vals [simp]: "blk_vals (norm b) es = blk_vals b es" "msgs_rep (norm b) ms = msgs_rep b ms"
  by (simp_all add: blk_vals_def msgs_rep_def)

lemma norm_eq_reads:
  assumes "norm b = norm b'"
  shows "blk_vals b es = blk_vals b' es" "msgs_rep b ms = msgs_rep b' ms"
  using assms norm_blk_vals by metis+

lemma find_sorted:
  assumes "sorted (map kv_k es)" and "distinct (map kv_k es)"
  shows "find (\<lambda>e. kv_k e = k) es =
     (if k \<in> kv_k ` set es then Some (es ! below k (map kv_k es)) else None)"
  using assms
proof (induction es)
  case Nil
  then show ?case by simp
next
  case (Cons e es)
  show ?case
  proof (cases "kv_k e < k")
    case True
    then show ?thesis using Cons by (auto simp: below_def)
  next
    case False
    then show ?thesis using Cons by (fastforce simp: below_def)
  qed
qed

lemma leaf_found_rel:
  assumes rep: "blk_vals b es" and srt: "sorted (map kv_k es)" "distinct (map kv_k es)"
    and sz: "tree_tame n (ALeaf es) k"
  shows "\<exists>st. leaf_found n b k r = Some st \<and> st_rel k st (find (\<lambda>e. kv_k e = k) es)"
proof (cases "k \<in> kv_k ` set es")
  case True
  let ?e = "es ! below k (map kv_k es)"
  have s: "blksearch b k = Some (int (below k (map kv_k es)), True, Some ?e)"
    "below k (map kv_k es) < length es" "kv_k ?e = k"
    using entries.search_found [OF rep srt(1) True] by (auto simp: blksearch_def)
  then have "?e \<in> set es" by simp
  then have "cpkvp n ?e = Some ?e" using sz s(3) by (auto simp: cpkvp_def)
  then show ?thesis using True s find_sorted [OF srt, of k] by (simp add: leaf_found_def st_rel_def)
next
  case False
  then show ?thesis
    using entries.search_absent [OF rep srt(1) False] find_sorted [OF srt, of k]
    by (simp add: leaf_found_def blksearch_def st_rel_def)
qed

lemma below_takeWhile:
  assumes "sorted (map f xs)" and "distinct (map f xs)"
  shows "length (takeWhile (\<lambda>x. f x \<le> k) xs)
     = (if k \<in> f ` set xs then Suc (below k (map f xs)) else below k (map f xs))"
  using assms
proof (induction xs)
  case Nil
  then show ?case by (simp add: below_def)
next
  case (Cons x xs)
  have gt: "takeWhile (\<lambda>x. f x \<le> k) xs = []" if "k \<le> f x"
  proof (cases xs)
    case (Cons y ys)
    then have "f x < f y" using Cons.prems by (simp add: order_less_le)
    then show ?thesis using that Cons by simp
  qed simp
  consider "f x < k" | "f x = k" | "k < f x" by fastforce
  then show ?case
  proof cases
    case 1
    then show ?thesis using Cons by (auto simp: below_def)
  next
    case 2
    then show ?thesis using gt by (auto simp: below_def)
  next
    case 3
    then show ?thesis using Cons.prems gt by (fastforce simp: below_def)
  qed
qed

text \<open>The pivot search selects the child that the separators assign to the key.\<close>

lemma pivot_search:
  assumes rep: "blk_vals b es" and srt: "sorted (map kv_k es)" "distinct (map kv_k es)"
    and kids: "map fst kids = map kv_k es"
  shows "case child k kids of
      None \<Rightarrow> \<exists>same. blksearch b k = Some (- 1, same, None)
    | Some t \<Rightarrow> \<exists>i same. i < length es \<and> blksearch b k = Some (int i, same, Some (es ! i)) \<and> t = snd (kids ! i)"
proof -
  let ?n = "length (takeWhile (\<lambda>x. fst x \<le> k) kids)"
  have len: "length kids = length es" using kids by (metis length_map)
  have n: "?n = (if k \<in> kv_k ` set es then Suc (below k (map kv_k es)) else below k (map kv_k es))"
    using below_takeWhile [of fst kids k] srt kids by (metis list.set_map)
  have le: "?n \<le> length es" using length_takeWhile_le [of _ kids] len by simp
  have ch: "child k kids = (if ?n = 0 then None else Some (snd (kids ! (?n - 1))))"
    using takeWhile_nth [of "?n - 1" "\<lambda>x. fst x \<le> k" kids]
    by (auto simp: child_def Let_def last_conv_nth)
  show ?thesis
  proof (cases "?n = 0")
    case True
    then have "k \<notin> kv_k ` set es" "below k (map kv_k es) = 0" using n by (auto split: if_splits)
    then show ?thesis using True ch entries.search_absent [OF rep srt(1), of k] by (auto simp: blksearch_def)
  next
    case False
    define i where "i = ?n - 1"
    have "0 < ?n" using False by simp
    then have "i < length es" using le unfolding i_def by linarith
    then have i: "i < length es" "child k kids = Some (snd (kids ! i))" using False ch by (auto simp: i_def)
    have "\<exists>same. blksearch b k = Some (int i, same, Some (es ! i))"
    proof (cases "k \<in> kv_k ` set es")
      case True
      then show ?thesis using n entries.search_found [OF rep srt(1) True] by (auto simp: blksearch_def i_def)
    next
      case out: False
      then show ?thesis using n False entries.search_absent [OF rep srt(1) out]
        by (auto simp: blksearch_def of_nat_diff i_def)
    qed
    then show ?thesis using i by auto
  qed
qed

text \<open>The two phases after the descent, on the blocks of the path.\<close>

definition finish :: "nat \<Rightarrow> key \<Rightarrow> nat \<Rightarrow> gblk list \<Rightarrow> found \<Rightarrow> (bool \<times> found) option" where
  "finish nb k n bs r = do {
     st \<leftarrow> (if length bs = Suc n then leaf_found nb (last bs) k r else Some (False, r));
     apply_nodes nb k (rev (take n bs)) st
   }"

lemma apply_nodes_append:
  "apply_nodes nb k (bs @ bs') st = Option.bind (apply_nodes nb k bs st) (apply_nodes nb k bs')"
  by (induction bs arbitrary: st) (auto split: bind_splits)

lemma finish_Cons:
  assumes "bs \<noteq> []"
  shows "finish nb k (Suc n) (b # bs) r = Option.bind (finish nb k n bs r) (apply_node nb k b)"
  using assms by (auto simp: finish_def apply_nodes_append split: bind_splits)

abbreviation seen :: "device \<Rightarrow> bcache \<Rightarrow> u64 set \<Rightarrow> u64 \<Rightarrow> gblk option" where
  "seen d c S \<equiv> view d c |` S"

lemma seen_cong: "(\<forall>a \<in> S. view d c' a = view d c a) \<Longrightarrow> seen d c' S = seen d c S"
  by (auto simp: restrict_map_def)

lemma tree_at_Suc:
  assumes "tree_at V (Suc (Suc n)) a T" and "V a = Some (norm b)"
  shows "\<exists>es ms kids bps. T = APivot kids ms \<and> blk_vals b es \<and> sorted (map kv_k es)
     \<and> distinct (map kv_k es) \<and> msgs_rep b ms \<and> sorted (map m_k ms) \<and> map fst kids = map kv_k es
     \<and> (\<forall>i < length es. unpackbp (kv_v (es ! i)) = Some (bps i) \<and> tree_at V (Suc n) (bp_addr (bps i)) (snd (kids ! i)))"
  using assms(1)
proof cases
  case leaf
  then show ?thesis by simp
next
  case (pivot b' es ms kids bps)
  then have "b' = norm b" using assms(2) by simp
  with pivot show ?thesis
    by (intro exI [of _ es] exI [of _ ms] exI [of _ kids] exI [of _ bps]) simp
qed

lemma descend_rel:
  assumes "tree_at V (Suc n) a T" and "V = seen d c S" and "V a = Some (norm b)" and "cache_ok d c hs S"
    and "tree_tame nb T k"
  shows "\<exists>c' ps r st res. descend n d c b k r0 = Some (c', ps, r) \<and> length ps \<le> n
     \<and> cache_ok d c' (rev (map fst ps) @ hs) S \<and> seen d c' S = V \<and> known c' \<subseteq> known c \<union> dom V
     \<and> finish nb k n (b # map snd ps) r = Some st \<and> tree_get T k = Some res \<and> st_rel k st res"
  using assms
proof (induction n arbitrary: a T c b hs r0)
  case 0
  from 0(1) obtain es where T: "T = ALeaf es" "blk_vals b es" "sorted (map kv_k es)" "distinct (map kv_k es)"
    by cases (use 0(3) in \<open>auto elim: tree_at.cases\<close>)
  then obtain st where "leaf_found nb b k r0 = Some st" "st_rel k st (find (\<lambda>e. kv_k e = k) es)"
    using leaf_found_rel [OF T(2-4)] 0(5) by blast
  moreover from this have "finish nb k 0 (b # map snd []) r0 = Some st" by (simp add: finish_def)
  ultimately show ?case using T 0 by (intro exI [of _ c] exI [of _ "[]"] exI [of _ r0] exI [of _ st]) simp
next
  case (Suc n)
  from Suc.prems(1) obtain es ms kids bps where T: "T = APivot kids ms" "blk_vals b es" "sorted (map kv_k es)"
    "distinct (map kv_k es)" "msgs_rep b ms" "sorted (map m_k ms)" "map fst kids = map kv_k es"
    and kid: "\<forall>i < length es. unpackbp (kv_v (es ! i)) = Some (bps i) \<and> tree_at V (Suc n) (bp_addr (bps i)) (snd (kids ! i))"
    using tree_at_Suc [OF Suc.prems(1,3)] by blast
  show ?case
  proof (cases "child k kids")
    case None
    then obtain same where "blksearch b k = Some (- 1, same, None)"
      using pivot_search [OF T(2-4,7), of k] by auto
    moreover have "tame nb (for_key k ms) None" using Suc.prems(5) T(1) None by simp
    ultimately show ?thesis
      using apply_node_rel [OF T(5,6), of k "(False, r0)" None nb] None T(1) Suc.prems
      by (auto simp: finish_def st_rel_def)
  next
    case (Some t)
    then obtain i same where i: "i < length es" "blksearch b k = Some (int i, same, Some (es ! i))" "t = snd (kids ! i)"
      using pivot_search [OF T(2-4,7), of k] by auto
    let ?bp = "bps i"
    have sub: "unpackbp (kv_v (es ! i)) = Some ?bp" "tree_at V (Suc n) (bp_addr ?bp) t"
      using kid i(1,3) by auto
    obtain v where v: "V (bp_addr ?bp) = Some v" using sub(2) by (auto elim: tree_at.cases)
    then have vd: "view d c (bp_addr ?bp) = Some v" "bp_addr ?bp \<in> S"
      using Suc.prems(2) by (auto simp: restrict_map_def split: if_splits)
    obtain c1 p b1 where f: "fetch d c ?bp = Some (c1, Some (p, b1))" "norm b1 = v" "cache_ok d c1 (p # hs) S"
      "\<forall>a \<in> S. view d c1 a = view d c a" "known c1 \<subseteq> insert (bp_addr ?bp) (known c)"
      using bstore.fetch_present [OF Suc.prems(4) vd(1)] by blast
    have V1: "V = seen d c1 S" using Suc.prems(2) seen_cong [OF f(4)] by simp
    have tt: "tree_tame nb t k" "\<exists>r. tree_get t k = Some r \<and> tame nb (for_key k ms) r"
      using Suc.prems(5) T(1) Some by (auto split: option.splits)
    obtain c' ps r st res where ih: "descend n d c1 b1 k (InBlk (es ! i)) = Some (c', ps, r)" "length ps \<le> n"
      "cache_ok d c' (rev (map fst ps) @ p # hs) S" "seen d c' S = V" "known c' \<subseteq> known c1 \<union> dom V"
      "finish nb k n (b1 # map snd ps) r = Some st" "tree_get t k = Some res" "st_rel k st res"
      using Suc.IH [OF sub(2) V1 _ f(3) tt(1)] v f(2) by blast
    obtain st' res' where "apply_node nb k b st = Some st'" "run_msgs (for_key k ms) res = Some res'" "st_rel k st' res'"
      using apply_node_rel [OF T(5,6) ih(8), of nb] tt(2) ih(7) by (metis option.inject)
    moreover have "known c' \<subseteq> known c \<union> dom V" using ih(5) f(5) v by auto
    moreover have "descend (Suc n) d c b k r0 = Some (c', (p, b1) # ps, r)" using i sub(1) f(1) ih(1) by simp
    ultimately show ?thesis
      using ih T(1) Some
      by (intro exI [of _ c'] exI [of _ "(p, b1) # ps"] exI [of _ r] exI [of _ st'] exI [of _ res'])
        (simp add: finish_Cons)
  qed
qed

lemma btlookup_tree:
  assumes tree: "tree_at (seen d c S) h (bp_addr (t_bp t)) T" and ht: "sint (t_ht t) = int h"
    and ok: "cache_ok d c hs S" and tame: "tree_tame n T k"
  shows "\<exists>c' res. btlookup d c t k n = Some (c', res) \<and> tree_get T k = Some res
     \<and> cache_ok d c' hs S \<and> seen d c' S = seen d c S \<and> known c' \<subseteq> known c \<union> dom (seen d c S)"
proof -
  let ?V = "seen d c S" and ?a = "bp_addr (t_bp t)"
  obtain m where h: "h = Suc m" using tree by cases auto
  obtain v where v: "?V ?a = Some v" using tree by (auto elim: tree_at.cases)
  then have vd: "view d c ?a = Some v" by (auto simp: restrict_map_def split: if_splits)
  obtain c1 p b where f: "fetch d c (t_bp t) = Some (c1, Some (p, b))" "norm b = v" "cache_ok d c1 (p # hs) S"
    "\<forall>a \<in> S. view d c1 a = view d c a" "known c1 \<subseteq> insert ?a (known c)"
    using bstore.fetch_present [OF ok vd] by blast
  obtain c2 where g: "holdblk c1 p = Some c2" "cache_ok d c2 (p # p # hs) S" "\<forall>a. view d c2 a = view d c1 a"
    "known c2 = known c1"
    using bstore.hold_law [OF f(3), of p] by auto
  have V2: "?V = seen d c2 S" using seen_cong [of S d c2 c] f(4) g(3) by simp
  obtain c3 ps r st res where e: "descend m d c2 b k Unset = Some (c3, ps, r)" "length ps \<le> m"
    "cache_ok d c3 (rev (map fst ps) @ p # p # hs) S" "seen d c3 S = ?V" "known c3 \<subseteq> known c2 \<union> dom ?V"
    "finish n k m (b # map snd ps) r = Some st" "tree_get T k = Some res" "st_rel k st res"
    using descend_rel [OF tree [unfolded h] V2 _ g(2) tame] v f(2) by blast
  have "cache_ok d c3 ((map fst ((p, b) # ps) @ [p]) @ hs) S"
    using bstore.perm_law [OF e(3)] by simp
  then obtain c4 where r: "release_all release c3 (map fst ((p, b) # ps) @ [p]) = Some c4" "cache_ok d c4 hs S"
    "\<forall>a. view d c4 a = view d c3 a" "known c4 = known c3"
    using bstore.release_all_law by blast
  have "btlookup d c t k n = Some (c4, res)"
  proof -
    define path where "path = (p, b) # ps"
    have "finish n k m (map snd path) r = Some st" using e(6) by (simp add: path_def)
    then obtain st0 where
      "(if length (map snd path) = Suc m then leaf_found n (last (map snd path)) k r else Some (False, r)) = Some st0"
      "apply_nodes n k (rev (take m (map snd path))) st0 = Some st"
      unfolding finish_def bind_eq_Some_conv by blast
    then have st0: "(if length path = Suc m then leaf_found n (snd (last path)) k r else Some (False, r)) = Some st0"
      "apply_nodes n k (rev (map snd (take m path))) st0 = Some st"
      by (auto simp: take_map last_map path_def simp del: list.map last.simps)
    obtain ok' r' where st: "st = (ok', r')" by (cases st)
    have "(if ok' then do { kv \<leftarrow> found_kv r'; Some (c4, Some kv) } else Some (c4, None)) = Some (c4, res)"
      using e(8) st by (auto simp: st_rel_def split: option.splits)
    moreover have "sint (t_ht t) = int (Suc m)" "nat (1 + int m) = Suc m" using ht h by simp_all
    ultimately show ?thesis
      using f(1) g(1) e(1) st0 [unfolded path_def] r(1) unfolding btlookup_def
      by (simp add: st Let_def del: release_all.simps)
  qed
  moreover have "seen d c4 S = ?V" using e(4) r(3) seen_cong [of S d c4 c3] by simp
  moreover have "?a \<in> dom ?V" using v by blast
  then have "known c4 \<subseteq> known c \<union> dom ?V" using r(4) e(5) g(4) f(5) by blast
  ultimately show ?thesis using e(7) r(2) by auto
qed

text \<open>A tree stays what it is as long as its blocks are seen unchanged.\<close>

lemma tree_at_mono:
  assumes "tree_at V h a T" and "V \<subseteq>\<^sub>m V'"
  shows "tree_at V' h a T"
  using assms
proof (induction rule: tree_at.induct)
  case (leaf a b es)
  then have "V' a = Some b" by (auto simp: map_le_def dom_def)
  then show ?case using leaf by (intro tree_at.leaf)
next
  case (pivot h a b es ms kids bps)
  have "V' a = Some b" using pivot by (auto simp: map_le_def dom_def)
  then show ?case using pivot by (intro tree_at.pivot [of h V' a b es ms kids bps]) auto
qed

end
