(* ===== verification/Context.thy ===== *)
theory Context
  imports Btree
begin

text \<open>
  The filesystem context (\<^verbatim>\<open>GefsCtx\<close>), the arenas and their allocation log
  (\<^verbatim>\<open>load_arena\<close>, \<^verbatim>\<open>gefs_alloc_blk\<close> of \<^verbatim>\<open>src/src/gefs_storage.c\<close>). The free list of an arena
  is the list of its ranges in list order, an offset and a length each; a result that does not
  fit an \<^verbatim>\<open>int64_t\<close> is \<open>None\<close>.

  The log walk of \<^verbatim>\<open>load_arena\<close> follows chain pointers found on disk and need not end; it is a
  partial function, and a walk that does not end is \<open>None\<close>.
\<close>

section \<open>State\<close>

type_synonym range = "int \<times> int"

record arena =
  a_hdaddr :: u64
  a_size :: u64
  a_used :: u64
  a_loghd :: bptr
  a_free :: "range list"

record ctx =
  dev :: device
  sb :: super
  bc :: bcache
  snap_tree :: gtree
  active_tree :: gtree
  active_snap_name :: "byte list"
  arenas :: "arena list"
  dirty :: bool
  readonly :: bool

definition zero_arena :: arena where
  "zero_arena = \<lparr>a_hdaddr = 0, a_size = 0, a_used = 0, a_loghd = zero_bptr, a_free = []\<rparr>"

text \<open>Block access through the context.\<close>

definition getb :: "ctx \<Rightarrow> bptr \<Rightarrow> (ctx \<times> (nat \<times> gblk) option) option" where
  "getb s bp = do { (c, q) \<leftarrow> fetch (dev s) (bc s) bp; Some (s\<lparr>bc := c\<rparr>, q) }"

definition dropb :: "ctx \<Rightarrow> nat \<Rightarrow> ctx option" where
  "dropb s p = do { c \<leftarrow> release (bc s) p; Some (s\<lparr>bc := c\<rparr>) }"

definition lookup :: "ctx \<Rightarrow> gtree \<Rightarrow> key \<Rightarrow> nat \<Rightarrow> (ctx \<times> kvp option) option" where
  "lookup s t k n = do { (c, r) \<leftarrow> btlookup (dev s) (bc s) t k n; Some (s\<lparr>bc := c\<rparr>, r) }"

section \<open>The allocation log\<close>

definition fits64 :: "int \<Rightarrow> bool" where
  "fits64 x \<longleftrightarrow> - (2 ^ 63) \<le> x \<and> x < 2 ^ 63"

text \<open>Taking a logged allocation out of the first range that contains it.\<close>

fun carve :: "int \<Rightarrow> int \<Rightarrow> range list \<Rightarrow> range list option" where
  "carve off len [] = Some []"
| "carve off len ((o1, l1) # rs) =
     (if \<not> fits64 (off + len) \<or> \<not> fits64 (o1 + l1) then None
      else if o1 \<le> off \<and> off + len \<le> o1 + l1 then
        Some (if off = o1 \<and> len = l1 then rs
              else if off = o1 then (o1 + len, l1 - len) # rs
              else if off + len = o1 + l1 then (o1, l1 - len) # rs
              else (o1, off - o1) # (off + len, (o1 + l1) - (off + len)) # rs)
      else map_option (\<lambda>rs. (o1, l1) # rs) (carve off len rs))"

text \<open>
  The entries of one log block: \<open>i\<close> bytes have been consumed. The entries are read at
  \<^verbatim>\<open>b->data\<close>, which is the start of the buffer for a log block.
\<close>

function replay :: "gblk \<Rightarrow> int \<Rightarrow> int \<Rightarrow> range list \<Rightarrow> range list option" where
  "replay b lsz i rs =
     (if i < lsz then do {
        eb \<leftarrow> bget b (doff b + i) 8;
        let ent = unpack64 eb;
        let op = uint (ent AND 0xff);
        let off = sint (ent AND NOT 0xff);
        let wide = (op = 0 \<or> op = 1);
        len \<leftarrow> (if wide then map_option (\<lambda>l. sint (unpack64 l)) (bget b (doff b + i + 8) 8) else Some BLKSZ);
        rs \<leftarrow> (if op = 0 \<or> op = 2 then Some ((off, len) # rs)
              else if op = 1 \<or> op = 3 then carve off len rs
              else Some rs);
        replay b lsz (i + (if wide then 16 else 8)) rs
      } else Some rs)"
  by pat_completeness auto
termination
  by (relation "measure (\<lambda>(b, lsz, i, rs). nat (lsz - i))") auto

declare replay.simps [simp del]

partial_function (option) log_walk :: "device \<Rightarrow> bcache \<Rightarrow> bptr \<Rightarrow> range list \<Rightarrow> (bcache \<times> range list) option" where
  "log_walk d c bp rs =
     (if bp_addr bp = - 1 then Some (c, rs)
      else Option.bind (fetch d c bp) (\<lambda>(c, q).
        case q of
          None \<Rightarrow> Some (c, rs)
        | Some (p, b) \<Rightarrow>
            Option.bind (bget b 2 2) (\<lambda>sz. Option.bind (bget b 12 24) (\<lambda>nb. Option.bind (unpackbp nb) (\<lambda>nxt.
            Option.bind (replay b (unpack16 sz) 0 rs) (\<lambda>rs.
            Option.bind (release c p) (\<lambda>c. log_walk d c nxt rs)))))))"

definition load_arena :: "ctx \<Rightarrow> nat \<Rightarrow> bptr \<Rightarrow> ctx option" where
  "load_arena s idx h0_bp = do {
     (s, q) \<leftarrow> getb s h0_bp;
     case q of
       None \<Rightarrow> Some s
     | Some (p, h0) \<Rightarrow> do {
         hd \<leftarrow> bget h0 (doff h0) 56;
         loghd \<leftarrow> unpackbp (drop 32 hd);
         a \<leftarrow> (if idx < length (arenas s) then Some (arenas s ! idx) else None);
         let a = a\<lparr>a_hdaddr := bp_addr h0_bp, a_size := unpack64 (fld hd 0 8),
                   a_used := unpack64 (fld hd 8 8), a_loghd := loghd\<rparr>;
         s \<leftarrow> dropb s p;
         (c, rs) \<leftarrow> log_walk (dev s) (bc s) loghd (a_free a);
         Some (s\<lparr>bc := c, arenas := (arenas s)[idx := a\<lparr>a_free := rs\<rparr>]\<rparr>)
       }
   }"

section \<open>Allocation\<close>

text \<open>The loop over the first \<^verbatim>\<open>narena\<close> arenas: the head range of the first arena that has one.\<close>

fun alloc_loop :: "nat \<Rightarrow> arena list \<Rightarrow> (arena list \<times> int option) option" where
  "alloc_loop 0 as = Some (as, None)"
| "alloc_loop (Suc n) [] = None"
| "alloc_loop (Suc n) (a # as) =
     (case a_free a of
        (off, len) # rs \<Rightarrow>
          (let off' = off + BLKSZ; len' = len - BLKSZ in
           if \<not> fits64 off' \<or> \<not> fits64 len' then None
           else Some (a\<lparr>a_used := a_used a + word_of_int BLKSZ,
                        a_free := (if len' = 0 then rs else (off', len') # rs)\<rparr> # as, Some off))
      | [] \<Rightarrow> map_option (\<lambda>(as, r). (a # as, r)) (alloc_loop n as))"

definition alloc_blk :: "ctx \<Rightarrow> (ctx \<times> int) option" where
  "alloc_blk s =
     (if readonly s \<or> sint (sb_narena (sb s)) \<le> 0 \<or> arenas s = [] then Some (s, - 1)
      else do {
        (as, r) \<leftarrow> alloc_loop (nat (sint (sb_narena (sb s)))) (arenas s);
        case r of
          None \<Rightarrow> Some (s, - 1)
        | Some off \<Rightarrow> Some (s\<lparr>arenas := as, dirty := True\<rparr>, off)
      })"

section \<open>The invariant of the context\<close>

definition free_ranges :: "ctx \<Rightarrow> range list" where
  "free_ranges s = concat (map a_free (arenas s))"

definition free_bytes :: "ctx \<Rightarrow> int" where
  "free_bytes s = (\<Sum>r \<leftarrow> free_ranges s. snd r)"

lemma free_bytes_pos: "0 < free_bytes s \<Longrightarrow> free_ranges s \<noteq> []"
  by (auto simp: free_bytes_def)

definition outside :: "range \<Rightarrow> u64 \<Rightarrow> bool" where
  "outside r a \<longleftrightarrow> sint a + BLKSZ \<le> fst r \<or> fst r + snd r \<le> sint a"

definition disj :: "range \<Rightarrow> range \<Rightarrow> bool" where
  "disj r r' \<longleftrightarrow> fst r + snd r \<le> fst r' \<or> fst r' + snd r' \<le> fst r"

text \<open>
  The free ranges hold whole blocks inside the device, do not overlap, and hold no block of a
  set of addresses in use.
\<close>

definition range_in :: "int \<Rightarrow> u64 set \<Rightarrow> range \<Rightarrow> bool" where
  "range_in n A r \<longleftrightarrow> 0 \<le> fst r \<and> BLKSZ \<le> snd r \<and> BLKSZ dvd snd r \<and> fst r + snd r \<le> n \<and> (\<forall>a \<in> A. outside r a)"

definition ranges_ok :: "range list \<Rightarrow> int \<Rightarrow> u64 set \<Rightarrow> bool" where
  "ranges_ok rs n A \<longleftrightarrow> list_all (range_in n A) rs \<and> sorted_wrt disj rs"

definition fs_ok :: "ctx \<Rightarrow> nat list \<Rightarrow> u64 set \<Rightarrow> bool" where
  "fs_ok s hs S \<longleftrightarrow>
     cache_ok (dev s) (bc s) hs S \<and> sint (sb_narena (sb s)) = int (length (arenas s))
     \<and> dsize (dev s) < 2 ^ 63 \<and> ranges_ok (free_ranges s) (dsize (dev s)) (S \<union> known (bc s))"

lemma alloc_loop_none: "\<forall>a \<in> set as. a_free a = [] \<Longrightarrow> alloc_loop (length as) as = Some (as, None)"
  by (induction as) auto

lemma alloc_loop_some:
  assumes "concat (map a_free as) = (off, len) # rs" and "fits64 (off + BLKSZ)" "fits64 (len - BLKSZ)"
  shows "\<exists>as'. alloc_loop (length as) as = Some (as', Some off) \<and> length as' = length as \<and> map a_hdaddr as' = map a_hdaddr as
     \<and> concat (map a_free as') = (if len = BLKSZ then rs else (off + BLKSZ, len - BLKSZ) # rs)"
  using assms(1)
proof (induction as)
  case Nil
  then show ?case by simp
next
  case (Cons a as)
  show ?case
  proof (cases "a_free a")
    case Nil
    then show ?thesis using Cons by auto
  next
    case (Cons r rs')
    then show ?thesis using Cons.prems assms(2,3) by (auto simp: Let_def)
  qed
qed

lemma ranges_ok_mono: "ranges_ok rs n A \<Longrightarrow> A' \<subseteq> A \<Longrightarrow> n \<le> n' \<Longrightarrow> ranges_ok rs n' A'"
  by (auto simp: ranges_ok_def range_in_def list_all_iff)

lemma ranges_ok_tl: "ranges_ok (r # rs) n A \<Longrightarrow> ranges_ok rs n A"
  by (simp add: ranges_ok_def)

text \<open>Taking the first block of the first range keeps the ranges well-formed and apart from it.\<close>

lemma ranges_ok_take:
  assumes ok: "ranges_ok ((off, len) # rs) n A" and n: "n < 2 ^ 63"
  shows "ranges_ok (if len = BLKSZ then rs else (off + BLKSZ, len - BLKSZ) # rs) n (insert (word_of_int off) A)"
    and "\<forall>a \<in> A. apart off a" and "sint (word_of_int off :: u64) = off"
proof -
  have r: "0 \<le> off" "BLKSZ \<le> len" "BLKSZ dvd len" "off + len \<le> n" "\<forall>a \<in> A. outside (off, len) a"
    and rs: "\<And>r. r \<in> set rs \<Longrightarrow> range_in n A r" "\<And>r. r \<in> set rs \<Longrightarrow> disj (off, len) r" "sorted_wrt disj rs"
    using ok by (auto simp: ranges_ok_def range_in_def list_all_iff)
  show so: "sint (word_of_int off :: u64) = off"
    using r n by (intro signed_take_bit_int_eq_self [THEN trans [OF sint_sbintrunc']]) auto
  show "\<forall>a \<in> A. apart off a"
    using r by (auto simp: apart_def outside_def)
  have rest: "range_in n (insert (word_of_int off) A) r" if "r \<in> set rs" for r
    using rs(1,2) [OF that] r so by (auto simp: range_in_def outside_def disj_def)
  show "ranges_ok (if len = BLKSZ then rs else (off + BLKSZ, len - BLKSZ) # rs) n (insert (word_of_int off) A)"
  proof (cases "len = BLKSZ")
    case True
    then show ?thesis using rest rs(3) by (auto simp: ranges_ok_def list_all_iff)
  next
    case False
    obtain q where q: "len = BLKSZ * q" using r(3) by (auto simp: dvd_def)
    then have "2 \<le> q" using r(2) False by (cases "q = 1") auto
    then have "range_in n (insert (word_of_int off) A) (off + BLKSZ, len - BLKSZ)"
      using r so q by (auto simp: range_in_def outside_def dvd_def intro: exI [of _ "q - 1"])
    moreover have "disj (off + BLKSZ, len - BLKSZ) r" if "r \<in> set rs" for r
      using rs(2) [OF that] r by (auto simp: disj_def)
    ultimately show ?thesis using False rest rs(3) by (auto simp: ranges_ok_def list_all_iff)
  qed
qed

lemma alloc_blk_none: "fs_ok s hs S \<Longrightarrow> free_ranges s = [] \<Longrightarrow> alloc_blk s = Some (s, - 1)"
  using alloc_loop_none [of "arenas s"] by (auto simp: alloc_blk_def fs_ok_def free_ranges_def)

lemma alloc_blk_some:
  assumes ok: "fs_ok s hs S" and rw: "\<not> readonly s" and free: "free_ranges s \<noteq> []"
  shows "\<exists>as off. alloc_blk s = Some (s\<lparr>arenas := as, dirty := True\<rparr>, off) \<and> length as = length (arenas s)
     \<and> 0 \<le> off \<and> off + BLKSZ \<le> dsize (dev s) \<and> sint (word_of_int off :: u64) = off
     \<and> (\<forall>a \<in> S \<union> known (bc s). apart off a)
     \<and> ranges_ok (concat (map a_free as)) (dsize (dev s)) (insert (word_of_int off) (S \<union> known (bc s)))
     \<and> (\<Sum>r \<leftarrow> concat (map a_free as). snd r) = free_bytes s - BLKSZ \<and> map a_hdaddr as = map a_hdaddr (arenas s)
     \<and> (\<forall>w. (\<forall>r \<in> set (free_ranges s). outside r w) \<longrightarrow> apart off w \<and> (\<forall>r \<in> set (concat (map a_free as)). outside r w))"
proof -
  obtain off len rs where fr: "free_ranges s = (off, len) # rs" using free by (cases "free_ranges s") auto
  have rk: "ranges_ok ((off, len) # rs) (dsize (dev s)) (S \<union> known (bc s))" and n: "dsize (dev s) < 2 ^ 63"
    and nar: "sint (sb_narena (sb s)) = int (length (arenas s))"
    using ok fr by (auto simp: fs_ok_def)
  have b: "0 \<le> off" "BLKSZ \<le> len" "off + len \<le> dsize (dev s)"
    using rk by (auto simp: ranges_ok_def range_in_def)
  then have "fits64 (off + BLKSZ)" "fits64 (len - BLKSZ)" using n by (auto simp: fits64_def)
  then obtain as where as: "alloc_loop (length (arenas s)) (arenas s) = Some (as, Some off)" "length as = length (arenas s)"
    "concat (map a_free as) = (if len = BLKSZ then rs else (off + BLKSZ, len - BLKSZ) # rs)" "map a_hdaddr as = map a_hdaddr (arenas s)"
    using alloc_loop_some [of "arenas s" off len rs] fr by (auto simp: free_ranges_def)
  have "arenas s \<noteq> []" using fr by (auto simp: free_ranges_def)
  then have "alloc_blk s = Some (s\<lparr>arenas := as, dirty := True\<rparr>, off)"
    using as(1) rw nar by (simp add: alloc_blk_def)
  moreover have "(\<Sum>r \<leftarrow> concat (map a_free as). snd r) = free_bytes s - BLKSZ"
    by (simp add: as(3) free_bytes_def fr)
  moreover have "apart off w \<and> (\<forall>r \<in> set (concat (map a_free as)). outside r w)" if "\<forall>r \<in> set (free_ranges s). outside r w" for w
    using that b by (auto simp: fr as(3) outside_def apart_def)
  ultimately show ?thesis
    using as(2-4) ranges_ok_take [OF rk n] b by (intro exI [of _ as] exI [of _ off]) (auto simp del: map_concat)
qed

lemma apart_neq: "apart off a \<Longrightarrow> sint (word_of_int off :: u64) = off \<Longrightarrow> a \<noteq> word_of_int off"
  by (auto simp: apart_def)

section \<open>Lookup through the context\<close>

abbreviation seen_by :: "ctx \<Rightarrow> u64 set \<Rightarrow> u64 \<Rightarrow> gblk option" where
  "seen_by s S \<equiv> seen (dev s) (bc s) S"

text \<open>The parts of the context that reading leaves alone.\<close>

definition same_fs :: "ctx \<Rightarrow> ctx \<Rightarrow> bool" where
  "same_fs s s' \<longleftrightarrow> s' = s\<lparr>bc := bc s'\<rparr>"

lemma same_fsD:
  assumes "same_fs s s'"
  shows "dev s' = dev s" "sb s' = sb s" "snap_tree s' = snap_tree s" "active_tree s' = active_tree s"
    "arenas s' = arenas s" "dirty s' = dirty s" "readonly s' = readonly s" "active_snap_name s' = active_snap_name s"
  by (subst assms [unfolded same_fs_def], simp)+

lemma same_fs_refl [simp]: "same_fs s s"
  by (simp add: same_fs_def)

lemma same_fs_trans: "same_fs s s' \<Longrightarrow> same_fs s' s'' \<Longrightarrow> same_fs s s''"
  by (cases s; cases s'; cases s'') (simp add: same_fs_def)

lemma lookup_ok:
  assumes ok: "fs_ok s hs S" and tree: "tree_at (seen_by s S) h (bp_addr (t_bp t)) T"
    and ht: "sint (t_ht t) = int h" and tame: "tree_tame n T k"
  shows "\<exists>s' r. lookup s t k n = Some (s', r) \<and> tree_get T k = Some r \<and> fs_ok s' hs S
     \<and> seen_by s' S = seen_by s S \<and> same_fs s s'"
proof -
  have co: "cache_ok (dev s) (bc s) hs S" and rk: "ranges_ok (free_ranges s) (dsize (dev s)) (S \<union> known (bc s))"
    using ok by (auto simp: fs_ok_def)
  obtain c' r where r: "btlookup (dev s) (bc s) t k n = Some (c', r)" "tree_get T k = Some r" "cache_ok (dev s) c' hs S"
    "seen (dev s) c' S = seen_by s S" "known c' \<subseteq> known (bc s) \<union> dom (seen_by s S)"
    using btlookup_tree [OF tree ht co tame] by blast
  have "S \<union> known c' \<subseteq> S \<union> known (bc s)" using r(5) by auto
  then have "fs_ok (s\<lparr>bc := c'\<rparr>) hs S"
    using ok r(3) ranges_ok_mono [OF rk _ order_refl] by (simp add: fs_ok_def free_ranges_def)
  then show ?thesis using r by (auto simp: lookup_def same_fs_def)
qed

end
