(* ===== verification/Upsert.thy ===== *)
theory Upsert
  imports Context
begin

text \<open>
  Writing blocks and updating a tree (\<^verbatim>\<open>blk_finalize_and_write\<close>, \<^verbatim>\<open>gefs_btupsert\<close> of
  \<^verbatim>\<open>src/src/gefs_storage.c\<close>). The tree argument of \<^verbatim>\<open>gefs_btupsert\<close> always points to one of the
  two trees of the context, so it is a selector; this keeps the aliasing with
  \<^verbatim>\<open>ctx->active_tree\<close> that the code has.

  The abstract specification \<open>merge_spec\<close> merges a sorted entry list with sorted messages; the
  lemmas show that the code's loop computes it, that it keeps entries sorted, and that it is
  the pointwise update of the map the entries denote.
\<close>

section \<open>Operations\<close>

datatype tref = TActive | TSnap

primrec tree_of :: "tref \<Rightarrow> ctx \<Rightarrow> gtree" where
  "tree_of TActive s = active_tree s"
| "tree_of TSnap s = snap_tree s"

primrec set_tree :: "tref \<Rightarrow> gtree \<Rightarrow> ctx \<Rightarrow> ctx" where
  "set_tree TActive t s = s\<lparr>active_tree := t\<rparr>"
| "set_tree TSnap t s = s\<lparr>snap_tree := t\<rparr>"

definition blk_finalize_and_write :: "ctx \<Rightarrow> gblk \<Rightarrow> ctx \<times> gblk" where
  "blk_finalize_and_write s b =
     (let b = finalize_blk b
      in (s\<lparr>dev := pwrite_blk (dev s) (sint (bp_addr (blk_bp b))) (buf b)\<rparr>, b))"

definition enterb :: "ctx \<Rightarrow> gblk \<Rightarrow> ctx option" where
  "enterb s b = do { (c, p) \<leftarrow> cache_insert (bc s) (b\<lparr>ref := 1\<rparr>); Some (s\<lparr>bc := c\<rparr>) }"

text \<open>The entry a message leaves for a key that has the old entry, or that has none.\<close>

definition apply_old :: "kvp \<Rightarrow> gmsg \<Rightarrow> kvp list option" where
  "apply_old old m =
     (if m_op m = OINSERT then Some [\<lparr>kv_k = m_k m, kv_v = m_v m\<rparr>]
      else if m_op m = OWSTAT then do {
        kv \<leftarrow> cpkvp INLMAX old;
        kv \<leftarrow> statupdate kv m;
        Some [kv]
      }
      else Some [])"

definition apply_new :: "gmsg \<Rightarrow> kvp list" where
  "apply_new m = (if m_op m = OINSERT then [\<lparr>kv_k = m_k m, kv_v = m_v m\<rparr>] else [])"

primrec setvals :: "gblk \<Rightarrow> kvp list \<Rightarrow> gblk option" where
  "setvals b [] = Some b"
| "setvals b (kv # kvs) = do { b \<leftarrow> setval b kv; setvals b kvs }"

function merge_loop :: "gblk \<Rightarrow> int \<Rightarrow> gmsg list \<Rightarrow> gblk \<Rightarrow> gblk option" where
  "merge_loop root i ms new =
     (if i < nval root \<or> ms \<noteq> [] then
        (if ms = [] then do {
           old \<leftarrow> getval root i;
           new \<leftarrow> setval new old;
           merge_loop root (i + 1) ms new
         }
         else if \<not> i < nval root then do {
           new \<leftarrow> setvals new (apply_new (hd ms));
           merge_loop root i (tl ms) new
         }
         else do {
           old \<leftarrow> getval root i;
           let cmp = keycmp (kv_k old) (m_k (hd ms));
           if cmp < 0 then do {
             new \<leftarrow> setval new old;
             merge_loop root (i + 1) ms new
           }
           else if cmp = 0 then do {
             kvs \<leftarrow> apply_old old (hd ms);
             new \<leftarrow> setvals new kvs;
             merge_loop root (i + 1) (tl ms) new
           }
           else do {
             new \<leftarrow> setvals new (apply_new (hd ms));
             merge_loop root i (tl ms) new
           }
         })
      else Some new)"
  by pat_completeness auto
termination
  by (relation "measure (\<lambda>(root, i, ms, new). nat (nval root - i) + length ms)")
    (auto simp: neq_Nil_conv)

declare merge_loop.simps [simp del]

definition new_leaf :: "int \<Rightarrow> u64 \<Rightarrow> gblk" where
  "new_leaf addr gen =
     zero_blk\<lparr>btype := TLEAF, blk_bp := zero_bptr\<lparr>bp_addr := word_of_int addr, bp_gen := gen\<rparr>, doff := LEAFHDSZ\<rparr>"

definition btupsert :: "ctx \<Rightarrow> tref \<Rightarrow> gmsg list \<Rightarrow> (ctx \<times> (errno + unit)) option" where
  "btupsert s tr msgs =
     (if readonly s \<or> msgs = [] then Some (s, Inl EROFS)
      else do {
        (s, q) \<leftarrow> getb s (t_bp (tree_of tr s));
        case q of
          None \<Rightarrow> Some (s, Inl EIO)
        | Some (p, root) \<Rightarrow> do {
            (s, addr) \<leftarrow> alloc_blk s;
            if addr < 0 then do { s \<leftarrow> dropb s p; Some (s, Inl ENOSPC) }
            else do {
              let t = tree_of tr s;
              new \<leftarrow> merge_loop root 0 (stablesort m_k msgs) (new_leaf addr (t_gen t));
              let (s, new) = blk_finalize_and_write s new;
              let s = set_tree tr (t\<lparr>t_bp := blk_bp new, t_ht := 1\<rparr>) s;
              let s = (if t_gen t = t_gen (active_tree s)
                       then s\<lparr>active_tree := (active_tree s)\<lparr>t_bp := blk_bp new, t_ht := 1\<rparr>\<rparr> else s);
              s \<leftarrow> enterb s new;
              s \<leftarrow> dropb s p;
              Some (s\<lparr>dirty := True\<rparr>, Inr ())
            }
          }
      })"

section \<open>What the merge computes\<close>

fun merge_spec :: "kvp list \<Rightarrow> gmsg list \<Rightarrow> kvp list option" where
  "merge_spec es [] = Some es"
| "merge_spec [] (m # ms) = map_option (\<lambda>r. apply_new m @ r) (merge_spec [] ms)"
| "merge_spec (e # es) (m # ms) =
     (if kv_k e < m_k m then map_option (\<lambda>r. e # r) (merge_spec es (m # ms))
      else if kv_k e = m_k m then do {
        kvs \<leftarrow> apply_old e m;
        r \<leftarrow> merge_spec es ms;
        Some (kvs @ r)
      }
      else map_option (\<lambda>r. apply_new m @ r) (merge_spec (e # es) ms))"

definition entry :: "kvp list \<Rightarrow> key \<Rightarrow> kvp option" where
  "entry es k = find (\<lambda>e. kv_k e = k) es"

definition msg_for :: "gmsg list \<Rightarrow> key \<Rightarrow> gmsg option" where
  "msg_for ms k = find (\<lambda>m. m_k m = k) ms"

text \<open>The update of a map by one message.\<close>

definition upd :: "gmsg \<Rightarrow> kvp option \<Rightarrow> kvp option" where
  "upd m old =
     (if m_op m = OINSERT then Some \<lparr>kv_k = m_k m, kv_v = m_v m\<rparr>
      else if m_op m = OWSTAT then Option.bind old (\<lambda>kv. statupdate kv m)
      else None)"

lemma setvals_rep:
  "leaf_rep b es \<Longrightarrow> leaf_fits (es @ kvs) \<Longrightarrow>
     \<exists>b'. setvals b kvs = Some b' \<and> leaf_rep b' (es @ kvs) \<and> same_frame b b'"
proof (induction kvs arbitrary: b es)
  case Nil
  then show ?case by simp
next
  case (Cons kv kvs)
  then have "leaf_fits (es @ [kv])" using leaf_fits_prefix [of "es @ [kv]" kvs] by simp
  then obtain b1 where b1: "setval b kv = Some b1" "leaf_rep b1 (es @ [kv])" "same_frame b b1"
    using leaf_rep_setval [OF Cons.prems(1)] by blast
  with Cons.IH [OF b1(2)] Cons.prems(2) show ?case by (auto intro: same_frame_trans)
qed

lemma setval_setvals: "setval b kv = setvals b [kv]"
  by (cases "setval b kv") simp_all

text \<open>
  The loop of \<^verbatim>\<open>gefs_btupsert\<close> appends exactly the merged list, provided it fits the leaf.
\<close>

lemma merge_loop_spec:
  assumes root: "blk_vals root es"
  shows "i \<le> length es \<Longrightarrow> leaf_rep new acc \<Longrightarrow> merge_spec (drop i es) ms = Some out \<Longrightarrow>
     leaf_fits (acc @ out) \<Longrightarrow>
     \<exists>new'. merge_loop root (int i) ms new = Some new' \<and> leaf_rep new' (acc @ out) \<and> same_frame new new'"
proof (induction "length es - i + length ms" arbitrary: i ms new acc out rule: less_induct)
  case less
  have nv: "nval root = int (length es)" and gv: "\<And>j. j < length es \<Longrightarrow> getval root (int j) = Some (es ! j)"
    using root by (auto simp: blk_vals_def)
  have step: "\<exists>new'. (do { n \<leftarrow> setvals new kvs; merge_loop root (int j) ms' n }) = Some new'
      \<and> leaf_rep new' (acc @ out) \<and> same_frame new new'"
    if st: "length es - j + length ms' < length es - i + length ms" "j \<le> length es"
      "merge_spec (drop j es) ms' = Some out'" "out = kvs @ out'" for kvs j ms' out'
  proof -
    have "leaf_fits (acc @ kvs)" using leaf_fits_prefix [of "acc @ kvs" out'] less.prems(4) st(4) by simp
    then obtain n1 where n1: "setvals new kvs = Some n1" "leaf_rep n1 (acc @ kvs)" "same_frame new n1"
      using setvals_rep [OF less.prems(2)] by blast
    obtain new' where "merge_loop root (int j) ms' n1 = Some new'" "leaf_rep new' ((acc @ kvs) @ out')" "same_frame n1 new'"
      using less.hyps [OF st(1,2) n1(2) st(3)] less.prems(4) st(4) by auto
    then show ?thesis using n1 st(4) by (auto intro: same_frame_trans)
  qed
  show ?case
  proof (cases "i < length es")
    case False
    then have [simp]: "i = length es" using less.prems(1) by simp
    show ?thesis
    proof (cases ms)
      case Nil
      then show ?thesis using less.prems nv by (subst merge_loop.simps) simp
    next
      case (Cons m ms')
      then obtain out' where o: "merge_spec [] ms' = Some out'" "out = apply_new m @ out'"
        using less.prems(3) by auto
      show ?thesis
        using step [of i ms' out' "apply_new m"] o Cons nv by (subst merge_loop.simps) simp
    qed
  next
    case True
    have dr: "drop i es = es ! i # drop (Suc i) es" using True by (simp add: Cons_nth_drop_Suc)
    show ?thesis
    proof (cases ms)
      case Nil
      have "out = [es ! i] @ drop (Suc i) es" using less.prems(3) Nil dr by simp
      then show ?thesis
        using step [of "Suc i" "[]" "drop (Suc i) es" "[es ! i]"] True Nil nv gv
        by (subst merge_loop.simps) (simp add: setval_setvals add.commute del: setvals.simps)
    next
      case (Cons m ms')
      consider (lt) "kv_k (es ! i) < m_k m" | (eq) "kv_k (es ! i) = m_k m" | (gt) "m_k m < kv_k (es ! i)"
        by fastforce
      then show ?thesis
      proof cases
        case lt
        then obtain out' where "merge_spec (drop (Suc i) es) ms = Some out'" "out = [es ! i] @ out'"
          using less.prems(3) dr Cons by auto
        then show ?thesis
          using step [of "Suc i" ms out' "[es ! i]"] True Cons nv gv lt
          by (subst merge_loop.simps) (simp add: setval_setvals add.commute keycmp_iff del: setvals.simps)
      next
        case eq
        then obtain kvs out' where "apply_old (es ! i) m = Some kvs" "merge_spec (drop (Suc i) es) ms' = Some out'" "out = kvs @ out'"
          using less.prems(3) dr Cons by (auto split: bind_splits)
        then show ?thesis
          using step [of "Suc i" ms' out' kvs] True Cons nv gv eq
          by (subst merge_loop.simps) (simp add: add.commute keycmp_order)
      next
        case gt
        then have ng: "\<not> kv_k (es ! i) < m_k m" "kv_k (es ! i) \<noteq> m_k m" by auto
        then obtain out' where "merge_spec (drop i es) ms' = Some out'" "out = apply_new m @ out'"
          using less.prems(3) dr Cons by auto
        then show ?thesis
          using step [of i ms' out' "apply_new m"] True Cons nv gv ng
          by (subst merge_loop.simps) (simp add: keycmp_order)
      qed
    qed
  qed
qed

section \<open>The merge as an update of a map\<close>

lemma apply_old_keys: "apply_old e m = Some kvs \<Longrightarrow> kv_k e = m_k m \<Longrightarrow> kv \<in> set kvs \<Longrightarrow> kv_k kv = m_k m"
  by (auto simp: apply_old_def cpkvp_def dest: statupdate_key split: if_splits bind_splits)

lemma apply_new_keys: "kv \<in> set (apply_new m) \<Longrightarrow> kv_k kv = m_k m"
  by (auto simp: apply_new_def split: if_splits)

lemma merge_spec_keys:
  "merge_spec es ms = Some out \<Longrightarrow> kv \<in> set out \<Longrightarrow> kv_k kv \<in> kv_k ` set es \<union> m_k ` set ms"
proof (induction es ms arbitrary: out rule: merge_spec.induct)
  case (2 m ms)
  then show ?case using apply_new_keys by fastforce
next
  case (3 e es m ms)
  consider (lt) "kv_k e < m_k m" | (eq) "kv_k e = m_k m" | (gt) "\<not> kv_k e < m_k m" "kv_k e \<noteq> m_k m" by blast
  then show ?case
  proof cases
    case lt
    then obtain r where "merge_spec es (m # ms) = Some r" "out = e # r" using "3.prems"(1) by auto
    then show ?thesis using "3.IH"(1) [OF lt] "3.prems"(2) by auto
  next
    case eq
    then obtain kvs r where "apply_old e m = Some kvs" "merge_spec es ms = Some r" "out = kvs @ r"
      using "3.prems"(1) by (auto split: bind_splits)
    then show ?thesis using "3.IH"(2) [of kvs r] "3.prems"(2) eq apply_old_keys [of e m kvs kv] by auto
  next
    case gt
    then obtain r where "merge_spec (e # es) ms = Some r" "out = apply_new m @ r" using "3.prems"(1) by auto
    then show ?thesis using "3.IH"(3) [OF gt] "3.prems"(2) apply_new_keys [of kv m] by auto
  qed
qed auto

lemma short_sorted:
  "apply_old e m = Some kvs \<Longrightarrow> length kvs \<le> 1" "length (apply_new m) \<le> 1"
  by (auto simp: apply_old_def apply_new_def split: if_splits bind_splits)

text \<open>Strictly increasing keys stay strictly increasing.\<close>

definition strict :: "key list \<Rightarrow> bool" where
  "strict ks \<longleftrightarrow> sorted_wrt (<) ks"

lemma strict_iff: "strict ks \<longleftrightarrow> sorted ks \<and> distinct ks"
  by (simp add: strict_def strict_sorted_iff)

lemma strict_Cons: "strict (k # ks) \<longleftrightarrow> (\<forall>x \<in> set ks. k < x) \<and> strict ks"
  by (simp add: strict_def)

lemma strict_prepend:
  assumes "length kvs \<le> 1" and "strict (map kv_k out)" and "\<And>kv. kv \<in> set kvs \<Longrightarrow> kv_k kv = k"
    and "\<And>kv. kv \<in> set out \<Longrightarrow> k < kv_k kv"
  shows "strict (map kv_k (kvs @ out))"
  using assms by (cases kvs) (auto simp: strict_Cons)

lemma merge_spec_strict:
  "merge_spec es ms = Some out \<Longrightarrow> strict (map kv_k es) \<Longrightarrow> strict (map m_k ms) \<Longrightarrow> strict (map kv_k out)"
proof (induction es ms arbitrary: out rule: merge_spec.induct)
  case (1 es)
  then show ?case by simp
next
  case (2 m ms)
  then obtain r where r: "merge_spec [] ms = Some r" "out = apply_new m @ r" by auto
  have "m_k m < kv_k kv" if "kv \<in> set r" for kv
    using merge_spec_keys [OF r(1) that] "2.prems"(3) by (auto simp: strict_Cons)
  moreover have "strict (map kv_k r)" using "2.IH" [OF r(1)] "2.prems" by (simp add: strict_Cons)
  ultimately show ?case
    unfolding r(2) by (rule_tac strict_prepend [OF short_sorted(2)]) (auto dest: apply_new_keys)
next
  case (3 e es m ms)
  note es = "3.prems"(2) [simplified strict_Cons list.map] and ms = "3.prems"(3) [simplified strict_Cons list.map]
  consider (lt) "kv_k e < m_k m" | (eq) "kv_k e = m_k m" | (gt) "m_k m < kv_k e" by fastforce
  then show ?case
  proof cases
    case lt
    then obtain r where r: "merge_spec es (m # ms) = Some r" "out = [e] @ r" using "3.prems"(1) by auto
    have "kv_k e < kv_k kv" if "kv \<in> set r" for kv
      using merge_spec_keys [OF r(1) that] es ms lt by (auto intro: less_trans)
    then show ?thesis
      using r "3.IH"(1) [OF lt r(1)] "3.prems" es by (auto simp: strict_Cons)
  next
    case eq
    then obtain kvs r where r: "apply_old e m = Some kvs" "merge_spec es ms = Some r" "out = kvs @ r"
      using "3.prems"(1) by (auto split: bind_splits)
    have "m_k m < kv_k kv" if "kv \<in> set r" for kv
      using merge_spec_keys [OF r(2) that] es ms eq by auto
    moreover have "strict (map kv_k r)"
      using "3.IH"(2) [of kvs r] eq r es ms by (simp add: strict_Cons)
    ultimately show ?thesis
      unfolding r(3) by (rule_tac strict_prepend [OF short_sorted(1) [OF r(1)]]) (auto intro: apply_old_keys [OF r(1) eq])
  next
    case gt
    then have ng: "\<not> kv_k e < m_k m" "kv_k e \<noteq> m_k m" by auto
    then obtain r where r: "merge_spec (e # es) ms = Some r" "out = apply_new m @ r" using "3.prems"(1) by auto
    have "m_k m < kv_k kv" if "kv \<in> set r" for kv
      using merge_spec_keys [OF r(1) that] es ms gt by (auto intro: less_trans)
    moreover have "strict (map kv_k r)"
      using "3.IH"(3) [OF ng r(1)] "3.prems" ms by (simp add: strict_Cons)
    ultimately show ?thesis
      unfolding r(2) by (rule_tac strict_prepend [OF short_sorted(2)]) (auto dest: apply_new_keys)
  qed
qed

lemma entry_append: "entry (xs @ ys) k = (case entry xs k of None \<Rightarrow> entry ys k | Some e \<Rightarrow> Some e)"
  by (induction xs) (auto simp: entry_def)

lemma entry_None: "k \<notin> kv_k ` set xs \<Longrightarrow> entry xs k = None"
  by (auto simp: entry_def find_None_iff)

lemma msg_for_None: "k \<notin> m_k ` set ms \<Longrightarrow> msg_for ms k = None"
  by (auto simp: msg_for_def find_None_iff)

lemma entry_Cons: "entry (e # es) k = (if kv_k e = k then Some e else entry es k)"
  by (simp add: entry_def)

lemma msg_for_Cons: "msg_for (m # ms) k = (if m_k m = k then Some m else msg_for ms k)"
  by (simp add: msg_for_def)

lemma entry_apply_old: "apply_old e m = Some kvs \<Longrightarrow> kv_k e = m_k m \<Longrightarrow>
    entry kvs k = (if k = m_k m then upd m (Some e) else None)"
  by (auto simp: apply_old_def upd_def cpkvp_def entry_def dest: statupdate_key split: if_splits bind_splits)

lemma entry_apply_new: "entry (apply_new m) k = (if k = m_k m then upd m None else None)"
  by (auto simp: apply_new_def upd_def entry_def)

lemma merge_spec_entry:
  "merge_spec es ms = Some out \<Longrightarrow> strict (map kv_k es) \<Longrightarrow> strict (map m_k ms) \<Longrightarrow>
     entry out k = (case msg_for ms k of None \<Rightarrow> entry es k | Some m \<Rightarrow> upd m (entry es k))"
proof (induction es ms arbitrary: out rule: merge_spec.induct)
  case (1 es)
  then show ?case by (simp add: msg_for_def)
next
  case (2 m ms)
  then obtain r where r: "merge_spec [] ms = Some r" "out = apply_new m @ r" by auto
  have "entry r (m_k m) = None"
    using merge_spec_keys [OF r(1)] "2.prems"(3) by (intro entry_None) (force simp: strict_Cons)
  then show ?case
    using r "2.IH" [OF r(1)] "2.prems"
    by (auto simp: entry_append entry_apply_new msg_for_Cons strict_Cons entry_def [of "[]"] split: option.splits)
next
  case (3 e es m ms)
  note es = "3.prems"(2) [simplified strict_Cons list.map] and ms = "3.prems"(3) [simplified strict_Cons list.map]
  consider (lt) "kv_k e < m_k m" | (eq) "kv_k e = m_k m" | (gt) "\<not> kv_k e < m_k m" "kv_k e \<noteq> m_k m" by blast
  then show ?case
  proof cases
    case lt
    then obtain r where r: "merge_spec es (m # ms) = Some r" "out = e # r" using "3.prems"(1) by auto
    have "msg_for (m # ms) (kv_k e) = None" using ms lt by (intro msg_for_None) force
    then show ?thesis
      using r "3.IH"(1) [OF lt r(1)] "3.prems" es by (auto simp: entry_Cons strict_Cons split: option.split)
  next
    case eq
    then obtain kvs r where r: "apply_old e m = Some kvs" "merge_spec es ms = Some r" "out = kvs @ r"
      using "3.prems"(1) by (auto split: bind_splits)
    have "entry r (m_k m) = None" using merge_spec_keys [OF r(2)] es ms eq by (intro entry_None) force
    moreover have "entry r k = (case msg_for ms k of None \<Rightarrow> entry es k | Some m \<Rightarrow> upd m (entry es k))"
      using "3.IH"(2) [of kvs r] eq r es ms by (simp add: strict_Cons)
    ultimately show ?thesis
      using r(3) eq by (auto simp: entry_append entry_apply_old [OF r(1) eq] entry_Cons msg_for_Cons split: option.splits)
  next
    case gt
    then have lt: "m_k m < kv_k e" by simp
    obtain r where r: "merge_spec (e # es) ms = Some r" "out = apply_new m @ r" using "3.prems"(1) gt by auto
    have "entry r (m_k m) = None" "entry (e # es) (m_k m) = None"
      using merge_spec_keys [OF r(1)] es ms lt by (intro entry_None, force)+
    then show ?thesis
      using r "3.IH"(3) [OF gt r(1)] "3.prems" ms
      by (auto simp: entry_append entry_apply_new msg_for_Cons strict_Cons split: option.splits)
  qed
qed

text \<open>The merge is defined when no stat message meets an entry it cannot update.\<close>

lemma merge_spec_defined:
  "(\<forall>m \<in> set ms. \<forall>e \<in> set es. m_op m = OWSTAT \<longrightarrow> kv_k e = m_k m \<longrightarrow>
      length (kv_k e) + length (kv_v e) \<le> INLMAX \<and> statupdate e m \<noteq> None) \<Longrightarrow> \<exists>out. merge_spec es ms = Some out"
proof (induction es ms rule: merge_spec.induct)
  case (3 e es m ms)
  consider (lt) "kv_k e < m_k m" | (eq) "kv_k e = m_k m" | (gt) "\<not> kv_k e < m_k m" "kv_k e \<noteq> m_k m" by blast
  then show ?case
  proof cases
    case lt
    then show ?thesis using "3.IH"(1) [OF lt] "3.prems" by auto
  next
    case eq
    have "\<exists>kvs. apply_old e m = Some kvs"
      using "3.prems" eq by (auto simp: apply_old_def cpkvp_def)
    then obtain kvs where kvs: "apply_old e m = Some kvs" by blast
    then have "\<exists>r. merge_spec es ms = Some r" using "3.IH"(2) [of kvs] "3.prems" eq by auto
    then show ?thesis using eq kvs by auto
  next
    case gt
    then show ?thesis using "3.IH"(3) [OF gt] "3.prems" by auto
  qed
qed auto

section \<open>Copy on write\<close>

lemma parse_blk_mask:
  assumes "leaf_rep (parse_blk bp m) es" and "\<And>i. 0 \<le> i \<Longrightarrow> i < BLKSZ \<Longrightarrow> m' i = m i"
  shows "leaf_rep (parse_blk bp' m') es"
proof -
  have r: "rd m' a n = rd m a n" if "0 \<le> a" "a + int n \<le> BLKSZ" for a n
    using assms(2) that by (intro rd_cong) auto
  let ?b = "parse_blk bp m" and ?b' = "parse_blk bp' m'"
  have ty: "btype ?b = TLEAF" and v: "vals_rep LEAFSPC ?b es" "doff ?b = LEAFHDSZ" using assms(1) by (auto simp: leaf_rep_def)
  have t2: "s16 (unpack16 (rd m 0 2)) = 2"
    using ty by (simp add: parse_blk_def Let_def zero_blk_def split: if_splits)
  have f: "btype ?b' = btype ?b" "nval ?b' = nval ?b" "valsz ?b' = valsz ?b" "doff ?b' = doff ?b" "buf ?b' = m'" "buf ?b = m"
    using t2 r by (simp_all add: parse_blk_def Let_def zero_blk_def)
  have "vals_rep LEAFSPC ?b' es"
    using v f assms(2) by (intro vals_rep_cong [OF v(1)]) auto
  then show ?thesis using ty v f by (simp add: leaf_rep_def)
qed

lemma leaf_rep_norm [simp]: "leaf_rep (norm b) es = leaf_rep b es"
  by (simp add: leaf_rep_def vals_rep_def entry_at_def slot_def)

text \<open>What reaches the device: the new leaf can be read back.\<close>

lemma write_leaf_on_disk:
  assumes "leaf_rep b es" and "blk_bp b = bp" and "0 \<le> sint (bp_addr bp)"
  shows "\<exists>v. on_disk (dev (fst (blk_finalize_and_write s b))) (bp_addr bp) = Some v \<and> leaf_rep v es"
proof -
  let ?m = "\<lambda>i. if 0 \<le> i \<and> i < BLKSZ then finalize_hdr b i else 0"
  have "pread_blk (dev (fst (blk_finalize_and_write s b))) (sint (bp_addr bp)) = Some ?m"
    using pread_pwrite_same [OF assms(3)] assms(2) by (simp add: blk_finalize_and_write_def Let_def)
  moreover have "leaf_rep (parse_blk zero_bptr ?m) es"
    by (rule parse_blk_mask [OF parse_finalize_leaf [OF assms(1), of bp]]) simp
  ultimately show ?thesis by (simp add: on_disk_def)
qed

text \<open>The contract of the steps after the merge: write, enter into the cache, release the old root.\<close>

text \<open>Writing a block at a fresh address and entering it into the cache.\<close>

lemma enter_ok:
  assumes ok: "cache_ok d c hs S" and w: "off + BLKSZ \<le> dsize d" and ap: "\<forall>a \<in> S \<union> known c. apart off a"
    and so: "sint (word_of_int off :: u64) = off" and b: "bp_addr (blk_bp b) = word_of_int off"
  shows "\<exists>c1 q. cache_insert c (b\<lparr>ref := 1\<rparr>) = Some (c1, q)
     \<and> cache_ok (pwrite_blk d off m) c1 hs (insert (word_of_int off) S)
     \<and> seen (pwrite_blk d off m) c1 (insert (word_of_int off) S) = (seen d c S)(word_of_int off \<mapsto> norm b)
     \<and> known c1 = insert (word_of_int off) (known c)"
proof -
  let ?a = "word_of_int off :: u64" and ?d = "pwrite_blk d off m"
  have fresh: "?a \<notin> known c" "?a \<notin> S" using ap so apart_neq by blast+
  have ok1: "cache_ok ?d c hs S" and v1: "\<forall>a \<in> S. view ?d c a = view d c a"
    using bstore.write_law [OF ok w] ap by auto
  have "cache_ok ?d c hs (S \<union> {?a})" using bstore.extend_law [OF ok1, of "{?a}"] fresh by simp
  then have ok2: "cache_ok ?d c hs (insert ?a S)" by simp
  obtain c1 q where c1: "cache_insert c (b\<lparr>ref := 1\<rparr>) = Some (c1, q)" "cache_ok ?d c1 hs (insert ?a S)"
    "known c1 = insert ?a (known c)" "\<forall>a. view ?d c1 a = (if a = ?a then Some (norm b) else view ?d c a)"
    using bstore.enter_law [OF ok2, of "b\<lparr>ref := 1\<rparr>"] fresh b by auto
  have "seen ?d c1 (insert ?a S) = (seen d c S)(?a \<mapsto> norm b)"
    using c1(4) v1 by (auto simp: restrict_map_def fun_eq_iff)
  then show ?thesis using c1 by auto
qed

lemma commit_ok:
  assumes "cache_ok d c (p # hs) S" and "off + BLKSZ \<le> dsize d" and "\<forall>a \<in> S \<union> known c. apart off a"
    and "sint (word_of_int off :: u64) = off" and "bp_addr (blk_bp b) = word_of_int off"
  shows "\<exists>c1 c2 q. cache_insert c (b\<lparr>ref := 1\<rparr>) = Some (c1, q) \<and> release c1 p = Some c2
     \<and> cache_ok (pwrite_blk d off m) c2 hs (insert (word_of_int off) S)
     \<and> seen (pwrite_blk d off m) c2 (insert (word_of_int off) S) = (seen d c S)(word_of_int off \<mapsto> norm b)
     \<and> known c2 = insert (word_of_int off) (known c)"
proof -
  let ?a = "word_of_int off :: u64" and ?d = "pwrite_blk d off m"
  obtain c1 q where c1: "cache_insert c (b\<lparr>ref := 1\<rparr>) = Some (c1, q)" "cache_ok ?d c1 (p # hs) (insert ?a S)"
    "seen ?d c1 (insert ?a S) = (seen d c S)(?a \<mapsto> norm b)" "known c1 = insert ?a (known c)"
    using enter_ok [OF assms, of m] by blast
  obtain c2 where c2: "release c1 p = Some c2" "cache_ok ?d c2 hs (insert ?a S)" "\<forall>a. view ?d c2 a = view ?d c1 a" "known c2 = known c1"
    using bstore.release_law [OF c1(2), of p] by auto
  then show ?thesis using c1 seen_cong [of "insert ?a S" ?d c2 c1] by auto
qed

definition upserted :: "ctx \<Rightarrow> ctx \<Rightarrow> tref \<Rightarrow> bptr \<Rightarrow> bool" where
  "upserted s s' tr bp \<longleftrightarrow>
     tree_of tr s' = (tree_of tr s)\<lparr>t_bp := bp, t_ht := 1\<rparr>
     \<and> active_tree s' = (if t_gen (tree_of tr s) = t_gen (active_tree s)
         then (active_tree s)\<lparr>t_bp := bp, t_ht := 1\<rparr> else active_tree s)
     \<and> (tr = TActive \<longrightarrow> snap_tree s' = snap_tree s)
     \<and> sb s' = sb s \<and> dirty s' \<and> \<not> readonly s' \<and> active_snap_name s' = active_snap_name s
     \<and> bp_gen bp = t_gen (tree_of tr s) \<and> free_bytes s' = free_bytes s - BLKSZ
     \<and> map a_hdaddr (arenas s') = map a_hdaddr (arenas s)
     \<and> (\<forall>w. (\<forall>r \<in> set (free_ranges s). outside r w)
          \<longrightarrow> apart (sint (bp_addr bp)) w \<and> (\<forall>r \<in> set (free_ranges s'). outside r w))"

lemma btupsert_leaf:
  assumes ok: "fs_ok s hs S" and rw: "\<not> readonly s" and ne: "msgs \<noteq> []" and free: "free_ranges s \<noteq> []"
    and tree: "tree_at (seen_by s S) 1 (bp_addr (t_bp (tree_of tr s))) (ALeaf es)"
    and merge: "merge_spec es (sort_key m_k msgs) = Some out" and fits: "leaf_fits out"
    and strict: "strict (map kv_k out)"
  shows "\<exists>s' bp. btupsert s tr msgs = Some (s', Inr ()) \<and> upserted s s' tr bp
     \<and> fs_ok s' hs (insert (bp_addr bp) S) \<and> bp_addr bp \<notin> S
     \<and> tree_at (seen_by s' (insert (bp_addr bp) S)) 1 (bp_addr bp) (ALeaf out)
     \<and> seen_by s S \<subseteq>\<^sub>m seen_by s' (insert (bp_addr bp) S)
     \<and> (\<exists>v. on_disk (dev s') (bp_addr bp) = Some v \<and> leaf_rep v out)
     \<and> dsize (dev s') = dsize (dev s)"
proof -
  let ?t = "tree_of tr s"
  obtain b0 where b0: "seen_by s S (bp_addr (t_bp ?t)) = Some b0" "blk_vals b0 es"
    using tree by (auto elim: tree_at.cases)
  have co: "cache_ok (dev s) (bc s) hs S" and rk: "ranges_ok (free_ranges s) (dsize (dev s)) (S \<union> known (bc s))"
    and sz: "dsize (dev s) < 2 ^ 63"
    using ok by (auto simp: fs_ok_def)
  have inS: "bp_addr (t_bp ?t) \<in> S" using b0(1) by (auto simp: restrict_map_def split: if_splits)
  obtain c1 p root where f: "fetch (dev s) (bc s) (t_bp ?t) = Some (c1, Some (p, root))" "norm root = b0"
    "cache_ok (dev s) c1 (p # hs) S" "\<forall>a \<in> S. view (dev s) c1 a = view (dev s) (bc s) a"
    "known c1 \<subseteq> insert (bp_addr (t_bp ?t)) (known (bc s))"
    using bstore.fetch_present [OF co, of "t_bp ?t" b0] b0 inS by (auto simp: restrict_map_def)
  let ?s1 = "s\<lparr>bc := c1\<rparr>"
  have kn: "S \<union> known c1 \<subseteq> S \<union> known (bc s)" using f(5) inS by auto
  have fs1: "fs_ok ?s1 (p # hs) S"
    using ok f(3) ranges_ok_mono [OF rk kn order_refl] by (simp add: fs_ok_def free_ranges_def)
  have fr1: "free_ranges ?s1 = free_ranges s" "free_bytes ?s1 = free_bytes s" "arenas ?s1 = arenas s" "dev ?s1 = dev s" "bc ?s1 = c1" by (simp_all add: free_ranges_def free_bytes_def)
  have r1: "\<not> readonly ?s1" "free_ranges ?s1 \<noteq> []" using rw free fr1 by simp_all
  obtain as off where al: "alloc_blk ?s1 = Some (?s1\<lparr>arenas := as, dirty := True\<rparr>, off)" "length as = length (arenas s)"
    "0 \<le> off" "off + BLKSZ \<le> dsize (dev s)" "sint (word_of_int off :: u64) = off" "\<forall>a \<in> S \<union> known c1. apart off a"
    "ranges_ok (concat (map a_free as)) (dsize (dev s)) (insert (word_of_int off) (S \<union> known c1))"
    "(\<Sum>r \<leftarrow> concat (map a_free as). snd r) = free_bytes s - BLKSZ" "map a_hdaddr as = map a_hdaddr (arenas s)"
    "\<forall>w. (\<forall>r \<in> set (free_ranges s). outside r w) \<longrightarrow> apart off w \<and> (\<forall>r \<in> set (concat (map a_free as)). outside r w)"
    using alloc_blk_some [OF fs1 r1] unfolding fr1 by blast
  let ?a = "word_of_int off :: u64" and ?nl = "new_leaf off (t_gen ?t)"
  have nl: "leaf_rep ?nl []" by (rule leaf_rep_empty) (simp_all add: new_leaf_def zero_blk_def)
  obtain new where new: "merge_loop root 0 (stablesort m_k msgs) ?nl = Some new" "leaf_rep new out" "same_frame ?nl new"
    using merge_loop_spec [of root es 0 ?nl "[]" "stablesort m_k msgs" out] nl merge fits b0(2) f(2) norm_blk_vals
    by (auto simp: stablesort_sort_key)
  let ?fb = "finalize_blk new"
  have bp: "bp_addr (blk_bp new) = ?a" "bp_gen (blk_bp new) = t_gen ?t"
    using new(3) by (auto simp: same_frame_def new_leaf_def)
  let ?d = "pwrite_blk (dev s) off (buf ?fb)"
  obtain c2 c3 q where cm: "cache_insert c1 (?fb\<lparr>ref := 1\<rparr>) = Some (c2, q)" "release c2 p = Some c3"
    "cache_ok ?d c3 hs (insert ?a S)" "seen ?d c3 (insert ?a S) = (seen (dev s) c1 S)(?a \<mapsto> norm ?fb)"
    "known c3 = insert ?a (known c1)"
    using commit_ok [OF f(3) al(4,6,5), of ?fb "buf ?fb"] bp by auto
  have ds: "dsize ?d = dsize (dev s)" using al(4) by (simp add: pwrite_blk_def)
  define s' where "s' = (let s1 = set_tree tr (?t\<lparr>t_bp := blk_bp ?fb, t_ht := 1\<rparr>) (s\<lparr>bc := c1, arenas := as, dirty := True, dev := ?d\<rparr>)
      in (if t_gen ?t = t_gen (active_tree s1)
          then s1\<lparr>active_tree := (active_tree s1)\<lparr>t_bp := blk_bp ?fb, t_ht := 1\<rparr>\<rparr> else s1)\<lparr>bc := c3, dirty := True\<rparr>)"
  have up: "btupsert s tr msgs = Some (s', Inr ())"
    using rw ne f(1) al new(1) cm(1,2) bp(1)
    by (cases tr) (simp_all add: btupsert_def getb_def dropb_def enterb_def blk_finalize_and_write_def s'_def Let_def)
  have fields: "dev s' = ?d" "bc s' = c3" "arenas s' = as" "sb s' = sb s" "dirty s'" "readonly s' = readonly s"
    by (cases tr; simp add: s'_def Let_def)+
  have seen': "seen_by s' (insert ?a S) = (seen_by s S)(?a \<mapsto> norm ?fb)"
    using cm(4) seen_cong [OF f(4)] fields by simp
  have "fs_ok s' hs (insert ?a S)"
    using cm(3) ok al(2,7) fields ds cm(5) by (auto simp: fs_ok_def free_ranges_def insert_commute intro: ranges_ok_mono)
  moreover have "?a \<notin> S" using al(5,6) apart_neq by blast
  moreover from this have "seen_by s S \<subseteq>\<^sub>m seen_by s' (insert ?a S)"
    unfolding seen' by (auto simp: map_le_def)
  moreover have "tree_at (seen_by s' (insert ?a S)) 1 ?a (ALeaf out)"
    using leaf_rep_blk_vals [OF leaf_rep_finalize [OF new(2)]] strict seen' new(2)
    by (intro tree_at.leaf [of _ _ "norm ?fb"]) (auto simp: strict_iff leaf_rep_def)
  moreover have "\<exists>v. on_disk (dev s') ?a = Some v \<and> leaf_rep v out"
    using write_leaf_on_disk [OF new(2) refl, of s] bp al(3,5) fields by (simp add: blk_finalize_and_write_def Let_def)
  moreover have "upserted s s' tr (blk_bp ?fb)"
    using fields rw bp al(5,8-10) by (cases tr) (auto simp: upserted_def s'_def Let_def free_bytes_def free_ranges_def)
  moreover have "bp_addr (blk_bp ?fb) = ?a" using bp by simp
  ultimately show ?thesis using up fields ds by metis
qed

section \<open>Reading after an update\<close>

definition small_entries :: "nat \<Rightarrow> kvp list \<Rightarrow> bool" where
  "small_entries n es \<longleftrightarrow> list_all (\<lambda>e. length (kv_k e) + length (kv_v e) \<le> n) es"

lemma lookup_leaf:
  assumes "fs_ok s hs S" and "tree_at (seen_by s S) 1 (bp_addr (t_bp t)) (ALeaf es)" and "t_ht t = 1"
    and "small_entries n es"
  shows "\<exists>s'. lookup s t k n = Some (s', entry es k) \<and> fs_ok s' hs S \<and> seen_by s' S = seen_by s S \<and> same_fs s s'"
  using lookup_ok [OF assms(1,2), of n k] assms(3,4) by (auto simp: entry_def small_entries_def list_all_iff)

lemma msg_for_sort:
  assumes "distinct (map m_k ms)"
  shows "msg_for (sort_key m_k ms) k = msg_for ms k"
proof -
  have "m = m'" if "m \<in> set ms" "m' \<in> set ms" "m_k m = m_k m'" for m m'
    using assms that by (auto simp: distinct_map inj_on_def)
  moreover have "x \<in> set ms \<and> m_k x = k" if "msg_for ms k = Some x" for x ms
    using that by (auto simp: msg_for_def find_Some_iff)
  moreover have "msg_for ms k = None \<longleftrightarrow> k \<notin> m_k ` set ms" for ms
    by (auto simp: msg_for_def find_None_iff)
  ultimately show ?thesis
    by (metis (no_types, opaque_lifting) not_None_eq set_sort)
qed

lemma strict_sort: "distinct (map m_k ms) \<Longrightarrow> strict (map m_k (sort_key m_k ms))"
  by (simp add: strict_iff distinct_map)

end
