(* ===== verification/Sample.thy ===== *)
theory Sample
  imports Upsert
begin

text \<open>
  A small context used to exercise the operations on concrete inputs: a device of 64 blocks
  with two leaves, the root of the active tree at 16384 and the root of the snapshot catalog at
  32768, an empty cache and one arena with eight free blocks. The leaves are written with the
  code's own \<^verbatim>\<open>blk_setval\<close> and \<^verbatim>\<open>blk_finalize_and_write\<close>.
\<close>

definition blank_dev :: device where
  "blank_dev = \<lparr>dbytes = zeros, dsize = 1048576\<rparr>"

definition sample_leaf :: "int \<Rightarrow> kvp list \<Rightarrow> gblk" where
  "sample_leaf addr es = the (setvals (new_leaf addr 1) es)"

definition sample_dev :: "kvp list \<Rightarrow> kvp list \<Rightarrow> device" where
  "sample_dev es cat =
     pwrite_blk (pwrite_blk blank_dev 16384 (finalize_hdr (sample_leaf 16384 es)))
       32768 (finalize_hdr (sample_leaf 32768 cat))"

definition sample_tree :: "u64 \<Rightarrow> u64 \<Rightarrow> gtree" where
  "sample_tree addr gen = zero_tree\<lparr>t_ht := 1, t_bp := zero_bptr\<lparr>bp_addr := addr\<rparr>, t_gen := gen\<rparr>"

definition sample_super :: super where
  "sample_super = \<lparr>sb_blksz = 16384, sb_bufspc = 8187, sb_narena = 1, sb_snap = sample_tree 32768 0,
     sb_flag = 0, sb_nextqid = 16, sb_nextgen = 8, sb_qgen = 0, sb_arenabp = [zero_bptr\<lparr>bp_addr := 49152\<rparr>]\<rparr>"

definition sample_ctx :: "kvp list \<Rightarrow> kvp list \<Rightarrow> ctx" where
  "sample_ctx es cat = \<lparr>dev = sample_dev es cat, sb = sample_super, bc = cache_init 4096 zero_cache,
     snap_tree = sample_tree 32768 0, active_tree = sample_tree 16384 1, active_snap_name = cstr ''main'',
     arenas = [zero_arena\<lparr>a_hdaddr := 49152, a_size := 1048576, a_free := [(65536, 131072)]\<rparr>],
     dirty = False, readonly = False\<rparr>"

abbreviation sample_addrs :: "u64 set" where
  "sample_addrs \<equiv> {16384, 32768}"

lemma sample_leaf_rep:
  assumes "leaf_fits es"
  shows "leaf_rep (sample_leaf addr es) es"
proof -
  have "leaf_rep (new_leaf addr 1) []" by (rule leaf_rep_empty) (simp_all add: new_leaf_def zero_blk_def)
  then show ?thesis using setvals_rep [of "new_leaf addr 1" "[]" es] assms by (auto simp: sample_leaf_def)
qed

lemma written_leaf:
  assumes "leaf_rep b es" and "pread_blk d (sint a) = Some (\<lambda>i. if 0 \<le> i \<and> i < BLKSZ then finalize_hdr b i else 0)"
  shows "\<exists>v. on_disk d a = Some v \<and> blk_vals v es \<and> btype v = TLEAF"
proof -
  have "leaf_rep (parse_blk zero_bptr (\<lambda>i. if 0 \<le> i \<and> i < BLKSZ then finalize_hdr b i else 0)) es"
    by (rule parse_blk_mask [OF parse_finalize_leaf [OF assms(1)]]) simp
  then show ?thesis
    using assms(2) leaf_rep_blk_vals unfolding leaf_rep_def by (auto simp: on_disk_def intro: vals_rep_blk_vals)
qed

lemma sample_reads:
  "pread_blk (sample_dev es cat) 16384
     = Some (\<lambda>i. if 0 \<le> i \<and> i < BLKSZ then finalize_hdr (sample_leaf 16384 es) i else 0)"
  "pread_blk (sample_dev es cat) 32768
     = Some (\<lambda>i. if 0 \<le> i \<and> i < BLKSZ then finalize_hdr (sample_leaf 32768 cat) i else 0)"
proof -
  have "dsize (pwrite_blk blank_dev 16384 m) = 1048576" for m
    by (simp add: pwrite_blk_def blank_dev_def)
  then show "pread_blk (sample_dev es cat) 16384
     = Some (\<lambda>i. if 0 \<le> i \<and> i < BLKSZ then finalize_hdr (sample_leaf 16384 es) i else 0)"
    unfolding sample_dev_def by (subst pread_pwrite_apart) (simp_all add: pread_pwrite_same)
  show "pread_blk (sample_dev es cat) 32768
     = Some (\<lambda>i. if 0 \<le> i \<and> i < BLKSZ then finalize_hdr (sample_leaf 32768 cat) i else 0)"
    unfolding sample_dev_def by (simp add: pread_pwrite_same)
qed

lemma sample_dsize [simp]: "dsize (sample_dev es cat) = 1048576"
  by (simp add: sample_dev_def pwrite_blk_def blank_dev_def)

lemma known_init [simp]: "known (cache_init n zero_cache) = {}"
  by (simp add: known_def cache_init_def zero_cache_def addrs_def ran_def)

lemma view_init [simp]: "view d (cache_init n zero_cache) a = on_disk d a"
  by (simp add: view_def cached_def cache_init_def zero_cache_def chain_find.simps [of _ None])

lemma sample_ok: "fs_ok (sample_ctx es cat) [] sample_addrs"
  by (auto simp: fs_ok_def sample_ctx_def sample_super_def free_ranges_def ranges_ok_def range_in_def
      outside_def dvd_def zero_arena_def cache_init_ok)

lemma sample_trees:
  assumes "leaf_fits es" "leaf_fits cat" "strict (map kv_k es)" "strict (map kv_k cat)"
  shows "tree_at (seen_by (sample_ctx es cat) sample_addrs) 1 16384 (ALeaf es)"
    and "tree_at (seen_by (sample_ctx es cat) sample_addrs) 1 32768 (ALeaf cat)"
proof -
  obtain v where v: "on_disk (sample_dev es cat) 16384 = Some v" "blk_vals v es" "btype v = TLEAF"
    using written_leaf [OF sample_leaf_rep [OF assms(1), of 16384], of "sample_dev es cat" 16384] sample_reads(1) by auto
  obtain w where w: "on_disk (sample_dev es cat) 32768 = Some w" "blk_vals w cat" "btype w = TLEAF"
    using written_leaf [OF sample_leaf_rep [OF assms(2), of 32768], of "sample_dev es cat" 32768] sample_reads(2) by auto
  show "tree_at (seen_by (sample_ctx es cat) sample_addrs) 1 16384 (ALeaf es)"
    using v assms(3) by (intro tree_at.leaf [of _ _ v]) (auto simp: sample_ctx_def restrict_map_def strict_iff)
  show "tree_at (seen_by (sample_ctx es cat) sample_addrs) 1 32768 (ALeaf cat)"
    using w assms(4) by (intro tree_at.leaf [of _ _ w]) (auto simp: sample_ctx_def restrict_map_def strict_iff)
qed

end
