(* ===== verification/Store_Spec.thy ===== *)
theory Store_Spec
  imports Sample
begin

text \<open>
  What the block cache and the allocator promise their clients.
\<close>

section \<open>The block cache\<close>

text \<open>
  C15: \<^verbatim>\<open>gefs_getblk\<close> returns the block a client sees at an address, from the cache or parsed from the
  device, and fails only when there is none. The hash chains and the LRU list stay well formed,
  no block whose reference the client holds is evicted, and nothing the client relies on changes.
\<close>

theorem getblk_returns_view:
  assumes "cache_ok d c hs S"
  shows "\<exists>c' r. getblk d c bp = Some (c', r) \<and> (\<forall>a \<in> S. view d c' a = view d c a)
     \<and> (\<forall>q \<in> set hs. contents (heap c') q = contents (heap c) q)
     \<and> (case r of None \<Rightarrow> view d c (bp_addr bp) = None \<and> cache_ok d c' hs S
        | Some p \<Rightarrow> cache_ok d c' (p # hs) S
            \<and> (\<exists>b. heap c' p = Some b \<and> view d c (bp_addr bp) = Some (norm b)))"
  using getblk_contract [OF assms, of bp] by blast

text \<open>Reading the blank device through an empty cache.\<close>

theorem getblk_returns_view_witness:
  "\<exists>c' p b. getblk blank_dev (cache_init 4 zero_cache) (zero_bptr\<lparr>bp_addr := 16384\<rparr>) = Some (c', Some p)
     \<and> heap c' p = Some b \<and> on_disk blank_dev 16384 = Some (norm b)"
proof -
  have "on_disk blank_dev 16384 \<noteq> None" by (simp add: on_disk_def blank_dev_def pread_blk_def)
  then show ?thesis
    using getblk_returns_view [OF cache_init_ok [of blank_dev 4 "{}"], of "zero_bptr\<lparr>bp_addr := 16384\<rparr>"]
    by (auto split: option.splits)
qed

text \<open>
  Eviction before a block is entered (\<^verbatim>\<open>gefs_getblk\<close>, \<^verbatim>\<open>gefs_btupsert\<close>, \<^verbatim>\<open>gefs_write_file\<close>) returns and
  keeps the hash chains and the LRU list well formed. It drops at most one block, one that nobody
  references, and every other block keeps its contents.
\<close>

theorem evict_drops_unreferenced:
  assumes "cache_inv c L C"
  shows "\<exists>c' L' C'. evict c = Some c' \<and> cache_inv c' L' C'
     \<and> (c' = c \<or> (\<exists>p b. heap c p = Some b \<and> ref b \<le> 0 \<and> same_payload ((heap c)(p := None)) (heap c')))"
  using evict_ok [OF assms] by blast

theorem evict_drops_unreferenced_witness:
  "\<exists>c c' L' C'. getblk blank_dev (cache_init 4 zero_cache) (zero_bptr\<lparr>bp_addr := 16384\<rparr>) = Some c \<and> evict (fst c) = Some c' \<and> cache_inv c' L' C'"
proof -
  obtain c r where c: "getblk blank_dev (cache_init 4 zero_cache) (zero_bptr\<lparr>bp_addr := 16384\<rparr>) = Some (c, r)" "\<exists>hs. cache_ok blank_dev c hs {}"
    using getblk_contract [OF cache_init_ok [of blank_dev 4 "{}"], of "zero_bptr\<lparr>bp_addr := 16384\<rparr>"] by (auto split: option.splits)
  then obtain L C where "cache_inv c L C" by (auto simp: cache_ok_def)
  then show ?thesis using evict_drops_unreferenced [of c L C] c(1) by auto
qed

lemma free_list_segment:
  "dseg h pr L None \<Longrightarrow> distinct L \<Longrightarrow> free_list h (nxt L None) = Some (h |` (- set L))"
proof (induction L arbitrary: h pr)
  case (Cons p L)
  then obtain b where b: "h p = Some b" "cnext b = nxt L None" "dseg h (Some p) L None" by auto
  have seg: "dseg (h(p := None)) (Some p) L None" using b(3) Cons.prems(2) by simp
  have "distinct L" using Cons.prems(2) by simp
  from Cons.IH [OF seg this]
  have "free_list (h(p := None)) (nxt L None) = Some ((h(p := None)) |` (- set L))" .
  moreover have "(h(p := None)) |` (- set L) = h |` (- set (p # L))" by (auto simp: restrict_map_def)
  ultimately show ?case using b by (subst free_list.simps) simp
qed (subst free_list.simps, simp add: restrict_map_def)

text \<open>
  C17: \<^verbatim>\<open>gefs_cache_free\<close> ends and frees every cached block; it never reads a block it has freed.
\<close>

theorem cache_free_frees_all:
  assumes "cache_inv c L C"
  shows "\<exists>c'. cache_free c = Some c' \<and> heap c' = Map.empty \<and> ccount c' = 0 \<and> chead c' = None \<and> ctail c' = None"
proof -
  have L: "dseg (heap c) None L None" "distinct L" "chead c = nxt L None" "set L = dom (heap c)"
    using assms by (auto simp: cache_inv_def lru_ok_def index_ok_def)
  have "heap c |` (- set L) = Map.empty" unfolding L(4) by (auto simp: restrict_map_def dom_def)
  then show ?thesis using free_list_segment [OF L(1,2)] L(3) by (simp add: cache_free_def)
qed

theorem cache_free_frees_all_witness:
  "\<exists>c c'. getblk blank_dev (cache_init 4 zero_cache) (zero_bptr\<lparr>bp_addr := 16384\<rparr>) = Some c
     \<and> heap (fst c) \<noteq> Map.empty \<and> cache_free (fst c) = Some c' \<and> heap c' = Map.empty"
proof -
  have "on_disk blank_dev 16384 \<noteq> None" by (simp add: on_disk_def blank_dev_def pread_blk_def)
  then obtain c p b where c: "getblk blank_dev (cache_init 4 zero_cache) (zero_bptr\<lparr>bp_addr := 16384\<rparr>) = Some (c, Some p)"
    "heap c p = Some b" "cache_ok blank_dev c [p] {}"
    using getblk_contract [OF cache_init_ok [of blank_dev 4 "{}"], of "zero_bptr\<lparr>bp_addr := 16384\<rparr>"] by (auto split: option.splits)
  then obtain L C where "cache_inv c L C" by (auto simp: cache_ok_def)
  then show ?thesis using cache_free_frees_all [of c L C] c(1,2) by auto
qed

section \<open>The allocator\<close>

text \<open>
  C16: \<^verbatim>\<open>gefs_alloc_blk\<close> hands out a whole block inside the device that overlaps no block in use or in
  the cache and no free range that is left, and takes exactly one block of free space; with no
  free space left it returns -1 and changes nothing.
\<close>

theorem alloc_gives_fresh_block:
  assumes "fs_ok s hs S" and "\<not> readonly s"
  shows "if free_ranges s = [] then alloc_blk s = Some (s, - 1)
     else \<exists>s' off. alloc_blk s = Some (s', off) \<and> 0 \<le> off \<and> off + BLKSZ \<le> dsize (dev s)
       \<and> (\<forall>a \<in> S \<union> known (bc s). apart off a) \<and> fs_ok s' hs S \<and> free_bytes s' = free_bytes s - BLKSZ
       \<and> (\<forall>r \<in> set (free_ranges s'). outside r (word_of_int off)) \<and> dev s' = dev s \<and> bc s' = bc s"
proof (cases "free_ranges s = []")
  case True
  then show ?thesis using alloc_blk_none [OF assms(1)] by simp
next
  case False
  obtain as off where a: "alloc_blk s = Some (s\<lparr>arenas := as, dirty := True\<rparr>, off)" "length as = length (arenas s)"
    "0 \<le> off" "off + BLKSZ \<le> dsize (dev s)" "\<forall>a \<in> S \<union> known (bc s). apart off a"
    "ranges_ok (concat (map a_free as)) (dsize (dev s)) (insert (word_of_int off) (S \<union> known (bc s)))"
    "(\<Sum>r \<leftarrow> concat (map a_free as). snd r) = free_bytes s - BLKSZ"
    using alloc_blk_some [OF assms False] by blast
  have "fs_ok (s\<lparr>arenas := as, dirty := True\<rparr>) hs S"
    using assms(1) a(2) ranges_ok_mono [OF a(6), of "S \<union> known (bc s)" "dsize (dev s)"]
    by (auto simp: fs_ok_def free_ranges_def)
  moreover have "\<forall>r \<in> set (concat (map a_free as)). outside r (word_of_int off)"
    using a(6) unfolding ranges_ok_def list_all_iff range_in_def by blast
  ultimately show ?thesis
    using a False by (auto simp: free_bytes_def free_ranges_def simp del: map_concat)
qed

theorem alloc_gives_fresh_block_witness:
  "\<exists>s' off. alloc_blk (sample_ctx [] []) = Some (s', off) \<and> free_bytes s' = 114688 \<and> apart off 16384 \<and> apart off 32768"
  using alloc_gives_fresh_block [OF sample_ok [of "[]" "[]"]]
  by (auto simp: sample_ctx_def free_ranges_def free_bytes_def zero_arena_def)

end
