(* ===== verification/Snapshot.thy ===== *)
theory Snapshot
  imports Upsert
begin

text \<open>
  Opening and closing a filesystem, writing it back and the snapshot catalog
  (\<^verbatim>\<open>gefs_fs_open\<close>, \<^verbatim>\<open>gefs_fs_close\<close>, \<^verbatim>\<open>gefs_opensnap\<close>, \<^verbatim>\<open>gefs_sync_fs\<close>,
  \<^verbatim>\<open>gefs_create_snapshot\<close>, \<^verbatim>\<open>gefs_delete_snapshot\<close> of \<^verbatim>\<open>src/src/gefs_storage.c\<close>). The catalog is the
  tree \<^verbatim>\<open>ctx->snap_tree\<close>: a label maps to a snapshot id and flags, a snapshot id to a tree.

  \<^verbatim>\<open>gefs_opensnap\<close> uses one buffer for the key and for the result of the lookup. The result is
  copied to the buffer with its key first, and that key equals the one being looked up, so the
  key is still intact when the messages are compared with it; the model passes the key by value.
\<close>

section \<open>Opening a snapshot\<close>

definition opensnap :: "ctx \<Rightarrow> byte list \<Rightarrow> (ctx \<times> (errno + gtree \<times> u32)) option" where
  "opensnap s label =
     (case packlbl KVMAX label of
        None \<Rightarrow> Some (s, Inl EINVAL)
      | Some k \<Rightarrow> do {
          (s, r) \<leftarrow> lookup s (snap_tree s) k KVMAX;
          case r of
            None \<Rightarrow> Some (s, Inl ENOENT)
          | Some kv \<Rightarrow>
              if length (kv_v kv) < 13 then Some (s, Inl EIO)
              else do {
                let gen = unpack64 (fld (kv_v kv) 1 8);
                let flg = unpack32 (fld (kv_v kv) 9 4);
                k \<leftarrow> packsnap KVMAX gen;
                (s, r) \<leftarrow> lookup s (snap_tree s) k KVMAX;
                case r of
                  None \<Rightarrow> Some (s, Inl EIO)
                | Some kv \<Rightarrow>
                    (case unpacktree (kv_v kv) of
                       None \<Rightarrow> Some (s, Inl EIO)
                     | Some t \<Rightarrow> Some (s, Inr (t, flg)))
              }
        })"

section \<open>Writing back\<close>

text \<open>The header block of one arena, as \<^verbatim>\<open>gefs_sync_fs\<close> builds it on the stack.\<close>

definition arena_hdr :: "arena \<Rightarrow> gblk" where
  "arena_hdr a =
     zero_blk\<lparr>btype := TARENA, blk_bp := zero_bptr\<lparr>bp_addr := a_hdaddr a\<rparr>, doff := 2,
       buf := wr zeros 2 (pack64 (a_size a) @ pack64 (a_used a) @ pack64 0 @ pack64 0 @ packbp (a_loghd a))\<rparr>"

fun sync_arenas :: "nat \<Rightarrow> nat \<Rightarrow> ctx \<Rightarrow> ctx option" where
  "sync_arenas i 0 s = Some s"
| "sync_arenas i (Suc n) s =
     (if i < length (arenas s) \<and> i < length (sb_arenabp (sb s)) then
        (let (s, h0) = blk_finalize_and_write s (arena_hdr (arenas s ! i));
             s = s\<lparr>sb := (sb s)\<lparr>sb_arenabp := (sb_arenabp (sb s))[i := blk_bp h0]\<rparr>\<rparr>
         in sync_arenas (Suc i) n s)
      else None)"

definition sync_fs :: "ctx \<Rightarrow> ctx option" where
  "sync_fs s =
     (if readonly s \<or> \<not> dirty s then Some s
      else do {
        k \<leftarrow> packsnap KEYMAX (t_gen (active_tree s));
        (s, _) \<leftarrow> btupsert s TSnap [\<lparr>m_op = OINSERT, m_k = k, m_v = packtree (active_tree s)\<rparr>];
        s \<leftarrow> sync_arenas 0 (nat (sint (sb_narena (sb s)))) s;
        let s = s\<lparr>sb := (sb s)\<lparr>sb_snap := snap_tree s\<rparr>\<rparr>;
        sbbuf \<leftarrow> pack_sb_block BLKSZ (sb s);
        let s = s\<lparr>dev := pwrite_blk (dev s) 0 sbbuf\<rparr>;
        let fsize = dsize (dev s);
        let s = (if BLKSZ < fsize then s\<lparr>dev := pwrite_blk (dev s) (fsize - BLKSZ) sbbuf\<rparr> else s);
        Some (s\<lparr>dirty := False\<rparr>)
      })"

section \<open>Snapshots\<close>

definition create_snapshot :: "ctx \<Rightarrow> byte list \<Rightarrow> bool \<Rightarrow> (ctx \<times> (errno + unit)) option" where
  "create_snapshot s name mutable_flag =
     (if readonly s then Some (s, Inl EROFS)
      else do {
        let flags = LTSNAP OR (if mutable_flag then LMUT else 0);
        let new_gen = sb_nextgen (sb s);
        let s = s\<lparr>sb := (sb s)\<lparr>sb_nextgen := new_gen + 1\<rparr>\<rparr>;
        let new_snap = zero_tree\<lparr>t_nref := 0, t_nlbl := 1, t_ht := t_ht (active_tree s), t_bp := t_bp (active_tree s),
          t_gen := new_gen, t_pred := t_gen (active_tree s), t_succ := - 1\<rparr>;
        k \<leftarrow> packlbl KEYMAX name;
        tk \<leftarrow> packsnap KEYMAX new_gen;
        (s, r) \<leftarrow> btupsert s TSnap
          [\<lparr>m_op = OINSERT, m_k = k, m_v = packlblval new_gen flags\<rparr>,
           \<lparr>m_op = OINSERT, m_k = tk, m_v = packtree new_snap\<rparr>];
        case r of
          Inl e \<Rightarrow> Some (s, Inl e)
        | Inr _ \<Rightarrow> do { s \<leftarrow> sync_fs s; Some (s, Inr ()) }
      })"

definition delete_snapshot :: "ctx \<Rightarrow> byte list \<Rightarrow> (ctx \<times> (errno + unit)) option" where
  "delete_snapshot s name =
     (if readonly s then Some (s, Inl EROFS)
      else if name \<in> {cstr ''main'', cstr ''adm'', cstr ''empty''} then Some (s, Inl EPERM)
      else do {
        k \<leftarrow> packlbl KEYMAX name;
        (s, r) \<leftarrow> btupsert s TSnap [\<lparr>m_op = ODELETE, m_k = k, m_v = []\<rparr>];
        case r of
          Inl e \<Rightarrow> Some (s, Inl e)
        | Inr _ \<Rightarrow> do { s \<leftarrow> sync_fs s; Some (s, Inr ()) }
      })"

section \<open>Opening and closing the filesystem\<close>

definition zero_super :: super where
  "zero_super = \<lparr>sb_blksz = 0, sb_bufspc = 0, sb_narena = 0, sb_snap = zero_tree, sb_flag = 0,
     sb_nextqid = 0, sb_nextgen = 0, sb_qgen = 0, sb_arenabp = []\<rparr>"

definition zero_ctx :: "device \<Rightarrow> ctx" where
  "zero_ctx d = \<lparr>dev = d, sb = zero_super, bc = zero_cache, snap_tree = zero_tree, active_tree = zero_tree,
     active_snap_name = [], arenas = [], dirty = False, readonly = False\<rparr>"

fun load_arenas :: "nat \<Rightarrow> bptr list \<Rightarrow> ctx \<Rightarrow> ctx option" where
  "load_arenas i [] s = Some s"
| "load_arenas i (bp # bps) s = do { s \<leftarrow> load_arena s i bp; load_arenas (Suc i) bps s }"

text \<open>Reading the primary superblock and, when it does not parse, the backup at the end.\<close>

definition read_super :: "device \<Rightarrow> errno + super" where
  "read_super d =
     (case pread_blk d 0 of
        None \<Rightarrow> Inl EIO
      | Some m \<Rightarrow>
          (case unpacksb zero_super m BLKSZ of
             Inr fi \<Rightarrow> Inr fi
           | Inl _ \<Rightarrow>
               if BLKSZ < dsize d then
                 (case pread_blk d (dsize d - BLKSZ) of
                    None \<Rightarrow> Inl EINVAL
                  | Some m' \<Rightarrow>
                      (case unpacksb zero_super m' BLKSZ of Inl _ \<Rightarrow> Inl EINVAL | Inr fi \<Rightarrow> Inr fi))
               else Inl EINVAL))"

text \<open>
  \<^verbatim>\<open>gefs_fs_open\<close>. How the image file itself opens is a parameter: read-write, read-only, or
  not at all, with the error number of the second \<^verbatim>\<open>open\<close>.
\<close>

datatype opened = ReadWrite | ReadOnly | Fails errno

definition fs_open :: "opened \<Rightarrow> device \<Rightarrow> (errno + ctx) option" where
  "fs_open how d =
     (case how of
        Fails e \<Rightarrow> Some (Inl e)
      | _ \<Rightarrow>
          (let s = (zero_ctx d)\<lparr>readonly := (how = ReadOnly)\<rparr> in
           case read_super d of
             Inl e \<Rightarrow> Some (Inl e)
           | Inr fi \<Rightarrow> do {
               let s = s\<lparr>sb := fi, bc := cache_init 4096 (bc s)\<rparr>;
               let n = nat (sint (sb_narena fi));
               s \<leftarrow> (if 0 < sint (sb_narena fi)
                     then load_arenas 0 (take n (sb_arenabp fi)) (s\<lparr>arenas := replicate n zero_arena\<rparr>)
                     else Some s);
               let s = s\<lparr>snap_tree := sb_snap (sb s)\<rparr>;
               (s, r) \<leftarrow> opensnap s (cstr ''main'');
               s \<leftarrow> (case r of
                   Inr (t, _) \<Rightarrow> Some (s\<lparr>active_tree := t\<rparr>)
                 | Inl _ \<Rightarrow> do {
                     (s, r) \<leftarrow> opensnap s (cstr ''empty'');
                     Some (case r of Inr (t, _) \<Rightarrow> s\<lparr>active_tree := t\<rparr>
                           | Inl _ \<Rightarrow> s\<lparr>active_tree := snap_tree s\<rparr>)
                   });
               Some (Inr (s\<lparr>active_snap_name := cstr ''main''\<rparr>))
             }))"

definition fs_close :: "ctx \<Rightarrow> ctx option" where
  "fs_close s = do {
     s \<leftarrow> (if dirty s \<and> \<not> readonly s then sync_fs s else Some s);
     let s = s\<lparr>arenas := [], sb := (sb s)\<lparr>sb_arenabp := []\<rparr>\<rparr>;
     c \<leftarrow> cache_free (bc s);
     Some (s\<lparr>bc := c\<rparr>)
   }"

end
