(* ===== verification/Fileops.thy ===== *)
theory Fileops
  imports Snapshot
begin

text \<open>
  Walking paths and the namespace operations (\<^verbatim>\<open>gefs_walk1\<close>, \<^verbatim>\<open>gefs_walk_path\<close>,
  \<^verbatim>\<open>gefs_create_file\<close>, \<^verbatim>\<open>gefs_create_dir\<close>, \<^verbatim>\<open>gefs_truncate_file\<close>, \<^verbatim>\<open>gefs_unlink_entry\<close>,
  \<^verbatim>\<open>gefs_rename_entry\<close>, \<^verbatim>\<open>gefs_chmod_entry\<close>, \<^verbatim>\<open>gefs_chown_entry\<close>, \<^verbatim>\<open>gefs_utimens_entry\<close> and
  \<^verbatim>\<open>gefs_mode_to_posix\<close> of \<^verbatim>\<open>src/src/gefs_storage.c\<close>). What the C library reports of the outside world,
  \<^verbatim>\<open>time\<close>, \<^verbatim>\<open>getuid\<close> and \<^verbatim>\<open>getgid\<close>, is the argument \<open>env\<close>; the clock is taken to be before the year 2262, so that
  its nanoseconds fit 64 bits.

  A directory entry filled in by \<^verbatim>\<open>gefs_walk_path\<close> is an in-out argument: when the walk fails it
  holds the last component that was found, which two callers go on using.

  When a name is too long for its key \<^verbatim>\<open>gefs_packdkey\<close> returns \<^verbatim>\<open>NULL\<close>; the mutating operations
  subtract the buffer from it without a check, which is \<open>None\<close>.
\<close>

section \<open>Paths\<close>

definition SLASH :: byte where [simp]: "SLASH = 0x2f"

record env =
  e_time :: int
  e_uid :: u32
  e_gid :: u32

definition now_ns :: "env \<Rightarrow> u64" where
  "now_ns e = word_of_int (e_time e * 1000000000)"

text \<open>
  \<^verbatim>\<open>strrchr\<close> and the two \<^verbatim>\<open>snprintf\<close> calls that every operation starts with: parent path and
  name, cut to the sizes of their buffers.
\<close>

definition split_path :: "byte list \<Rightarrow> (byte list \<times> byte list) option" where
  "split_path path =
     (if SLASH \<notin> set path then None
      else (let name = rev (takeWhile (\<lambda>c. c \<noteq> SLASH) (rev path));
                dir = take (length path - length name - 1) path
            in Some (if dir = [] then [SLASH] else take 1023 dir, take 255 name)))"

text \<open>The tokens \<^verbatim>\<open>strtok_r\<close> gives for the separator \<^verbatim>\<open>"/"\<close>: the non-empty components.\<close>

function components :: "byte list \<Rightarrow> byte list list" where
  "components [] = []"
| "components (c # cs) =
     (if c = SLASH then components cs
      else (c # takeWhile (\<lambda>c. c \<noteq> SLASH) cs) # components (dropWhile (\<lambda>c. c \<noteq> SLASH) cs))"
  by pat_completeness auto
termination
  by (relation "measure length") (auto simp: le_imp_less_Suc length_dropWhile_le)

section \<open>Walking\<close>

definition zero_dir :: xdir where
  "zero_dir = \<lparr>xflag = 0, xqid = \<lparr>qpath = 0, qvers = 0, qtype = 0\<rparr>, xmode = 0, xatime = 0, xmtime = 0,
     xlength = 0, xuid = 0, xgid = 0, xmuid = 0, xname = None\<rparr>"

definition walk1 :: "ctx \<Rightarrow> gtree \<Rightarrow> u64 \<Rightarrow> byte list \<Rightarrow> (ctx \<times> (errno + xdir)) option" where
  "walk1 s t pqid name =
     (case packdkey KEYMAX pqid (Some name) of
        None \<Rightarrow> Some (s, Inl EINVAL)
      | Some k \<Rightarrow> do {
          (s, r) \<leftarrow> lookup s t k KVMAX;
          case r of
            None \<Rightarrow> Some (s, Inl ENOENT)
          | Some kv \<Rightarrow> do { d \<leftarrow> kv2dir kv; Some (s, Inr d) }
        })"

fun walk_elems :: "ctx \<Rightarrow> gtree \<Rightarrow> byte list list \<Rightarrow> xdir \<Rightarrow> (ctx \<times> xdir \<times> (errno + unit)) option" where
  "walk_elems s t [] d = Some (s, d, Inr ())"
| "walk_elems s t (e # es) d =
     (if e = [0x2e] then walk_elems s t es d
      else do {
        (s, r) \<leftarrow> walk1 s t (qpath (xqid d)) e;
        case r of
          Inl err \<Rightarrow> Some (s, d, Inl err)
        | Inr d' \<Rightarrow> walk_elems s t es d'
      })"

definition walk_path :: "ctx \<Rightarrow> gtree \<Rightarrow> byte list \<Rightarrow> xdir \<Rightarrow> (ctx \<times> xdir \<times> (errno + unit)) option" where
  "walk_path s t path d = do {
     (s, r) \<leftarrow> walk1 s t (- 1) [];
     case r of
       Inl err \<Rightarrow> Some (s, d, Inl err)
     | Inr d \<Rightarrow>
         if path = [SLASH] \<or> path = [] then Some (s, d, Inr ())
         else walk_elems s t (components (take 1023 path)) d
   }"

section \<open>Creating entries\<close>

definition new_dir :: "env \<Rightarrow> u64 \<Rightarrow> byte \<Rightarrow> u32 \<Rightarrow> byte list \<Rightarrow> xdir" where
  "new_dir e path type mode name =
     zero_dir\<lparr>xqid := \<lparr>qpath = path, qvers = 0, qtype = type\<rparr>, xmode := mode, xatime := now_ns e, xmtime := now_ns e,
       xlength := 0, xuid := e_uid e, xgid := e_gid e, xmuid := e_uid e, xname := Some name\<rparr>"

definition dirmsg :: "u64 \<Rightarrow> byte list \<Rightarrow> xdir \<Rightarrow> gmsg option" where
  "dirmsg up name d = do {
     k \<leftarrow> packdkey KEYMAX up (Some name);
     v \<leftarrow> packdval INLMAX d;
     Some \<lparr>m_op = OINSERT, m_k = k, m_v = v\<rparr>
   }"

definition create_file :: "env \<Rightarrow> ctx \<Rightarrow> byte list \<Rightarrow> u32 \<Rightarrow> (ctx \<times> (errno + xdir)) option" where
  "create_file e s path mode =
     (case split_path path of
        None \<Rightarrow> Some (s, Inl EINVAL)
      | Some (parent, name) \<Rightarrow> do {
          (s, pdir, r) \<leftarrow> walk_path s (active_tree s) parent zero_dir;
          case r of
            Inl err \<Rightarrow> Some (s, Inl err)
          | Inr _ \<Rightarrow> do {
              (s, r) \<leftarrow> walk1 s (active_tree s) (qpath (xqid pdir)) name;
              case r of
                Inr _ \<Rightarrow> Some (s, Inl EEXIST)
              | Inl _ \<Rightarrow> do {
                  let ndir = new_dir e (sb_nextqid (sb s)) QTFILE (mode AND 0x1FF) name;
                  let s = s\<lparr>sb := (sb s)\<lparr>sb_nextqid := sb_nextqid (sb s) + 1\<rparr>\<rparr>;
                  msg \<leftarrow> dirmsg (qpath (xqid pdir)) name ndir;
                  (s, r) \<leftarrow> btupsert s TActive [msg];
                  case r of Inl err \<Rightarrow> Some (s, Inl err) | Inr _ \<Rightarrow> Some (s, Inr ndir)
                }
            }
        })"

definition upkey :: "u64 \<Rightarrow> byte list" where
  "upkey path = KUP # pack64 path"

definition create_dir :: "env \<Rightarrow> ctx \<Rightarrow> byte list \<Rightarrow> u32 \<Rightarrow> (ctx \<times> (errno + unit)) option" where
  "create_dir e s path mode =
     (case split_path path of
        None \<Rightarrow> Some (s, Inl EINVAL)
      | Some (parent, name) \<Rightarrow> do {
          (s, pdir, r) \<leftarrow> walk_path s (active_tree s) parent zero_dir;
          case r of
            Inl err \<Rightarrow> Some (s, Inl err)
          | Inr _ \<Rightarrow> do {
              (s, r) \<leftarrow> walk1 s (active_tree s) (qpath (xqid pdir)) name;
              case r of
                Inr _ \<Rightarrow> Some (s, Inl EEXIST)
              | Inl _ \<Rightarrow> do {
                  let ndir = new_dir e (sb_nextqid (sb s)) QTDIR (DMDIR OR (mode AND 0x1FF)) name;
                  let s = s\<lparr>sb := (sb s)\<lparr>sb_nextqid := sb_nextqid (sb s) + 1\<rparr>\<rparr>;
                  msg \<leftarrow> dirmsg (qpath (xqid pdir)) name ndir;
                  v2 \<leftarrow> packdkey INLMAX (qpath (xqid pdir)) (Some name);
                  btupsert s TActive [msg, \<lparr>m_op = OINSERT, m_k = upkey (qpath (xqid ndir)), m_v = v2\<rparr>]
                }
            }
        })"

section \<open>Changing entries\<close>

text \<open>
  The frame the metadata operations share: find the entry and its parent, change the entry,
  insert it under its key again.
\<close>

definition update_entry :: "ctx \<Rightarrow> byte list \<Rightarrow> (xdir \<Rightarrow> xdir) \<Rightarrow> (ctx \<times> (errno + unit)) option" where
  "update_entry s path f = do {
     (s, d, r) \<leftarrow> walk_path s (active_tree s) path zero_dir;
     case r of
       Inl err \<Rightarrow> Some (s, Inl err)
     | Inr _ \<Rightarrow>
         (case split_path path of
            None \<Rightarrow> Some (s, Inl EINVAL)
          | Some (parent, name) \<Rightarrow> do {
              (s, pdir, r) \<leftarrow> walk_path s (active_tree s) parent zero_dir;
              case r of
                Inl err \<Rightarrow> Some (s, Inl err)
              | Inr _ \<Rightarrow> do {
                  msg \<leftarrow> dirmsg (qpath (xqid pdir)) name (f d);
                  btupsert s TActive [msg]
                }
            })
   }"

definition bump_vers :: "xdir \<Rightarrow> xdir" where
  "bump_vers d = d\<lparr>xqid := (xqid d)\<lparr>qvers := qvers (xqid d) + 1\<rparr>\<rparr>"

definition truncate_file :: "env \<Rightarrow> ctx \<Rightarrow> byte list \<Rightarrow> u64 \<Rightarrow> (ctx \<times> (errno + unit)) option" where
  "truncate_file e s path new_size =
     update_entry s path (\<lambda>d. bump_vers (d\<lparr>xlength := new_size, xmtime := now_ns e\<rparr>))"

definition chmod_entry :: "ctx \<Rightarrow> byte list \<Rightarrow> u32 \<Rightarrow> (ctx \<times> (errno + unit)) option" where
  "chmod_entry s path mode =
     update_entry s path (\<lambda>d. bump_vers (d\<lparr>xmode := (xmode d AND NOT 0x1FF) OR (mode AND 0x1FF)\<rparr>))"

definition chown_entry :: "ctx \<Rightarrow> byte list \<Rightarrow> u32 \<Rightarrow> u32 \<Rightarrow> (ctx \<times> (errno + unit)) option" where
  "chown_entry s path uid gid =
     update_entry s path (\<lambda>d.
       let d = (if uid \<noteq> - 1 then d\<lparr>xuid := uid\<rparr> else d);
           d = (if gid \<noteq> - 1 then d\<lparr>xgid := gid\<rparr> else d)
       in bump_vers d)"

text \<open>
  A \<^verbatim>\<open>timespec\<close> in nanoseconds. The product and the sum are computed in \<^verbatim>\<open>int64_t\<close>; an overflow is \<open>None\<close>.
\<close>

definition ns_of :: "int \<times> int \<Rightarrow> u64" where
  "ns_of tv = word_of_int (fst tv * 1000000000 + snd tv)"

definition times_fit :: "int \<times> int \<Rightarrow> bool" where
  "times_fit tv \<longleftrightarrow> fits64 (fst tv * 1000000000) \<and> fits64 (fst tv * 1000000000 + snd tv)"

definition timespec_ns :: "int \<times> int \<Rightarrow> u64 option" where
  "timespec_ns tv = (if times_fit tv then Some (ns_of tv) else None)"

definition utimens_entry :: "env \<Rightarrow> ctx \<Rightarrow> byte list \<Rightarrow> ((int \<times> int) \<times> (int \<times> int)) option \<Rightarrow> (ctx \<times> (errno + unit)) option" where
  "utimens_entry e s path tv = do {
     (s, d, r) \<leftarrow> walk_path s (active_tree s) path zero_dir;
     case r of
       Inl err \<Rightarrow> Some (s, Inl err)
     | Inr _ \<Rightarrow>
         (case split_path path of
            None \<Rightarrow> Some (s, Inl EINVAL)
          | Some (parent, name) \<Rightarrow> do {
              (s, pdir, r) \<leftarrow> walk_path s (active_tree s) parent zero_dir;
              case r of
                Inl err \<Rightarrow> Some (s, Inl err)
              | Inr _ \<Rightarrow> do {
                  d \<leftarrow> (case tv of
                         Some (a, m) \<Rightarrow> do { a \<leftarrow> timespec_ns a; m \<leftarrow> timespec_ns m; Some (d\<lparr>xatime := a, xmtime := m\<rparr>) }
                       | None \<Rightarrow> Some (d\<lparr>xatime := now_ns e, xmtime := now_ns e\<rparr>));
                  msg \<leftarrow> dirmsg (qpath (xqid pdir)) name (bump_vers d);
                  btupsert s TActive [msg]
                }
            })
   }"

text \<open>With times in range it is one more update of the entry.\<close>

definition set_times :: "env \<Rightarrow> ((int \<times> int) \<times> (int \<times> int)) option \<Rightarrow> xdir \<Rightarrow> xdir" where
  "set_times e tv d = bump_vers
     (case tv of
        Some (a, m) \<Rightarrow> d\<lparr>xatime := ns_of a, xmtime := ns_of m\<rparr>
      | None \<Rightarrow> d\<lparr>xatime := now_ns e, xmtime := now_ns e\<rparr>)"

lemma utimens_update:
  assumes "case tv of None \<Rightarrow> True | Some (a, m) \<Rightarrow> times_fit a \<and> times_fit m"
  shows "utimens_entry e s path tv = update_entry s path (set_times e tv)"
proof -
  have key: "(case tv of
           Some (a, m) \<Rightarrow> do { a \<leftarrow> timespec_ns a; m \<leftarrow> timespec_ns m; Some (d\<lparr>xatime := a, xmtime := m\<rparr>) }
         | None \<Rightarrow> Some (d\<lparr>xatime := now_ns e, xmtime := now_ns e\<rparr>))
      = Some (case tv of Some (a, m) \<Rightarrow> d\<lparr>xatime := ns_of a, xmtime := ns_of m\<rparr> | None \<Rightarrow> d\<lparr>xatime := now_ns e, xmtime := now_ns e\<rparr>)" for d
    using assms by (cases tv) (simp_all add: timespec_ns_def split_beta)
  show ?thesis unfolding utimens_entry_def update_entry_def set_times_def key Option.bind.simps ..
qed

section \<open>Removing and renaming\<close>

definition delmsg :: "u64 \<Rightarrow> byte list \<Rightarrow> gmsg option" where
  "delmsg up name = do { k \<leftarrow> packdkey KEYMAX up (Some name); Some \<lparr>m_op = ODELETE, m_k = k, m_v = []\<rparr> }"

definition unlink_entry :: "ctx \<Rightarrow> byte list \<Rightarrow> (ctx \<times> (errno + unit)) option" where
  "unlink_entry s path = do {
     (s, d, r) \<leftarrow> walk_path s (active_tree s) path zero_dir;
     case r of
       Inl err \<Rightarrow> Some (s, Inl err)
     | Inr _ \<Rightarrow>
         if qtype (xqid d) AND QTDIR \<noteq> 0 then Some (s, Inl EISDIR)
         else
         (case split_path path of
            None \<Rightarrow> Some (s, Inl EINVAL)
          | Some (parent, name) \<Rightarrow> do {
              (s, pdir, r) \<leftarrow> walk_path s (active_tree s) parent zero_dir;
              case r of
                Inl err \<Rightarrow> Some (s, Inl err)
              | Inr _ \<Rightarrow> do {
                  msg \<leftarrow> delmsg (qpath (xqid pdir)) name;
                  btupsert s TActive [msg]
                }
            })
   }"

definition rename_entry :: "ctx \<Rightarrow> byte list \<Rightarrow> byte list \<Rightarrow> (ctx \<times> (errno + unit)) option" where
  "rename_entry s oldpath newpath = do {
     (s, d, r) \<leftarrow> walk_path s (active_tree s) oldpath zero_dir;
     case r of
       Inl err \<Rightarrow> Some (s, Inl err)
     | Inr _ \<Rightarrow>
         (case (split_path oldpath, split_path newpath) of
            (Some (old_ppath, old_name), Some (new_ppath, new_name)) \<Rightarrow> do {
              (s, old_pdir, r) \<leftarrow> walk_path s (active_tree s) old_ppath zero_dir;
              case r of
                Inl err \<Rightarrow> Some (s, Inl err)
              | Inr _ \<Rightarrow> do {
                  (s, new_pdir, r) \<leftarrow> walk_path s (active_tree s) new_ppath zero_dir;
                  case r of
                    Inl err \<Rightarrow> Some (s, Inl err)
                  | Inr _ \<Rightarrow> do {
                      del \<leftarrow> delmsg (qpath (xqid old_pdir)) old_name;
                      ins \<leftarrow> dirmsg (qpath (xqid new_pdir)) new_name (bump_vers (d\<lparr>xname := Some new_name\<rparr>));
                      btupsert s TActive [del, ins]
                    }
                }
            }
          | _ \<Rightarrow> Some (s, Inl EINVAL))
   }"

section \<open>Modes\<close>

definition mode_to_posix :: "u32 \<Rightarrow> byte \<Rightarrow> u32" where
  "mode_to_posix gefs_mode qid_type =
     (let m = (if qid_type AND QTDIR \<noteq> 0 \<or> gefs_mode AND DMDIR \<noteq> 0 then 0x4000
               else if qid_type AND QTSYMLINK \<noteq> 0 then 0xA000
               else 0x8000)
      in m OR (gefs_mode AND 0x1FF))"

end
