(* ===== verification/Scan.thy ===== *)
theory Scan
  imports Fileops
begin

text \<open>
  Ordered scans of a tree (\<^verbatim>\<open>gefs_btnewscan\<close>, \<^verbatim>\<open>gefs_btenter\<close>, \<^verbatim>\<open>gefs_btnext\<close>, \<^verbatim>\<open>gefs_btexit\<close>)
  and their users \<^verbatim>\<open>gefs_list_dir\<close> and \<^verbatim>\<open>gefs_rmdir_entry\<close> (\<^verbatim>\<open>src/src/gefs_storage.c\<close>). The scan keeps one
  block per level with its position in the entries (\<open>vi\<close>) and in the pending messages (\<open>bi\<close>).
  The array \<^verbatim>\<open>s->path\<close> has \<^verbatim>\<open>s->ht\<close> elements; an access outside it, a null block and a failed
  assertion are \<open>None\<close>, and so is a scan that never ends.
\<close>

section \<open>State\<close>

record scanp =
  bi :: int
  vi :: int
  sblk :: "(nat \<times> gblk) option"

record scan =
  first :: bool
  donescan :: bool
  sht :: int
  skv :: kvp
  pfx :: key
  spath :: "scanp list option"

definition btnewscan :: "key \<Rightarrow> scan" where
  "btnewscan p = \<lparr>first = True, donescan = False, sht = 0, skv = \<lparr>kv_k = p, kv_v = []\<rparr>, pfx = p, spath = None\<rparr>"

section \<open>Entering a tree\<close>

function skip_same :: "gblk \<Rightarrow> key \<Rightarrow> int \<Rightarrow> int option" where
  "skip_same b k i =
     (if i < nbuf b then
        (case getmsg b i of
           None \<Rightarrow> None
         | Some c \<Rightarrow> if keycmp k (m_k c) \<noteq> 0 then Some i else skip_same b k (i + 1))
      else Some i)"
  by pat_completeness auto
termination
  by (relation "measure (\<lambda>(b, k, i). nat (nbuf b - i))") auto

declare skip_same.simps [simp del]

text \<open>
  The loop over the levels; \<open>n\<close> levels are left, \<open>pb\<close> is \<^verbatim>\<open>p[i].b\<close> and \<open>cur\<close> is \<^verbatim>\<open>b\<close>.
\<close>

fun enter_loop :: "nat \<Rightarrow> device \<Rightarrow> bcache \<Rightarrow> bool \<Rightarrow> key \<Rightarrow> (nat \<times> gblk) option \<Rightarrow> gblk option
    \<Rightarrow> (bcache \<times> scanp list) option" where
  "enter_loop 0 d c fst0 k pb cur = Some (c, [])"
| "enter_loop (Suc n) d c fst0 k pb cur =
     (case cur of
        None \<Rightarrow> None
      | Some b \<Rightarrow> do {
          (i, same, v) \<leftarrow> blksearch b k;
          if btype b = TPIVOT then do {
            (i, v) \<leftarrow> (if i = - 1 then do { e \<leftarrow> getval b 0; Some (0, e) } else do { e \<leftarrow> v; Some (i, e) });
            (j, same, m) \<leftarrow> bufsearch b k;
            j \<leftarrow> (if j = - 1 then Some 0
                 else if \<not> same \<or> \<not> fst0 then do { m \<leftarrow> m; skip_same b (m_k m) j }
                 else Some j);
            bp \<leftarrow> unpackbp (kv_v v);
            (c, q) \<leftarrow> fetch d c bp;
            if n = 0 then None
            else do {
              (c, ps) \<leftarrow> enter_loop n d c fst0 k q (map_option snd q);
              Some (c, \<lparr>bi = j, vi = i, sblk = pb\<rparr> # ps)
            }
          }
          else do {
            let i = (if i = - 1 \<or> \<not> same \<or> \<not> fst0 then i + 1 else i);
            (c, ps) \<leftarrow> enter_loop n d c fst0 k None (Some b);
            Some (c, \<lparr>bi = 0, vi = i, sblk = pb\<rparr> # ps)
          }
        })"

definition btenter :: "ctx \<Rightarrow> gtree \<Rightarrow> scan \<Rightarrow> (ctx \<times> scan) option" where
  "btenter s t sc =
     (if donescan sc then Some (s, sc)
      else do {
        let sc = sc\<lparr>sht := sint (t_ht t)\<rparr>;
        (s, q) \<leftarrow> getb s (t_bp t);
        case q of
          None \<Rightarrow> Some (s, sc\<lparr>donescan := True\<rparr>)
        | Some (p, b) \<Rightarrow>
            if sht sc < 0 then do { s \<leftarrow> dropb s p; Some (s, sc\<lparr>donescan := True\<rparr>) }
            else if sht sc = 0 then None
            else do {
              (c, ps) \<leftarrow> enter_loop (nat (sht sc)) (dev s) (bc s) (first sc) (kv_k (skv sc)) (Some (p, b)) (Some b);
              Some (s\<lparr>bc := c\<rparr>, sc\<lparr>spath := Some ps, first := False\<rparr>)
            }
      })"

section \<open>Stepping\<close>

definition ready :: "scanp \<Rightarrow> bool" where
  "ready e =
     (case sblk e of
        None \<Rightarrow> False
      | Some (_, b) \<Rightarrow> vi e < nval b \<or> (btype b = TPIVOT \<and> bi e < nbuf b))"

text \<open>Leaving exhausted levels; \<open>Suc i\<close> stands for the loop index \<open>i\<close>.\<close>

fun advance :: "bcache \<Rightarrow> scanp list \<Rightarrow> nat \<Rightarrow> (bcache \<times> scanp list \<times> nat option) option" where
  "advance c p 0 = None"
| "advance c p (Suc i) =
     (if length p \<le> i then None
      else if ready (p ! i) then Some (c, p, Some i)
      else if i = 0 then Some (c, p, None)
      else do {
        c \<leftarrow> (case sblk (p ! i) of None \<Rightarrow> Some c | Some (q, _) \<Rightarrow> release c q);
        let p = p[i := \<lparr>bi = 0, vi = 0, sblk = None\<rparr>];
        let p = p[i - 1 := (p ! (i - 1))\<lparr>vi := vi (p ! (i - 1)) + 1\<rparr>];
        advance c p i
      })"

text \<open>Filling in the levels from \<open>i\<close> down to the leaf; \<open>False\<close> when a block cannot be read.\<close>

fun refill :: "nat \<Rightarrow> device \<Rightarrow> bcache \<Rightarrow> scanp list \<Rightarrow> nat \<Rightarrow> (bcache \<times> scanp list \<times> bool) option" where
  "refill 0 d c p i = Some (c, p, True)"
| "refill (Suc n) d c p i = do {
     (_, b) \<leftarrow> sblk (p ! (i - 1));
     kv \<leftarrow> getval b (vi (p ! (i - 1)));
     bp \<leftarrow> unpackbp (kv_v kv);
     (c, q) \<leftarrow> fetch d c bp;
     let p = p[i := (p ! i)\<lparr>sblk := q\<rparr>];
     if q = None then Some (c, p, False) else refill n d c p (Suc i)
   }"

text \<open>The smallest pending message; \<open>Suc i\<close> stands for the loop index \<open>i\<close>.\<close>

fun smallest :: "scanp list \<Rightarrow> nat \<Rightarrow> gmsg \<times> nat option \<Rightarrow> (gmsg \<times> nat option) option" where
  "smallest p 0 mb = Some mb"
| "smallest p (Suc i) mb =
     (case sblk (p ! i) of
        None \<Rightarrow> smallest p i mb
      | Some (_, b) \<Rightarrow>
          if bi (p ! i) = nbuf b then smallest p i mb
          else do {
            n \<leftarrow> getmsg b (bi (p ! i));
            smallest p i (if keycmp (m_k n) (m_k (fst mb)) < 0 then (n, Some i) else mb)
          })"

function apply_level :: "gblk \<Rightarrow> int \<Rightarrow> bool \<times> kvp \<Rightarrow> (int \<times> bool \<times> kvp) option" where
  "apply_level b j st =
     (if j < nbuf b then
        (case getmsg b j of
           None \<Rightarrow> None
         | Some m \<Rightarrow>
             if keycmp (kv_k (snd st)) (m_k m) \<noteq> 0 then Some (j, st)
             else (case apply_msg KVMAX (InBuf (snd st)) m of
                 Some (ok, InBuf kv) \<Rightarrow> apply_level b (j + 1) (ok, kv)
               | _ \<Rightarrow> None))
      else Some (j, st))"
  by pat_completeness auto
termination
  by (relation "measure (\<lambda>(b, j, st). nat (nbuf b - j))") auto

declare apply_level.simps [simp del]

fun apply_levels :: "scanp list \<Rightarrow> nat \<Rightarrow> bool \<times> kvp \<Rightarrow> (scanp list \<times> bool \<times> kvp) option" where
  "apply_levels p 0 st = Some (p, st)"
| "apply_levels p (Suc i) st =
     (case sblk (p ! i) of
        None \<Rightarrow> apply_levels p i st
      | Some (_, b) \<Rightarrow> do {
          (j, st) \<leftarrow> apply_level b (bi (p ! i)) st;
          apply_levels (p[i := (p ! i)\<lparr>bi := j\<rparr>]) i st
        })"

text \<open>
  One pass of \<^verbatim>\<open>gefs_btnext\<close> from the label \<^verbatim>\<open>Again\<close>. The result is \<open>None\<close> inside when the scan is
  over and otherwise whether the entry is live.
\<close>

definition next_pass :: "ctx \<Rightarrow> scan \<Rightarrow> scanp list \<Rightarrow> (ctx \<times> scan \<times> bool option) option" where
  "next_pass s sc p =
     (let h = nat (sht sc); over = (\<lambda>s p. Some (s, sc\<lparr>donescan := True, spath := Some p\<rparr>, None)) in
      if h = 0 then None
      else do {
        (c, p, j) \<leftarrow> advance (bc s) p h;
        let s = s\<lparr>bc := c\<rparr>;
        case j of
          None \<Rightarrow> over s p
        | Some j \<Rightarrow> do {
            (_, b) \<leftarrow> sblk (p ! j);
            (c, p, full, mb) \<leftarrow>
              (if vi (p ! j) < nval b then do {
                 (c, p, full) \<leftarrow> refill (h - 1 - j) (dev s) (bc s) p (Suc j);
                 if full then do {
                   (_, lb) \<leftarrow> sblk (p ! (h - 1));
                   kv \<leftarrow> getval lb (vi (p ! (h - 1)));
                   Some (c, p, True, Some (\<lparr>m_op = OINSERT, m_k = kv_k kv, m_v = kv_v kv\<rparr>, None))
                 } else Some (c, p, False, None)
               }
               else do { m \<leftarrow> getmsg b (bi (p ! j)); Some (bc s, p, True, Some (m, Some j)) });
            let s = s\<lparr>bc := c\<rparr>;
            if \<not> full then over s p
            else do {
              mb \<leftarrow> mb;
              (m, src) \<leftarrow> smallest p (h - 1) mb;
              if length (m_k m) < length (pfx sc) \<or> take (length (pfx sc)) (m_k m) \<noteq> pfx sc then over s p
              else do {
                kv \<leftarrow> cpkvp KVMAX \<lparr>kv_k = m_k m, kv_v = m_v m\<rparr>;
                let p = (case src of
                    None \<Rightarrow> p[h - 1 := (p ! (h - 1))\<lparr>vi := vi (p ! (h - 1)) + 1\<rparr>]
                  | Some i \<Rightarrow> p[i := (p ! i)\<lparr>bi := bi (p ! i) + 1\<rparr>]);
                (p, ok, kv) \<leftarrow> apply_levels p (h - 1) (True, kv);
                Some (s, sc\<lparr>spath := Some p, skv := kv\<rparr>, Some ok)
              }
            }
          }
      })"

partial_function (option) btnext :: "ctx \<Rightarrow> scan \<Rightarrow> (ctx \<times> scan \<times> bool) option" where
  "btnext s sc =
     (if donescan sc then Some (s, sc, False)
      else Option.bind (spath sc) (\<lambda>p. Option.bind (next_pass s sc p) (\<lambda>(s, sc, r).
        case r of
          None \<Rightarrow> Some (s, sc, False)
        | Some ok \<Rightarrow> if ok then Some (s, sc, True) else btnext s sc)))"

definition btexit :: "ctx \<Rightarrow> scan \<Rightarrow> (ctx \<times> scan) option" where
  "btexit s sc =
     (case spath sc of
        None \<Rightarrow> Some (s, sc)
      | Some p \<Rightarrow> do {
          c \<leftarrow> release_all release (bc s) (map fst (List.map_filter sblk p));
          Some (s\<lparr>bc := c\<rparr>, sc\<lparr>spath := None\<rparr>)
        })"

section \<open>Directory listings\<close>

text \<open>
  The loop of \<^verbatim>\<open>gefs_list_dir\<close> with its callback: the callback folds the entries into a value
  and says when to stop.
\<close>

partial_function (option) list_loop ::
  "('a \<Rightarrow> xdir \<Rightarrow> 'a \<times> bool) \<Rightarrow> ctx \<Rightarrow> scan \<Rightarrow> 'a \<Rightarrow> (ctx \<times> scan \<times> 'a) option" where
  "list_loop cb s sc x =
     Option.bind (btnext s sc) (\<lambda>(s, sc, more).
       if \<not> more then Some (s, sc, x)
       else Option.bind (kv2dir (skv sc)) (\<lambda>d.
         if (case xname d of None \<Rightarrow> False | Some n \<Rightarrow> n \<noteq> [])
         then (case cb x d of (x, stop) \<Rightarrow> if stop then Some (s, sc, x) else list_loop cb s sc x)
         else list_loop cb s sc x))"

definition dir_prefix :: "u64 \<Rightarrow> key" where
  "dir_prefix qid_path = KENT # pack64 qid_path"

definition list_dir :: "('a \<Rightarrow> xdir \<Rightarrow> 'a \<times> bool) \<Rightarrow> ctx \<Rightarrow> gtree \<Rightarrow> u64 \<Rightarrow> 'a \<Rightarrow> (ctx \<times> 'a) option" where
  "list_dir cb s t qid_path x = do {
     (s, sc) \<leftarrow> btenter s t (btnewscan (dir_prefix qid_path));
     (s, sc, x) \<leftarrow> list_loop cb s sc x;
     (s, sc) \<leftarrow> btexit s sc;
     Some (s, x)
   }"

definition rmdir_entry :: "ctx \<Rightarrow> byte list \<Rightarrow> (ctx \<times> (errno + unit)) option" where
  "rmdir_entry s path = do {
     (s, d, r) \<leftarrow> walk_path s (active_tree s) path zero_dir;
     case r of
       Inl err \<Rightarrow> Some (s, Inl err)
     | Inr _ \<Rightarrow>
         if qtype (xqid d) AND QTDIR = 0 \<and> xmode d AND DMDIR = 0 then Some (s, Inl ENOTDIR)
         else do {
           (s, has_entries) \<leftarrow> list_dir (\<lambda>_ _. (True, True)) s (active_tree s) (qpath (xqid d)) False;
           if has_entries then Some (s, Inl ENOTEMPTY)
           else
           (case split_path path of
              None \<Rightarrow> Some (s, Inl EINVAL)
            | Some (parent, name) \<Rightarrow> do {
                (s, pdir, r) \<leftarrow> walk_path s (active_tree s) parent zero_dir;
                case r of
                  Inl err \<Rightarrow> Some (s, Inl err)
                | Inr _ \<Rightarrow> do {
                    msg \<leftarrow> delmsg (qpath (xqid pdir)) name;
                    btupsert s TActive [msg, \<lparr>m_op = ODELETE, m_k = upkey (qpath (xqid d)), m_v = []\<rparr>]
                  }
              })
         }
   }"

end
