(* ===== verification/Fileio.thy ===== *)
theory Fileio
  imports Scan
begin

text \<open>
  File contents (\<^verbatim>\<open>gefs_read_file\<close>, \<^verbatim>\<open>gefs_write_file\<close>, \<^verbatim>\<open>gefs_create_symlink\<close> of
  \<^verbatim>\<open>src/src/gefs_storage.c\<close>). A file is a sequence of blocks of 16384 bytes; the key of a block is the
  file's id and the offset of the block, its value a block pointer. Offsets are natural numbers:
  the FUSE layer passes no negative ones.
\<close>

section \<open>Reading\<close>

definition BSZ :: nat where [simp]: "BSZ = 16384"

definition datkey :: "u64 \<Rightarrow> nat \<Rightarrow> key" where
  "datkey path off = KDAT # pack64 path @ pack64 (word_of_int (int off))"

definition blk_off :: "nat \<Rightarrow> nat" where
  "blk_off off = off div BSZ * BSZ"

text \<open>The part of the loop that reads from one block; a hole and an unreadable block are zeros.\<close>

definition read_blk :: "ctx \<Rightarrow> gtree \<Rightarrow> u64 \<Rightarrow> nat \<Rightarrow> nat \<Rightarrow> (ctx \<times> byte list) option" where
  "read_blk s t path off n = do {
     (s, r) \<leftarrow> lookup s t (datkey path (blk_off off)) KVMAX;
     case r of
       None \<Rightarrow> Some (s, replicate n 0)
     | Some kv \<Rightarrow> do {
         bp \<leftarrow> unpackbp (kv_v kv);
         (s, q) \<leftarrow> getb s bp;
         case q of
           None \<Rightarrow> Some (s, replicate n 0)
         | Some (p, b) \<Rightarrow> do {
             bs \<leftarrow> bget b (doff b + int (off mod BSZ)) n;
             s \<leftarrow> dropb s p;
             Some (s, bs)
           }
       }
   }"

function read_loop :: "ctx \<Rightarrow> gtree \<Rightarrow> u64 \<Rightarrow> nat \<Rightarrow> nat \<Rightarrow> (ctx \<times> byte list) option" where
  "read_loop s t path off sz =
     (if sz = 0 then Some (s, [])
      else (let n = min (BSZ - off mod BSZ) sz in
        case read_blk s t path off n of
          None \<Rightarrow> None
        | Some (s, bs) \<Rightarrow>
            (case read_loop s t path (off + n) (sz - n) of
               None \<Rightarrow> None
             | Some (s, bs') \<Rightarrow> Some (s, bs @ bs'))))"
  by pat_completeness auto
termination
  by (relation "measure (\<lambda>(s, t, path, off, sz). sz)") (auto simp: min_def)

declare read_loop.simps [simp del]

definition read_file :: "ctx \<Rightarrow> gtree \<Rightarrow> xdir \<Rightarrow> nat \<Rightarrow> nat \<Rightarrow> (ctx \<times> byte list) option" where
  "read_file s t d sz off =
     (if sint (xlength d) \<le> int off then Some (s, [])
      else (let sz = (if xlength d < word_of_int (int (off + sz)) then unat (xlength d - word_of_int (int off)) else sz)
            in read_loop s t (qpath (xqid d)) off sz))"

section \<open>Writing\<close>

definition data_blk :: "int \<Rightarrow> u64 \<Rightarrow> mem \<Rightarrow> gblk" where
  "data_blk addr gen m =
     zero_blk\<lparr>btype := TDAT, blk_bp := zero_bptr\<lparr>bp_addr := word_of_int addr, bp_gen := gen\<rparr>, doff := 0, buf := m\<rparr>"

text \<open>The block's old contents, or zeros when it is new or cannot be read.\<close>

definition old_data :: "ctx \<Rightarrow> key \<Rightarrow> (ctx \<times> mem) option" where
  "old_data s k = do {
     (s, r) \<leftarrow> lookup s (active_tree s) k KVMAX;
     case r of
       None \<Rightarrow> Some (s, zeros)
     | Some kv \<Rightarrow> do {
         bp \<leftarrow> unpackbp (kv_v kv);
         (s, q) \<leftarrow> getb s bp;
         case q of
           None \<Rightarrow> Some (s, zeros)
         | Some (p, b) \<Rightarrow> do { s \<leftarrow> dropb s p; Some (s, buf b) }
       }
   }"

text \<open>One pass of the write loop. The result of \<^verbatim>\<open>gefs_btupsert\<close> is ignored.\<close>

definition write_blk :: "ctx \<Rightarrow> u64 \<Rightarrow> nat \<Rightarrow> byte list \<Rightarrow> (ctx \<times> (errno + unit)) option" where
  "write_blk s path off bs = do {
     let k = datkey path (blk_off off);
     (s, m) \<leftarrow> old_data s k;
     (s, addr) \<leftarrow> alloc_blk s;
     if addr < 0 then Some (s, Inl ENOSPC)
     else do {
       let b = data_blk addr (t_gen (active_tree s)) (wr m (int (off mod BSZ)) bs);
       let (s, b) = blk_finalize_and_write s b;
       s \<leftarrow> enterb s b;
       (s, _) \<leftarrow> btupsert s TActive [\<lparr>m_op = OINSERT, m_k = k, m_v = packbp (blk_bp b)\<rparr>];
       Some (s, Inr ())
     }
   }"

function write_loop :: "ctx \<Rightarrow> u64 \<Rightarrow> nat \<Rightarrow> byte list \<Rightarrow> (ctx \<times> (errno + unit)) option" where
  "write_loop s path off bs =
     (if bs = [] then Some (s, Inr ())
      else (let n = min (BSZ - off mod BSZ) (length bs) in
        case write_blk s path off (take n bs) of
          None \<Rightarrow> None
        | Some (s, Inl e) \<Rightarrow> Some (s, Inl e)
        | Some (s, Inr _) \<Rightarrow> write_loop s path (off + n) (drop n bs)))"
  by pat_completeness auto
termination
  by (relation "measure (\<lambda>(s, path, off, bs). length bs)") (auto simp: min_def)

declare write_loop.simps [simp del]

text \<open>The number of bytes written, or an error.\<close>

definition write_file :: "env \<Rightarrow> ctx \<Rightarrow> byte list \<Rightarrow> byte list \<Rightarrow> nat \<Rightarrow> (ctx \<times> (errno + nat)) option" where
  "write_file e s path bs off = do {
     (s, d, r) \<leftarrow> walk_path s (active_tree s) path zero_dir;
     case r of
       Inl err \<Rightarrow> Some (s, Inl err)
     | Inr _ \<Rightarrow>
         (case split_path path of
            None \<Rightarrow> Some (s, Inl EINVAL)
          | Some (parent, name) \<Rightarrow> do {
              (s, pdir, r) \<leftarrow> walk_path s (active_tree s) parent zero_dir;
              case r of
                Inl err \<Rightarrow> Some (s, Inl err)
              | Inr _ \<Rightarrow> do {
                  (s, r) \<leftarrow> write_loop s (qpath (xqid d)) off bs;
                  case r of
                    Inl err \<Rightarrow> Some (s, Inl err)
                  | Inr _ \<Rightarrow> do {
                      let cur_off = off + length bs;
                      (s, pdir, _) \<leftarrow> walk_path s (active_tree s) parent pdir;
                      (s, r) \<leftarrow> walk1 s (active_tree s) (qpath (xqid pdir)) name;
                      let d = (case r of Inr d' \<Rightarrow> d' | Inl _ \<Rightarrow> d);
                      let d = (if sint (xlength d) < int cur_off then d\<lparr>xlength := word_of_int (int cur_off)\<rparr> else d);
                      let d = bump_vers (d\<lparr>xmtime := now_ns e\<rparr>);
                      msg \<leftarrow> dirmsg (qpath (xqid pdir)) name d;
                      (s, _) \<leftarrow> btupsert s TActive [msg];
                      Some (s, Inr (length bs))
                    }
                }
            })
   }"

section \<open>Symbolic links\<close>

text \<open>\<open>e\<close> and \<open>e2\<close> are what the outside world reports for the entry and for the write.\<close>

definition create_symlink :: "env \<Rightarrow> env \<Rightarrow> ctx \<Rightarrow> byte list \<Rightarrow> byte list \<Rightarrow> (ctx \<times> (errno + unit)) option" where
  "create_symlink e e2 s target linkpath =
     (case split_path linkpath of
        None \<Rightarrow> Some (s, Inl EINVAL)
      | Some (parent, name) \<Rightarrow> do {
          (s, pdir, r) \<leftarrow> walk_path s (active_tree s) parent zero_dir;
          case r of
            Inl err \<Rightarrow> Some (s, Inl err)
          | Inr _ \<Rightarrow> do {
              let ndir = new_dir e (sb_nextqid (sb s)) QTSYMLINK 0x1FF name;
              let s = s\<lparr>sb := (sb s)\<lparr>sb_nextqid := sb_nextqid (sb s) + 1\<rparr>\<rparr>;
              msg \<leftarrow> dirmsg (qpath (xqid pdir)) name ndir;
              (s, r) \<leftarrow> btupsert s TActive [msg];
              case r of
                Inl err \<Rightarrow> Some (s, Inl err)
              | Inr _ \<Rightarrow> do {
                  (s, r) \<leftarrow> write_file e2 s linkpath target 0;
                  case r of
                    Inl err \<Rightarrow> Some (s, Inl err)
                  | Inr _ \<Rightarrow> do {
                      (s, pdir, _) \<leftarrow> walk_path s (active_tree s) parent pdir;
                      (s, r) \<leftarrow> walk1 s (active_tree s) (qpath (xqid pdir)) name;
                      let ndir = (case r of Inr d \<Rightarrow> d | Inl _ \<Rightarrow> ndir);
                      msg \<leftarrow> dirmsg (qpath (xqid pdir)) name (ndir\<lparr>xqid := (xqid ndir)\<lparr>qtype := QTSYMLINK\<rparr>\<rparr>);
                      btupsert s TActive [msg]
                    }
                }
            }
        })"

end
