(* ===== verification/Ream.thy ===== *)
theory Ream
  imports Fileio
begin

text \<open>
  The formatter (\<^verbatim>\<open>src/src/gefs_ream.c\<close>). \<^verbatim>\<open>setval\<close> and \<^verbatim>\<open>finalize_blk\<close> of that file are, line for
  line, the functions \<^verbatim>\<open>blk_setval\<close> and \<^verbatim>\<open>blk_finalize_and_write\<close> of the storage code and are
  modelled by the same definitions; \<^verbatim>\<open>packsb\<close> and \<^verbatim>\<open>pack_sb_block\<close> are one definition as well. The image
  is a device; its size is what \<^verbatim>\<open>fstat\<close> reports. Writes inside the device succeed, so the ignored
  results of \<^verbatim>\<open>write_blk\<close> carry no information.
\<close>

section \<open>Entries\<close>

definition fillxdir :: "u64 \<Rightarrow> byte list \<Rightarrow> byte \<Rightarrow> u32 \<Rightarrow> xdir" where
  "fillxdir qid name type mode =
     zero_dir\<lparr>xqid := \<lparr>qpath = qid, qvers = 0, qtype = type\<rparr>, xmode := mode, xatime := 0, xmtime := 0,
       xlength := 0, xname := Some name, xuid := - 1, xgid := - 1, xmuid := 0\<rparr>"

definition dir2kv :: "u64 \<Rightarrow> xdir \<Rightarrow> kvp option" where
  "dir2kv upqid d = do {
     k \<leftarrow> packdkey KEYMAX upqid (xname d);
     v \<leftarrow> packdval INLMAX d;
     Some \<lparr>kv_k = k, kv_v = v\<rparr>
   }"

definition Qmainroot :: u64 where [simp]: "Qmainroot = 0"
definition Qadmroot :: u64 where [simp]: "Qadmroot = 1"
definition Qadmuser :: u64 where [simp]: "Qadmuser = 2"
definition Nreamqid :: u64 where [simp]: "Nreamqid = 3"

definition kup :: "u64 \<Rightarrow> kvp option" where
  "kup qid = do {
     v \<leftarrow> packdkey INLMAX (- 1) (Some []);
     Some \<lparr>kv_k = upkey qid, kv_v = v\<rparr>
   }"

text \<open>The entries \<^verbatim>\<open>initroot\<close>, \<^verbatim>\<open>initadm\<close> and \<^verbatim>\<open>initsnap\<close> append, in their order.\<close>

definition root_entries :: "kvp list option" where
  "root_entries = do {
     e1 \<leftarrow> dir2kv (- 1) (fillxdir Qmainroot [] QTDIR (DMDIR OR 0x1FD));
     e2 \<leftarrow> kup Qmainroot;
     Some [e1, e2]
   }"

definition initroot :: "gblk \<Rightarrow> gblk option" where
  "initroot r = do { es \<leftarrow> root_entries; setvals r es }"

definition adm_entries :: "bptr \<Rightarrow> nat \<Rightarrow> kvp list option" where
  "adm_entries ubp nu = do {
     let e1 = \<lparr>kv_k = datkey Qadmuser 0, kv_v = packbp ubp\<rparr>;
     e2 \<leftarrow> dir2kv Qadmroot ((fillxdir Qadmuser (cstr ''users'') QTFILE 0x1B4)\<lparr>xlength := word_of_int (int nu)\<rparr>);
     e3 \<leftarrow> dir2kv (- 1) (fillxdir Qadmroot [] QTDIR (DMDIR OR 0x1FD));
     e4 \<leftarrow> kup Qadmroot;
     Some [e1, e2, e3, e4]
   }"

definition initadm :: "gblk \<Rightarrow> bptr \<Rightarrow> nat \<Rightarrow> gblk option" where
  "initadm r ubp nu = do { es \<leftarrow> adm_entries ubp nu; setvals r es }"

definition lbl2kv :: "byte list \<Rightarrow> u64 \<Rightarrow> u32 \<Rightarrow> kvp option" where
  "lbl2kv name snapid flags = do {
     k \<leftarrow> packlbl KEYMAX name;
     Some \<lparr>kv_k = k, kv_v = packlblval snapid flags\<rparr>
   }"

definition snap2kv :: "u64 \<Rightarrow> gtree \<Rightarrow> kvp option" where
  "snap2kv snapid t = do {
     k \<leftarrow> packsnap KEYMAX snapid;
     Some \<lparr>kv_k = k, kv_v = packtree t\<rparr>
   }"

text \<open>The catalog and the next generation number, starting from \<open>gen\<close>.\<close>

definition snap_entries :: "bptr \<Rightarrow> bptr \<Rightarrow> u64 \<Rightarrow> (kvp list \<times> u64) option" where
  "snap_entries rbp abp gen = do {
     l1 \<leftarrow> lbl2kv (cstr ''adm'') 1 (LMUT OR LTSNAP);
     l2 \<leftarrow> lbl2kv (cstr ''empty'') 0 0;
     l3 \<leftarrow> lbl2kv (cstr ''main'') 2 (LMUT OR LTSNAP);
     t0 \<leftarrow> snap2kv 0 (zero_tree\<lparr>t_nref := 2, t_nlbl := 1, t_ht := 1, t_gen := gen, t_pred := 0, t_succ := 2, t_bp := rbp\<rparr>);
     t1 \<leftarrow> snap2kv 1 (zero_tree\<lparr>t_nref := 0, t_nlbl := 1, t_ht := 1, t_gen := gen + 1, t_pred := 0, t_succ := - 1, t_bp := abp\<rparr>);
     t2 \<leftarrow> snap2kv 2 (zero_tree\<lparr>t_nref := 0, t_nlbl := 1, t_ht := 1, t_gen := gen + 2, t_pred := 0, t_succ := - 1, t_bp := rbp\<rparr>);
     Some ([l1, l2, l3, t0, t1, t2], gen + 3)
   }"

definition initsnap :: "gblk \<Rightarrow> bptr \<Rightarrow> bptr \<Rightarrow> u64 \<Rightarrow> (gblk \<times> u64) option" where
  "initsnap tb rbp abp gen = do {
     (es, gen) \<leftarrow> snap_entries rbp abp gen;
     tb \<leftarrow> setvals tb es;
     Some (tb, gen)
   }"

section \<open>Arenas\<close>

definition packarena :: "u64 \<Rightarrow> u64 \<Rightarrow> bptr \<Rightarrow> byte list" where
  "packarena sz used loghd = pack64 sz @ pack64 used @ pack64 0 @ pack64 0 @ packbp loghd"

text \<open>The operations of the allocation log, as \<^verbatim>\<open>LOG_FREE\<close> to \<^verbatim>\<open>LOG_SYNC\<close> define them.\<close>

definition log_bytes :: "int \<Rightarrow> int \<Rightarrow> byte list" where
  "log_bytes logaddr asz =
     pack64 (word_of_int logaddr OR 0) @ pack64 (word_of_int (asz - 2 * BLKSZ))
     @ pack64 (word_of_int logaddr OR 1) @ pack64 (word_of_int BLKSZ)
     @ pack64 4"

definition log_blk :: "int \<Rightarrow> int \<Rightarrow> gblk" where
  "log_blk logaddr asz =
     zero_blk\<lparr>btype := TLOG, blk_bp := zero_bptr\<lparr>bp_addr := word_of_int logaddr, bp_gen := - 1\<rparr>, doff := LOGHDSZ,
       buf := wr zeros LOGHDSZ (log_bytes logaddr asz), logsz := 40\<rparr>"

definition hdr_blk :: "int \<Rightarrow> int \<Rightarrow> bptr \<Rightarrow> gblk" where
  "hdr_blk addr asz loghd =
     zero_blk\<lparr>btype := TARENA, blk_bp := zero_bptr\<lparr>bp_addr := word_of_int addr\<rparr>, doff := 2,
       buf := wr zeros 2 (packarena (word_of_int asz) (word_of_int BLKSZ) loghd)\<rparr>"

definition ream_write :: "device \<Rightarrow> gblk \<Rightarrow> device \<times> bptr" where
  "ream_write d b = (let b = finalize_blk b in (pwrite_blk d (sint (bp_addr (blk_bp b))) (buf b), blk_bp b))"

fun ream_arenas :: "nat \<Rightarrow> int \<Rightarrow> int \<Rightarrow> device \<Rightarrow> device \<times> bptr list" where
  "ream_arenas 0 asz off d = (d, [])"
| "ream_arenas (Suc n) asz off d =
     (let hdaddr = off;
          logaddr = hdaddr + 2 * BLKSZ;
          (d, logbp) = ream_write d (log_blk logaddr asz);
          (d, h0bp) = ream_write d (hdr_blk hdaddr asz logbp);
          (d, h1bp) = ream_write d (hdr_blk (hdaddr + BLKSZ) asz logbp);
          (d, bps) = ream_arenas n asz (off + asz + 2 * BLKSZ) d
      in (d, h0bp # bps))"

section \<open>The program\<close>

definition ream_size :: "int \<Rightarrow> int" where
  "ream_size st_size = st_size - st_size mod BLKSZ - 2 * BLKSZ"

definition ream_narena :: "int \<Rightarrow> int" where
  "ream_narena sz = min 32 (max 8 ((sz + 4096 * 1024 * 1024 * 1024 - 1) div (4096 * 1024 * 1024 * 1024)))"

definition ream_asz :: "int \<Rightarrow> int" where
  "ream_asz sz = (let asz = sz div ream_narena sz in asz - asz mod BLKSZ - 2 * BLKSZ)"

definition mb_addr :: int where [simp]: "mb_addr = BLKSZ + 3 * BLKSZ"
definition ab_addr :: int where [simp]: "ab_addr = BLKSZ + 4 * BLKSZ"
definition ub_addr :: int where [simp]: "ub_addr = BLKSZ + 5 * BLKSZ"
definition tb_addr :: int where [simp]: "tb_addr = BLKSZ + 6 * BLKSZ"

definition ream_leaf :: "int \<Rightarrow> gblk" where
  "ream_leaf addr = zero_blk\<lparr>btype := TLEAF, blk_bp := zero_bptr\<lparr>bp_addr := word_of_int addr\<rparr>, doff := LEAFHDSZ\<rparr>"

text \<open>\<^verbatim>\<open>snprintf(utab, sizeof(utab), ...)\<close>: at most 255 characters.\<close>

definition utab :: "byte list \<Rightarrow> byte list" where
  "utab user = take 255 (cstr ''-1:adm::'' @ user @ [10] @ cstr ''0:none::'' @ [10] @ cstr ''1:'' @ user @ cstr '':'' @ user @ cstr '':'' @ [10])"

definition users_blk :: "byte list \<Rightarrow> gblk" where
  "users_blk user =
     zero_blk\<lparr>btype := TDAT, blk_bp := zero_bptr\<lparr>bp_addr := word_of_int ub_addr\<rparr>, doff := 0, buf := wr zeros 0 (utab user)\<rparr>"

definition super_blk :: "int \<Rightarrow> super \<Rightarrow> gblk option" where
  "super_blk addr fi =
     map_option (\<lambda>m. zero_blk\<lparr>btype := TSUPER, blk_bp := zero_bptr\<lparr>bp_addr := word_of_int addr\<rparr>, doff := 0, buf := m\<rparr>)
       (pack_sb_block BLKSZ fi)"

text \<open>
  \<^verbatim>\<open>main\<close> after the image is open: \<open>Inl\<close> when it is smaller than the minimum.
\<close>

definition ream :: "device \<Rightarrow> byte list \<Rightarrow> (unit + device) option" where
  "ream d user =
     (if dsize d < 128 * 1024 * 1024 + BLKSZ then Some (Inl ())
      else do {
        let sz = ream_size (dsize d);
        let narena = ream_narena sz;
        let asz = ream_asz sz;
        let (d, arenabp) = ream_arenas (nat narena) asz BLKSZ d;
        mb \<leftarrow> initroot (ream_leaf mb_addr);
        let (d, mbp) = ream_write d mb;
        let (d, ubp) = ream_write d (users_blk user);
        ab \<leftarrow> initadm (ream_leaf ab_addr) ubp (length (utab user));
        let (d, abp) = ream_write d ab;
        (tb, nextgen) \<leftarrow> initsnap (ream_leaf tb_addr) mbp abp 1;
        let (d, tbp) = ream_write d tb;
        let fi = \<lparr>sb_blksz = word_of_int BLKSZ, sb_bufspc = word_of_int BUFSPC, sb_narena = word_of_int narena,
          sb_snap = zero_tree\<lparr>t_ht := 1, t_bp := tbp\<rparr>, sb_flag = 0, sb_nextqid = Nreamqid, sb_nextgen = nextgen,
          sb_qgen = 0, sb_arenabp = arenabp\<rparr>;
        sb0 \<leftarrow> super_blk 0 fi;
        let (d, _) = ream_write d sb0;
        sb1 \<leftarrow> super_blk (sz + BLKSZ) fi;
        let (d, _) = ream_write d sb1;
        Some (Inr d)
      })"

end
