(* ===== verification/Check.thy ===== *)
theory Check
  imports Ream
begin

text \<open>
  The consistency checker (\<^verbatim>\<open>src/src/gefs_check.c\<close>). The two global counters are threaded as a
  pair of errors and warnings; the printed texts are not modelled. The recursion descends one
  height at a time and stops below height 0, so it is structural on the height; a height below
  zero is the case \<open>0\<close> of the argument, which is the height plus one.
\<close>

type_synonym tally = "nat \<times> nat"

definition err :: "tally \<Rightarrow> tally" where
  "err w = (Suc (fst w), snd w)"

definition warn :: "tally \<Rightarrow> tally" where
  "warn w = (fst w, Suc (snd w))"

section \<open>Message order\<close>

function check_msgs :: "gblk \<Rightarrow> int \<Rightarrow> gmsg \<Rightarrow> tally \<Rightarrow> tally option" where
  "check_msgs b i mx w =
     (if i < nbuf b then
        (case getmsg b i of
           None \<Rightarrow> None
         | Some my \<Rightarrow> check_msgs b (i + 1) my (if keycmp (m_k mx) (m_k my) > 0 then err w else w))
      else Some w)"
  by pat_completeness auto
termination
  by (relation "measure (\<lambda>(b, i, mx, w). nat (nbuf b - i))") auto

declare check_msgs.simps [simp del]

section \<open>Nodes\<close>

text \<open>
  The loop over the entries of a node, with the check of the child between two neighbouring
  keys passed as a function: it gets the lower and the upper entry.
\<close>

function check_vals :: "(kvp \<Rightarrow> kvp \<Rightarrow> bcache \<times> tally \<Rightarrow> (bcache \<times> tally) option) \<Rightarrow> gblk \<Rightarrow> int \<Rightarrow> kvp
    \<Rightarrow> bcache \<times> tally \<Rightarrow> (bcache \<times> tally) option" where
  "check_vals kid b i x st =
     (if i < nval b then
        (case getval b i of
           None \<Rightarrow> None
         | Some y \<Rightarrow>
             (let w = (if keycmp (kv_k x) (kv_k y) \<ge> 0 then err (snd st) else snd st) in
              case (if btype b = TPIVOT then kid x y (fst st, w) else Some (fst st, w)) of
                None \<Rightarrow> None
              | Some st \<Rightarrow> check_vals kid b (i + 1) y st))
      else Some st)"
  by pat_completeness auto
termination
  by (relation "measure (\<lambda>(kid, b, i, x, st). nat (nval b - i))") auto

declare check_vals.simps [simp del]

text \<open>\<open>check_btree_node (Suc h)\<close> is the call with height \<open>h\<close>.\<close>

fun check_btree_node :: "nat \<Rightarrow> device \<Rightarrow> gblk \<Rightarrow> kvp option \<Rightarrow> kvp option \<Rightarrow> bcache \<times> tally \<Rightarrow> (bcache \<times> tally) option" where
  "check_btree_node 0 d b lo hi st = Some (fst st, err (snd st))"
| "check_btree_node (Suc h) d b lo hi st =
     (let kid = (\<lambda>x hi (c, w). do {
            bp \<leftarrow> unpackbp (kv_v x);
            (c, q) \<leftarrow> fetch d c bp;
            case q of
              None \<Rightarrow> Some (c, err w)
            | Some (p, ch) \<Rightarrow> do {
                (c, w) \<leftarrow> check_btree_node h d ch (Some x) hi (c, w);
                c \<leftarrow> release c p;
                Some (c, w)
              }
          });
          w = (if btype b = TLEAF \<and> h \<noteq> 0 then err (snd st) else snd st)
      in if nval b = 0 then Some (fst st, warn w)
         else do {
           x \<leftarrow> getval b 0;
           let w = (case lo of None \<Rightarrow> w | Some l \<Rightarrow> if keycmp (kv_k l) (kv_k x) > 0 then err w else w);
           st \<leftarrow> check_vals (\<lambda>x y. kid x (Some y)) b 1 x (fst st, w);
           if btype b = TPIVOT then do {
             y \<leftarrow> getval b (nval b - 1);
             st \<leftarrow> kid y hi st;
             if 0 < nbuf b then do {
               mx \<leftarrow> getmsg b 0;
               w \<leftarrow> check_msgs b 1 mx (snd st);
               Some (fst st, w)
             } else Some st
           }
           else Some st
         })"

section \<open>Trees and snapshots\<close>

text \<open>The check of one root; \<^verbatim>\<open>t->ht - 1\<close> is the height of the root node.\<close>

definition check_tree :: "device \<Rightarrow> gtree \<Rightarrow> bcache \<times> tally \<Rightarrow> (bcache \<times> tally) option" where
  "check_tree d t st = do {
     (c, q) \<leftarrow> fetch d (fst st) (t_bp t);
     case q of
       None \<Rightarrow> Some (c, err (snd st))
     | Some (p, root) \<Rightarrow> do {
         (c, w) \<leftarrow> check_btree_node (nat (sint (t_ht t))) d root None None (c, snd st);
         c \<leftarrow> release c p;
         Some (c, w)
       }
   }"

partial_function (option) check_snaps :: "ctx \<Rightarrow> scan \<Rightarrow> tally \<Rightarrow> (ctx \<times> scan \<times> tally) option" where
  "check_snaps s sc w =
     Option.bind (btnext s sc) (\<lambda>(s, sc, more).
       if \<not> more then Some (s, sc, w)
       else Option.bind (opensnap s (takeWhile (\<lambda>c. c \<noteq> 0) (take KEYMAX (tl (kv_k (skv sc)))))) (\<lambda>(s, r).
         case r of
           Inl _ \<Rightarrow> check_snaps s sc (err w)
         | Inr (t, _) \<Rightarrow> Option.bind (check_tree (dev s) t (bc s, w)) (\<lambda>(c, w). check_snaps (s\<lparr>bc := c\<rparr>) sc w)))"

definition check_all_snapshots :: "ctx \<Rightarrow> tally \<Rightarrow> (ctx \<times> tally) option" where
  "check_all_snapshots s w = do {
     (s, sc) \<leftarrow> btenter s (snap_tree s) (btnewscan [KLABEL]);
     (s, sc, w) \<leftarrow> check_snaps s sc w;
     (s, sc) \<leftarrow> btexit s sc;
     Some (s, w)
   }"

text \<open>The program: the exit status of \<^verbatim>\<open>fsck.gefs\<close> with its counters.\<close>

definition fsck :: "opened \<Rightarrow> device \<Rightarrow> (nat \<times> tally) option" where
  "fsck how d = do {
     r \<leftarrow> fs_open how d;
     case r of
       Inl _ \<Rightarrow> Some (1, 0, 0)
     | Inr s \<Rightarrow> do {
         (c, w) \<leftarrow> check_tree (dev s) (snap_tree s) (bc s, (0, 0));
         (s, w) \<leftarrow> check_all_snapshots (s\<lparr>bc := c\<rparr>) w;
         s \<leftarrow> fs_close s;
         Some (if fst w = 0 then 0 else 2, w)
       }
   }"

end
