(* ===== verification/Fuse.thy ===== *)
theory Fuse
  imports Check
begin

text \<open>
  The FUSE callbacks (\<^verbatim>\<open>src/src/gefs_fuse.c\<close>). The global \<^verbatim>\<open>g_fs\<close> is the context argument. A callback
  returns \<open>Inl\<close> of the negated error number or \<open>Inr\<close> of its result. The directory filler that the
  FUSE library passes to \<^verbatim>\<open>readdir\<close> is a parameter: a function that adds an entry to the caller's
  buffer and says whether the buffer is full.

  \<open>fuse_step\<close> is the relation of one request served, \<open>served\<close> its reflexive transitive closure: the
  states a mount goes through.
\<close>

record stat =
  st_ino :: u64
  st_mode :: u32
  st_nlink :: nat
  st_size :: u64
  st_blksize :: nat
  st_blocks :: u64
  st_uid :: u32
  st_gid :: u32
  st_atime :: int
  st_mtime :: int
  st_ctime :: int

section \<open>Callbacks that read\<close>

text \<open>Division of signed 64-bit integers rounds toward zero; both operands are positive here.\<close>

definition secs :: "env \<Rightarrow> u64 \<Rightarrow> int \<Rightarrow> int" where
  "secs e ns dflt = (if 0 < sint ns then sint ns div 1000000000 else dflt)"

definition attr_of :: "env \<Rightarrow> xdir \<Rightarrow> stat" where
  "attr_of e d =
     (let mode = mode_to_posix (xmode d) (qtype (xqid d));
          atime = secs e (xatime d) (e_time e);
          mtime = secs e (xmtime d) atime
      in \<lparr>st_ino = qpath (xqid d), st_mode = mode, st_nlink = (if mode AND 0x4000 \<noteq> 0 then 2 else 1),
          st_size = xlength d, st_blksize = 16384, st_blocks = (xlength d + 511) div 512,
          st_uid = (if 0 \<le> sint (xuid d) then xuid d else e_uid e),
          st_gid = (if 0 \<le> sint (xgid d) then xgid d else e_gid e),
          st_atime = atime, st_mtime = mtime, st_ctime = mtime\<rparr>)"

definition is_dir :: "xdir \<Rightarrow> bool" where
  "is_dir d \<longleftrightarrow> qtype (xqid d) AND QTDIR \<noteq> 0 \<or> xmode d AND DMDIR \<noteq> 0"

definition fuse_getattr :: "env \<Rightarrow> ctx \<Rightarrow> byte list \<Rightarrow> (ctx \<times> (errno + stat)) option" where
  "fuse_getattr e s path = do {
     (s, d, r) \<leftarrow> walk_path s (active_tree s) path zero_dir;
     case r of Inl _ \<Rightarrow> Some (s, Inl ENOENT) | Inr _ \<Rightarrow> Some (s, Inr (attr_of e d))
   }"

type_synonym 'a filler = "'a \<Rightarrow> byte list \<Rightarrow> (u64 \<times> u32 \<times> u64) option \<Rightarrow> 'a \<times> bool"

definition fill_dir_cb :: "'a filler \<Rightarrow> 'a \<Rightarrow> xdir \<Rightarrow> 'a \<times> bool" where
  "fill_dir_cb fill x d =
     fill x (case xname d of None \<Rightarrow> [] | Some n \<Rightarrow> n)
       (Some (qpath (xqid d), mode_to_posix (xmode d) (qtype (xqid d)), xlength d))"

definition fuse_readdir :: "'a filler \<Rightarrow> ctx \<Rightarrow> byte list \<Rightarrow> 'a \<Rightarrow> (ctx \<times> (errno + 'a)) option" where
  "fuse_readdir fill s path x = do {
     (s, d, r) \<leftarrow> walk_path s (active_tree s) path zero_dir;
     case r of
       Inl _ \<Rightarrow> Some (s, Inl ENOENT)
     | Inr _ \<Rightarrow>
         if \<not> is_dir d then Some (s, Inl ENOTDIR)
         else do {
           let x = fst (fill x (cstr ''.'') None);
           let x = fst (fill x (cstr ''..'') None);
           (s, x) \<leftarrow> list_dir (fill_dir_cb fill) s (active_tree s) (qpath (xqid d)) x;
           Some (s, Inr x)
         }
   }"

definition fuse_read :: "ctx \<Rightarrow> byte list \<Rightarrow> nat \<Rightarrow> nat \<Rightarrow> (ctx \<times> (errno + byte list)) option" where
  "fuse_read s path sz off = do {
     (s, d, r) \<leftarrow> walk_path s (active_tree s) path zero_dir;
     case r of
       Inl _ \<Rightarrow> Some (s, Inl ENOENT)
     | Inr _ \<Rightarrow>
         if is_dir d then Some (s, Inl EISDIR)
         else do { (s, bs) \<leftarrow> read_file s (active_tree s) d sz off; Some (s, Inr bs) }
   }"

text \<open>\<^verbatim>\<open>size - 1\<close> wraps for an empty buffer, which is outside the model.\<close>

definition fuse_readlink :: "ctx \<Rightarrow> byte list \<Rightarrow> nat \<Rightarrow> (ctx \<times> (errno + byte list)) option" where
  "fuse_readlink s path sz = do {
     (s, d, r) \<leftarrow> walk_path s (active_tree s) path zero_dir;
     case r of
       Inl _ \<Rightarrow> Some (s, Inl ENOENT)
     | Inr _ \<Rightarrow>
         if qtype (xqid d) AND QTSYMLINK = 0 then Some (s, Inl EINVAL)
         else if sz = 0 then None
         else do { (s, bs) \<leftarrow> read_file s (active_tree s) d (sz - 1) 0; Some (s, Inr (bs @ [0])) }
   }"

record statvfs =
  f_bsize :: nat
  f_blocks :: u64
  f_bfree :: u64
  f_files :: u64
  f_ffree :: nat
  f_namemax :: nat

definition fuse_statfs :: "ctx \<Rightarrow> statvfs" where
  "fuse_statfs s =
     (let blocks = scast (sb_narena (sb s)) * (4096 * 1024 * 1024 div 16384)
      in \<lparr>f_bsize = 16384, f_blocks = blocks, f_bfree = blocks div 2, f_files = sb_nextqid (sb s), f_ffree = 1000000,
          f_namemax = KEYMAX - 9 - 1\<rparr>)"

section \<open>Callbacks that write\<close>

definition guarded :: "ctx \<Rightarrow> (ctx \<Rightarrow> (ctx \<times> (errno + 'a)) option) \<Rightarrow> (ctx \<times> (errno + 'a)) option" where
  "guarded s f = (if readonly s then Some (s, Inl EROFS) else f s)"

definition fuse_open :: "env \<Rightarrow> ctx \<Rightarrow> byte list \<Rightarrow> bool \<Rightarrow> (ctx \<times> (errno + unit)) option" where
  "fuse_open e s path trunc = do {
     (s, d, r) \<leftarrow> walk_path s (active_tree s) path zero_dir;
     case r of
       Inl _ \<Rightarrow> Some (s, Inl ENOENT)
     | Inr _ \<Rightarrow>
         if is_dir d then Some (s, Inl EISDIR)
         else if trunc \<and> \<not> readonly s then do { (s, _) \<leftarrow> truncate_file e s path 0; Some (s, Inr ()) }
         else Some (s, Inr ())
   }"

definition fuse_create :: "env \<Rightarrow> ctx \<Rightarrow> byte list \<Rightarrow> u32 \<Rightarrow> (ctx \<times> (errno + xdir)) option" where
  "fuse_create e s path mode = guarded s (\<lambda>s. create_file e s path mode)"

definition fuse_write :: "env \<Rightarrow> ctx \<Rightarrow> byte list \<Rightarrow> byte list \<Rightarrow> nat \<Rightarrow> (ctx \<times> (errno + nat)) option" where
  "fuse_write e s path bs off = guarded s (\<lambda>s. write_file e s path bs off)"

definition fuse_truncate :: "env \<Rightarrow> ctx \<Rightarrow> byte list \<Rightarrow> u64 \<Rightarrow> (ctx \<times> (errno + unit)) option" where
  "fuse_truncate e s path sz = guarded s (\<lambda>s. truncate_file e s path sz)"

definition fuse_mkdir :: "env \<Rightarrow> ctx \<Rightarrow> byte list \<Rightarrow> u32 \<Rightarrow> (ctx \<times> (errno + unit)) option" where
  "fuse_mkdir e s path mode = guarded s (\<lambda>s. create_dir e s path mode)"

definition fuse_unlink :: "ctx \<Rightarrow> byte list \<Rightarrow> (ctx \<times> (errno + unit)) option" where
  "fuse_unlink s path = guarded s (\<lambda>s. unlink_entry s path)"

definition fuse_rmdir :: "ctx \<Rightarrow> byte list \<Rightarrow> (ctx \<times> (errno + unit)) option" where
  "fuse_rmdir s path = guarded s (\<lambda>s. rmdir_entry s path)"

definition fuse_symlink :: "env \<Rightarrow> env \<Rightarrow> ctx \<Rightarrow> byte list \<Rightarrow> byte list \<Rightarrow> (ctx \<times> (errno + unit)) option" where
  "fuse_symlink e e2 s target path = guarded s (\<lambda>s. create_symlink e e2 s target path)"

definition fuse_rename :: "ctx \<Rightarrow> byte list \<Rightarrow> byte list \<Rightarrow> (ctx \<times> (errno + unit)) option" where
  "fuse_rename s oldpath newpath = guarded s (\<lambda>s. rename_entry s oldpath newpath)"

definition fuse_chmod :: "ctx \<Rightarrow> byte list \<Rightarrow> u32 \<Rightarrow> (ctx \<times> (errno + unit)) option" where
  "fuse_chmod s path mode = guarded s (\<lambda>s. chmod_entry s path mode)"

definition fuse_chown :: "ctx \<Rightarrow> byte list \<Rightarrow> u32 \<Rightarrow> u32 \<Rightarrow> (ctx \<times> (errno + unit)) option" where
  "fuse_chown s path uid gid = guarded s (\<lambda>s. chown_entry s path uid gid)"

definition fuse_utimens :: "env \<Rightarrow> ctx \<Rightarrow> byte list \<Rightarrow> ((int \<times> int) \<times> (int \<times> int)) option \<Rightarrow> (ctx \<times> (errno + unit)) option" where
  "fuse_utimens e s path tv = guarded s (\<lambda>s. utimens_entry e s path tv)"

definition fuse_fsync :: "ctx \<Rightarrow> (ctx \<times> (errno + unit)) option" where
  "fuse_fsync s = (if readonly s then Some (s, Inr ()) else do { s \<leftarrow> sync_fs s; Some (s, Inr ()) })"

text \<open>
  The start of \<^verbatim>\<open>main\<close>: open the image and switch to another snapshot if one is named.
\<close>

definition fuse_mount :: "opened \<Rightarrow> device \<Rightarrow> byte list \<Rightarrow> (errno + ctx) option" where
  "fuse_mount how d snap_name = do {
     r \<leftarrow> fs_open how d;
     case r of
       Inl e \<Rightarrow> Some (Inl e)
     | Inr s \<Rightarrow>
         if snap_name = cstr ''main'' then Some (Inr s)
         else do {
           (s, r) \<leftarrow> opensnap s snap_name;
           Some (Inr (case r of
               Inl _ \<Rightarrow> s
             | Inr (t, _) \<Rightarrow> s\<lparr>active_tree := t, active_snap_name := take 63 snap_name\<rparr>))
         }
   }"

section \<open>A mount as a sequence of requests\<close>

inductive fuse_step :: "ctx \<Rightarrow> ctx \<Rightarrow> bool" where
  getattr_req: "fuse_getattr e s p = Some (s', r) \<Longrightarrow> fuse_step s s'"
| readdir_req: "fuse_readdir (\<lambda>xs n st. (n # xs, False)) s p [] = Some (s', r) \<Longrightarrow> fuse_step s s'"
| read_req: "fuse_read s p n off = Some (s', r) \<Longrightarrow> fuse_step s s'"
| readlink_req: "fuse_readlink s p n = Some (s', r) \<Longrightarrow> fuse_step s s'"
| opens_req: "fuse_open e s p trunc = Some (s', r) \<Longrightarrow> fuse_step s s'"
| create_req: "fuse_create e s p mode = Some (s', r) \<Longrightarrow> fuse_step s s'"
| write_req: "fuse_write e s p bs off = Some (s', r) \<Longrightarrow> fuse_step s s'"
| truncate_req: "fuse_truncate e s p len = Some (s', r) \<Longrightarrow> fuse_step s s'"
| mkdir_req: "fuse_mkdir e s p mode = Some (s', r) \<Longrightarrow> fuse_step s s'"
| unlink_req: "fuse_unlink s p = Some (s', r) \<Longrightarrow> fuse_step s s'"
| rmdir_req: "fuse_rmdir s p = Some (s', r) \<Longrightarrow> fuse_step s s'"
| symlink_req: "fuse_symlink e e2 s tgt p = Some (s', r) \<Longrightarrow> fuse_step s s'"
| rename_req: "fuse_rename s p p' = Some (s', r) \<Longrightarrow> fuse_step s s'"
| chmod_req: "fuse_chmod s p mode = Some (s', r) \<Longrightarrow> fuse_step s s'"
| chown_req: "fuse_chown s p uid gid = Some (s', r) \<Longrightarrow> fuse_step s s'"
| utimens_req: "fuse_utimens e s p tv = Some (s', r) \<Longrightarrow> fuse_step s s'"
| fsync_req: "fuse_fsync s = Some (s', r) \<Longrightarrow> fuse_step s s'"

inductive served :: "ctx \<Rightarrow> ctx \<Rightarrow> bool" where
  served_start: "served s s"
| served_more: "served s s' \<Longrightarrow> fuse_step s' s'' \<Longrightarrow> served s s''"

inductive_cases served_stepE: "fuse_step s s'"

section \<open>Reading leaves the filesystem alone\<close>

named_theorems keeps_fs "an operation only touches the block cache"

lemma getb_same [keeps_fs]: "getb s bp = Some (s', q) \<Longrightarrow> same_fs s s'"
  by (auto simp: getb_def same_fs_def split: bind_splits)

lemma dropb_same [keeps_fs]: "dropb s p = Some s' \<Longrightarrow> same_fs s s'"
  by (auto simp: dropb_def same_fs_def split: bind_splits)

lemma lookup_same [keeps_fs]: "lookup s t k n = Some (s', r) \<Longrightarrow> same_fs s s'"
  by (auto simp: lookup_def same_fs_def split: bind_splits)

lemma walk1_same [keeps_fs]: "walk1 s t q name = Some (s', r) \<Longrightarrow> same_fs s s'"
  by (auto simp: walk1_def dest: keeps_fs split: bind_splits option.splits)

lemma walk_elems_same [keeps_fs]: "walk_elems s t es d = Some (s', d', r) \<Longrightarrow> same_fs s s'"
proof (induction es arbitrary: s d)
  case Nil
  then show ?case by simp
next
  case (Cons e es)
  show ?case
  proof (cases "e = [0x2e]")
    case True
    then show ?thesis using Cons by simp
  next
    case False
    then obtain s1 r1 where w: "walk1 s t (qpath (xqid d)) e = Some (s1, r1)"
      using Cons.prems by (cases "walk1 s t (qpath (xqid d)) e") auto
    then have "same_fs s1 s'"
      using False Cons.prems Cons.IH by (cases r1) auto
    then show ?thesis using walk1_same [OF w] same_fs_trans by blast
  qed
qed

lemma walk_path_same [keeps_fs]: "walk_path s t p d = Some (s', d', r) \<Longrightarrow> same_fs s s'"
  by (auto simp: walk_path_def split: bind_splits sum.splits if_splits)
    (blast dest: walk1_same walk_elems_same intro: same_fs_trans)+

lemma btenter_same [keeps_fs]: "btenter s t sc = Some (s', sc') \<Longrightarrow> same_fs s s'"
proof -
  have upd: "same_fs s s1 \<Longrightarrow> same_fs s (s1\<lparr>bc := c\<rparr>)" for s s1 c
    by (cases s; cases s1) (simp add: same_fs_def)
  show "btenter s t sc = Some (s', sc') \<Longrightarrow> same_fs s s'"
    by (auto simp: btenter_def Let_def split: bind_splits option.splits if_splits)
      (metis getb_same dropb_same same_fs_trans upd)+
qed

lemma next_pass_same [keeps_fs]: "next_pass s sc p = Some (s', sc', r) \<Longrightarrow> same_fs s s'"
  by (auto simp: next_pass_def Let_def same_fs_def split: bind_splits option.splits if_splits)

lemma btnext_same [keeps_fs]: "btnext s sc = Some (s', sc', r) \<Longrightarrow> same_fs s s'"
proof -
  have "same_fs s (fst y)" if that: "btnext s sc = Some y" for y
  proof (rule btnext.raw_induct [where P = "\<lambda>s sc y. same_fs s (fst y)", OF _ that])
    fix f s sc y
    assume IH: "\<And>s sc y. f s sc = Some y \<Longrightarrow> same_fs s (fst y)"
      and body: "(if donescan sc then Some (s, sc, False)
        else Option.bind (spath sc) (\<lambda>p. Option.bind (next_pass s sc p) (\<lambda>(s, sc, r).
          case r of None \<Rightarrow> Some (s, sc, False) | Some ok \<Rightarrow> if ok then Some (s, sc, True) else f s sc))) = Some y"
    show "same_fs s (fst y)"
    proof (cases "donescan sc")
      case True
      then show ?thesis using body by auto
    next
      case False
      then obtain p s1 sc1 r where n: "spath sc = Some p" "next_pass s sc p = Some (s1, sc1, r)"
        and y: "(case r of None \<Rightarrow> Some (s1, sc1, False) | Some ok \<Rightarrow> if ok then Some (s1, sc1, True) else f s1 sc1) = Some y"
        using body by (auto split: bind_splits prod.splits)
      have "same_fs s1 (fst y)"
        using y IH [of s1 sc1 y] by (auto split: option.splits if_splits)
      then show ?thesis using next_pass_same [OF n(2)] same_fs_trans by blast
    qed
  qed
  then show "btnext s sc = Some (s', sc', r) \<Longrightarrow> same_fs s s'" by fastforce
qed

lemma btexit_same [keeps_fs]: "btexit s sc = Some (s', sc') \<Longrightarrow> same_fs s s'"
  by (auto simp: btexit_def same_fs_def split: bind_splits option.splits)

lemma list_loop_same [keeps_fs]: "list_loop cb s sc x = Some (s', sc', x') \<Longrightarrow> same_fs s s'"
proof -
  have "same_fs s (fst y)" if that: "list_loop cb s sc x = Some y" for y
  proof (rule list_loop.raw_induct [where P = "\<lambda>cb s sc x y. same_fs s (fst y)" and xa = "(((cb, s), sc), x)",
        unfolded prod.case, OF _ that])
    fix f cb s sc x y
    assume IH: "\<And>cb s sc x y. f cb s sc x = Some y \<Longrightarrow> same_fs s (fst y)"
      and body: "Option.bind (btnext s sc) (\<lambda>(s, sc, more).
       if \<not> more then Some (s, sc, x)
       else Option.bind (kv2dir (skv sc)) (\<lambda>d.
         if (case xname d of None \<Rightarrow> False | Some n \<Rightarrow> n \<noteq> [])
         then (case cb x d of (x, stop) \<Rightarrow> if stop then Some (s, sc, x) else f cb s sc x)
         else f cb s sc x)) = Some y"
    from body obtain s1 sc1 more where n: "btnext s sc = Some (s1, sc1, more)"
      and rest: "(if \<not> more then Some (s1, sc1, x)
       else Option.bind (kv2dir (skv sc1)) (\<lambda>d.
         if (case xname d of None \<Rightarrow> False | Some n \<Rightarrow> n \<noteq> [])
         then (case cb x d of (x, stop) \<Rightarrow> if stop then Some (s1, sc1, x) else f cb s1 sc1 x)
         else f cb s1 sc1 x)) = Some y"
      by (auto split: bind_splits prod.splits)
    have "same_fs s1 (fst y)"
      using rest IH [of cb s1 sc1 _ y] by (auto split: bind_splits if_splits prod.splits)
    then show "same_fs s (fst y)" using btnext_same [OF n] same_fs_trans by blast
  qed
  then show "list_loop cb s sc x = Some (s', sc', x') \<Longrightarrow> same_fs s s'" by fastforce
qed

lemma list_dir_same [keeps_fs]: "list_dir cb s t q x = Some (s', x') \<Longrightarrow> same_fs s s'"
  by (auto simp: list_dir_def split: bind_splits)
    (blast dest: btenter_same list_loop_same btexit_same intro: same_fs_trans)

lemma read_blk_same [keeps_fs]: "read_blk s t p off n = Some (s', bs) \<Longrightarrow> same_fs s s'"
  by (auto simp: read_blk_def split: bind_splits option.splits)
    (blast dest: lookup_same getb_same dropb_same intro: same_fs_trans)+

lemma read_loop_same [keeps_fs]: "read_loop s t p off n = Some (s', bs) \<Longrightarrow> same_fs s s'"
proof (induction s t p off n arbitrary: s' bs rule: read_loop.induct)
  case (1 s t path off sz)
  show ?case
  proof (cases "sz = 0")
    case True
    then show ?thesis using "1.prems" by (simp add: read_loop.simps)
  next
    case False
    let ?n = "min (BSZ - off mod BSZ) sz"
    obtain s1 b1 s2 b2 where r: "read_blk s t path off ?n = Some (s1, b1)" "read_loop s1 t path (off + ?n) (sz - ?n) = Some (s2, b2)" "s' = s2"
      using "1.prems" False by (subst (asm) read_loop.simps) (auto simp: Let_def split: option.splits)
    then show ?thesis using "1.IH" [OF False refl r(1) refl r(2)] read_blk_same [OF r(1)] same_fs_trans by blast
  qed
qed

lemma read_file_same [keeps_fs]: "read_file s t d n off = Some (s', bs) \<Longrightarrow> same_fs s s'"
  by (auto simp: read_file_def Let_def dest: read_loop_same split: if_splits)

section \<open>Read-only mounts\<close>

lemma fuse_step_readonly:
  assumes "fuse_step s s'" and ro: "readonly s"
  shows "same_fs s s'"
  using assms(1)
proof cases
  case (getattr_req e p r)
  then show ?thesis by (auto simp: fuse_getattr_def dest: walk_path_same split: bind_splits sum.splits)
next
  case (readdir_req p r)
  then show ?thesis
    by (auto simp: fuse_readdir_def split: bind_splits sum.splits if_splits)
      (blast dest: walk_path_same list_dir_same intro: same_fs_trans)+
next
  case (read_req p n off r)
  then show ?thesis
    by (auto simp: fuse_read_def split: bind_splits sum.splits if_splits)
      (blast dest: walk_path_same read_file_same intro: same_fs_trans)+
next
  case (readlink_req p n r)
  then show ?thesis
    by (auto simp: fuse_readlink_def split: bind_splits sum.splits if_splits)
      (blast dest: walk_path_same read_file_same intro: same_fs_trans)+
next
  case (opens_req e p trunc r)
  then show ?thesis
    using ro
    by (auto simp: fuse_open_def split: bind_splits sum.splits if_splits)
      (metis walk_path_same same_fsD(7))+
qed (use ro in \<open>auto simp: guarded_def fuse_create_def fuse_write_def fuse_truncate_def fuse_mkdir_def fuse_unlink_def
    fuse_rmdir_def fuse_symlink_def fuse_rename_def fuse_chmod_def fuse_chown_def fuse_utimens_def fuse_fsync_def\<close>)

lemma served_readonly: "served s s' \<Longrightarrow> readonly s \<Longrightarrow> same_fs s s'"
proof (induction rule: served.induct)
  case (served_start s)
  then show ?case by simp
next
  case (served_more s s' s'')
  then have "readonly s'" using same_fsD(7) by blast
  then show ?case using served_more fuse_step_readonly same_fs_trans by blast
qed

end
