(* ===== verification/Namespace.thy ===== *)
theory Namespace
  imports Fileio
begin

text \<open>
  The namespace operations against an abstract directory: the entries of the active tree as a
  finite map, paths resolved in that map (\<open>resolve\<close>). \<open>mounted\<close> is the state in which the active tree
  is a leaf with given entries; the lemmas say which entries each operation leaves and which
  error it returns.
\<close>

section \<open>Mounted trees\<close>

definition leaf_tree :: "tref \<Rightarrow> ctx \<Rightarrow> u64 set \<Rightarrow> kvp list \<Rightarrow> bool" where
  "leaf_tree tr s S es \<longleftrightarrow>
     fs_ok s [] S \<and> tree_at (seen_by s S) 1 (bp_addr (t_bp (tree_of tr s))) (ALeaf es)
     \<and> t_ht (tree_of tr s) = 1 \<and> small_entries KVMAX es \<and> leaf_fits es"

abbreviation mounted :: "ctx \<Rightarrow> u64 set \<Rightarrow> kvp list \<Rightarrow> bool" where
  "mounted \<equiv> leaf_tree TActive"

lemma mounted_def:
  "mounted s S es \<longleftrightarrow>
     fs_ok s [] S \<and> tree_at (seen_by s S) 1 (bp_addr (t_bp (active_tree s))) (ALeaf es)
     \<and> t_ht (active_tree s) = 1 \<and> small_entries KVMAX es \<and> leaf_fits es"
  by (simp add: leaf_tree_def)

text \<open>Reading leaves the state alone but for the order and contents of the cache.\<close>

definition quiet :: "u64 set \<Rightarrow> ctx \<Rightarrow> ctx \<Rightarrow> bool" where
  "quiet S s s' \<longleftrightarrow> same_fs s s' \<and> seen_by s' S = seen_by s S"

lemma quiet_refl [simp]: "quiet S s s"
  by (simp add: quiet_def)

lemma quiet_trans: "quiet S s s' \<Longrightarrow> quiet S s' s'' \<Longrightarrow> quiet S s s''"
  by (auto simp: quiet_def intro: same_fs_trans)

lemma quietD:
  assumes "quiet S s s'"
  shows "same_fs s s'" "seen_by s' S = seen_by s S" "dev s' = dev s" "sb s' = sb s" "snap_tree s' = snap_tree s"
    "active_tree s' = active_tree s" "dirty s' = dirty s" "readonly s' = readonly s" "free_ranges s' = free_ranges s"
  using assms by (auto simp: quiet_def free_ranges_def dest: same_fsD)

lemma mounted_strict: "leaf_tree tr s S es \<Longrightarrow> strict (map kv_k es)"
  by (auto simp: leaf_tree_def strict_iff elim: tree_at_leafE)

lemma mounted_lookup:
  assumes "mounted s S es"
  shows "\<exists>s'. lookup s (active_tree s) k KVMAX = Some (s', entry es k) \<and> mounted s' S es \<and> quiet S s s'"
proof -
  obtain s' where s': "lookup s (active_tree s) k KVMAX = Some (s', entry es k)" "fs_ok s' [] S"
    "seen_by s' S = seen_by s S" "same_fs s s'"
    using lookup_leaf [of s "[]" S "active_tree s" es KVMAX k] assms unfolding mounted_def by blast
  then show ?thesis using assms same_fsD(4) [OF s'(4)] by (simp add: mounted_def quiet_def)
qed

text \<open>The entries a batch inserts, and that they bound the size of the merged leaf.\<close>

definition ins :: "gmsg list \<Rightarrow> kvp list" where
  "ins ms = concat (map apply_new ms)"

lemma ins_simps [simp]: "ins [] = []" "ins (m # ms) = apply_new m @ ins ms"
  by (simp_all add: ins_def)

lemma apply_old_ins: "m_op m \<noteq> OWSTAT \<Longrightarrow> apply_old e m = Some (apply_new m)"
  by (simp add: apply_old_def apply_new_def)

lemma merge_spec_size:
  "merge_spec es ms = Some out \<Longrightarrow> (\<forall>m \<in> set ms. m_op m \<noteq> OWSTAT) \<Longrightarrow>
     length out \<le> length es + length (ins ms) \<and> kvs_size out \<le> kvs_size es + kvs_size (ins ms)
     \<and> set out \<subseteq> set es \<union> set (ins ms)"
proof (induction es ms arbitrary: out rule: merge_spec.induct)
  case (2 m ms)
  then show ?case by fastforce
next
  case (3 e es m ms)
  consider (lt) "kv_k e < m_k m" | (eq) "kv_k e = m_k m" | (gt) "\<not> kv_k e < m_k m" "kv_k e \<noteq> m_k m" by blast
  then show ?case
  proof cases
    case lt
    then obtain r where "merge_spec es (m # ms) = Some r" "out = e # r" using "3.prems"(1) by auto
    then show ?thesis using "3.IH"(1) [OF lt] "3.prems"(2) by auto
  next
    case eq
    then obtain r where r: "merge_spec es ms = Some r" "out = apply_new m @ r"
      using "3.prems" by (auto simp: apply_old_ins split: bind_splits)
    then show ?thesis using "3.IH"(2) [of "apply_new m" r] "3.prems"(2) eq kvsz_ge [of e] by (auto simp: apply_old_ins)
  next
    case gt
    then obtain r where "merge_spec (e # es) ms = Some r" "out = apply_new m @ r" using "3.prems"(1) by auto
    then show ?thesis using "3.IH"(3) [OF gt] "3.prems"(2) by fastforce
  qed
qed auto

text \<open>The space entries take in a leaf, their bytes and slots of the table, and what they leave.\<close>

definition leaf_cost :: "kvp list \<Rightarrow> int" where
  "leaf_cost es = 2 * int (length es) + kvs_size es"

definition leaf_room :: "kvp list \<Rightarrow> int" where
  "leaf_room es = LEAFSPC - leaf_cost es"

lemma leaf_cost_mset: "mset es = mset fs \<Longrightarrow> leaf_cost es = leaf_cost fs"
proof -
  assume eq: "mset es = mset fs"
  have "kvs_size xs = sum_mset (image_mset kvsz (mset xs))" for xs
    by (simp add: kvs_size_def sum_mset_sum_list [symmetric])
  then show ?thesis using eq mset_eq_length [OF eq] by (simp add: leaf_cost_def)
qed

lemma leaf_fits_mset: "mset es = mset fs \<Longrightarrow> leaf_fits es = leaf_fits fs"
  using leaf_cost_mset [of es fs] mset_eq_setD [of es fs] by (simp add: leaf_fits_def leaf_cost_def list_all_iff)

lemma mset_ins_sort: "mset (ins (sort_key m_k ms)) = mset (ins ms)"
proof -
  have "mset (ins xs) = sum_mset (image_mset (\<lambda>m. mset (apply_new m)) (mset xs))" for xs
    by (induction xs) auto
  then show ?thesis by simp
qed

lemma merge_fits:
  assumes "merge_spec es (sort_key m_k ms) = Some out" and "\<forall>m \<in> set ms. m_op m \<noteq> OWSTAT"
    and fit: "leaf_fits (es @ ins ms)"
  shows "leaf_fits out" and "small_entries n (es @ ins ms) \<Longrightarrow> small_entries n out" and "leaf_room es - leaf_cost (ins ms) \<le> leaf_room out"
proof -
  have m: "length out \<le> length es + length (ins (sort_key m_k ms))"
    "kvs_size out \<le> kvs_size es + kvs_size (ins (sort_key m_k ms))" "set out \<subseteq> set es \<union> set (ins (sort_key m_k ms))"
    using merge_spec_size [OF assms(1)] assms(2) by auto
  have s: "set (ins (sort_key m_k ms)) = set (ins ms)" using mset_ins_sort by (metis mset_eq_setD)
  show "leaf_room es - leaf_cost (ins ms) \<le> leaf_room out"
    using m(1,2) leaf_cost_mset [OF mset_ins_sort [of ms]] by (simp add: leaf_room_def leaf_cost_def)
  have "leaf_fits (es @ ins (sort_key m_k ms))"
    using fit leaf_fits_mset [of "es @ ins (sort_key m_k ms)" "es @ ins ms"] mset_ins_sort [of ms] by simp
  then show "leaf_fits out" using m by (auto simp: leaf_fits_def list_all_iff)
  show "small_entries n (es @ ins ms) \<Longrightarrow> small_entries n out"
    using m(3) s by (auto simp: small_entries_def list_all_iff)
qed

text \<open>Updating a leaf tree with insertions and deletions.\<close>

lemma leaf_upsert:
  assumes mt: "leaf_tree tr s S es" and rw: "\<not> readonly s" and ne: "msgs \<noteq> []" and free: "free_ranges s \<noteq> []"
    and dist: "distinct (map m_k msgs)" and ops: "\<forall>m \<in> set msgs. m_op m \<noteq> OWSTAT"
    and fit: "leaf_fits (es @ ins msgs)" and small: "small_entries KVMAX (ins msgs)"
  shows "\<exists>s' bp out. btupsert s tr msgs = Some (s', Inr ()) \<and> leaf_tree tr s' (insert (bp_addr bp) S) out
     \<and> upserted s s' tr bp \<and> seen_by s S \<subseteq>\<^sub>m seen_by s' (insert (bp_addr bp) S)
     \<and> leaf_room es - leaf_cost (ins msgs) \<le> leaf_room out
     \<and> (\<forall>k. entry out k = (case msg_for msgs k of None \<Rightarrow> entry es k | Some m \<Rightarrow> upd m (entry es k)))"
proof -
  have ok: "fs_ok s [] S" and tree: "tree_at (seen_by s S) 1 (bp_addr (t_bp (tree_of tr s))) (ALeaf es)"
    and sm: "small_entries KVMAX es"
    using mt by (auto simp: leaf_tree_def)
  obtain out where mg: "merge_spec es (sort_key m_k msgs) = Some out"
    using merge_spec_defined [of "sort_key m_k msgs" es] ops by auto
  have st: "strict (map kv_k out)"
    using merge_spec_strict [OF mg mounted_strict [OF mt] strict_sort [OF dist]] .
  have sm2: "small_entries KVMAX out"
    using merge_fits(2) [OF mg ops fit, of KVMAX] sm small by (simp add: small_entries_def)
  have "entry out k = (case msg_for msgs k of None \<Rightarrow> entry es k | Some m \<Rightarrow> upd m (entry es k))" for k
    using merge_spec_entry [OF mg mounted_strict [OF mt] strict_sort [OF dist]] msg_for_sort [OF dist] by simp
  moreover obtain s' bp where u: "btupsert s tr msgs = Some (s', Inr ())" "upserted s s' tr bp"
    "fs_ok s' [] (insert (bp_addr bp) S)" "tree_at (seen_by s' (insert (bp_addr bp) S)) 1 (bp_addr bp) (ALeaf out)"
    "seen_by s S \<subseteq>\<^sub>m seen_by s' (insert (bp_addr bp) S)"
    using btupsert_leaf [OF ok rw ne free tree mg merge_fits(1) [OF mg ops fit] st] by blast
  moreover have "leaf_tree tr s' (insert (bp_addr bp) S) out"
    using u sm2 merge_fits(1) [OF mg ops fit] by (simp add: leaf_tree_def upserted_def)
  ultimately show ?thesis using merge_fits(3) [OF mg ops fit] by blast
qed

section \<open>Directories\<close>

text \<open>
  The directory entries of a tree as a map from the id of the parent and the name. \<open>dkey\<close> is what
  \<^verbatim>\<open>gefs_packdkey\<close> produces for a name of at most 244 bytes; longer names do not fit their key.
\<close>

type_synonym dirmap = "u64 \<times> byte list \<rightharpoonup> xdir"

definition dkey :: "u64 \<Rightarrow> byte list \<Rightarrow> key" where
  "dkey up name = KENT # pack64 up @ pack16 (int (length name)) @ name @ [0]"

lemma packdkey_dkey [simp]:
  "packdkey 256 up (Some name) = (if length name \<le> 244 then Some (dkey up name) else None)"
  by (auto simp: packdkey_def packstr_def dkey_def pack8_def)

lemma dkey_inject [simp]: "dkey up n = dkey up' n' \<longleftrightarrow> up = up' \<and> n = n'"
proof
  assume "dkey up n = dkey up' n'"
  then have eq: "pack64 up @ pack16 (int (length n)) @ n @ [0] = pack64 up' @ pack16 (int (length n')) @ n' @ [0]"
    by (simp add: dkey_def)
  then have "pack64 up = pack64 up' \<and> pack16 (int (length n)) @ n @ [0] = pack16 (int (length n')) @ n' @ [0]"
    by (subst (asm) append_eq_append_conv) simp_all
  moreover from this have "n @ [0] = n' @ [0]" by (subst (asm) append_eq_append_conv) simp_all
  ultimately show "up = up' \<and> n = n'" by simp
qed simp

lemma dkey_simps [simp]: "length (dkey up n) = 12 + length n" "hd (dkey up n) = KENT" "dkey up n \<noteq> []" "dkey up n \<noteq> upkey q"
  "hd (upkey q) = KUP" "upkey q \<noteq> []" "length (upkey q) = 9"
  by (simp_all add: dkey_def upkey_def)

definition dirs :: "kvp list \<Rightarrow> dirmap" where
  "dirs es = (\<lambda>(up, name). if length name \<le> 244 then Option.bind (entry es (dkey up name)) kv2dir else None)"

text \<open>Entries the code can read: a value of full length under a key that names a parent and a C string.\<close>

definition dirent_ok :: "key \<Rightarrow> byte list \<Rightarrow> bool" where
  "dirent_ok k v \<longleftrightarrow> 61 \<le> length v \<and> (\<exists>up n. k = dkey up n \<and> length n \<le> 244 \<and> 0 \<notin> set n)"

definition dirs_ok :: "kvp list \<Rightarrow> bool" where
  "dirs_ok es \<longleftrightarrow> (\<forall>k e. entry es (KENT # k) = Some e \<longrightarrow> dirent_ok (KENT # k) (kv_v e))"

lemma dirs_okD: "dirs_ok es \<Longrightarrow> entry es (dkey up n) = Some e \<Longrightarrow> \<exists>d. kv2dir e = Some d"
  by (simp add: dirs_ok_def dirent_ok_def dkey_def kv2dir_def Let_def linorder_not_less)

lemma kv2dir_dkey:
  "0 \<notin> set n \<Longrightarrow> length n \<le> 244 \<Longrightarrow>
     kv2dir \<lparr>kv_k = dkey up n, kv_v = packdval_bytes d\<rparr> = Some (d\<lparr>xname := Some n\<rparr>)"
  using kv2dir_packdval [of KEYMAX up n "dkey up n" d] by simp

section \<open>Paths\<close>

text \<open>
  Paths resolved in the map. A missing name is reported as \<^verbatim>\<open>ENOENT\<close>, a name that does not fit a
  key as \<^verbatim>\<open>EINVAL\<close>.
\<close>

definition node :: "dirmap \<Rightarrow> u64 \<Rightarrow> byte list \<Rightarrow> errno + xdir" where
  "node D up name =
     (case D (up, name) of None \<Rightarrow> Inl (if length name \<le> 244 then ENOENT else EINVAL) | Some d \<Rightarrow> Inr d)"

fun resolve_from :: "dirmap \<Rightarrow> byte list list \<Rightarrow> xdir \<Rightarrow> errno + xdir" where
  "resolve_from D [] d = Inr d"
| "resolve_from D (e # es) d =
     (if e = [0x2e] then resolve_from D es d
      else (case node D (qpath (xqid d)) e of Inl err \<Rightarrow> Inl err | Inr d' \<Rightarrow> resolve_from D es d'))"

definition resolve :: "dirmap \<Rightarrow> byte list \<Rightarrow> errno + xdir" where
  "resolve D path =
     (case node D (- 1) [] of
        Inl err \<Rightarrow> Inl err
      | Inr d \<Rightarrow> if path = [SLASH] \<or> path = [] then Inr d else resolve_from D (components (take 1023 path)) d)"

text \<open>Resolving a path is resolving its parent and then its last component.\<close>

lemma while_avoid:
  assumes "c \<notin> set xs"
  shows "takeWhile (\<lambda>x. x \<noteq> c) (xs @ c # ys) = xs" "dropWhile (\<lambda>x. x \<noteq> c) (xs @ c # ys) = c # ys"
    "takeWhile (\<lambda>x. x \<noteq> c) xs = xs" "dropWhile (\<lambda>x. x \<noteq> c) xs = []"
  using assms by (induction xs) auto

lemma components_append: "components (xs @ SLASH # ys) = components xs @ components ys"
proof (induction xs rule: components.induct)
  case (2 c cs)
  show ?case
  proof (cases "c = SLASH")
    case True
    then show ?thesis using 2 by simp
  next
    case False
    show ?thesis
    proof (cases "SLASH \<in> set cs")
      case True
      then have "takeWhile (\<lambda>c. c \<noteq> SLASH) (cs @ SLASH # ys) = takeWhile (\<lambda>c. c \<noteq> SLASH) cs"
        "dropWhile (\<lambda>c. c \<noteq> SLASH) (cs @ SLASH # ys) = dropWhile (\<lambda>c. c \<noteq> SLASH) cs @ SLASH # ys"
        by (auto simp: takeWhile_append1 dropWhile_append1)
      then show ?thesis using False 2(2) by simp
    next
      case no: False
      then show ?thesis using False by (simp add: while_avoid)
    qed
  qed
qed simp

lemma components_name:
  assumes "SLASH \<notin> set n" and "n \<noteq> []"
  shows "components n = [n]"
proof -
  obtain c cs where n: "n = c # cs" using assms(2) by (cases n) auto
  then show ?thesis using assms(1) by (simp add: while_avoid)
qed

lemma resolve_from_append:
  "resolve_from D (xs @ ys) d = (case resolve_from D xs d of Inl e \<Rightarrow> Inl e | Inr d' \<Rightarrow> resolve_from D ys d')"
  by (induction xs arbitrary: d) (auto split: sum.splits)

lemma resolve_components:
  "resolve D path = (case node D (- 1) [] of Inl e \<Rightarrow> Inl e | Inr d \<Rightarrow> resolve_from D (components (take 1023 path)) d)"
  by (auto simp: resolve_def split: sum.splits)

lemma split_path_decomp:
  assumes "split_path path = Some (parent, name)" and "length path \<le> 255"
  shows "\<exists>dir. path = dir @ SLASH # name \<and> SLASH \<notin> set name \<and> parent = (if dir = [] then [SLASH] else dir)"
proof -
  let ?n = "rev (takeWhile (\<lambda>c. c \<noteq> SLASH) (rev path))"
  have sl: "SLASH \<in> set path" using assms(1) by (auto simp: split_path_def split: if_splits)
  then obtain xs ys where p: "path = xs @ SLASH # ys" "SLASH \<notin> set ys" by (metis split_list_last)
  have n: "?n = ys" using p while_avoid(1) [of SLASH "rev ys" "rev xs"] by simp
  then have "take (length path - length ?n - 1) path = xs" using p by simp
  then show ?thesis using assms p sl n by (auto simp: split_path_def Let_def)
qed

lemma resolve_split:
  assumes sp: "split_path path = Some (parent, name)" and len: "length path \<le> 255" and name: "name \<noteq> []" "name \<noteq> [0x2e]"
  shows "resolve D path = (case resolve D parent of Inl e \<Rightarrow> Inl e | Inr p \<Rightarrow> node D (qpath (xqid p)) name)"
proof -
  obtain dir where d: "path = dir @ SLASH # name" "SLASH \<notin> set name" "parent = (if dir = [] then [SLASH] else dir)"
    using split_path_decomp [OF sp len] by blast
  have "components parent = components dir" using d(3) by auto
  then have "components (take 1023 path) = components (take 1023 parent) @ [name]"
    using d len components_append [of dir name] components_name [OF d(2) name(1)] by auto
  then show ?thesis
    using name(2) by (auto simp: resolve_components resolve_from_append split: sum.splits)
qed

text \<open>A mounted filesystem whose directory entries can all be read.\<close>

definition mdirs :: "ctx \<Rightarrow> u64 set \<Rightarrow> kvp list \<Rightarrow> bool" where
  "mdirs s S es \<longleftrightarrow> mounted s S es \<and> dirs_ok es"

lemma walk1_mdirs:
  assumes "mdirs s S es"
  shows "\<exists>s'. walk1 s (active_tree s) up name = Some (s', node (dirs es) up name) \<and> mdirs s' S es \<and> quiet S s s'"
proof (cases "length name \<le> 244")
  case True
  obtain s' where s': "lookup s (active_tree s) (dkey up name) KVMAX = Some (s', entry es (dkey up name))"
    "mounted s' S es" "quiet S s s'"
    using mounted_lookup assms unfolding mdirs_def by blast
  show ?thesis
  proof (cases "entry es (dkey up name)")
    case None
    then show ?thesis using True s' assms by (simp add: walk1_def node_def dirs_def mdirs_def)
  next
    case (Some kv)
    then obtain d where "kv2dir kv = Some d" using dirs_okD assms unfolding mdirs_def by blast
    then show ?thesis using Some True s' assms by (simp add: walk1_def node_def dirs_def mdirs_def)
  qed
next
  case False
  then show ?thesis using assms by (simp add: walk1_def node_def dirs_def)
qed

lemma walk_elems_mdirs:
  "mdirs s S es \<Longrightarrow> \<exists>s' d'. walk_elems s (active_tree s) cs d
       = Some (s', case resolve_from (dirs es) cs d of Inl err \<Rightarrow> (d', Inl err) | Inr r \<Rightarrow> (r, Inr ()))
     \<and> mdirs s' S es \<and> quiet S s s'"
proof (induction cs arbitrary: s d)
  case (Cons c cs)
  show ?case
  proof (cases "c = [0x2e]")
    case True
    then show ?thesis using Cons by simp
  next
    case False
    obtain s1 where s1: "walk1 s (active_tree s) (qpath (xqid d)) c = Some (s1, node (dirs es) (qpath (xqid d)) c)"
      "mdirs s1 S es" "quiet S s s1"
      using walk1_mdirs [OF Cons.prems] by blast
    show ?thesis
    proof (cases "node (dirs es) (qpath (xqid d)) c")
      case (Inl err)
      then show ?thesis using s1 False by auto
    next
      case (Inr d1)
      then show ?thesis
        using s1 False Cons.IH [OF s1(2), of d1] quietD(6) [OF s1(3)] quiet_trans [OF s1(3)] by auto
    qed
  qed
qed auto

lemma walk_path_mdirs:
  assumes "mdirs s S es"
  shows "\<exists>s' d'. walk_path s (active_tree s) path d
       = Some (s', case resolve (dirs es) path of Inl err \<Rightarrow> (d', Inl err) | Inr r \<Rightarrow> (r, Inr ()))
     \<and> mdirs s' S es \<and> quiet S s s'"
proof -
  obtain s1 where s1: "walk1 s (active_tree s) (- 1) [] = Some (s1, node (dirs es) (- 1) [])" "mdirs s1 S es" "quiet S s s1"
    using walk1_mdirs [OF assms] by blast
  show ?thesis
  proof (cases "node (dirs es) (- 1) []")
    case (Inl err)
    then show ?thesis using s1 by (auto simp: walk_path_def resolve_def)
  next
    case (Inr d1)
    then show ?thesis
      using s1 walk_elems_mdirs [OF s1(2), of "components (take 1023 path)" d1] quietD(6) [OF s1(3)] quiet_trans [OF s1(3)]
      by (auto simp: walk_path_def resolve_def)
  qed
qed

lemma walk_err:
  "mdirs s S es \<Longrightarrow> resolve (dirs es) path = Inl err \<Longrightarrow>
     \<exists>s' d'. walk_path s (active_tree s) path d = Some (s', d', Inl err) \<and> mdirs s' S es \<and> quiet S s s'"
  using walk_path_mdirs [of s S es path d] by auto

lemma walk_found:
  "mdirs s S es \<Longrightarrow> resolve (dirs es) path = Inr r \<Longrightarrow>
     \<exists>s'. walk_path s (active_tree s) path d = Some (s', r, Inr ()) \<and> mdirs s' S es \<and> quiet S s s'"
  using walk_path_mdirs [of s S es path d] by auto

text \<open>Walking to a directory and looking a name up in it.\<close>

lemma walk_then_walk1:
  assumes "mdirs s S es" and "resolve (dirs es) parent = Inr p"
  shows "\<exists>s1 s2. walk_path s (active_tree s) parent d = Some (s1, p, Inr ())
     \<and> walk1 s1 (active_tree s1) (qpath (xqid p)) name = Some (s2, node (dirs es) (qpath (xqid p)) name)
     \<and> mdirs s2 S es \<and> quiet S s s2"
proof -
  obtain s1 where "walk_path s (active_tree s) parent d = Some (s1, p, Inr ())" "mdirs s1 S es" "quiet S s s1"
    using walk_found [OF assms] by blast
  then show ?thesis using walk1_mdirs quiet_trans by blast
qed

text \<open>Walking to an entry and then to its parent.\<close>

lemma walk_then_walk:
  assumes "mdirs s S es" and "resolve (dirs es) path = Inr r" and "resolve (dirs es) parent = Inr p"
  shows "\<exists>s1 s2. walk_path s (active_tree s) path d = Some (s1, r, Inr ())
     \<and> walk_path s1 (active_tree s1) parent d' = Some (s2, p, Inr ()) \<and> mdirs s2 S es \<and> quiet S s s2"
proof -
  obtain s1 where "walk_path s (active_tree s) path d = Some (s1, r, Inr ())" "mdirs s1 S es" "quiet S s s1"
    using walk_found [OF assms(1,2)] by blast
  then show ?thesis using walk_found [OF _ assms(3)] quiet_trans by blast
qed

section \<open>Updating directories\<close>

lemma mounted_fits: "mounted s S es \<Longrightarrow> leaf_fits es"
  by (simp add: mounted_def)

text \<open>Messages the namespace operations send: insertions and deletions of short entries.\<close>

definition plain_msg :: "gmsg \<Rightarrow> bool" where
  "plain_msg m \<longleftrightarrow>
     m_op m = ODELETE
     \<or> m_op m = OINSERT \<and> length (m_k m) + length (m_v m) \<le> KVMAX \<and> (m_k m \<noteq> [] \<and> hd (m_k m) = KENT \<longrightarrow> dirent_ok (m_k m) (m_v m))"

lemma plain_msg_new: "plain_msg m \<Longrightarrow> m_op m \<noteq> OWSTAT \<and> small_entries KVMAX (apply_new m) \<and> list_all kv_small (apply_new m)"
  by (auto simp: plain_msg_def apply_new_def small_entries_def kv_small_def)

definition dir_eff :: "gmsg list \<Rightarrow> dirmap \<Rightarrow> dirmap" where
  "dir_eff ms D = (\<lambda>(up, name). case msg_for ms (dkey up name) of
      None \<Rightarrow> D (up, name)
    | Some m \<Rightarrow> if length name \<le> 244 then Option.bind (upd m None) kv2dir else None)"

lemma mdirs_upsert:
  assumes md: "mdirs s S es" and rw: "\<not> readonly s" and free: "free_ranges s \<noteq> []"
    and ne: "msgs \<noteq> []" and dist: "distinct (map m_k msgs)" and plain: "list_all plain_msg msgs"
    and room: "leaf_cost (ins msgs) \<le> leaf_room es"
  shows "\<exists>s' S' es' bp. btupsert s TActive msgs = Some (s', Inr ()) \<and> mdirs s' S' es' \<and> upserted s s' TActive bp
     \<and> seen_by s S \<subseteq>\<^sub>m seen_by s' S' \<and> S \<subseteq> S' \<and> dirs es' = dir_eff msgs (dirs es)
     \<and> leaf_room es - leaf_cost (ins msgs) \<le> leaf_room es'
     \<and> (\<forall>k. entry es' k = (case msg_for msgs k of None \<Rightarrow> entry es k | Some m \<Rightarrow> upd m (entry es k)))"
proof -
  have mt: "mounted s S es" using md by (simp add: mdirs_def)
  have new: "\<forall>m \<in> set msgs. m_op m \<noteq> OWSTAT" "small_entries KVMAX (ins msgs)" "list_all kv_small (ins msgs)"
    using plain plain_msg_new by (induction msgs) (auto simp: small_entries_def)
  have fit: "leaf_fits (es @ ins msgs)"
    using mounted_fits [OF mt] room new(3) by (simp add: leaf_fits_def leaf_room_def leaf_cost_def kvs_size_def)
  obtain s' out and bp :: bptr where u: "btupsert s TActive msgs = Some (s', Inr ())" "mounted s' (insert (bp_addr bp) S) out"
    "upserted s s' TActive bp" "seen_by s S \<subseteq>\<^sub>m seen_by s' (insert (bp_addr bp) S)"
    "\<And>k. entry out k = (case msg_for msgs k of None \<Rightarrow> entry es k | Some m \<Rightarrow> upd m (entry es k))"
    "leaf_room es - leaf_cost (ins msgs) \<le> leaf_room out"
    using leaf_upsert [OF mt rw ne free dist new(1) fit new(2)] by blast
  have pl: "msg_for msgs k = Some m \<Longrightarrow> plain_msg m \<and> m_k m = k" for k m
    using plain by (auto simp: msg_for_def list_all_iff find_Some_iff)
  have up: "msg_for msgs k = Some m \<Longrightarrow> upd m x = upd m None" for k m x
    using pl [of k m] by (auto simp: upd_def plain_msg_def)
  have "dirs_ok out"
    unfolding dirs_ok_def
  proof (intro allI impI)
    fix k e assume "entry out (KENT # k) = Some e"
    then show "dirent_ok (KENT # k) (kv_v e)"
      using md pl [of "KENT # k"] by (auto simp: u(5) mdirs_def dirs_ok_def upd_def plain_msg_def split: option.splits if_splits)
  qed
  moreover have "dirs out (a, n) = dir_eff msgs (dirs es) (a, n)" for a n
    using up [of "dkey a n" _ "entry es (dkey a n)"] by (cases "msg_for msgs (dkey a n)") (simp_all add: dirs_def dir_eff_def u(5))
  then have "dirs out = dir_eff msgs (dirs es)" by auto
  ultimately show ?thesis using u unfolding mdirs_def by blast
qed

section \<open>The namespace operations, abstractly\<close>

text \<open>
  The operations on the map of directory entries: an error, or the new map. They say which
  error each operation returns and which single entries it changes.
\<close>

definition at_parent :: "dirmap \<Rightarrow> byte list \<Rightarrow> (u64 \<Rightarrow> byte list \<Rightarrow> errno + dirmap) \<Rightarrow> errno + dirmap" where
  "at_parent D path f =
     (case split_path path of
        None \<Rightarrow> Inl EINVAL
      | Some (parent, name) \<Rightarrow>
          (case resolve D parent of Inl err \<Rightarrow> Inl err | Inr p \<Rightarrow> f (qpath (xqid p)) name))"

definition a_create :: "dirmap \<Rightarrow> byte list \<Rightarrow> (byte list \<Rightarrow> xdir) \<Rightarrow> errno + dirmap" where
  "a_create D path mk =
     at_parent D path (\<lambda>up name. if D (up, name) \<noteq> None then Inl EEXIST else Inr (D((up, name) \<mapsto> mk name)))"

definition a_update :: "dirmap \<Rightarrow> byte list \<Rightarrow> (xdir \<Rightarrow> xdir) \<Rightarrow> errno + dirmap" where
  "a_update D path f =
     (case resolve D path of
        Inl err \<Rightarrow> Inl err
      | Inr d \<Rightarrow> at_parent D path (\<lambda>up name. Inr (D((up, name) \<mapsto> (f d)\<lparr>xname := Some name\<rparr>))))"

definition a_unlink :: "dirmap \<Rightarrow> byte list \<Rightarrow> errno + dirmap" where
  "a_unlink D path =
     (case resolve D path of
        Inl err \<Rightarrow> Inl err
      | Inr d \<Rightarrow>
          if qtype (xqid d) AND QTDIR \<noteq> 0 then Inl EISDIR
          else at_parent D path (\<lambda>up name. Inr (D((up, name) := None))))"

definition a_rename :: "dirmap \<Rightarrow> byte list \<Rightarrow> byte list \<Rightarrow> errno + dirmap" where
  "a_rename D old new =
     (case resolve D old of
        Inl err \<Rightarrow> Inl err
      | Inr d \<Rightarrow>
          if split_path new = None then Inl EINVAL
          else at_parent D old (\<lambda>up name. at_parent D new
            (\<lambda>up' name'. Inr (D((up, name) := None, (up', name') \<mapsto> bump_vers (d\<lparr>xname := Some name'\<rparr>))))))"

text \<open>Where a path puts its last component: the id of the parent and the name.\<close>

definition place :: "dirmap \<Rightarrow> byte list \<Rightarrow> (u64 \<times> byte list) option" where
  "place D path =
     (case split_path path of
        None \<Rightarrow> None
      | Some (parent, name) \<Rightarrow> (case resolve D parent of Inl _ \<Rightarrow> None | Inr p \<Rightarrow> Some (qpath (xqid p), name)))"

text \<open>A path the kernel passes: a C string whose last component fits a key.\<close>

definition name_fits :: "byte list \<Rightarrow> bool" where
  "name_fits path \<longleftrightarrow> 0 \<notin> set path \<and> (case split_path path of None \<Rightarrow> True | Some (_, name) \<Rightarrow> length name \<le> 244)"

lemma name_fitsD:
  "name_fits path \<Longrightarrow> split_path path = Some (parent, name) \<Longrightarrow> length name \<le> 244 \<and> 0 \<notin> set name"
  by (auto simp: name_fits_def split_path_def Let_def split: if_splits dest!: in_set_takeD set_takeWhileD)

lemma packdval_inl [simp]: "packdval 512 d = Some (packdval_bytes d)"
  by (simp add: packdval_def Let_def)

lemma dirmsg_dkey [simp]:
  "dirmsg up name d = (if length name \<le> 244 then Some \<lparr>m_op = OINSERT, m_k = dkey up name, m_v = packdval_bytes d\<rparr> else None)"
  by (simp add: dirmsg_def)

lemma delmsg_dkey [simp]:
  "delmsg up name = (if length name \<le> 244 then Some \<lparr>m_op = ODELETE, m_k = dkey up name, m_v = []\<rparr> else None)"
  by (simp add: delmsg_def)

text \<open>How an operation on the context follows one on the map. It leaves the contents of all files.\<close>

definition refines :: "ctx \<Rightarrow> u64 set \<Rightarrow> kvp list \<Rightarrow> errno + dirmap \<Rightarrow> ctx \<times> (errno + 'r) \<Rightarrow> bool" where
  "refines s S es a c =
     (case a of
        Inl err \<Rightarrow> snd c = Inl err \<and> quiet S s (fst c) \<and> mdirs (fst c) S es
      | Inr D \<Rightarrow> \<not> isl (snd c) \<and> snap_tree (fst c) = snap_tree s \<and> dirty (fst c) \<and> \<not> readonly (fst c)
          \<and> free_bytes (fst c) = free_bytes s - BLKSZ
          \<and> (\<exists>S' es'. mdirs (fst c) S' es' \<and> dirs es' = D \<and> seen_by s S \<subseteq>\<^sub>m seen_by (fst c) S' \<and> S \<subseteq> S'
                \<and> leaf_room es - 594 \<le> leaf_room es'
                \<and> (\<forall>p n. entry es' (datkey p n) = entry es (datkey p n))))"

end
