(* ===== verification/Dirspec.thy ===== *)
theory Dirspec
  imports Namespace
begin

text \<open>
  Each namespace operation of \<^verbatim>\<open>src/src/gefs_storage.c\<close> refines its abstract counterpart on the map
  of directory entries, on every branch: which error, or which single entries change. The
  hypotheses are those the code does not check: a leaf with room for the new entry, a free block
  and a name that fits its key.
\<close>

section \<open>Frames\<close>

lemma mdirs_sb [simp]: "sb_narena v = sb_narena (sb s) \<Longrightarrow> mdirs (s\<lparr>sb := v\<rparr>) S es \<longleftrightarrow> mdirs s S es"
  by (simp add: mdirs_def mounted_def fs_ok_def free_ranges_def)

lemma free_sb [simp]: "free_ranges (s\<lparr>sb := v\<rparr>) = free_ranges s"
  by (simp add: free_ranges_def)

lemma refines_err [simp]: "refines s S es (Inl err) (s', r) \<longleftrightarrow> r = Inl err \<and> quiet S s s' \<and> mdirs s' S es"
  by (simp add: refines_def)

lemma dir_eff_insert:
  assumes "length n \<le> 244" and "0 \<notin> set n"
  shows "dir_eff [\<lparr>m_op = OINSERT, m_k = dkey up n, m_v = packdval_bytes d\<rparr>] D = D((up, n) \<mapsto> d\<lparr>xname := Some n\<rparr>)"
  using assms by (auto simp: fun_eq_iff dir_eff_def msg_for_def upd_def kv2dir_dkey)

lemma dir_eff_delete:
  "length n \<le> 244 \<Longrightarrow> dir_eff [\<lparr>m_op = ODELETE, m_k = dkey up n, m_v = v\<rparr>] D = D((up, n) := None)"
  by (auto simp: fun_eq_iff dir_eff_def msg_for_def upd_def)

lemma dirent_ok_dkey [simp]: "length n \<le> 244 \<and> 0 \<notin> set n \<Longrightarrow> dirent_ok (dkey up n) (packdval_bytes d)"
  by (auto simp: dirent_ok_def)

lemma plain_dirmsg [simp]:
  "length n \<le> 244 \<and> 0 \<notin> set n \<Longrightarrow> plain_msg \<lparr>m_op = OINSERT, m_k = dkey up n, m_v = packdval_bytes d\<rparr>"
  by (simp add: plain_msg_def)

lemma plain_delmsg [simp]: "plain_msg \<lparr>m_op = ODELETE, m_k = k, m_v = v\<rparr>"
  by (simp add: plain_msg_def)

text \<open>Sending a batch after some reading, as every operation does in the end.\<close>

lemma commit_refines:
  assumes md: "mdirs s1 S es" and q: "seen_by s1 S = seen_by s S" "snap_tree s1 = snap_tree s"
    and rw: "\<not> readonly s1" and free: "free_ranges s1 = free_ranges s \<and> free_ranges s \<noteq> []"
    and ms: "msgs \<noteq> []" "distinct (map m_k msgs)" "list_all plain_msg msgs"
    and room: "leaf_cost (ins msgs) \<le> leaf_room es" "leaf_cost (ins msgs) \<le> 594"
    and eff: "dir_eff msgs (dirs es) = D" and nd: "list_all (\<lambda>m. hd (m_k m) \<noteq> KDAT) msgs"
  shows "\<exists>s'. btupsert s1 TActive msgs = Some (s', Inr ()) \<and> sb s' = sb s1 \<and> (\<forall>r. refines s S es (Inr D) (s', Inr r))"
proof -
  obtain s' S' es' bp where u: "btupsert s1 TActive msgs = Some (s', Inr ())" "mdirs s' S' es'" "upserted s1 s' TActive bp"
    "seen_by s1 S \<subseteq>\<^sub>m seen_by s' S'" "S \<subseteq> S'" "dirs es' = dir_eff msgs (dirs es)"
    "\<forall>k. entry es' k = (case msg_for msgs k of None \<Rightarrow> entry es k | Some m \<Rightarrow> upd m (entry es k))"
    "leaf_room es - leaf_cost (ins msgs) \<le> leaf_room es'"
    using mdirs_upsert [OF md rw _ ms room(1)] free by auto
  have "msg_for msgs (datkey p n) = None" for p n
    using nd by (auto simp: msg_for_def find_None_iff list_all_iff datkey_def)
  then have "\<forall>p n. entry es' (datkey p n) = entry es (datkey p n)" using u(7) by simp
  moreover have "leaf_room es - 594 \<le> leaf_room es'" using u(8) room(2) by simp
  ultimately have "refines s S es (Inr D) (s', Inr r)" for r
    using u(2-6) q eff free unfolding refines_def upserted_def by (auto simp: free_bytes_def)
  then show ?thesis using u by (auto simp: upserted_def)
qed

lemma insert_refines:
  assumes "mdirs s1 S es" and "seen_by s1 S = seen_by s S" "snap_tree s1 = snap_tree s" and "\<not> readonly s1" and "free_ranges s1 = free_ranges s \<and> free_ranges s \<noteq> []"
    and "323 \<le> leaf_room es" and "length n \<le> 244 \<and> 0 \<notin> set n" and "nd = d\<lparr>xname := Some n\<rparr>"
  shows "\<exists>s'. btupsert s1 TActive [\<lparr>m_op = OINSERT, m_k = dkey up n, m_v = packdval_bytes d\<rparr>] = Some (s', Inr ())
     \<and> sb s' = sb s1 \<and> (\<forall>r. refines s S es (Inr ((dirs es)((up, n) \<mapsto> nd))) (s', Inr r))"
  by (rule commit_refines [OF assms(1-5)])
    (use assms(6-8) in \<open>simp_all add: dir_eff_insert [simplified] apply_new_def leaf_cost_def kvs_size_def kvsz_def plain_dirmsg [simplified]\<close>)

lemma delete_refines:
  assumes "mdirs s1 S es" and "seen_by s1 S = seen_by s S" "snap_tree s1 = snap_tree s" and "\<not> readonly s1" and "free_ranges s1 = free_ranges s \<and> free_ranges s \<noteq> []"
    and "length n \<le> 244"
  shows "\<exists>s'. btupsert s1 TActive [\<lparr>m_op = ODELETE, m_k = dkey up n, m_v = []\<rparr>] = Some (s', Inr ())
     \<and> sb s' = sb s1 \<and> (\<forall>r. refines s S es (Inr ((dirs es)((up, n) := None))) (s', Inr r))"
  by (rule commit_refines [OF assms(1-5)])
    (use assms mounted_fits [of s1 S es] in
      \<open>simp_all add: dir_eff_delete [simplified] apply_new_def plain_delmsg [simplified] mdirs_def leaf_fits_def leaf_room_def leaf_cost_def\<close>)

section \<open>Creating\<close>

lemma create_file_refines:
  assumes md: "mdirs s S es" and rw: "\<not> readonly s" and free: "free_ranges s \<noteq> []"
    and room: "323 \<le> leaf_room es" and fits: "name_fits path"
  shows "\<exists>s' r. create_file e s path mode = Some (s', r)
     \<and> refines s S es (a_create (dirs es) path (new_dir e (sb_nextqid (sb s)) QTFILE (mode AND 0x1FF))) (s', r)
     \<and> (\<not> isl r \<longrightarrow> sb_nextqid (sb s') = sb_nextqid (sb s) + 1)"
proof (cases "split_path path")
  case None
  then show ?thesis using md by (simp add: create_file_def a_create_def at_parent_def)
next
  case (Some pn)
  then obtain parent name where sp: "split_path path = Some (parent, name)" by (cases pn) auto
  note nm = name_fitsD [OF fits sp]
  show ?thesis
  proof (cases "resolve (dirs es) parent")
    case (Inl err)
    then show ?thesis using walk_err [OF md, of parent err zero_dir] sp by (auto simp: create_file_def a_create_def at_parent_def)
  next
    case (Inr p)
    let ?up = "qpath (xqid p)"
    obtain s1 s2 where w: "walk_path s (active_tree s) parent zero_dir = Some (s1, p, Inr ())"
      "walk1 s1 (active_tree s1) ?up name = Some (s2, node (dirs es) ?up name)" "mdirs s2 S es" "quiet S s s2"
      using walk_then_walk1 [OF md Inr] by blast
    show ?thesis
    proof (cases "dirs es (?up, name)")
      case (Some d)
      then show ?thesis using w sp Inr by (simp add: create_file_def a_create_def at_parent_def node_def)
    next
      case None
      let ?nd = "new_dir e (sb_nextqid (sb s)) QTFILE (mode AND 0x1FF) name"
      let ?m = "\<lparr>m_op = OINSERT, m_k = dkey ?up name, m_v = packdval_bytes ?nd\<rparr>"
      let ?s2 = "s2\<lparr>sb := (sb s2)\<lparr>sb_nextqid := sb_nextqid (sb s2) + 1\<rparr>\<rparr>"
      have nd: "?nd\<lparr>xname := Some name\<rparr> = ?nd" by (simp add: new_dir_def)
      have "\<exists>s'. btupsert ?s2 TActive [?m] = Some (s', Inr ()) \<and> sb s' = sb ?s2
          \<and> (\<forall>r. refines s S es (Inr ((dirs es)((?up, name) \<mapsto> ?nd))) (s', Inr r :: errno + xdir))"
        by (rule insert_refines) (use w(3) quietD [OF w(4)] rw free room nm nd in simp_all)
      then show ?thesis
        using w sp Inr None nm quietD(4) [OF w(4)] by (auto simp: create_file_def a_create_def at_parent_def node_def Let_def)
    qed
  qed
qed

text \<open>A directory also gets the link to its parent; that key is no directory entry.\<close>

lemma packdkey_inl: "length n \<le> 244 \<Longrightarrow> packdkey 512 up (Some n) = Some (dkey up n)"
  by (simp add: packdkey_def packstr_def dkey_def pack8_def)

lemma mkdir_refines:
  assumes "mdirs s1 S es" and "seen_by s1 S = seen_by s S" "snap_tree s1 = snap_tree s" and "\<not> readonly s1" and "free_ranges s1 = free_ranges s \<and> free_ranges s \<noteq> []"
    and room: "594 \<le> leaf_room es" and n: "length n \<le> 244 \<and> 0 \<notin> set n" and nd: "nd = d\<lparr>xname := Some n\<rparr>"
  shows "\<exists>s'. btupsert s1 TActive [\<lparr>m_op = OINSERT, m_k = dkey up n, m_v = packdval_bytes d\<rparr>,
         \<lparr>m_op = OINSERT, m_k = upkey q, m_v = dkey up n\<rparr>] = Some (s', Inr ())
     \<and> sb s' = sb s1 \<and> (\<forall>r. refines s S es (Inr ((dirs es)((up, n) \<mapsto> nd))) (s', Inr r))"
proof (rule commit_refines [OF assms(1-5)])
  show "dir_eff [\<lparr>m_op = OINSERT, m_k = dkey up n, m_v = packdval_bytes d\<rparr>,
      \<lparr>m_op = OINSERT, m_k = upkey q, m_v = dkey up n\<rparr>] (dirs es) = (dirs es)((up, n) \<mapsto> nd)"
    using n nd by (auto simp: fun_eq_iff dir_eff_def msg_for_def upd_def kv2dir_dkey dest: sym [of "upkey _"])
qed (use room n in \<open>auto simp: apply_new_def leaf_cost_def kvs_size_def kvsz_def plain_msg_def\<close>)

lemma create_dir_refines:
  assumes md: "mdirs s S es" and rw: "\<not> readonly s" and free: "free_ranges s \<noteq> []"
    and room: "594 \<le> leaf_room es" and fits: "name_fits path"
  shows "\<exists>s' r. create_dir e s path mode = Some (s', r)
     \<and> refines s S es (a_create (dirs es) path (new_dir e (sb_nextqid (sb s)) QTDIR (DMDIR OR (mode AND 0x1FF)))) (s', r)
     \<and> (\<not> isl r \<longrightarrow> sb_nextqid (sb s') = sb_nextqid (sb s) + 1)"
proof (cases "split_path path")
  case None
  then show ?thesis using md by (simp add: create_dir_def a_create_def at_parent_def)
next
  case (Some pn)
  then obtain parent name where sp: "split_path path = Some (parent, name)" by (cases pn) auto
  note nm = name_fitsD [OF fits sp]
  show ?thesis
  proof (cases "resolve (dirs es) parent")
    case (Inl err)
    then show ?thesis using walk_err [OF md, of parent err zero_dir] sp by (auto simp: create_dir_def a_create_def at_parent_def)
  next
    case (Inr p)
    let ?up = "qpath (xqid p)"
    obtain s1 s2 where w: "walk_path s (active_tree s) parent zero_dir = Some (s1, p, Inr ())"
      "walk1 s1 (active_tree s1) ?up name = Some (s2, node (dirs es) ?up name)" "mdirs s2 S es" "quiet S s s2"
      using walk_then_walk1 [OF md Inr] by blast
    show ?thesis
    proof (cases "dirs es (?up, name)")
      case (Some d)
      then show ?thesis using w sp Inr by (simp add: create_dir_def a_create_def at_parent_def node_def)
    next
      case None
      let ?nd = "new_dir e (sb_nextqid (sb s)) QTDIR (DMDIR OR (mode AND 0x1FF)) name"
      let ?s2 = "s2\<lparr>sb := (sb s2)\<lparr>sb_nextqid := sb_nextqid (sb s2) + 1\<rparr>\<rparr>"
      have nd: "?nd\<lparr>xname := Some name\<rparr> = ?nd" "qpath (xqid ?nd) = sb_nextqid (sb s)" by (simp_all add: new_dir_def)
      have "\<exists>s'. btupsert ?s2 TActive [\<lparr>m_op = OINSERT, m_k = dkey ?up name, m_v = packdval_bytes ?nd\<rparr>,
              \<lparr>m_op = OINSERT, m_k = upkey (sb_nextqid (sb s)), m_v = dkey ?up name\<rparr>] = Some (s', Inr ()) \<and> sb s' = sb ?s2
          \<and> (\<forall>r. refines s S es (Inr ((dirs es)((?up, name) \<mapsto> ?nd))) (s', Inr r :: errno + unit))"
        by (rule mkdir_refines) (use w(3) quietD [OF w(4)] rw free room nm nd in simp_all)
      then show ?thesis
        using w sp Inr None nm quietD(4) [OF w(4)] nd(2)
        by (auto simp: create_dir_def a_create_def at_parent_def node_def Let_def packdkey_inl)
    qed
  qed
qed

section \<open>Changing and removing\<close>

lemma update_entry_refines:
  assumes md: "mdirs s S es" and rw: "\<not> readonly s" and free: "free_ranges s \<noteq> []"
    and room: "323 \<le> leaf_room es" and fits: "name_fits path"
  shows "\<exists>s' r. update_entry s path f = Some (s', r) \<and> refines s S es (a_update (dirs es) path f) (s', r) \<and> sb s' = sb s"
proof (cases "resolve (dirs es) path")
  case (Inl err)
  then show ?thesis using walk_err [OF md, of path err zero_dir] by (auto simp: update_entry_def a_update_def dest: quietD(4))
next
  case (Inr d)
  note dd = this
  show ?thesis
  proof (cases "split_path path")
    case None
    then show ?thesis using walk_found [OF md dd, of zero_dir] dd by (auto simp: update_entry_def a_update_def at_parent_def dest: quietD(4))
  next
    case (Some pn)
    then obtain parent name where sp: "split_path path = Some (parent, name)" by (cases pn) auto
    note nm = name_fitsD [OF fits sp]
    show ?thesis
    proof (cases "resolve (dirs es) parent")
      case (Inl err)
      obtain s1 where w: "walk_path s (active_tree s) path zero_dir = Some (s1, d, Inr ())" "mdirs s1 S es" "quiet S s s1"
        using walk_found [OF md dd] by blast
      then show ?thesis
        using walk_err [OF w(2) Inl, of zero_dir] quiet_trans [OF w(3)] quietD(4) [OF quiet_trans, OF w(3)] dd sp Inl
        by (auto simp: update_entry_def a_update_def at_parent_def dest: quietD(4))
    next
      case (Inr p)
      obtain s1 s2 where w: "walk_path s (active_tree s) path zero_dir = Some (s1, d, Inr ())"
        "walk_path s1 (active_tree s1) parent zero_dir = Some (s2, p, Inr ())" "mdirs s2 S es" "quiet S s s2"
        using walk_then_walk [OF md dd Inr] by blast
      have "\<exists>s'. btupsert s2 TActive [\<lparr>m_op = OINSERT, m_k = dkey (qpath (xqid p)) name, m_v = packdval_bytes (f d)\<rparr>] = Some (s', Inr ())
          \<and> sb s' = sb s2
          \<and> (\<forall>r. refines s S es (Inr ((dirs es)((qpath (xqid p), name) \<mapsto> (f d)\<lparr>xname := Some name\<rparr>))) (s', Inr r :: errno + unit))"
        by (rule insert_refines) (use w(3) quietD [OF w(4)] rw free room nm in simp_all)
      then show ?thesis using w dd sp Inr nm quietD(4) [OF w(4)] by (auto simp: update_entry_def a_update_def at_parent_def dest: quietD(4))
    qed
  qed
qed

lemma unlink_refines:
  assumes md: "mdirs s S es" and rw: "\<not> readonly s" and free: "free_ranges s \<noteq> []" and fits: "name_fits path"
  shows "\<exists>s' r. unlink_entry s path = Some (s', r) \<and> refines s S es (a_unlink (dirs es) path) (s', r) \<and> sb s' = sb s"
proof (cases "resolve (dirs es) path")
  case (Inl err)
  then show ?thesis using walk_err [OF md, of path err zero_dir] by (auto simp: unlink_entry_def a_unlink_def dest: quietD(4))
next
  case (Inr d)
  note dd = this
  obtain s1 where w1: "walk_path s (active_tree s) path zero_dir = Some (s1, d, Inr ())" "mdirs s1 S es" "quiet S s s1"
    using walk_found [OF md dd] by blast
  consider (dir) "qtype (xqid d) AND QTDIR \<noteq> 0" | (top) "qtype (xqid d) AND QTDIR = 0" "split_path path = None"
    | (split) parent name where "qtype (xqid d) AND QTDIR = 0" "split_path path = Some (parent, name)"
    by (cases "split_path path") auto
  then show ?thesis
  proof cases
    case split
    note nm = name_fitsD [OF fits split(2)]
    show ?thesis
    proof (cases "resolve (dirs es) parent")
      case (Inl err)
      then show ?thesis
        using walk_err [OF w1(2) Inl, of zero_dir] quiet_trans [OF w1(3)] quietD(4) [OF quiet_trans, OF w1(3)] w1 dd split
        by (auto simp: unlink_entry_def a_unlink_def at_parent_def dest: quietD(4))
    next
      case (Inr p)
      obtain s2 where w2: "walk_path s1 (active_tree s1) parent zero_dir = Some (s2, p, Inr ())" "mdirs s2 S es" "quiet S s1 s2"
        using walk_found [OF w1(2) Inr] by blast
      note q = quiet_trans [OF w1(3) w2(3)]
      have "\<exists>s'. btupsert s2 TActive [\<lparr>m_op = ODELETE, m_k = dkey (qpath (xqid p)) name, m_v = []\<rparr>] = Some (s', Inr ())
          \<and> sb s' = sb s2
          \<and> (\<forall>r. refines s S es (Inr ((dirs es)((qpath (xqid p), name) := None))) (s', Inr r :: errno + unit))"
        by (rule delete_refines) (use w2(2) quietD [OF q] rw free nm in simp_all)
      then show ?thesis using w1 w2 dd split Inr nm quietD(4) [OF q] by (auto simp: unlink_entry_def a_unlink_def at_parent_def dest: quietD(4))
    qed
  qed (use w1 dd quietD(4) [OF w1(3)] in \<open>auto simp: unlink_entry_def a_unlink_def at_parent_def\<close>)
qed

section \<open>Renaming\<close>

text \<open>
  The entry moves under its new name with a new version. Both parents are looked up before the
  move. The code does not look whether the new name exists or whether it lies below the entry.
\<close>

lemma rename_eff:
  assumes "length n \<le> 244" and "length n' \<le> 244" and "0 \<notin> set n'" and "(up, n) \<noteq> (up', n')"
  shows "dir_eff [\<lparr>m_op = ODELETE, m_k = dkey up n, m_v = []\<rparr>, \<lparr>m_op = OINSERT, m_k = dkey up' n', m_v = packdval_bytes d\<rparr>] D
    = D((up, n) := None, (up', n') \<mapsto> d\<lparr>xname := Some n'\<rparr>)"
  using assms by (auto simp: fun_eq_iff dir_eff_def msg_for_def upd_def kv2dir_dkey)

lemma rename_commit:
  assumes "mdirs s1 S es" and "seen_by s1 S = seen_by s S" "snap_tree s1 = snap_tree s" and "\<not> readonly s1" and "free_ranges s1 = free_ranges s \<and> free_ranges s \<noteq> []"
    and room: "323 \<le> leaf_room es" and n: "length n \<le> 244" "length n' \<le> 244 \<and> 0 \<notin> set n'" and ne: "(up, n) \<noteq> (up', n')"
    and nd: "nd = d\<lparr>xname := Some n'\<rparr>"
  shows "\<exists>s'. btupsert s1 TActive [\<lparr>m_op = ODELETE, m_k = dkey up n, m_v = []\<rparr>, \<lparr>m_op = OINSERT, m_k = dkey up' n', m_v = packdval_bytes d\<rparr>]
       = Some (s', Inr ())
     \<and> sb s' = sb s1 \<and> (\<forall>r. refines s S es (Inr ((dirs es)((up, n) := None, (up', n') \<mapsto> nd))) (s', Inr r))"
  by (rule commit_refines [OF assms(1-5)])
    (use room n ne nd in \<open>auto simp: rename_eff [simplified] apply_new_def leaf_cost_def kvs_size_def kvsz_def plain_dirmsg [simplified] plain_delmsg [simplified]\<close>)

lemma rename_refines:
  assumes md: "mdirs s S es" and rw: "\<not> readonly s" and free: "free_ranges s \<noteq> []" and room: "323 \<le> leaf_room es"
    and fits: "name_fits old" "name_fits new" and ne: "place (dirs es) old \<noteq> place (dirs es) new"
  shows "\<exists>s' r. rename_entry s old new = Some (s', r) \<and> refines s S es (a_rename (dirs es) old new) (s', r) \<and> sb s' = sb s"
proof (cases "resolve (dirs es) old")
  case (Inl err)
  then show ?thesis using walk_err [OF md, of old err zero_dir] by (auto simp: rename_entry_def a_rename_def dest: quietD(4))
next
  case (Inr d)
  note dd = this
  obtain s1 where w1: "walk_path s (active_tree s) old zero_dir = Some (s1, d, Inr ())" "mdirs s1 S es" "quiet S s s1"
    using walk_found [OF md dd] by blast
  consider (bad) "split_path old = None \<or> split_path new = None"
    | (split) po no pn nn where "split_path old = Some (po, no)" "split_path new = Some (pn, nn)"
    by (cases "split_path old"; cases "split_path new") auto
  then show ?thesis
  proof cases
    case bad
    then show ?thesis using w1 dd by (auto simp: rename_entry_def a_rename_def at_parent_def dest: quietD(4) split: option.splits)
  next
    case split
    note no = name_fitsD [OF fits(1) split(1)] and nn = name_fitsD [OF fits(2) split(2)]
    note defs = rename_entry_def a_rename_def at_parent_def
    show ?thesis
    proof (cases "resolve (dirs es) po")
      case (Inl err)
      then show ?thesis
        using walk_err [OF w1(2) Inl, of zero_dir] quiet_trans [OF w1(3)] quietD(4) [OF quiet_trans, OF w1(3)] w1 dd split by (auto simp: defs dest: quietD(4))
    next
      case (Inr p)
      note pp = this
      obtain s2 where w2: "walk_path s1 (active_tree s1) po zero_dir = Some (s2, p, Inr ())" "mdirs s2 S es" "quiet S s1 s2"
        using walk_found [OF w1(2) pp] by blast
      note q2 = quiet_trans [OF w1(3) w2(3)]
      show ?thesis
      proof (cases "resolve (dirs es) pn")
        case (Inl err)
        then show ?thesis
          using walk_err [OF w2(2) Inl, of zero_dir] quiet_trans [OF q2] quietD(4) [OF quiet_trans, OF q2] w1 w2 dd pp split by (auto simp: defs dest: quietD(4))
      next
        case (Inr p')
        obtain s3 where w3: "walk_path s2 (active_tree s2) pn zero_dir = Some (s3, p', Inr ())" "mdirs s3 S es" "quiet S s2 s3"
          using walk_found [OF w2(2) Inr] by blast
        note q = quiet_trans [OF q2 w3(3)]
        let ?up = "qpath (xqid p)" and ?up' = "qpath (xqid p')" and ?d = "bump_vers (d\<lparr>xname := Some nn\<rparr>)"
        have "(?up, no) \<noteq> (?up', nn)" using ne split pp Inr by (simp add: place_def)
        then have "\<exists>s'. btupsert s3 TActive [\<lparr>m_op = ODELETE, m_k = dkey ?up no, m_v = []\<rparr>,
              \<lparr>m_op = OINSERT, m_k = dkey ?up' nn, m_v = packdval_bytes ?d\<rparr>] = Some (s', Inr ()) \<and> sb s' = sb s3
            \<and> (\<forall>r. refines s S es (Inr ((dirs es)((?up, no) := None, (?up', nn) \<mapsto> ?d))) (s', Inr r :: errno + unit))"
          by (intro rename_commit) (use w3(2) quietD [OF q] rw free room no nn in \<open>simp_all add: bump_vers_def\<close>)
        then show ?thesis using w1 w2 w3 dd pp split Inr no nn quietD(4) [OF q] by (auto simp: defs dest: quietD(4))
      qed
    qed
  qed
qed

end
