(* ===== verification/Listing.thy ===== *)
theory Listing
  imports Dirspec
begin

text \<open>
  Listing a directory visits exactly its entries, in the order of their keys, and removing a
  directory succeeds only when there are none (\<^verbatim>\<open>gefs_list_dir\<close>, \<^verbatim>\<open>gefs_rmdir_entry\<close>). The scan is
  followed through \<^verbatim>\<open>gefs_btenter\<close>, \<^verbatim>\<open>gefs_btnext\<close> and \<^verbatim>\<open>gefs_btexit\<close> on the mounted tree.
\<close>

section \<open>Holding the root\<close>

lemma getb_seen:
  assumes ok: "fs_ok s hs S" and v: "seen_by s S (bp_addr bp) = Some v"
  shows "\<exists>s' p b. getb s bp = Some (s', Some (p, b)) \<and> fs_ok s' (p # hs) S \<and> quiet S s s' \<and> norm b = v"
proof -
  have inS: "bp_addr bp \<in> S" "view (dev s) (bc s) (bp_addr bp) = Some v"
    using v by (auto simp: restrict_map_def split: if_splits)
  have co: "cache_ok (dev s) (bc s) hs S" and rk: "ranges_ok (free_ranges s) (dsize (dev s)) (S \<union> known (bc s))"
    using ok by (auto simp: fs_ok_def)
  obtain c p b where f: "fetch (dev s) (bc s) bp = Some (c, Some (p, b))" "norm b = v" "cache_ok (dev s) c (p # hs) S"
    "\<forall>a \<in> S. view (dev s) c a = view (dev s) (bc s) a" "known c \<subseteq> insert (bp_addr bp) (known (bc s))"
    using bstore.fetch_present [OF co inS(2)] by blast
  have kn: "S \<union> known c \<subseteq> S \<union> known (bc s)" using f(5) inS(1) by auto
  have "fs_ok (s\<lparr>bc := c\<rparr>) (p # hs) S"
    using ok f(3) ranges_ok_mono [OF rk kn order_refl] by (simp add: fs_ok_def free_ranges_def)
  moreover have "quiet S s (s\<lparr>bc := c\<rparr>)"
    using seen_cong [OF f(4)] by (simp add: quiet_def same_fs_def)
  ultimately show ?thesis using f(1,2) by (auto simp: getb_def)
qed

lemma getb_leaf:
  assumes "fs_ok s hs S" and tree: "tree_at (seen_by s S) 1 (bp_addr (t_bp t)) (ALeaf es)"
  shows "\<exists>s' p b. getb s (t_bp t) = Some (s', Some (p, b)) \<and> fs_ok s' (p # hs) S \<and> quiet S s s'
     \<and> blk_vals b es \<and> btype b = TLEAF"
proof -
  obtain v where v: "seen_by s S (bp_addr (t_bp t)) = Some v" "blk_vals v es" "btype v = TLEAF"
    using tree by (auto elim: tree_at.cases)
  then show ?thesis using getb_seen [OF assms(1) v(1)] by fastforce
qed

lemma dropb_ok:
  assumes "fs_ok s (p # hs) S"
  shows "\<exists>s'. dropb s p = Some s' \<and> fs_ok s' hs S \<and> quiet S s s'"
proof -
  have co: "cache_ok (dev s) (bc s) (p # hs) S" using assms by (simp add: fs_ok_def)
  obtain c where c: "release (bc s) p = Some c" "cache_ok (dev s) c hs S" "\<forall>a. view (dev s) c a = view (dev s) (bc s) a"
    "known c = known (bc s)"
    using bstore.release_law [OF co, of p] by auto
  then show ?thesis
    using assms seen_cong [of S "dev s" c "bc s"] by (auto simp: dropb_def fs_ok_def free_ranges_def quiet_def same_fs_def)
qed

section \<open>Scanning a leaf\<close>

definition scan_at :: "key \<Rightarrow> nat \<Rightarrow> gblk \<Rightarrow> int \<Rightarrow> scan \<Rightarrow> bool" where
  "scan_at px p b i sc \<longleftrightarrow>
     \<not> donescan sc \<and> sht sc = 1 \<and> pfx sc = px \<and> spath sc = Some [\<lparr>bi = 0, vi = i, sblk = Some (p, b)\<rparr>]"

lemma btenter_leaf:
  assumes ok: "fs_ok s hs S" and tree: "tree_at (seen_by s S) 1 (bp_addr (t_bp t)) (ALeaf es)" and ht: "t_ht t = 1"
  shows "\<exists>s' p b sc. btenter s t (btnewscan px) = Some (s', sc) \<and> fs_ok s' (p # hs) S \<and> quiet S s s'
     \<and> blk_vals b es \<and> btype b = TLEAF \<and> scan_at px p b (int (below px (map kv_k es))) sc"
proof -
  obtain s' p b where g: "getb s (t_bp t) = Some (s', Some (p, b))" "fs_ok s' (p # hs) S" "quiet S s s'" "blk_vals b es" "btype b = TLEAF"
    using getb_leaf [OF ok tree] by blast
  have so: "sorted (map kv_k es)" using tree by (auto elim: tree_at_leafE)
  have "\<exists>i same v. blksearch b px = Some (i, same, v)
      \<and> (if i = - 1 \<or> \<not> same then i + 1 else i) = int (below px (map kv_k es))"
    using entries.search_found [OF g(4) so, of px] entries.search_absent [OF g(4) so, of px]
    by (cases "px \<in> kv_k ` set es") (auto simp: blksearch_def)
  then obtain i same v where b: "blksearch b px = Some (i, same, v)"
    "(if i = - 1 \<or> \<not> same then i + 1 else i) = int (below px (map kv_k es))" by blast
  have "btenter s t (btnewscan px) = Some (s'\<lparr>bc := bc s'\<rparr>, (btnewscan px)\<lparr>sht := 1, first := False,
      spath := Some [\<lparr>bi = 0, vi = int (below px (map kv_k es)), sblk = Some (p, b)\<rparr>]\<rparr>)"
    using g(1,5) b ht by (simp add: btenter_def btnewscan_def Let_def)
  then show ?thesis using g by (auto simp: scan_at_def btnewscan_def)
qed

definition matches :: "key \<Rightarrow> key \<Rightarrow> bool" where
  "matches px k \<longleftrightarrow> take (length px) k = px"

lemma matches_iff: "length k < length px \<or> take (length px) k \<noteq> px \<longleftrightarrow> \<not> matches px k"
  by (auto simp: matches_def)

lemma btnext_leaf:
  assumes b: "blk_vals b es" "btype b = TLEAF" and sc: "scan_at px p b (int i) sc" and small: "small_entries KVMAX es"
  shows "i < length es \<Longrightarrow> matches px (kv_k (es ! i)) \<Longrightarrow>
      \<exists>sc'. btnext s sc = Some (s, sc', True) \<and> scan_at px p b (int (Suc i)) sc' \<and> skv sc' = es ! i"
    and "\<not> (i < length es \<and> matches px (kv_k (es ! i))) \<Longrightarrow>
      \<exists>sc'. btnext s sc = Some (s, sc', False) \<and> spath sc' = Some [\<lparr>bi = 0, vi = int i, sblk = Some (p, b)\<rparr>]"
proof -
  have nv: "nval b = int (length es)" and gv: "\<And>j. j < length es \<Longrightarrow> getval b (int j) = Some (es ! j)"
    using b(1) by (auto simp: blk_vals_def)
  have rdy: "ready \<lparr>bi = 0, vi = int i, sblk = Some (p, b)\<rparr> \<longleftrightarrow> i < length es"
    using b(2) nv by (simp add: ready_def)
  have cp: "i < length es \<Longrightarrow> cpkvp 768 \<lparr>kv_k = kv_k (es ! i), kv_v = kv_v (es ! i)\<rparr> = Some (es ! i)"
    using small by (simp add: cpkvp_def small_entries_def list_all_length)
  note sc = sc [unfolded scan_at_def]
  show "\<exists>sc'. btnext s sc = Some (s, sc', True) \<and> scan_at px p b (int (Suc i)) sc' \<and> skv sc' = es ! i"
    if "i < length es" "matches px (kv_k (es ! i))"
    using that sc rdy nv gv cp
    by (subst btnext.simps) (simp add: next_pass_def Let_def matches_iff scan_at_def add.commute)
  show "\<exists>sc'. btnext s sc = Some (s, sc', False) \<and> spath sc' = Some [\<lparr>bi = 0, vi = int i, sblk = Some (p, b)\<rparr>]"
    if "\<not> (i < length es \<and> matches px (kv_k (es ! i)))"
    using that sc rdy nv gv
    by (cases "i < length es"; subst btnext.simps) (simp_all add: next_pass_def Let_def matches_iff)
qed

section \<open>Visiting entries\<close>

definition shown :: "xdir \<Rightarrow> bool" where
  "shown d \<longleftrightarrow> (case xname d of None \<Rightarrow> False | Some n \<Rightarrow> n \<noteq> [])"

fun visit :: "('a \<Rightarrow> xdir \<Rightarrow> 'a \<times> bool) \<Rightarrow> xdir list \<Rightarrow> 'a \<Rightarrow> 'a" where
  "visit cb [] x = x"
| "visit cb (d # ds) x = (case cb x d of (x, stop) \<Rightarrow> if stop then x else visit cb ds x)"

definition shown_dirs :: "kvp list \<Rightarrow> xdir list" where
  "shown_dirs es = filter shown (map (the \<circ> kv2dir) es)"

lemma list_loop_leaf:
  assumes b: "blk_vals b es" "btype b = TLEAF" and small: "small_entries KVMAX es"
    and rd: "\<And>e. e \<in> set es \<Longrightarrow> matches px (kv_k e) \<Longrightarrow> \<exists>d. kv2dir e = Some d"
  shows "scan_at px p b (int i) sc \<Longrightarrow> \<exists>sc' j. list_loop cb s sc x
       = Some (s, sc', visit cb (shown_dirs (takeWhile (\<lambda>e. matches px (kv_k e)) (drop i es))) x)
     \<and> spath sc' = Some [\<lparr>bi = 0, vi = int j, sblk = Some (p, b)\<rparr>]"
proof (induction "length es - i" arbitrary: i sc x rule: less_induct)
  case less
  show ?case
  proof (cases "i < length es \<and> matches px (kv_k (es ! i))")
    case True
    then obtain sc1 where n: "btnext s sc = Some (s, sc1, True)" "scan_at px p b (int (Suc i)) sc1" "skv sc1 = es ! i"
      using btnext_leaf(1) [OF b less.prems small] by blast
    have dr: "drop i es = es ! i # drop (Suc i) es" using True by (simp add: Cons_nth_drop_Suc)
    obtain d where d: "kv2dir (es ! i) = Some d" using rd [of "es ! i"] True by auto
    have lt: "length es - Suc i < length es - i" using True by auto
    note ih = less.hyps [OF lt n(2)]
    show ?thesis
    proof (cases "shown d")
      case True
      obtain x' stop where cb: "cb x d = (x', stop)" by (cases "cb x d")
      show ?thesis
      proof (cases stop)
        case True
        with \<open>shown d\<close> show ?thesis
          using n d cb dr \<open>i < length es \<and> _\<close>
          by (subst list_loop.simps) (auto simp: shown_def shown_dirs_def scan_at_def intro!: exI [of _ "Suc i"])
      next
        case False
        with \<open>shown d\<close> show ?thesis
          using n d cb dr ih [of x'] \<open>i < length es \<and> _\<close>
          by (subst list_loop.simps) (auto simp: shown_def shown_dirs_def)
      qed
    next
      case False
      then show ?thesis
        using n d dr ih [of x] \<open>i < length es \<and> _\<close>
        by (subst list_loop.simps) (auto simp: shown_def shown_dirs_def)
    qed
  next
    case False
    then have "takeWhile (\<lambda>e. matches px (kv_k e)) (drop i es) = []"
      by (cases "i < length es") (auto simp: Cons_nth_drop_Suc [symmetric])
    then show ?thesis
      using btnext_leaf(2) [OF b less.prems small False, of s]
      by (subst list_loop.simps) (auto simp: shown_dirs_def)
  qed
qed

section \<open>The entries of a directory\<close>

text \<open>The keys with a given prefix are a contiguous run of a sorted list.\<close>

lemma matches_ge: "matches px k \<Longrightarrow> px \<le> k"
  unfolding matches_def
proof (induction px arbitrary: k)
  case (Cons a px)
  then show ?case by (cases k) auto
qed simp

lemma matches_between: "px \<le> k \<Longrightarrow> k \<le> k' \<Longrightarrow> matches px k' \<Longrightarrow> matches px k"
  unfolding matches_def
proof (induction px arbitrary: k k')
  case (Cons a px)
  then show ?case by (cases k; cases k') auto
qed simp

lemma takeWhile_eq_filter:
  "(\<And>i j. i \<le> j \<Longrightarrow> j < length xs \<Longrightarrow> P (xs ! j) \<Longrightarrow> P (xs ! i)) \<Longrightarrow> takeWhile P xs = filter P xs"
proof (induction xs)
  case (Cons x xs)
  show ?case
  proof (cases "P x")
    case True
    have "takeWhile P xs = filter P xs"
      by (rule Cons.IH) (use Cons.prems [of "Suc i" "Suc j" for i j] in auto)
    then show ?thesis using True by simp
  next
    case False
    then have "\<not> P y" if "y \<in> set xs" for y
      using Cons.prems [of 0 "Suc j" for j] that by (fastforce simp: in_set_conv_nth)
    then show ?thesis using False by simp
  qed
qed simp

lemma prefix_run:
  assumes "sorted (map kv_k es)"
  shows "takeWhile (\<lambda>e. matches px (kv_k e)) (drop (below px (map kv_k es)) es) = filter (\<lambda>e. matches px (kv_k e)) es"
proof -
  let ?n = "below px (map kv_k es)"
  have ge: "px \<le> kv_k (es ! i)" if "?n \<le> i" "i < length es" for i
    using below_ge [of "map kv_k es" px i] assms that by simp
  have "takeWhile (\<lambda>e. matches px (kv_k e)) (drop ?n es) = filter (\<lambda>e. matches px (kv_k e)) (drop ?n es)"
  proof (rule takeWhile_eq_filter)
    fix i j assume ij: "i \<le> j" "j < length (drop ?n es)" "matches px (kv_k (drop ?n es ! j))"
    have "kv_k (es ! (?n + i)) \<le> kv_k (es ! (?n + j))"
      using assms ij sorted_nth_mono [of "map kv_k es" "?n + i" "?n + j"] by simp
    then show "matches px (kv_k (drop ?n es ! i))"
      using ge [of "?n + i"] ij by (auto intro: matches_between)
  qed
  also have "\<dots> = filter (\<lambda>e. matches px (kv_k e)) (take ?n es @ drop ?n es)"
  proof -
    have "\<not> matches px (kv_k e)" if "e \<in> set (take ?n es)" for e
    proof -
      from that obtain i where "i < ?n" "i < length es" "e = es ! i" by (auto simp: in_set_conv_nth)
      then have "kv_k e < px" using below_less [of i px "map kv_k es"] by simp
      then show ?thesis using matches_ge [of px "kv_k e"] by auto
    qed
    then have "filter (\<lambda>e. matches px (kv_k e)) (take ?n es) = []" by (simp add: filter_empty_conv)
    then show ?thesis by (simp only: filter_append append_Nil)
  qed
  finally show ?thesis by simp
qed

definition children :: "kvp list \<Rightarrow> u64 \<Rightarrow> xdir list" where
  "children es q = shown_dirs (filter (\<lambda>e. matches (dir_prefix q) (kv_k e)) es)"

lemma matches_dkey: "matches (dir_prefix q) (dkey up n) \<longleftrightarrow> up = q"
  by (auto simp: matches_def dir_prefix_def dkey_def)

lemma entry_mem: "distinct (map kv_k es) \<Longrightarrow> e \<in> set es \<Longrightarrow> entry es (kv_k e) = Some e"
  unfolding entry_def by (induction es) auto

lemma mounted_distinct: "mounted s S es \<Longrightarrow> distinct (map kv_k es)"
  using mounted_strict strict_iff by blast

lemma dirent_cases:
  assumes md: "mdirs s S es" and e: "e \<in> set es" "matches (dir_prefix q) (kv_k e)"
  shows "\<exists>n d. kv_k e = dkey q n \<and> dirs es (q, n) = Some d \<and> kv2dir e = Some d \<and> xname d = Some n"
proof -
  have en: "entry es (kv_k e) = Some e"
    using entry_mem mounted_distinct md e(1) unfolding mdirs_def by blast
  obtain k where k: "kv_k e = KENT # k" using e(2) by (cases "kv_k e") (auto simp: matches_def dir_prefix_def)
  have "dirent_ok (kv_k e) (kv_v e)" using md en unfolding mdirs_def dirs_ok_def k by blast
  then obtain up n where n: "kv_k e = dkey up n" "61 \<le> length (kv_v e)" "length n \<le> 244" "0 \<notin> set n"
    by (auto simp: dirent_ok_def)
  have up: "up = q" using e(2) n(1) by (simp add: matches_dkey)
  have "unpackstr (drop 9 (dkey q n)) = Some (n, [])"
    using unpackstr_packstr [of 247 n "pack16 (int (length n)) @ n @ [0]" "[]"] n(3,4) by (simp add: dkey_def packstr_def)
  then obtain d where "kv2dir e = Some d" "xname d = Some n" using n up by (simp add: kv2dir_def Let_def)
  moreover from this have "dirs es (q, n) = Some d" using en n up by (simp add: dirs_def)
  ultimately show ?thesis using n(1) up by blast
qed

lemma mem_children:
  assumes md: "mdirs s S es"
  shows "d \<in> set (children es q) \<longleftrightarrow> (\<exists>n. n \<noteq> [] \<and> dirs es (q, n) = Some d)"
proof
  assume "d \<in> set (children es q)"
  then obtain e where e: "e \<in> set es" "matches (dir_prefix q) (kv_k e)" "shown d" "d = the (kv2dir e)"
    by (auto simp: children_def shown_dirs_def)
  then show "\<exists>n. n \<noteq> [] \<and> dirs es (q, n) = Some d"
    using dirent_cases [OF md e(1,2)] by (auto simp: shown_def)
next
  assume "\<exists>n. n \<noteq> [] \<and> dirs es (q, n) = Some d"
  then obtain n e where n: "n \<noteq> []" "entry es (dkey q n) = Some e" "kv2dir e = Some d"
    by (auto simp: dirs_def split: if_splits bind_splits)
  have e: "e \<in> set es" "kv_k e = dkey q n" using n(2) by (auto simp: entry_def find_Some_iff)
  have "shown d" using dirent_cases [OF md e(1), of q] e(2) n by (auto simp: matches_dkey shown_def)
  then show "d \<in> set (children es q)"
    using e n(3) by (force simp: children_def shown_dirs_def matches_dkey)
qed

lemma children_empty: "mdirs s S es \<Longrightarrow> children es q = [] \<longleftrightarrow> (\<forall>n. n \<noteq> [] \<longrightarrow> dirs es (q, n) = None)"
proof -
  assume md: "mdirs s S es"
  have "children es q = [] \<longleftrightarrow> (\<forall>d. d \<notin> set (children es q))" by (cases "children es q") auto
  also have "\<dots> \<longleftrightarrow> (\<forall>n. n \<noteq> [] \<longrightarrow> dirs es (q, n) = None)" unfolding mem_children [OF md] by (metis not_Some_eq)
  finally show ?thesis .
qed

lemma distinct_children:
  assumes md: "mdirs s S es"
  shows "distinct (map xname (children es q))"
proof -
  let ?es = "filter (\<lambda>e. matches (dir_prefix q) (kv_k e)) es"
  have dk: "distinct (map kv_k es)" using mounted_distinct md unfolding mdirs_def by blast
  have "distinct (map (\<lambda>e. xname (the (kv2dir e))) ?es)"
  proof (subst distinct_map, intro conjI inj_onI)
    show "distinct ?es" using dk by (simp add: distinct_map)
    fix e f assume ef: "e \<in> set ?es" "f \<in> set ?es" "xname (the (kv2dir e)) = xname (the (kv2dir f))"
    obtain n d where "kv_k e = dkey q n" "kv2dir e = Some d" "xname d = Some n" using dirent_cases [OF md, of e q] ef(1) by auto
    moreover obtain n' d' where "kv_k f = dkey q n'" "kv2dir f = Some d'" "xname d' = Some n'"
      using dirent_cases [OF md, of f q] ef(2) by auto
    ultimately have "kv_k e = kv_k f" using ef(3) by simp
    moreover have "entry es (kv_k e) = Some e" "entry es (kv_k f) = Some f" using entry_mem [OF dk] ef(1,2) by auto
    ultimately show "e = f" by (metis option.inject)
  qed
  then have "distinct (map xname (map (the \<circ> kv2dir) ?es))" by (simp add: comp_def)
  then show ?thesis unfolding children_def shown_dirs_def by (rule distinct_map_filter)
qed

section \<open>Listing and removing directories\<close>

lemma list_dir_mdirs:
  assumes md: "mdirs s S es"
  shows "\<exists>s'. list_dir cb s (active_tree s) q x = Some (s', visit cb (children es q) x) \<and> mdirs s' S es \<and> quiet S s s'"
proof -
  let ?px = "dir_prefix q"
  have mt: "fs_ok s [] S" "tree_at (seen_by s S) 1 (bp_addr (t_bp (active_tree s))) (ALeaf es)" "t_ht (active_tree s) = 1"
    "small_entries KVMAX es" "leaf_fits es"
    using md by (auto simp: mdirs_def mounted_def)
  obtain s1 p b sc where e: "btenter s (active_tree s) (btnewscan ?px) = Some (s1, sc)" "fs_ok s1 [p] S" "quiet S s s1"
    "blk_vals b es" "btype b = TLEAF" "scan_at ?px p b (int (below ?px (map kv_k es))) sc"
    using btenter_leaf [OF mt(1-3)] by blast
  have so: "sorted (map kv_k es)" using mt(2) by (auto elim: tree_at_leafE)
  have rd: "\<exists>d. kv2dir f = Some d" if "f \<in> set es" "matches ?px (kv_k f)" for f
    using dirent_cases [OF md that] by blast
  obtain sc' j where l: "list_loop cb s1 sc x = Some (s1, sc', visit cb (children es q) x)"
    "spath sc' = Some [\<lparr>bi = 0, vi = int j, sblk = Some (p, b)\<rparr>]"
    using list_loop_leaf [OF e(4,5) mt(4) rd e(6), of cb s1 x] unfolding prefix_run [OF so] children_def by blast
  obtain s2 where d: "dropb s1 p = Some s2" "fs_ok s2 [] S" "quiet S s1 s2" using dropb_ok [OF e(2)] by blast
  have ex: "btexit s1 sc' = Some (s2, sc'\<lparr>spath := None\<rparr>)"
    using d(1) l(2) by (auto simp: btexit_def dropb_def List.map_filter_def split: bind_splits)
  have "list_dir cb s (active_tree s) q x = Some (s2, visit cb (children es q) x)"
    using e(1) l(1) ex by (simp add: list_dir_def)
  moreover have "quiet S s s2" using quiet_trans [OF e(3) d(3)] .
  moreover from this have "mdirs s2 S es"
    using md d(2) mt quietD [of S s s2] by (simp add: mdirs_def mounted_def)
  ultimately show ?thesis by blast
qed

definition a_rmdir :: "dirmap \<Rightarrow> byte list \<Rightarrow> errno + dirmap" where
  "a_rmdir D path =
     (case resolve D path of
        Inl err \<Rightarrow> Inl err
      | Inr d \<Rightarrow>
          if qtype (xqid d) AND QTDIR = 0 \<and> xmode d AND DMDIR = 0 then Inl ENOTDIR
          else if \<exists>n. n \<noteq> [] \<and> D (qpath (xqid d), n) \<noteq> None then Inl ENOTEMPTY
          else at_parent D path (\<lambda>up name. Inr (D((up, name) := None))))"

lemma visit_any: "visit (\<lambda>_ _. (True, True)) ds False \<longleftrightarrow> ds \<noteq> []"
  by (cases ds) auto

lemma rmdir_commit:
  assumes "mdirs s1 S es" and "seen_by s1 S = seen_by s S" "snap_tree s1 = snap_tree s" and "\<not> readonly s1" and "free_ranges s1 = free_ranges s \<and> free_ranges s \<noteq> []"
    and "length n \<le> 244"
  shows "\<exists>s'. btupsert s1 TActive [\<lparr>m_op = ODELETE, m_k = dkey up n, m_v = []\<rparr>, \<lparr>m_op = ODELETE, m_k = upkey q, m_v = []\<rparr>] = Some (s', Inr ())
     \<and> sb s' = sb s1 \<and> (\<forall>r. refines s S es (Inr ((dirs es)((up, n) := None))) (s', Inr r))"
proof (rule commit_refines [OF assms(1-5)])
  show "dir_eff [\<lparr>m_op = ODELETE, m_k = dkey up n, m_v = []\<rparr>, \<lparr>m_op = ODELETE, m_k = upkey q, m_v = []\<rparr>] (dirs es) = (dirs es)((up, n) := None)"
    by (auto simp: fun_eq_iff dir_eff_def msg_for_def upd_def dest: sym [of "upkey _"])
qed (use assms mounted_fits [of s1 S es] in
    \<open>simp_all add: apply_new_def plain_delmsg [simplified] mdirs_def leaf_fits_def leaf_room_def leaf_cost_def\<close>)

lemma rmdir_refines:
  assumes md: "mdirs s S es" and rw: "\<not> readonly s" and free: "free_ranges s \<noteq> []" and fits: "name_fits path"
  shows "\<exists>s' r. rmdir_entry s path = Some (s', r) \<and> refines s S es (a_rmdir (dirs es) path) (s', r) \<and> sb s' = sb s"
proof (cases "resolve (dirs es) path")
  case (Inl err)
  then show ?thesis using walk_err [OF md, of path err zero_dir] by (auto simp: rmdir_entry_def a_rmdir_def dest: quietD(4))
next
  case (Inr d)
  note dd = this
  let ?q = "qpath (xqid d)"
  note defs = rmdir_entry_def a_rmdir_def at_parent_def
  obtain s1 where w1: "walk_path s (active_tree s) path zero_dir = Some (s1, d, Inr ())" "mdirs s1 S es" "quiet S s s1"
    using walk_found [OF md dd] by blast
  show ?thesis
  proof (cases "qtype (xqid d) AND QTDIR = 0 \<and> xmode d AND DMDIR = 0")
    case True
    then show ?thesis using w1 dd by (auto simp: defs dest: quietD(4))
  next
    case False
    obtain s2 where l: "list_dir (\<lambda>_ _. (True, True)) s1 (active_tree s1) ?q False = Some (s2, children es ?q \<noteq> [])" "mdirs s2 S es" "quiet S s1 s2"
      using list_dir_mdirs [OF w1(2), of "\<lambda>_ _. (True, True)" ?q False] unfolding visit_any by blast
    note q2 = quiet_trans [OF w1(3) l(3)]
    have kids: "(\<exists>n. n \<noteq> [] \<and> dirs es (?q, n) \<noteq> None) \<longleftrightarrow> children es ?q \<noteq> []"
      unfolding children_empty [OF md] by simp
    consider (full) "children es ?q \<noteq> []" | (top) "children es ?q = []" "split_path path = None"
      | (split) parent name where "children es ?q = []" "split_path path = Some (parent, name)"
      by (cases "split_path path") auto
    then show ?thesis
    proof cases
      case full
      then show ?thesis using w1 l dd False q2 quietD(4) [OF q2] unfolding defs dd sum.case kids by (auto dest: quietD(4))
    next
      case top
      then show ?thesis using w1 l dd False q2 quietD(4) [OF q2] unfolding defs dd sum.case kids by (auto dest: quietD(4))
    next
      case split
      note nm = name_fitsD [OF fits split(2)]
      show ?thesis
      proof (cases "resolve (dirs es) parent")
        case (Inl err)
        then show ?thesis
          using walk_err [OF l(2) Inl, of zero_dir] quiet_trans [OF q2] quietD(4) [OF quiet_trans, OF q2] w1 l dd split False unfolding defs dd sum.case kids by (auto dest: quietD(4))
      next
        case (Inr p)
        obtain s3 where w3: "walk_path s2 (active_tree s2) parent zero_dir = Some (s3, p, Inr ())" "mdirs s3 S es" "quiet S s2 s3"
          using walk_found [OF l(2) Inr] by blast
        note q = quiet_trans [OF q2 w3(3)]
        have "\<exists>s'. btupsert s3 TActive [\<lparr>m_op = ODELETE, m_k = dkey (qpath (xqid p)) name, m_v = []\<rparr>,
              \<lparr>m_op = ODELETE, m_k = upkey ?q, m_v = []\<rparr>] = Some (s', Inr ()) \<and> sb s' = sb s3
            \<and> (\<forall>r. refines s S es (Inr ((dirs es)((qpath (xqid p), name) := None))) (s', Inr r :: errno + unit))"
          by (rule rmdir_commit) (use w3(2) quietD [OF q] rw free nm in simp_all)
        then show ?thesis using w1 l w3 dd split Inr nm False quietD(4) [OF q] unfolding defs dd sum.case kids by (auto dest: quietD(4))
      qed
    qed
  qed
qed

end
