(* ===== verification/Filespec.thy ===== *)
theory Filespec
  imports Listing
begin

text \<open>
  File contents as a function from offsets to bytes, and that reading and writing
  (\<^verbatim>\<open>gefs_read_file\<close>, \<^verbatim>\<open>gefs_write_file\<close>) are reading and updating that function. A hole reads as
  zeros. \<open>V\<close> is what the client sees of the block store.
\<close>

section \<open>Contents\<close>

lemma datkey_inject: "n < 2 ^ 64 \<Longrightarrow> n' < 2 ^ 64 \<Longrightarrow> datkey p n = datkey p' n' \<longleftrightarrow> p = p' \<and> n = n'"
proof -
  assume n: "n < 2 ^ 64" "n' < 2 ^ 64"
  have "(word_of_int (int n) :: u64) = word_of_int (int n') \<longleftrightarrow> n = n'"
    using n by (simp add: word_of_nat_eq_iff take_bit_nat_eq_self)
  then show ?thesis by (simp add: datkey_def)
qed

lemma datkey_simps [simp]: "length (datkey p n) = 17" "hd (datkey p n) = KDAT" "datkey p n \<noteq> []"
  "datkey p n \<noteq> dkey up nm" "dkey up nm \<noteq> datkey p n"
  by (simp_all add: datkey_def dkey_def)

definition fblk :: "(u64 \<rightharpoonup> gblk) \<Rightarrow> kvp list \<Rightarrow> u64 \<Rightarrow> nat \<Rightarrow> gblk option" where
  "fblk V es path bo = do { kv \<leftarrow> entry es (datkey path bo); bp \<leftarrow> unpackbp (kv_v kv); V (bp_addr bp) }"

definition fbyte :: "(u64 \<rightharpoonup> gblk) \<Rightarrow> kvp list \<Rightarrow> u64 \<Rightarrow> nat \<Rightarrow> byte" where
  "fbyte V es path n = (case fblk V es path (blk_off n) of None \<Rightarrow> 0 | Some b \<Rightarrow> buf b (int (n mod BSZ)))"

text \<open>Every data pointer leads to a block that the code reads as data.\<close>

definition files_ok :: "(u64 \<rightharpoonup> gblk) \<Rightarrow> kvp list \<Rightarrow> bool" where
  "files_ok V es \<longleftrightarrow> (\<forall>path bo kv. entry es (datkey path bo) = Some kv \<longrightarrow> (\<exists>b. fblk V es path bo = Some b \<and> doff b = 0))"

lemma blk_off_simps: "off mod 16384 + k < 16384 \<Longrightarrow> blk_off (off + k) = blk_off off \<and> (off + k) mod 16384 = off mod 16384 + k"
proof -
  assume k: "off mod 16384 + k < 16384"
  have e: "off = 16384 * (off div 16384) + off mod 16384" by simp
  have "16384 * (off div 16384) \<le> off + k" "off + k < 16384 * Suc (off div 16384)"
    unfolding mult_Suc_right using e k by linarith+
  then have "(off + k) div 16384 = off div 16384" by (rule div_nat_eqI)
  moreover from this have "(off + k) mod 16384 = off mod 16384 + k" using e by (simp add: modulo_nat_def)
  ultimately show ?thesis by (simp add: blk_off_def)
qed

section \<open>Reading\<close>

lemma mdirs_quiet: "mdirs s S es \<Longrightarrow> quiet S s s' \<Longrightarrow> fs_ok s' [] S \<Longrightarrow> mdirs s' S es"
  using quietD [of S s s'] by (simp add: mdirs_def mounted_def)

text \<open>Looking a data block up and taking the reference to it, as reading and writing both start.\<close>

lemma data_lookup:
  assumes md: "mdirs s S es" and fo: "files_ok (seen_by s S) es"
  shows "\<exists>s1. lookup s (active_tree s) (datkey path bo) KVMAX = Some (s1, entry es (datkey path bo)) \<and> mdirs s1 S es \<and> quiet S s s1
     \<and> (\<forall>kv. entry es (datkey path bo) = Some kv \<longrightarrow>
         (\<exists>bp s2 p b s3. unpackbp (kv_v kv) = Some bp \<and> getb s1 bp = Some (s2, Some (p, b)) \<and> dropb s2 p = Some s3
           \<and> fblk (seen_by s S) es path bo = Some (norm b) \<and> doff b = 0 \<and> mdirs s3 S es \<and> quiet S s s3))"
proof -
  obtain s1 where l: "lookup s (active_tree s) (datkey path bo) KVMAX = Some (s1, entry es (datkey path bo))" "mounted s1 S es" "quiet S s s1"
    using mounted_lookup md unfolding mdirs_def by blast
  have m1: "mdirs s1 S es" using l md by (simp add: mdirs_def)
  have "\<exists>bp s2 p b s3. unpackbp (kv_v kv) = Some bp \<and> getb s1 bp = Some (s2, Some (p, b)) \<and> dropb s2 p = Some s3
           \<and> fblk (seen_by s S) es path bo = Some (norm b) \<and> doff b = 0 \<and> mdirs s3 S es \<and> quiet S s s3"
    if kv: "entry es (datkey path bo) = Some kv" for kv
  proof -
    obtain v where v: "fblk (seen_by s S) es path bo = Some v" "doff v = 0"
      using fo kv unfolding files_ok_def by blast
    then obtain bp where bp: "unpackbp (kv_v kv) = Some bp" "seen_by s S (bp_addr bp) = Some v"
      using kv by (auto simp: fblk_def split: bind_splits)
    have "fs_ok s1 [] S" using l(2) by (simp add: mounted_def)
    then obtain s2 p b where g: "getb s1 bp = Some (s2, Some (p, b))" "fs_ok s2 [p] S" "quiet S s1 s2" "norm b = v"
      using getb_seen [of s1 "[]" S bp v] bp(2) quietD(2) [OF l(3)] by auto
    obtain s3 where d: "dropb s2 p = Some s3" "fs_ok s3 [] S" "quiet S s2 s3" using dropb_ok [OF g(2)] by blast
    have q: "quiet S s s3" using quiet_trans [OF quiet_trans [OF l(3) g(3)] d(3)] .
    moreover have "doff b = 0" using v(2) g(4) by auto
    ultimately show ?thesis using bp g d v mdirs_quiet [OF md q d(2)] by blast
  qed
  then show ?thesis using l(1,3) m1 by blast
qed

lemma fbyte_run:
  assumes "off mod 16384 + n \<le> 16384" and "fblk V es path (blk_off off) = Some b"
  shows "rd (buf b) (int (off mod 16384)) n = map (fbyte V es path) [off..<off + n]"
proof (rule nth_equalityI)
  fix i assume i: "i < length (rd (buf b) (int (off mod 16384)) n)"
  then have "off mod 16384 + i < 16384" using assms(1) by simp
  from blk_off_simps [OF this] assms(2) i show "rd (buf b) (int (off mod 16384)) n ! i = map (fbyte V es path) [off..<off + n] ! i"
    by (simp add: fbyte_def)
qed simp

lemma fbyte_hole:
  assumes "off mod 16384 + n \<le> 16384" and "fblk V es path (blk_off off) = None"
  shows "replicate n 0 = map (fbyte V es path) [off..<off + n]"
proof (rule nth_equalityI)
  fix i assume i: "i < length (replicate n (0 :: byte))"
  then have "off mod 16384 + i < 16384" using assms(1) by simp
  from blk_off_simps [OF this] assms(2) i show "replicate n 0 ! i = map (fbyte V es path) [off..<off + n] ! i"
    by (simp add: fbyte_def)
qed simp

lemma read_blk_bytes:
  assumes md: "mdirs s S es" and fo: "files_ok (seen_by s S) es" and n: "off mod 16384 + n \<le> 16384"
  shows "\<exists>s'. read_blk s (active_tree s) path off n = Some (s', map (fbyte (seen_by s S) es path) [off..<off + n])
     \<and> mdirs s' S es \<and> quiet S s s'"
proof -
  let ?bo = "blk_off off"
  obtain s1 where l: "lookup s (active_tree s) (datkey path ?bo) KVMAX = Some (s1, entry es (datkey path ?bo))" "mdirs s1 S es" "quiet S s s1"
    and kv: "\<And>kv. entry es (datkey path ?bo) = Some kv \<Longrightarrow>
         \<exists>bp s2 p b s3. unpackbp (kv_v kv) = Some bp \<and> getb s1 bp = Some (s2, Some (p, b)) \<and> dropb s2 p = Some s3
           \<and> fblk (seen_by s S) es path ?bo = Some (norm b) \<and> doff b = 0 \<and> mdirs s3 S es \<and> quiet S s s3"
    using data_lookup [OF md fo, of path ?bo] by auto
  show ?thesis
  proof (cases "entry es (datkey path ?bo)")
    case None
    then have "fblk (seen_by s S) es path ?bo = None" by (simp add: fblk_def)
    then show ?thesis using l None fbyte_hole [OF n] by (auto simp: read_blk_def)
  next
    case (Some e)
    then obtain bp s2 p b s3 where k: "unpackbp (kv_v e) = Some bp" "getb s1 bp = Some (s2, Some (p, b))" "dropb s2 p = Some s3"
      "fblk (seen_by s S) es path ?bo = Some (norm b)" "doff b = 0" "mdirs s3 S es" "quiet S s s3"
      using kv by blast
    have "bget b (int (off mod 16384)) n = Some (map (fbyte (seen_by s S) es path) [off..<off + n])"
      using fbyte_run [OF n k(4)] n by (simp add: bget_def)
    then show ?thesis using l(1) Some k by (simp add: read_blk_def)
  qed
qed

lemma read_loop_bytes:
  "mdirs s S es \<Longrightarrow> files_ok (seen_by s S) es \<Longrightarrow>
     \<exists>s'. read_loop s (active_tree s) path off n = Some (s', map (fbyte (seen_by s S) es path) [off..<off + n])
       \<and> mdirs s' S es \<and> quiet S s s'"
proof (induction n arbitrary: s off rule: less_induct)
  case (less n)
  show ?case
  proof (cases "n = 0")
    case True
    then show ?thesis using less.prems by (auto simp: read_loop.simps [of _ _ _ _ 0])
  next
    case False
    let ?k = "min (16384 - off mod 16384) n"
    have "off mod 16384 < 16384" by simp
    then have k: "0 < ?k" "?k \<le> n" "off mod 16384 + ?k \<le> 16384" using False by linarith+
    obtain s1 where r: "read_blk s (active_tree s) path off ?k = Some (s1, map (fbyte (seen_by s S) es path) [off..<off + ?k])"
      "mdirs s1 S es" "quiet S s s1"
      using read_blk_bytes [OF less.prems k(3)] by blast
    have "n - ?k < n" using k by simp
    then obtain s2 where t: "read_loop s1 (active_tree s) path (off + ?k) (n - ?k)
        = Some (s2, map (fbyte (seen_by s S) es path) [off + ?k..<off + ?k + (n - ?k)])" "mdirs s2 S es" "quiet S s1 s2"
      using less.IH [of "n - ?k" s1 "off + ?k"] r(2) quietD(2,6) [OF r(3)] less.prems(2) by auto
    have "[off..<off + ?k] @ [off + ?k..<off + ?k + (n - ?k)] = [off..<off + n]"
      using k(2) upt_add_eq_append [of off "off + ?k" "n - ?k"] by simp
    then have "map f [off..<off + ?k] @ map f [off + ?k..<off + ?k + (n - ?k)] = map f [off..<off + n]" for f :: "nat \<Rightarrow> byte"
      by (metis map_append)
    then have "read_loop s (active_tree s) path off n = Some (s2, map (fbyte (seen_by s S) es path) [off..<off + n])"
      using r(1) t(1) False by (subst read_loop.simps) (simp add: Let_def)
    then show ?thesis using t quiet_trans [OF r(3) t(3)] by blast
  qed
qed

lemma sint_small: "unat (w :: u64) < 2 ^ 63 \<Longrightarrow> sint w = int (unat w)"
proof -
  assume w: "unat w < 2 ^ 63"
  then have "int (unat w) < int (2 ^ 63)" by (simp only: of_nat_less_iff)
  then have u: "uint w < 2 ^ 63" "0 \<le> uint w" by (simp_all add: uint_nat [symmetric])
  moreover from this have "- (2 ^ 63) \<le> uint w" by linarith
  ultimately have "sint w = uint w" unfolding sint_uint by (intro signed_take_bit_int_eq_self) simp_all
  then show ?thesis using uint_nat [of w] by (rule trans)
qed

lemma unat_of_small: "n < 2 ^ 64 \<Longrightarrow> unat (word_of_int (int n) :: u64) = n"
  by (simp add: unat_of_nat)

lemma read_file_bytes:
  assumes md: "mdirs s S es" and fo: "files_ok (seen_by s S) es" and len: "unat (xlength d) < 2 ^ 63" and b: "off + n < 2 ^ 63"
  shows "\<exists>s'. read_file s (active_tree s) d n off
       = Some (s', map (fbyte (seen_by s S) es (qpath (xqid d))) [off..<min (off + n) (unat (xlength d))])
     \<and> mdirs s' S es \<and> quiet S s s'"
proof -
  let ?l = "unat (xlength d)"
  have sl: "sint (xlength d) \<le> int off \<longleftrightarrow> ?l \<le> off"
    using sint_small [OF len] by (simp only: of_nat_le_iff)
  have lt: "xlength d < word_of_int (int (off + n)) \<longleftrightarrow> ?l < off + n"
    unfolding word_less_nat_alt using b by (subst unat_of_small) simp_all
  show ?thesis
  proof (cases "?l \<le> off")
    case True
    then show ?thesis using md unfolding read_file_def sl by simp
  next
    case False
    have off: "unat (word_of_int (int off) :: u64) = off" using b unat_of_small [of off] by simp
    have "unat (xlength d - word_of_int (int off)) = ?l - off"
      using False off by (simp add: unat_sub word_le_nat_alt)
    then have e: "(if xlength d < word_of_int (int (off + n)) then unat (xlength d - word_of_int (int off)) else n) = min (off + n) ?l - off"
      unfolding lt by (auto simp: min_def)
    have "off + (min (off + n) ?l - off) = min (off + n) ?l" using False by simp
    then show ?thesis
      using read_loop_bytes [OF md fo, of "qpath (xqid d)" off "min (off + n) ?l - off"] False
      unfolding read_file_def Let_def e sl by auto
  qed
qed

section \<open>Writing\<close>

lemma old_data_bytes:
  assumes md: "mdirs s S es" and fo: "files_ok (seen_by s S) es"
  shows "\<exists>s' m. old_data s (datkey path bo) = Some (s', m) \<and> mdirs s' S es \<and> quiet S s s'
     \<and> m = (case fblk (seen_by s S) es path bo of None \<Rightarrow> zeros | Some b \<Rightarrow> buf b)"
proof -
  obtain s1 where l: "lookup s (active_tree s) (datkey path bo) KVMAX = Some (s1, entry es (datkey path bo))" "mdirs s1 S es" "quiet S s s1"
    and kv: "\<And>kv. entry es (datkey path bo) = Some kv \<Longrightarrow>
         \<exists>bp s2 p b s3. unpackbp (kv_v kv) = Some bp \<and> getb s1 bp = Some (s2, Some (p, b)) \<and> dropb s2 p = Some s3
           \<and> fblk (seen_by s S) es path bo = Some (norm b) \<and> doff b = 0 \<and> mdirs s3 S es \<and> quiet S s s3"
    using data_lookup [OF md fo, of path bo] by auto
  show ?thesis
  proof (cases "entry es (datkey path bo)")
    case None
    then show ?thesis using l by (auto simp: old_data_def fblk_def)
  next
    case (Some e)
    then show ?thesis using l(1) kv [OF Some] by (fastforce simp: old_data_def)
  qed
qed

text \<open>A data block written to a fresh address and entered into the cache.\<close>

lemma put_data:
  assumes md: "mdirs s S es" and rw: "\<not> readonly s" and free: "free_ranges s \<noteq> []"
  shows "\<exists>s1 off s2 b s3. alloc_blk s = Some (s1, off) \<and> 0 \<le> off \<and> active_tree s1 = active_tree s
     \<and> blk_finalize_and_write s1 (data_blk off gen m) = (s2, b) \<and> enterb s2 b = Some s3 \<and> doff b = 0 \<and> buf b = m
     \<and> mdirs s3 (insert (bp_addr (blk_bp b)) S) es \<and> bp_addr (blk_bp b) \<notin> S
     \<and> seen_by s3 (insert (bp_addr (blk_bp b)) S) = (seen_by s S)(bp_addr (blk_bp b) \<mapsto> norm b)
     \<and> sb s3 = sb s \<and> snap_tree s3 = snap_tree s \<and> active_tree s3 = active_tree s \<and> \<not> readonly s3
     \<and> free_bytes s3 = free_bytes s - BLKSZ"
proof -
  have mt: "fs_ok s [] S" "tree_at (seen_by s S) 1 (bp_addr (t_bp (active_tree s))) (ALeaf es)"
    using md by (auto simp: mdirs_def mounted_def)
  then have co: "cache_ok (dev s) (bc s) [] S" by (simp add: fs_ok_def)
  obtain as off where al: "alloc_blk s = Some (s\<lparr>arenas := as, dirty := True\<rparr>, off)" "length as = length (arenas s)"
    "0 \<le> off" "off + BLKSZ \<le> dsize (dev s)" "sint (word_of_int off :: u64) = off" "\<forall>a \<in> S \<union> known (bc s). apart off a"
    "ranges_ok (concat (map a_free as)) (dsize (dev s)) (insert (word_of_int off) (S \<union> known (bc s)))"
    "(\<Sum>r \<leftarrow> concat (map a_free as). snd r) = free_bytes s - BLKSZ"
    using alloc_blk_some [OF mt(1) rw free] by blast
  let ?a = "word_of_int off :: u64" and ?b = "finalize_blk (data_blk off gen m)"
  let ?d = "pwrite_blk (dev s) off (buf ?b)"
  have b: "bp_addr (blk_bp ?b) = ?a" "doff ?b = 0" "buf ?b = m"
    by (simp_all add: data_blk_def zero_blk_def finalize_hdr_def Let_def)
  obtain c q where c: "cache_insert (bc s) (?b\<lparr>ref := 1\<rparr>) = Some (c, q)" "cache_ok ?d c [] (insert ?a S)"
    "seen ?d c (insert ?a S) = (seen_by s S)(?a \<mapsto> norm ?b)" "known c = insert ?a (known (bc s))"
    using enter_ok [OF co al(4,6,5) b(1), of "buf ?b"] by blast
  define s3 where "s3 = s\<lparr>arenas := as, dirty := True, dev := ?d, bc := c\<rparr>"
  have fresh: "?a \<notin> S" using al(5,6) apart_neq by blast
  have ds: "dsize ?d = dsize (dev s)" using al(4) by (simp add: pwrite_blk_def)
  have sn: "seen_by s3 (insert ?a S) = (seen_by s S)(?a \<mapsto> norm ?b)" using c(3) by (simp add: s3_def)
  then have "seen_by s S \<subseteq>\<^sub>m seen_by s3 (insert ?a S)" using fresh by (auto simp: map_le_def)
  then have "tree_at (seen_by s3 (insert ?a S)) 1 (bp_addr (t_bp (active_tree s))) (ALeaf es)"
    using tree_at_mono [OF mt(2)] by blast
  moreover have "fs_ok s3 [] (insert ?a S)"
    using mt(1) c(2,4) al(2,7) ds by (auto simp: fs_ok_def s3_def free_ranges_def insert_commute intro: ranges_ok_mono)
  ultimately have "mdirs s3 (insert ?a S) es" using md by (simp add: mdirs_def mounted_def s3_def)
  moreover have "enterb (s\<lparr>arenas := as, dirty := True, dev := ?d\<rparr>) ?b = Some s3" using c(1) by (simp add: enterb_def s3_def)
  moreover have "blk_finalize_and_write (s\<lparr>arenas := as, dirty := True\<rparr>) (data_blk off gen m)
      = (s\<lparr>arenas := as, dirty := True, dev := ?d\<rparr>, ?b)"
    using b al(5) by (simp add: blk_finalize_and_write_def Let_def)
  moreover have "free_bytes s3 = free_bytes s - BLKSZ" using al(8) by (simp add: free_bytes_def free_ranges_def s3_def)
  ultimately show ?thesis
    using al(1,3) b fresh sn rw
    by (intro exI [of _ "s\<lparr>arenas := as, dirty := True\<rparr>"] exI [of _ off] exI [of _ "s\<lparr>arenas := as, dirty := True, dev := ?d\<rparr>"]
        exI [of _ ?b] exI [of _ s3]) (simp add: s3_def)
qed

text \<open>Pointing one block of a file at a new data block.\<close>

lemma fblk_upd:
  assumes fo: "files_ok V es" and le: "V \<subseteq>\<^sub>m V'" and b: "V' (bp_addr bp) = Some b" "doff b = 0"
    and en: "\<And>k. entry es' k = (if k = datkey path bo then Some \<lparr>kv_k = k, kv_v = packbp bp\<rparr> else entry es k)"
  shows "fblk V' es' p n = (if datkey p n = datkey path bo then Some b else fblk V es p n)" and "files_ok V' es'"
proof -
  show f: "fblk V' es' p n = (if datkey p n = datkey path bo then Some b else fblk V es p n)" for p n
  proof (cases "datkey p n = datkey path bo \<or> entry es (datkey p n) = None")
    case True
    then show ?thesis using b by (auto simp: fblk_def en)
  next
    case False
    then obtain kv v where "entry es (datkey p n) = Some kv" "fblk V es p n = Some v"
      using fo unfolding files_ok_def by blast
    moreover from this have "fblk V' es' p n = Some v"
      using False le by (auto simp: fblk_def en map_le_def dom_def split: bind_splits)
    ultimately show ?thesis using False by simp
  qed
  show "files_ok V' es'"
    unfolding files_ok_def
  proof (intro allI impI)
    fix p n kv assume "entry es' (datkey p n) = Some kv"
    then show "\<exists>b. fblk V' es' p n = Some b \<and> doff b = 0"
      using fo b(2) by (cases "datkey p n = datkey path bo") (auto simp: f en files_ok_def)
  qed
qed

text \<open>The state after some blocks were written: contents, directories and what is left of the space.\<close>

definition wrote :: "ctx \<Rightarrow> u64 set \<Rightarrow> kvp list \<Rightarrow> (u64 \<Rightarrow> nat \<Rightarrow> byte) \<Rightarrow> int \<Rightarrow> ctx \<Rightarrow> u64 set \<Rightarrow> kvp list \<Rightarrow> bool" where
  "wrote s S es f n s' S' es' \<longleftrightarrow>
     mdirs s' S' es' \<and> files_ok (seen_by s' S') es' \<and> seen_by s S \<subseteq>\<^sub>m seen_by s' S' \<and> S \<subseteq> S' \<and> dirs es' = dirs es
     \<and> (\<forall>p k. k < 2 ^ 63 \<longrightarrow> fbyte (seen_by s' S') es' p k = f p k)
     \<and> readonly s' = readonly s \<and> sb s' = sb s \<and> snap_tree s' = snap_tree s
     \<and> free_bytes s' = free_bytes s - 2 * n * BLKSZ \<and> leaf_room es - 47 * n \<le> leaf_room es'"

definition splice :: "(u64 \<Rightarrow> nat \<Rightarrow> byte) \<Rightarrow> u64 \<Rightarrow> nat \<Rightarrow> byte list \<Rightarrow> u64 \<Rightarrow> nat \<Rightarrow> byte" where
  "splice f path off bs p k = (if p = path \<and> off \<le> k \<and> k < off + length bs then bs ! (k - off) else f p k)"

lemma splice_append: "splice (splice f path off xs) path (off + length xs) ys = splice f path off (xs @ ys)"
  by (auto simp: splice_def fun_eq_iff nth_append)

lemma blk_off_le: "blk_off n \<le> n" "n < blk_off n + 16384"
proof -
  have "n = 16384 * (n div 16384) + n mod 16384" "n mod 16384 < 16384" by simp_all
  then show "blk_off n \<le> n" "n < blk_off n + 16384" unfolding blk_off_def BSZ_def by linarith+
qed

lemma splice_block:
  assumes bs: "off mod 16384 + length bs \<le> 16384" and bd: "off + length bs \<le> 2 ^ 63" and k: "k < 2 ^ 63"
    and m: "m = (case fblk V es path (blk_off off) of None \<Rightarrow> zeros | Some b \<Rightarrow> buf b)"
    and b: "buf b = wr m (int (off mod 16384)) bs"
    and f: "\<And>p n. fblk V' es' p n = (if datkey p n = datkey path (blk_off off) then Some b else fblk V es p n)"
  shows "fbyte V' es' p k = splice (fbyte V es) path off bs p k"
proof (cases "p = path \<and> blk_off k = blk_off off")
  case True
  have dm: "n = blk_off n + n mod 16384" for n by (simp add: blk_off_def)
  have kk: "k = blk_off off + k mod 16384" "off = blk_off off + off mod 16384" using dm [of k] dm [of off] True by metis+
  have "fbyte V' es' p k = wr m (int (off mod 16384)) bs (int (k mod 16384))"
    using True f [of p "blk_off k"] b by (simp add: fbyte_def)
  also have "\<dots> = splice (fbyte V es) path off bs p k"
  proof (cases "off \<le> k \<and> k < off + length bs")
    case in1: True
    then have "off mod 16384 \<le> k mod 16384" "k mod 16384 < off mod 16384 + length bs" "k mod 16384 - off mod 16384 = k - off"
      using kk by linarith+
    then show ?thesis using in1 True by (simp add: splice_def wr_inside nat_diff_distrib')
  next
    case out: False
    then have "k mod 16384 < off mod 16384 \<or> off mod 16384 + length bs \<le> k mod 16384" using kk by linarith
    then have "wr m (int (off mod 16384)) bs (int (k mod 16384)) = m (int (k mod 16384))"
      by (intro wr_outside) linarith
    then show ?thesis using out True m by (auto simp: splice_def fbyte_def zeros_def split: option.splits)
  qed
  finally show ?thesis .
next
  case False
  have "blk_off k < 2 ^ 64" "blk_off off < 2 ^ 64" using blk_off_le(1) [of k] blk_off_le(1) [of off] k bd by simp_all
  then have "datkey p (blk_off k) \<noteq> datkey path (blk_off off)" using False by (simp add: datkey_inject)
  moreover have "\<not> (p = path \<and> off \<le> k \<and> k < off + length bs)"
  proof
    assume "p = path \<and> off \<le> k \<and> k < off + length bs"
    then have "blk_off (off + (k - off)) = blk_off off" using bs by (intro blk_off_simps [THEN conjunct1]) linarith
    then show False using False \<open>p = path \<and> _\<close> by simp
  qed
  ultimately show ?thesis by (auto simp: splice_def fbyte_def f)
qed

lemma write_blk_bytes:
  assumes md: "mdirs s S es" and fo: "files_ok (seen_by s S) es" and rw: "\<not> readonly s" and free: "2 * BLKSZ \<le> free_bytes s"
    and room: "47 \<le> leaf_room es" and bs: "off mod 16384 + length bs \<le> 16384" and bd: "off + length bs \<le> 2 ^ 63"
  shows "\<exists>s' S' es'. write_blk s path off bs = Some (s', Inr ())
     \<and> wrote s S es (splice (fbyte (seen_by s S) es) path off bs) 1 s' S' es'"
proof -
  let ?k = "datkey path (blk_off off)"
  obtain s1 m where o: "old_data s ?k = Some (s1, m)" "mdirs s1 S es" "quiet S s s1"
    and m: "m = (case fblk (seen_by s S) es path (blk_off off) of None \<Rightarrow> zeros | Some b \<Rightarrow> buf b)"
    using old_data_bytes [OF md fo] by blast
  note q = quietD [OF o(3)]
  have fb1: "free_bytes s1 = free_bytes s" using q(9) by (simp add: free_bytes_def)
  obtain s2 a s3 b s4 where p: "alloc_blk s1 = Some (s2, a)" "0 \<le> a" "active_tree s2 = active_tree s1"
    "blk_finalize_and_write s2 (data_blk a (t_gen (active_tree s1)) (wr m (int (off mod 16384)) bs)) = (s3, b)"
    "enterb s3 b = Some s4" "doff b = 0" "buf b = wr m (int (off mod 16384)) bs"
    and m4: "mdirs s4 (insert (bp_addr (blk_bp b)) S) es" "bp_addr (blk_bp b) \<notin> S"
    "seen_by s4 (insert (bp_addr (blk_bp b)) S) = (seen_by s1 S)(bp_addr (blk_bp b) \<mapsto> norm b)"
    "sb s4 = sb s1" "snap_tree s4 = snap_tree s1" "active_tree s4 = active_tree s1" "\<not> readonly s4"
    "free_bytes s4 = free_bytes s1 - BLKSZ"
    using put_data [OF o(2), of "t_gen (active_tree s1)" "wr m (int (off mod 16384)) bs"] q(8,9) rw free free_bytes_pos [of s1] fb1
    by (auto simp: q)
  let ?a = "bp_addr (blk_bp b)" and ?msg = "\<lparr>m_op = OINSERT, m_k = ?k, m_v = packbp (blk_bp b)\<rparr>"
  have cost: "leaf_cost (ins [?msg]) = 47" by (simp add: apply_new_def leaf_cost_def kvs_size_def kvsz_def)
  obtain s5 S' es' bp where u: "btupsert s4 TActive [?msg] = Some (s5, Inr ())" "mdirs s5 S' es'" "upserted s4 s5 TActive bp"
    "seen_by s4 (insert ?a S) \<subseteq>\<^sub>m seen_by s5 S'" "insert ?a S \<subseteq> S'" "dirs es' = dir_eff [?msg] (dirs es)"
    "leaf_room es - 47 \<le> leaf_room es'"
    "\<And>k. entry es' k = (case msg_for [?msg] k of None \<Rightarrow> entry es k | Some m \<Rightarrow> upd m (entry es k))"
    using mdirs_upsert [OF m4(1,7), of "[?msg]"] free_bytes_pos [of s4] m4(8) fb1 free room
    unfolding cost by (auto simp: plain_msg_def)
  have en: "entry es' k = (if k = ?k then Some \<lparr>kv_k = k, kv_v = packbp (blk_bp b)\<rparr> else entry es k)" for k
    using u(8) [of k] by (simp add: msg_for_def upd_def)
  have le1: "seen_by s S \<subseteq>\<^sub>m seen_by s4 (insert ?a S)" using m4(2,3) q(2) by (auto simp: map_le_def)
  have le: "seen_by s S \<subseteq>\<^sub>m seen_by s5 S'" using le1 u(4) by (rule map_le_trans)
  have vb: "seen_by s5 S' ?a = Some (norm b)" using u(4) m4(3) by (force simp: map_le_def)
  note fu = fblk_upd [OF fo le vb _ en]
  have "fbyte (seen_by s5 S') es' p k = splice (fbyte (seen_by s S) es) path off bs p k" if "k < 2 ^ 63" for p k
    by (rule splice_block [OF bs bd that m, of "norm b"]) (use p(6,7) fu(1) in simp_all)
  moreover have "dirs es' = dirs es" by (auto simp: u(6) dir_eff_def msg_for_def fun_eq_iff)
  ultimately have "wrote s S es (splice (fbyte (seen_by s S) es) path off bs) 1 s5 S' es'"
    using u(2,3,5,7) fu(2) p(6) le q rw m4(4,5,7,8) fb1 by (auto simp: wrote_def upserted_def)
  moreover have "write_blk s path off bs = Some (s5, Inr ())"
    using o(1) p u(1) by (simp add: write_blk_def Let_def)
  ultimately show ?thesis by blast
qed

section \<open>Whole writes\<close>

text \<open>The number of blocks a range of bytes touches.\<close>

definition nblks :: "nat \<Rightarrow> nat \<Rightarrow> nat" where
  "nblks off n = (if n = 0 then 0 else (off mod 16384 + n - 1) div 16384 + 1)"

lemma nblks_step:
  assumes "0 < n" and k: "k = min (16384 - off mod 16384) n"
  shows "nblks off n = Suc (nblks (off + k) (n - k))"
proof (cases "k = n")
  case True
  then have "off mod 16384 + n \<le> 16384" using k assms(1) mod_less_divisor [of 16384 off] by linarith
  then show ?thesis using True assms(1) by (simp add: nblks_def)
next
  case False
  have r: "off mod 16384 < 16384" by simp
  then have kk: "k = 16384 - off mod 16384" "k < n" using False k by linarith+
  have "off + k = 16384 * (off div 16384) + (off mod 16384 + k)" by simp
  also have "\<dots> = 16384 * Suc (off div 16384)" using kk r by simp
  finally have "(off + k) mod 16384 = 0" by (metis mod_mult_self1_is_0)
  moreover have "off mod 16384 + n - 1 = (n - k - 1) + 16384" using kk r by linarith
  then have "(off mod 16384 + n - 1) div 16384 = (n - k - 1) div 16384 + 1" by simp
  moreover have "n - k \<noteq> 0" using kk(2) by simp
  ultimately show ?thesis using assms(1) unfolding nblks_def by simp
qed

lemma wrote_trans:
  assumes a: "wrote s S es f n s1 S1 es1" and b: "wrote s1 S1 es1 (splice (fbyte (seen_by s1 S1) es1) path off bs) m s2 S2 es2"
  shows "wrote s S es (splice f path off bs) (n + m) s2 S2 es2"
proof -
  have "fbyte (seen_by s2 S2) es2 p k = splice f path off bs p k" if "k < 2 ^ 63" for p k
    using a b that by (simp add: wrote_def splice_def)
  then show ?thesis
    using a b map_le_trans [of "seen_by s S" "seen_by s1 S1" "seen_by s2 S2"] by (auto simp: wrote_def algebra_simps)
qed

lemma wrote_refl:
  "mdirs s S es \<Longrightarrow> files_ok (seen_by s S) es \<Longrightarrow> wrote s S es (fbyte (seen_by s S) es) 0 s S es"
  by (simp add: wrote_def)

lemma write_loop_bytes:
  "mdirs s S es \<Longrightarrow> files_ok (seen_by s S) es \<Longrightarrow> \<not> readonly s \<Longrightarrow>
     2 * int (nblks off (length bs)) * BLKSZ \<le> free_bytes s \<Longrightarrow> 47 * int (nblks off (length bs)) \<le> leaf_room es \<Longrightarrow>
     off + length bs \<le> 2 ^ 63 \<Longrightarrow>
     \<exists>s' S' es'. write_loop s path off bs = Some (s', Inr ())
       \<and> wrote s S es (splice (fbyte (seen_by s S) es) path off bs) (int (nblks off (length bs))) s' S' es'"
proof (induction "length bs" arbitrary: s S es off bs rule: less_induct)
  case less
  show ?case
  proof (cases "bs = []")
    case True
    have "splice f path off [] = f" for f by (auto simp: splice_def fun_eq_iff)
    then show ?thesis using True wrote_refl [OF less.prems(1,2)] by (auto simp: write_loop.simps [of _ _ _ "[]"] nblks_def)
  next
    case False
    define k where "k = min (16384 - off mod 16384) (length bs)"
    have "off mod 16384 < 16384" "0 < length bs" using False by simp_all
    then have k: "0 < k" "k \<le> length bs" "off mod 16384 + k \<le> 16384" unfolding k_def by linarith+
    let ?n = "nblks (off + k) (length bs - k)"
    have nb: "nblks off (length bs) = Suc ?n" using nblks_step [of "length bs" k off] False k_def by simp
    have l: "length (take k bs) = k" using k(2) by simp
    have "2 * BLKSZ \<le> free_bytes s" "47 \<le> leaf_room es" using less.prems(4,5) unfolding nb by simp_all
    then obtain s1 S1 es1 where w1: "write_blk s path off (take k bs) = Some (s1, Inr ())"
      "wrote s S es (splice (fbyte (seen_by s S) es) path off (take k bs)) 1 s1 S1 es1"
      using write_blk_bytes [OF less.prems(1-3), of off "take k bs" path] k less.prems(6) l by auto
    have "length (drop k bs) < length bs" using k(1) False by simp
    moreover have "mdirs s1 S1 es1" "files_ok (seen_by s1 S1) es1" "\<not> readonly s1"
      "2 * int ?n * BLKSZ \<le> free_bytes s1" "47 * int ?n \<le> leaf_room es1"
      using w1(2) less.prems(3-5) unfolding nb wrote_def by simp_all
    ultimately obtain s2 S2 es2 where w2: "write_loop s1 path (off + k) (drop k bs) = Some (s2, Inr ())"
      "wrote s1 S1 es1 (splice (fbyte (seen_by s1 S1) es1) path (off + k) (drop k bs)) (int ?n) s2 S2 es2"
      using less.hyps [of "drop k bs" s1 S1 es1 "off + k"] less.prems(6) k(2) by auto
    have "write_loop s path off bs = Some (s2, Inr ())"
      using w1(1) w2(1) False by (subst write_loop.simps) (simp add: Let_def k_def)
    moreover have "wrote s S es (splice (fbyte (seen_by s S) es) path off bs) (int (nblks off (length bs))) s2 S2 es2"
      using wrote_trans [OF w1(2) w2(2)] splice_append [of "fbyte (seen_by s S) es" path off "take k bs" "drop k bs"] l nb by simp
    ultimately show ?thesis by blast
  qed
qed

lemma fblk_same:
  assumes fo: "files_ok V es" and le: "V \<subseteq>\<^sub>m V'" and en: "\<forall>p n. entry es' (datkey p n) = entry es (datkey p n)"
  shows "fblk V' es' p n = fblk V es p n" and "files_ok V' es'" and "fbyte V' es' = fbyte V es"
proof -
  have f: "fblk V' es' p n = fblk V es p n" for p n
  proof (cases "entry es (datkey p n)")
    case None
    then show ?thesis using en by (simp add: fblk_def)
  next
    case (Some kv)
    then obtain b where "fblk V es p n = Some b" using fo unfolding files_ok_def by blast
    then show ?thesis using Some en le by (auto simp: fblk_def map_le_def dom_def split: bind_splits)
  qed
  then show "fblk V' es' p n = fblk V es p n" .
  show "files_ok V' es'" using fo en by (simp add: files_ok_def f)
  show "fbyte V' es' = fbyte V es" by (simp add: fbyte_def f fun_eq_iff)
qed

text \<open>The entry of a file after a write: length, modification time and version.\<close>

definition written_dir :: "env \<Rightarrow> nat \<Rightarrow> xdir \<Rightarrow> xdir" where
  "written_dir e cur d =
     bump_vers ((if unat (xlength d) < cur then d\<lparr>xlength := word_of_int (int cur)\<rparr> else d)\<lparr>xmtime := now_ns e\<rparr>)"

lemma dirs_xname: "mdirs s S es \<Longrightarrow> dirs es (up, n) = Some d \<Longrightarrow> xname d = Some n"
proof -
  assume md: "mdirs s S es" and d: "dirs es (up, n) = Some d"
  then obtain e where e: "entry es (dkey up n) = Some e" "kv2dir e = Some d" by (auto simp: dirs_def split: if_splits bind_splits)
  then have "e \<in> set es" "kv_k e = dkey up n" by (auto simp: entry_def find_Some_iff)
  then show ?thesis using dirent_cases [OF md, of e up] e(2) by (auto simp: matches_dkey)
qed

lemma write_file_bytes:
  assumes md: "mdirs s S es" and fo: "files_ok (seen_by s S) es" and rw: "\<not> readonly s"
    and sp: "split_path path = Some (parent, name)" and len: "length path \<le> 255" and nm: "name \<noteq> []" "name \<noteq> [0x2e]"
    and fits: "name_fits path" and p: "resolve (dirs es) parent = Inr p" and d: "dirs es (qpath (xqid p), name) = Some d"
    and bd: "unat (xlength d) < 2 ^ 63" "off + length bs < 2 ^ 63"
    and free: "(2 * int (nblks off (length bs)) + 1) * BLKSZ \<le> free_bytes s"
    and room: "47 * int (nblks off (length bs)) + 323 \<le> leaf_room es"
  shows "\<exists>s' S' es'. write_file e s path bs off = Some (s', Inr (length bs)) \<and> mdirs s' S' es' \<and> files_ok (seen_by s' S') es'
     \<and> dirs es' = (dirs es)((qpath (xqid p), name) \<mapsto> written_dir e (off + length bs) d)
     \<and> (\<forall>q k. k < 2 ^ 63 \<longrightarrow> fbyte (seen_by s' S') es' q k = splice (fbyte (seen_by s S) es) (qpath (xqid d)) off bs q k)
     \<and> seen_by s S \<subseteq>\<^sub>m seen_by s' S' \<and> snap_tree s' = snap_tree s \<and> readonly s' = readonly s \<and> sb s' = sb s
     \<and> free_bytes s' = free_bytes s - (2 * int (nblks off (length bs)) + 1) * BLKSZ
     \<and> leaf_room es - 47 * int (nblks off (length bs)) - 594 \<le> leaf_room es'"
proof -
  let ?n = "nblks off (length bs)" and ?up = "qpath (xqid p)" and ?q = "qpath (xqid d)"
  note nf = name_fitsD [OF fits sp]
  have r: "resolve (dirs es) path = Inr d" using resolve_split [OF sp len nm, of "dirs es"] p d by (simp add: node_def)
  obtain s1 s2 where w1: "walk_path s (active_tree s) path zero_dir = Some (s1, d, Inr ())"
    "walk_path s1 (active_tree s1) parent zero_dir = Some (s2, p, Inr ())" "mdirs s2 S es" "quiet S s s2"
    using walk_then_walk [OF md r p] by blast
  note q2 = quietD [OF w1(4)]
  have "files_ok (seen_by s2 S) es" "\<not> readonly s2" "2 * int ?n * BLKSZ \<le> free_bytes s2" "47 * int ?n \<le> leaf_room es" "off + length bs \<le> 2 ^ 63"
    using fo rw free room bd q2 by (simp_all add: free_bytes_def)
  then obtain s3 S3 es3 where w3: "write_loop s2 ?q off bs = Some (s3, Inr ())"
    "wrote s2 S es (splice (fbyte (seen_by s2 S) es) ?q off bs) (int ?n) s3 S3 es3"
    using write_loop_bytes [OF w1(3)] by blast
  note w3' = w3(2) [unfolded wrote_def]
  have d3: "dirs es3 = dirs es" and m3: "mdirs s3 S3 es3" using w3' by auto
  obtain s4 s5 where w5: "walk_path s3 (active_tree s3) parent p = Some (s4, p, Inr ())"
    "walk1 s4 (active_tree s4) ?up name = Some (s5, node (dirs es3) ?up name)" "mdirs s5 S3 es3" "quiet S3 s3 s5"
    using walk_then_walk1 [OF m3, of parent p p name] p d3 by auto
  note q5 = quietD [OF w5(4)]
  have nd: "node (dirs es3) ?up name = Inr d" using d d3 by (simp add: node_def)
  let ?d = "written_dir e (off + length bs) d"
  have xd: "?d = ?d\<lparr>xname := Some name\<rparr>" using dirs_xname [OF md d] by (simp add: written_dir_def bump_vers_def)
  have lt: "sint (xlength d) < int (off + length bs) \<longleftrightarrow> unat (xlength d) < off + length bs"
    using sint_small [OF bd(1)] by (simp only: of_nat_less_iff)
  have "0 < free_bytes s5" "323 \<le> leaf_room es3" "\<not> readonly s5"
    using w3' q2 q5 free room rw by (simp_all add: free_bytes_def)
  then have "\<exists>s6. btupsert s5 TActive [\<lparr>m_op = OINSERT, m_k = dkey ?up name, m_v = packdval_bytes ?d\<rparr>] = Some (s6, Inr ()) \<and> sb s6 = sb s5
      \<and> (\<forall>r. refines s5 S3 es3 (Inr ((dirs es3)((?up, name) \<mapsto> ?d))) (s6, Inr r :: errno + unit))"
    by (intro insert_refines [OF w5(3) refl refl]) (use free_bytes_pos nf xd in auto)
  then obtain s6 S6 es6 where w6: "btupsert s5 TActive [\<lparr>m_op = OINSERT, m_k = dkey ?up name, m_v = packdval_bytes ?d\<rparr>] = Some (s6, Inr ())"
    "mdirs s6 S6 es6" "dirs es6 = (dirs es3)((?up, name) \<mapsto> ?d)" "seen_by s5 S3 \<subseteq>\<^sub>m seen_by s6 S6" "snap_tree s6 = snap_tree s5"
    "\<forall>p n. entry es6 (datkey p n) = entry es3 (datkey p n)" "\<not> readonly s6"
    "sb s6 = sb s5" "free_bytes s6 = free_bytes s5 - BLKSZ" "leaf_room es3 - 594 \<le> leaf_room es6"
    by (auto simp: refines_def)
  have "files_ok (seen_by s5 S3) es3" using w3' q5 by simp
  note same = fblk_same [OF this w6(4,6)]
  have wd: "bump_vers ((if sint (xlength d) < int (off + length bs) then d\<lparr>xlength := word_of_int (int (off + length bs))\<rparr> else d)
      \<lparr>xmtime := now_ns e\<rparr>) = ?d"
    unfolding written_dir_def lt ..
  have "write_file e s path bs off = Some (s6, Inr (length bs))"
    using w1(1,2) sp w3(1) w5(1,2) nd w6(1) nf wd
    by (cases "sint (xlength d) < int (off + length bs)") (simp_all add: write_file_def Let_def del: of_nat_add int_plus)
  moreover have "seen_by s S \<subseteq>\<^sub>m seen_by s6 S6"
    by (rule map_le_trans [OF _ w6(4)]) (use w3' q2(2) q5(2) in simp)
  moreover have "sb s6 = sb s" "free_bytes s6 = free_bytes s - (2 * int ?n + 1) * BLKSZ" "leaf_room es - 47 * int ?n - 594 \<le> leaf_room es6"
    using w6(8-10) w3' q2 q5 by (simp_all add: free_bytes_def)
  ultimately show ?thesis
    using w6 d3 same(2,3) w3' q2 q5 rw by (intro exI [of _ s6] exI [of _ S6] exI [of _ es6]) simp
qed

section \<open>Symbolic links\<close>

text \<open>Adding entries keeps every path that resolves.\<close>

lemma resolve_from_mono:
  "D \<subseteq>\<^sub>m D' \<Longrightarrow> resolve_from D cs d = Inr r \<Longrightarrow> resolve_from D' cs d = Inr r"
proof (induction cs arbitrary: d)
  case (Cons c cs)
  then show ?case
    by (auto simp: node_def map_le_def dom_def split: if_splits option.splits sum.splits)
qed simp

lemma resolve_mono: "D \<subseteq>\<^sub>m D' \<Longrightarrow> resolve D p = Inr r \<Longrightarrow> resolve D' p = Inr r"
  using resolve_from_mono [of D D']
  by (auto simp: resolve_def node_def map_le_def dom_def split: if_splits option.splits sum.splits)

text \<open>
  Creating a link sends the entry, writes the target as the file's contents, and sends the entry
  again with what the write left in it.
\<close>

lemma symlink_bytes:
  fixes tgt :: "byte list"
  defines "n \<equiv> int (nblks 0 (length tgt))"
  assumes md: "mdirs s S es" and fo: "files_ok (seen_by s S) es" and rw: "\<not> readonly s"
    and sp: "split_path path = Some (parent, name)" and len: "length path \<le> 255" and nm: "name \<noteq> []" "name \<noteq> [0x2e]"
    and fits: "name_fits path" and p: "resolve (dirs es) parent = Inr p" and new: "dirs es (qpath (xqid p), name) = None"
    and bd: "length tgt < 2 ^ 63" and free: "(2 * n + 3) * BLKSZ \<le> free_bytes s" and room: "47 * n + 1782 \<le> leaf_room es"
  shows "\<exists>s' S' es'. create_symlink e e2 s tgt path = Some (s', Inr ()) \<and> mdirs s' S' es' \<and> files_ok (seen_by s' S') es'
     \<and> dirs es' = (dirs es)((qpath (xqid p), name) \<mapsto> written_dir e2 (length tgt) (new_dir e (sb_nextqid (sb s)) QTSYMLINK 0x1FF name))
     \<and> (\<forall>q k. k < 2 ^ 63 \<longrightarrow> fbyte (seen_by s' S') es' q k = splice (fbyte (seen_by s S) es) (sb_nextqid (sb s)) 0 tgt q k)
     \<and> \<not> readonly s' \<and> sb_nextqid (sb s') = sb_nextqid (sb s) + 1 \<and> free_bytes s' = free_bytes s - (2 * n + 3) * BLKSZ
     \<and> leaf_room es - 47 * n - 1782 \<le> leaf_room es'"
proof -
  let ?up = "qpath (xqid p)" and ?nd = "new_dir e (sb_nextqid (sb s)) QTSYMLINK 0x1FF name"
  let ?d = "written_dir e2 (length tgt) ?nd"
  note nf = name_fitsD [OF fits sp]
  have n0: "0 \<le> n" by (simp add: n_def)
  have xd: "?nd\<lparr>xname := Some name\<rparr> = ?nd" "?d\<lparr>xname := Some name\<rparr> = ?d" "?d\<lparr>xqid := (xqid ?d)\<lparr>qtype := QTSYMLINK\<rparr>\<rparr> = ?d"
    "qpath (xqid ?nd) = sb_nextqid (sb s)" "xlength ?nd = 0"
    by (simp_all add: new_dir_def written_dir_def bump_vers_def)
  obtain s1 where w1: "walk_path s (active_tree s) parent zero_dir = Some (s1, p, Inr ())" "mdirs s1 S es" "quiet S s s1"
    using walk_found [OF md p] by blast
  note q1 = quietD [OF w1(3)]
  let ?s1 = "s1\<lparr>sb := (sb s1)\<lparr>sb_nextqid := sb_nextqid (sb s1) + 1\<rparr>\<rparr>"
  have pos: "0 < free_bytes s" "323 \<le> leaf_room es" using free room n0 by (simp_all add: BLKSZ_def)
  have "\<exists>s2. btupsert ?s1 TActive [\<lparr>m_op = OINSERT, m_k = dkey ?up name, m_v = packdval_bytes ?nd\<rparr>] = Some (s2, Inr ()) \<and> sb s2 = sb ?s1
      \<and> (\<forall>r. refines s S es (Inr ((dirs es)((?up, name) \<mapsto> ?nd))) (s2, Inr r :: errno + unit))"
    by (rule insert_refines) (use w1(2) q1 rw pos free_bytes_pos nf xd in \<open>simp_all\<close>)
  then obtain s2 S2 es2 where w2: "btupsert ?s1 TActive [\<lparr>m_op = OINSERT, m_k = dkey ?up name, m_v = packdval_bytes ?nd\<rparr>] = Some (s2, Inr ())"
    "sb s2 = sb ?s1" "mdirs s2 S2 es2" "dirs es2 = (dirs es)((?up, name) \<mapsto> ?nd)" "seen_by s S \<subseteq>\<^sub>m seen_by s2 S2"
    "\<forall>p n. entry es2 (datkey p n) = entry es (datkey p n)" "\<not> readonly s2" "free_bytes s2 = free_bytes s - BLKSZ"
    "leaf_room es - 594 \<le> leaf_room es2"
    by (auto simp: refines_def)
  note same = fblk_same [OF fo w2(5,6)]
  have sub: "dirs es \<subseteq>\<^sub>m (dirs es)((?up, name) \<mapsto> x)" for x using new by (auto simp: map_le_def)
  have p2: "resolve (dirs es2) parent = Inr p" "dirs es2 (?up, name) = Some ?nd" using resolve_mono [OF sub p] w2(4) by simp_all
  have "\<exists>s' S' es'. write_file e2 s2 path tgt 0 = Some (s', Inr (length tgt)) \<and> mdirs s' S' es' \<and> files_ok (seen_by s' S') es'
     \<and> dirs es' = (dirs es2)((?up, name) \<mapsto> written_dir e2 (0 + length tgt) ?nd)
     \<and> (\<forall>q k. k < 2 ^ 63 \<longrightarrow> fbyte (seen_by s' S') es' q k = splice (fbyte (seen_by s2 S2) es2) (qpath (xqid ?nd)) 0 tgt q k)
     \<and> seen_by s2 S2 \<subseteq>\<^sub>m seen_by s' S' \<and> snap_tree s' = snap_tree s2 \<and> readonly s' = readonly s2 \<and> sb s' = sb s2
     \<and> free_bytes s' = free_bytes s2 - (2 * int (nblks 0 (length tgt)) + 1) * BLKSZ
     \<and> leaf_room es2 - 47 * int (nblks 0 (length tgt)) - 594 \<le> leaf_room es'"
    by (rule write_file_bytes [OF w2(3) same(2) w2(7) sp len nm fits p2])
      (use bd xd free room w2(8,9) n0 in \<open>simp_all add: n_def BLKSZ_def algebra_simps\<close>)
  then obtain s3 S3 es3 where w3: "write_file e2 s2 path tgt 0 = Some (s3, Inr (length tgt))" "mdirs s3 S3 es3" "files_ok (seen_by s3 S3) es3"
    "dirs es3 = (dirs es)((?up, name) \<mapsto> ?d)"
    "\<forall>q k. k < 2 ^ 63 \<longrightarrow> fbyte (seen_by s3 S3) es3 q k = splice (fbyte (seen_by s S) es) (sb_nextqid (sb s)) 0 tgt q k"
    "\<not> readonly s3" "sb s3 = sb s2" "free_bytes s3 = free_bytes s2 - (2 * n + 1) * BLKSZ" "leaf_room es2 - 47 * n - 594 \<le> leaf_room es3"
    using w2(4,7) xd(4) same(3) unfolding n_def by auto
  have p3: "resolve (dirs es3) parent = Inr p" "node (dirs es3) ?up name = Inr ?d"
    using resolve_mono [OF sub p] w3(4) nf by (simp_all add: node_def)
  obtain s4 s5 where w5: "walk_path s3 (active_tree s3) parent p = Some (s4, p, Inr ())"
    "walk1 s4 (active_tree s4) ?up name = Some (s5, node (dirs es3) ?up name)" "mdirs s5 S3 es3" "quiet S3 s3 s5"
    using walk_then_walk1 [OF w3(2) p3(1)] by blast
  note q5 = quietD [OF w5(4)]
  have "0 < free_bytes s5" "323 \<le> leaf_room es3" "\<not> readonly s5"
    using w3(6,8,9) w2(8,9) q5 free room n0 by (simp_all add: free_bytes_def BLKSZ_def algebra_simps)
  then have "\<exists>s6. btupsert s5 TActive [\<lparr>m_op = OINSERT, m_k = dkey ?up name, m_v = packdval_bytes ?d\<rparr>] = Some (s6, Inr ()) \<and> sb s6 = sb s5
      \<and> (\<forall>r. refines s5 S3 es3 (Inr ((dirs es3)((?up, name) \<mapsto> ?d))) (s6, Inr r :: errno + unit))"
    by (intro insert_refines [OF w5(3) refl refl]) (use free_bytes_pos nf xd in auto)
  then obtain s6 S6 es6 where w6: "btupsert s5 TActive [\<lparr>m_op = OINSERT, m_k = dkey ?up name, m_v = packdval_bytes ?d\<rparr>] = Some (s6, Inr ())"
    "mdirs s6 S6 es6" "dirs es6 = (dirs es3)((?up, name) \<mapsto> ?d)" "seen_by s5 S3 \<subseteq>\<^sub>m seen_by s6 S6"
    "\<forall>p n. entry es6 (datkey p n) = entry es3 (datkey p n)" "\<not> readonly s6"
    "sb s6 = sb s5" "free_bytes s6 = free_bytes s5 - BLKSZ" "leaf_room es3 - 594 \<le> leaf_room es6"
    by (auto simp: refines_def)
  have "files_ok (seen_by s5 S3) es3" using w3(3) q5 by simp
  note same6 = fblk_same [OF this w6(4,5)]
  have "create_symlink e e2 s tgt path = Some (s6, Inr ())"
    using w1(1) sp q1(4) w2(1) w3(1) w5(1,2) p3(2) w6(1) nf xd(3) by (simp add: create_symlink_def Let_def)
  moreover have "free_bytes s6 = free_bytes s - (2 * n + 3) * BLKSZ"
    using w6(8) w3(8) w2(8) q5 by (simp add: free_bytes_def BLKSZ_def algebra_simps)
  moreover have "leaf_room es - 47 * n - 1782 \<le> leaf_room es6" using w6(9) w3(9) w2(9) by linarith
  moreover have "sb_nextqid (sb s6) = sb_nextqid (sb s) + 1" using w6(7) q5(4) w3(7) w2(2) q1(4) by simp
  ultimately show ?thesis
    using w6(2,3,6) w3(4,5) same6(2,3) q5(2) by (intro exI [of _ s6] exI [of _ S6] exI [of _ es6]) simp
qed

end
