(* ===== verification/Mount.thy ===== *)
theory Mount
  imports Fuse Filespec
begin

text \<open>
  A mounted filesystem as a service. \<open>req\<close> are the requests the kernel sends, \<open>serve\<close> answers one with
  the callback of \<^verbatim>\<open>src/src/gefs_fuse.c\<close> that is registered for it. \<open>afs\<close> is an abstract filesystem: a
  map of directory entries, the next file id and the bytes of every file; \<open>a_serve\<close> is what a
  request means there. The locale \<open>budgeted_service\<close> is the contract between the two: a request
  that is allowed, and whose cost in blocks and in leaf bytes is covered, is answered as the
  abstract filesystem answers it. The trace lemma lifts the contract to sequences of requests.
\<close>

section \<open>Services with a budget\<close>

fun run_all :: "('q \<Rightarrow> 's \<Rightarrow> ('s \<times> 'r) option) \<Rightarrow> 'q list \<Rightarrow> 's \<Rightarrow> ('s \<times> 'r list) option" where
  "run_all f [] s = Some (s, [])"
| "run_all f (q # qs) s = do { (s, r) \<leftarrow> f q s; (s, rs) \<leftarrow> run_all f qs s; Some (s, r # rs) }"

fun spec_all :: "('q \<Rightarrow> 'a \<Rightarrow> 'a \<times> 'r) \<Rightarrow> 'q list \<Rightarrow> 'a \<Rightarrow> 'a \<times> 'r list" where
  "spec_all f [] a = (a, [])"
| "spec_all f (q # qs) a = (let (a, r) = f q a; (a, rs) = spec_all f qs a in (a, r # rs))"

fun all_allowed :: "('q \<Rightarrow> 'a \<Rightarrow> 'a \<times> 'r) \<Rightarrow> ('q \<Rightarrow> 'a \<Rightarrow> bool) \<Rightarrow> 'q list \<Rightarrow> 'a \<Rightarrow> bool" where
  "all_allowed f P [] a = True"
| "all_allowed f P (q # qs) a \<longleftrightarrow> P q a \<and> all_allowed f P qs (fst (f q a))"

locale budgeted_service =
  fixes inv :: "'s \<Rightarrow> 'a \<Rightarrow> int \<Rightarrow> int \<Rightarrow> bool"
    and run :: "'q \<Rightarrow> 's \<Rightarrow> ('s \<times> 'r) option"
    and spec :: "'q \<Rightarrow> 'a \<Rightarrow> 'a \<times> 'r"
    and allowed :: "'q \<Rightarrow> 'a \<Rightarrow> bool"
    and blocks :: "'q \<Rightarrow> int"
    and room :: "'q \<Rightarrow> int"
  assumes cost_nonneg: "0 \<le> blocks q" "0 \<le> room q"
    and answer: "inv s a (b + blocks q) (r + room q) \<Longrightarrow> 0 \<le> b \<Longrightarrow> 0 \<le> r \<Longrightarrow> allowed q a \<Longrightarrow>
      \<exists>s'. run q s = Some (s', snd (spec q a)) \<and> inv s' (fst (spec q a)) b r"
begin

lemma trace:
  "inv s a (b + sum_list (map blocks qs)) (r + sum_list (map room qs)) \<Longrightarrow> 0 \<le> b \<Longrightarrow> 0 \<le> r \<Longrightarrow> all_allowed spec allowed qs a \<Longrightarrow>
     \<exists>s'. run_all run qs s = Some (s', snd (spec_all spec qs a)) \<and> inv s' (fst (spec_all spec qs a)) b r"
proof (induction qs arbitrary: s a)
  case (Cons q qs)
  let ?b = "b + sum_list (map blocks qs)" and ?r = "r + sum_list (map room qs)"
  have "0 \<le> sum_list (map blocks qs)" "0 \<le> sum_list (map room qs)"
    by (rule sum_list_nonneg; use cost_nonneg in auto)+
  then have "0 \<le> ?b" "0 \<le> ?r" using Cons.prems(2,3) by simp_all
  moreover have "inv s a (?b + blocks q) (?r + room q)" using Cons.prems(1) by (simp add: ac_simps)
  ultimately obtain s1 where s1: "run q s = Some (s1, snd (spec q a))" "inv s1 (fst (spec q a)) ?b ?r"
    using answer [of s a ?b q ?r] Cons.prems(4) by auto
  then obtain s2 where "run_all run qs s1 = Some (s2, snd (spec_all spec qs (fst (spec q a))))"
    "inv s2 (fst (spec_all spec qs (fst (spec q a)))) b r"
    using Cons.IH [OF s1(2) Cons.prems(2,3)] Cons.prems(4) by auto
  then show ?case using s1 by (auto simp: case_prod_unfold Let_def)
qed simp

end

section \<open>Requests and the abstract filesystem\<close>

datatype req =
    ReqCreate env "byte list" u32
  | ReqMkdir env "byte list" u32
  | ReqUnlink "byte list"
  | ReqRmdir "byte list"
  | ReqRename "byte list" "byte list"
  | ReqTruncate env "byte list" u64
  | ReqChmod "byte list" u32
  | ReqChown "byte list" u32 u32
  | ReqUtimens env "byte list" "((int \<times> int) \<times> (int \<times> int)) option"
  | ReqWrite env "byte list" "byte list" nat
  | ReqRead "byte list" nat nat
  | ReqGetattr env "byte list"
  | ReqReaddir "byte list"
  | ReqReadlink "byte list" nat
  | ReqOpen env "byte list" bool
  | ReqSymlink env env "byte list" "byte list"

text \<open>
  \<open>Names\<close> is a listing: its first two names, how many follow, and which. The order of the names that
  follow is that of the keys (\<^verbatim>\<open>Listing\<close>); with the count, the set says that none is listed twice.
\<close>

datatype resp = Done | Count nat | Data "byte list" | Attr stat | Names "byte list list" nat "byte list set" | Err errno

definition listing :: "byte list list \<Rightarrow> resp" where
  "listing ns = Names (take 2 ns) (length ns - 2) (set (drop 2 ns))"

definition reply :: "('r \<Rightarrow> resp) \<Rightarrow> (ctx \<times> (errno + 'r)) option \<Rightarrow> (ctx \<times> resp) option" where
  "reply f x = map_option (\<lambda>(s, r). (s, case r of Inl e \<Rightarrow> Err e | Inr v \<Rightarrow> f v)) x"

fun serve :: "req \<Rightarrow> ctx \<Rightarrow> (ctx \<times> resp) option" where
  "serve (ReqCreate e p m) s = reply (\<lambda>_. Done) (fuse_create e s p m)"
| "serve (ReqMkdir e p m) s = reply (\<lambda>_. Done) (fuse_mkdir e s p m)"
| "serve (ReqUnlink p) s = reply (\<lambda>_. Done) (fuse_unlink s p)"
| "serve (ReqRmdir p) s = reply (\<lambda>_. Done) (fuse_rmdir s p)"
| "serve (ReqRename p p') s = reply (\<lambda>_. Done) (fuse_rename s p p')"
| "serve (ReqTruncate e p n) s = reply (\<lambda>_. Done) (fuse_truncate e s p n)"
| "serve (ReqChmod p m) s = reply (\<lambda>_. Done) (fuse_chmod s p m)"
| "serve (ReqChown p u g) s = reply (\<lambda>_. Done) (fuse_chown s p u g)"
| "serve (ReqUtimens e p tv) s = reply (\<lambda>_. Done) (fuse_utimens e s p tv)"
| "serve (ReqWrite e p bs off) s = reply Count (fuse_write e s p bs off)"
| "serve (ReqRead p n off) s = reply Data (fuse_read s p n off)"
| "serve (ReqGetattr e p) s = reply Attr (fuse_getattr e s p)"
| "serve (ReqReaddir p) s = reply listing (fuse_readdir (\<lambda>xs n st. (xs @ [n], False)) s p [])"
| "serve (ReqReadlink p n) s = reply Data (fuse_readlink s p n)"
| "serve (ReqOpen e p trunc) s = reply (\<lambda>_. Done) (fuse_open e s p trunc)"
| "serve (ReqSymlink e e2 tgt p) s = reply (\<lambda>_. Done) (fuse_symlink e e2 s tgt p)"

record afs =
  a_dirs :: dirmap
  a_next :: u64
  a_file :: "u64 \<Rightarrow> nat \<Rightarrow> byte"

definition a_set :: "afs \<Rightarrow> u64 \<Rightarrow> errno + dirmap \<Rightarrow> afs \<times> resp" where
  "a_set a n r = (case r of Inl e \<Rightarrow> (a, Err e) | Inr D \<Rightarrow> (a\<lparr>a_dirs := D, a_next := a_next a + n\<rparr>, Done))"

definition a_write :: "afs \<Rightarrow> env \<Rightarrow> byte list \<Rightarrow> byte list \<Rightarrow> nat \<Rightarrow> afs \<times> resp" where
  "a_write a e p bs off =
     (case resolve (a_dirs a) p of
        Inl er \<Rightarrow> (a, Err er)
      | Inr d \<Rightarrow>
          (case place (a_dirs a) p of
             None \<Rightarrow> (a, Err EINVAL)
           | Some at \<Rightarrow>
               (a\<lparr>a_dirs := (a_dirs a)(at \<mapsto> written_dir e (off + length bs) d),
                  a_file := splice (a_file a) (qpath (xqid d)) off bs\<rparr>, Count (length bs))))"

definition a_read :: "afs \<Rightarrow> byte list \<Rightarrow> nat \<Rightarrow> nat \<Rightarrow> resp" where
  "a_read a p n off =
     (case resolve (a_dirs a) p of
        Inl _ \<Rightarrow> Err ENOENT
      | Inr d \<Rightarrow>
          if is_dir d then Err EISDIR
          else Data (map (a_file a (qpath (xqid d))) [off..<min (off + n) (unat (xlength d))]))"

text \<open>The names in the directory with the given id.\<close>

definition names_in :: "dirmap \<Rightarrow> u64 \<Rightarrow> byte list set" where
  "names_in D q = {n. n \<noteq> [] \<and> D (q, n) \<noteq> None}"

definition a_readlink :: "afs \<Rightarrow> byte list \<Rightarrow> nat \<Rightarrow> resp" where
  "a_readlink a p n =
     (case resolve (a_dirs a) p of
        Inl _ \<Rightarrow> Err ENOENT
      | Inr d \<Rightarrow>
          if qtype (xqid d) AND QTSYMLINK = 0 then Err EINVAL
          else Data (map (a_file a (qpath (xqid d))) [0..<min (n - 1) (unat (xlength d))] @ [0]))"

text \<open>A symbolic link is an entry whose contents are the bytes of the target.\<close>

definition a_symlink :: "afs \<Rightarrow> env \<Rightarrow> env \<Rightarrow> byte list \<Rightarrow> byte list \<Rightarrow> afs \<times> resp" where
  "a_symlink a e e2 tgt p =
     (case split_path p of
        None \<Rightarrow> (a, Err EINVAL)
      | Some (parent, name) \<Rightarrow>
          (case resolve (a_dirs a) parent of
             Inl er \<Rightarrow> (a, Err er)
           | Inr pd \<Rightarrow>
               (a\<lparr>a_dirs := (a_dirs a)((qpath (xqid pd), name) \<mapsto>
                    written_dir e2 (length tgt) (new_dir e (a_next a) QTSYMLINK 0x1FF name)),
                  a_next := a_next a + 1, a_file := splice (a_file a) (a_next a) 0 tgt\<rparr>, Done)))"

fun a_serve :: "req \<Rightarrow> afs \<Rightarrow> afs \<times> resp" where
  "a_serve (ReqCreate e p m) a = a_set a 1 (a_create (a_dirs a) p (new_dir e (a_next a) QTFILE (m AND 0x1FF)))"
| "a_serve (ReqMkdir e p m) a = a_set a 1 (a_create (a_dirs a) p (new_dir e (a_next a) QTDIR (DMDIR OR (m AND 0x1FF))))"
| "a_serve (ReqUnlink p) a = a_set a 0 (a_unlink (a_dirs a) p)"
| "a_serve (ReqRmdir p) a = a_set a 0 (a_rmdir (a_dirs a) p)"
| "a_serve (ReqRename p p') a = a_set a 0 (a_rename (a_dirs a) p p')"
| "a_serve (ReqTruncate e p n) a =
     a_set a 0 (a_update (a_dirs a) p (\<lambda>d. bump_vers (d\<lparr>xlength := n, xmtime := now_ns e\<rparr>)))"
| "a_serve (ReqChmod p m) a =
     a_set a 0 (a_update (a_dirs a) p (\<lambda>d. bump_vers (d\<lparr>xmode := (xmode d AND NOT 0x1FF) OR (m AND 0x1FF)\<rparr>)))"
| "a_serve (ReqChown p u g) a =
     a_set a 0 (a_update (a_dirs a) p (\<lambda>d.
       let d = (if u \<noteq> - 1 then d\<lparr>xuid := u\<rparr> else d);
           d = (if g \<noteq> - 1 then d\<lparr>xgid := g\<rparr> else d)
       in bump_vers d))"
| "a_serve (ReqUtimens e p tv) a = a_set a 0 (a_update (a_dirs a) p (set_times e tv))"
| "a_serve (ReqWrite e p bs off) a = a_write a e p bs off"
| "a_serve (ReqRead p n off) a = (a, a_read a p n off)"
| "a_serve (ReqGetattr e p) a =
     (a, case resolve (a_dirs a) p of Inl _ \<Rightarrow> Err ENOENT | Inr d \<Rightarrow> Attr (attr_of e d))"
| "a_serve (ReqReaddir p) a =
     (a, case resolve (a_dirs a) p of
           Inl _ \<Rightarrow> Err ENOENT
         | Inr d \<Rightarrow>
             if \<not> is_dir d then Err ENOTDIR
             else let ns = names_in (a_dirs a) (qpath (xqid d)) in Names [cstr ''.'', cstr ''..''] (card ns) ns)"
| "a_serve (ReqReadlink p n) a = (a, a_readlink a p n)"
| "a_serve (ReqOpen e p trunc) a =
     (case resolve (a_dirs a) p of
        Inl _ \<Rightarrow> (a, Err ENOENT)
      | Inr d \<Rightarrow>
          if is_dir d then (a, Err EISDIR)
          else if trunc then
            (fst (a_set a 0 (a_update (a_dirs a) p (\<lambda>d. bump_vers (d\<lparr>xlength := 0, xmtime := now_ns e\<rparr>)))), Done)
          else (a, Done))"
| "a_serve (ReqSymlink e e2 tgt p) a = a_symlink a e e2 tgt p"

text \<open>
  Requests inside the model: paths of C strings whose last component fits a key, a rename that
  moves its entry, offsets and lengths of \<^verbatim>\<open>off_t\<close>, times that fit 64 bits in nanoseconds, a symbolic link at a free name, a buffer for its target.
\<close>

definition writable :: "dirmap \<Rightarrow> byte list \<Rightarrow> bool" where
  "writable D p \<longleftrightarrow> name_fits p \<and> length p \<le> 255
     \<and> (case resolve D p of
          Inl _ \<Rightarrow> True
        | Inr d \<Rightarrow> unat (xlength d) < 2 ^ 63
            \<and> (case split_path p of None \<Rightarrow> False | Some (_, name) \<Rightarrow> name \<noteq> [] \<and> name \<noteq> [0x2e]))"

definition linkable :: "dirmap \<Rightarrow> byte list \<Rightarrow> bool" where
  "linkable D p \<longleftrightarrow> name_fits p \<and> length p \<le> 255
     \<and> (case split_path p of
          None \<Rightarrow> True
        | Some (parent, name) \<Rightarrow>
            (case resolve D parent of
               Inl _ \<Rightarrow> True
             | Inr pd \<Rightarrow> name \<noteq> [] \<and> name \<noteq> [0x2e] \<and> D (qpath (xqid pd), name) = None))"

fun allowed :: "req \<Rightarrow> afs \<Rightarrow> bool" where
  "allowed (ReqRename p p') a \<longleftrightarrow> name_fits p \<and> name_fits p' \<and> place (a_dirs a) p \<noteq> place (a_dirs a) p'"
| "allowed (ReqWrite e p bs off) a \<longleftrightarrow> writable (a_dirs a) p \<and> off + length bs < 2 ^ 63"
| "allowed (ReqRead p n off) a \<longleftrightarrow>
     (case resolve (a_dirs a) p of Inl _ \<Rightarrow> True | Inr d \<Rightarrow> unat (xlength d) < 2 ^ 63) \<and> off + n < 2 ^ 63"
| "allowed (ReqGetattr e p) a \<longleftrightarrow> True"
| "allowed (ReqCreate e p m) a \<longleftrightarrow> name_fits p"
| "allowed (ReqMkdir e p m) a \<longleftrightarrow> name_fits p"
| "allowed (ReqUnlink p) a \<longleftrightarrow> name_fits p"
| "allowed (ReqRmdir p) a \<longleftrightarrow> name_fits p"
| "allowed (ReqTruncate e p n) a \<longleftrightarrow> name_fits p"
| "allowed (ReqChmod p m) a \<longleftrightarrow> name_fits p"
| "allowed (ReqChown p u g) a \<longleftrightarrow> name_fits p"
| "allowed (ReqUtimens e p tv) a \<longleftrightarrow> name_fits p \<and> (case tv of None \<Rightarrow> True | Some (t, m) \<Rightarrow> times_fit t \<and> times_fit m)"
| "allowed (ReqReaddir p) a \<longleftrightarrow> True"
| "allowed (ReqReadlink p n) a \<longleftrightarrow>
     (case resolve (a_dirs a) p of Inl _ \<Rightarrow> True | Inr d \<Rightarrow> unat (xlength d) < 2 ^ 63) \<and> 0 < n \<and> n \<le> 2 ^ 63"
| "allowed (ReqOpen e p trunc) a \<longleftrightarrow> name_fits p"
| "allowed (ReqSymlink e e2 tgt p) a \<longleftrightarrow> linkable (a_dirs a) p \<and> length tgt < 2 ^ 63"

text \<open>What a request may take: blocks of the device and bytes of the leaf.\<close>

fun req_blocks :: "req \<Rightarrow> int" where
  "req_blocks (ReqWrite e p bs off) = 2 * int (nblks off (length bs)) + 1"
| "req_blocks (ReqRead p n off) = 0"
| "req_blocks (ReqGetattr e p) = 0"
| "req_blocks (ReqReaddir p) = 0"
| "req_blocks (ReqReadlink p n) = 0"
| "req_blocks (ReqSymlink e e2 tgt p) = 2 * int (nblks 0 (length tgt)) + 3"
| "req_blocks _ = 1"

fun req_room :: "req \<Rightarrow> int" where
  "req_room (ReqWrite e p bs off) = 47 * int (nblks off (length bs)) + 594"
| "req_room (ReqRead p n off) = 0"
| "req_room (ReqGetattr e p) = 0"
| "req_room (ReqReaddir p) = 0"
| "req_room (ReqReadlink p n) = 0"
| "req_room (ReqSymlink e e2 tgt p) = 47 * int (nblks 0 (length tgt)) + 1782"
| "req_room _ = 594"

text \<open>A context that stands for an abstract filesystem, with so many blocks and bytes left.\<close>

definition stands_for :: "ctx \<Rightarrow> afs \<Rightarrow> int \<Rightarrow> int \<Rightarrow> bool" where
  "stands_for s a b r \<longleftrightarrow> (\<exists>S es.
     mdirs s S es \<and> files_ok (seen_by s S) es \<and> \<not> readonly s
     \<and> dirs es = a_dirs a \<and> sb_nextqid (sb s) = a_next a
     \<and> (\<forall>q k. k < 2 ^ 63 \<longrightarrow> fbyte (seen_by s S) es q k = a_file a q k)
     \<and> b * BLKSZ \<le> free_bytes s \<and> r \<le> leaf_room es)"

lemma stands_quiet:
  assumes "mdirs s' S es" "quiet S s s'" "files_ok (seen_by s S) es" "\<not> readonly s" "dirs es = a_dirs a" "sb_nextqid (sb s) = a_next a"
    "\<forall>q k. k < 2 ^ 63 \<longrightarrow> fbyte (seen_by s S) es q k = a_file a q k" "b' * BLKSZ \<le> free_bytes s" "r' \<le> leaf_room es" "b \<le> b'" "r \<le> r'"
  shows "stands_for s' a b r"
proof -
  note q = quietD [OF assms(2)]
  have "b * BLKSZ \<le> free_bytes s'" using assms(8,10) q by (simp add: free_bytes_def)
  then show ?thesis
    unfolding stands_for_def by (intro exI [of _ S] exI [of _ es]) (use assms q in simp)
qed

lemma stands_refines:
  assumes ref: "refines s S es x (s', r)" and fo: "files_ok (seen_by s S) es" and rw: "\<not> readonly s" and d: "dirs es = a_dirs a"
    and n: "sb_nextqid (sb s) = a_next a" "sb_nextqid (sb s') = a_next a + (if isl r then 0 else n)"
    and f: "\<forall>q k. k < 2 ^ 63 \<longrightarrow> fbyte (seen_by s S) es q k = a_file a q k"
    and b: "(b + 1) * BLKSZ \<le> free_bytes s" and m: "m + 594 \<le> leaf_room es" and md: "mdirs s S es"
  shows "stands_for s' (fst (a_set a n x)) b m \<and> (case r of Inl e \<Rightarrow> Err e | Inr _ \<Rightarrow> Done) = snd (a_set a n x)"
proof (cases x)
  case (Inl er)
  then have "r = Inl er" "quiet S s s'" "mdirs s' S es" using ref by (auto simp: refines_def)
  then show ?thesis
    using stands_quiet [of s' S es s a "b + 1" "m + 594" b m] fo rw d n f b m Inl by (simp add: a_set_def)
next
  case (Inr D)
  then obtain S' es' where u: "\<not> isl r" "\<not> readonly s'" "free_bytes s' = free_bytes s - BLKSZ" "mdirs s' S' es'" "dirs es' = D"
    "seen_by s S \<subseteq>\<^sub>m seen_by s' S'" "leaf_room es - 594 \<le> leaf_room es'" "\<forall>p n. entry es' (datkey p n) = entry es (datkey p n)"
    using ref by (auto simp: refines_def)
  note same = fblk_same [OF fo u(6,8)]
  have "stands_for s' (a\<lparr>a_dirs := D, a_next := a_next a + n\<rparr>) b m"
    unfolding stands_for_def
    by (intro exI [of _ S'] exI [of _ es']) (use u same(2,3) n f b m in simp)
  then show ?thesis using Inr u(1) by (auto simp: a_set_def split: sum.splits)
qed

text \<open>A callback that refines an operation on the directories answers as the abstract filesystem.\<close>

lemma answer_ns:
  fixes f :: "ctx \<Rightarrow> (ctx \<times> (errno + 'r)) option"
  assumes st: "stands_for s a (b + 1) (m + 594)" and nn: "0 \<le> b" "0 \<le> m"
    and op: "\<And>S es. mdirs s S es \<Longrightarrow> \<not> readonly s \<Longrightarrow> free_ranges s \<noteq> [] \<Longrightarrow> 594 \<le> leaf_room es \<Longrightarrow> dirs es = a_dirs a \<Longrightarrow>
      \<exists>s' r. f s = Some (s', r) \<and> refines s S es x (s', r) \<and> sb_nextqid (sb s') = sb_nextqid (sb s) + (if isl r then 0 else n)"
  shows "\<exists>s'. reply (\<lambda>_. Done) (guarded s f) = Some (s', snd (a_set a n x)) \<and> stands_for s' (fst (a_set a n x)) b m"
proof -
  obtain S es where i: "mdirs s S es" "files_ok (seen_by s S) es" "\<not> readonly s" "dirs es = a_dirs a" "sb_nextqid (sb s) = a_next a"
    "\<forall>q k. k < 2 ^ 63 \<longrightarrow> fbyte (seen_by s S) es q k = a_file a q k" "(b + 1) * BLKSZ \<le> free_bytes s" "m + 594 \<le> leaf_room es"
    using st unfolding stands_for_def by blast
  have "free_ranges s \<noteq> []" "594 \<le> leaf_room es" using free_bytes_pos [of s] i(7,8) nn by auto
  then obtain s' r where r: "f s = Some (s', r)" "refines s S es x (s', r)"
    "sb_nextqid (sb s') = sb_nextqid (sb s) + (if isl r then 0 else n)"
    using op i(1,3,4) by blast
  then show ?thesis
    using stands_refines [OF r(2) i(2-5) _ i(6-8,1), of n] i(3,5) by (auto simp: guarded_def reply_def)
qed

lemma create_count:
  "\<exists>s' r. x = Some (s', r) \<and> refines s S es y (s', r) \<and> (\<not> isl r \<longrightarrow> sb_nextqid (sb s') = sb_nextqid (sb s) + 1) \<Longrightarrow>
     \<exists>s' r. x = Some (s', r) \<and> refines s S es y (s', r) \<and> sb_nextqid (sb s') = sb_nextqid (sb s) + (if isl r then 0 else 1)"
  by (cases y) (auto simp: refines_def quietD)

lemma keep_count:
  "\<exists>s' r. x = Some (s', r) \<and> refines s S es y (s', r) \<and> sb s' = sb s \<Longrightarrow>
     \<exists>s' r. x = Some (s', r) \<and> refines s S es y (s', r) \<and> sb_nextqid (sb s') = sb_nextqid (sb s) + (if isl r then 0 else 0)"
  by auto

lemma answer_update:
  assumes "stands_for s a (b + 1) (m + 594)" and "0 \<le> b" "0 \<le> m" and "name_fits p"
  shows "\<exists>s'. reply (\<lambda>_. Done) (guarded s (\<lambda>s. update_entry s p f)) = Some (s', snd (a_set a 0 (a_update (a_dirs a) p f)))
     \<and> stands_for s' (fst (a_set a 0 (a_update (a_dirs a) p f))) b m"
proof (rule answer_ns [OF assms(1-3)])
  fix S es
  assume "mdirs s S es" "\<not> readonly s" "free_ranges s \<noteq> []" "594 \<le> leaf_room es" "dirs es = a_dirs a"
  then show "\<exists>s' r. update_entry s p f = Some (s', r) \<and> refines s S es (a_update (a_dirs a) p f) (s', r)
      \<and> sb_nextqid (sb s') = sb_nextqid (sb s) + (if isl r then 0 else 0)"
    using update_entry_refines [of s S es p f] assms(4) by (intro keep_count) simp
qed

lemma answer_create:
  assumes "stands_for s a (b + 1) (m + 594)" and "0 \<le> b" "0 \<le> m" and "name_fits p"
  shows "\<exists>s'. serve (ReqCreate e p md) s = Some (s', snd (a_serve (ReqCreate e p md) a)) \<and> stands_for s' (fst (a_serve (ReqCreate e p md) a)) b m"
    and "\<exists>s'. serve (ReqMkdir e p md) s = Some (s', snd (a_serve (ReqMkdir e p md) a)) \<and> stands_for s' (fst (a_serve (ReqMkdir e p md) a)) b m"
proof -
  have q: "sb_nextqid (sb s) = a_next a" using assms(1) by (auto simp: stands_for_def)
  show "\<exists>s'. serve (ReqCreate e p md) s = Some (s', snd (a_serve (ReqCreate e p md) a)) \<and> stands_for s' (fst (a_serve (ReqCreate e p md) a)) b m"
    unfolding serve.simps a_serve.simps fuse_create_def
  proof (rule answer_ns [OF assms(1-3)])
    fix S es
    assume a: "mdirs s S es" "\<not> readonly s" "free_ranges s \<noteq> []" "594 \<le> leaf_room es" "dirs es = a_dirs a"
    then show "\<exists>s' r. create_file e s p md = Some (s', r)
        \<and> refines s S es (a_create (a_dirs a) p (new_dir e (a_next a) QTFILE (md AND 0x1FF))) (s', r)
        \<and> sb_nextqid (sb s') = sb_nextqid (sb s) + (if isl r then 0 else 1)"
      using create_file_refines [OF a(1-3) _ assms(4), of e md] by (intro create_count) (simp add: q)
  qed
  show "\<exists>s'. serve (ReqMkdir e p md) s = Some (s', snd (a_serve (ReqMkdir e p md) a)) \<and> stands_for s' (fst (a_serve (ReqMkdir e p md) a)) b m"
    unfolding serve.simps a_serve.simps fuse_mkdir_def
  proof (rule answer_ns [OF assms(1-3)])
    fix S es
    assume a: "mdirs s S es" "\<not> readonly s" "free_ranges s \<noteq> []" "594 \<le> leaf_room es" "dirs es = a_dirs a"
    then show "\<exists>s' r. create_dir e s p md = Some (s', r)
        \<and> refines s S es (a_create (a_dirs a) p (new_dir e (a_next a) QTDIR (DMDIR OR (md AND 0x1FF)))) (s', r)
        \<and> sb_nextqid (sb s') = sb_nextqid (sb s) + (if isl r then 0 else 1)"
      using create_dir_refines [OF a(1-3) _ assms(4), of e md] by (intro create_count) (simp add: q)
  qed
qed

lemma answer_remove:
  assumes "stands_for s a (b + 1) (m + 594)" and "0 \<le> b" "0 \<le> m" and "name_fits p"
  shows "\<exists>s'. serve (ReqUnlink p) s = Some (s', snd (a_serve (ReqUnlink p) a)) \<and> stands_for s' (fst (a_serve (ReqUnlink p) a)) b m"
    and "\<exists>s'. serve (ReqRmdir p) s = Some (s', snd (a_serve (ReqRmdir p) a)) \<and> stands_for s' (fst (a_serve (ReqRmdir p) a)) b m"
    and "name_fits p' \<Longrightarrow> place (a_dirs a) p \<noteq> place (a_dirs a) p' \<Longrightarrow>
      \<exists>s'. serve (ReqRename p p') s = Some (s', snd (a_serve (ReqRename p p') a)) \<and> stands_for s' (fst (a_serve (ReqRename p p') a)) b m"
proof -
  show "\<exists>s'. serve (ReqUnlink p) s = Some (s', snd (a_serve (ReqUnlink p) a)) \<and> stands_for s' (fst (a_serve (ReqUnlink p) a)) b m"
    unfolding serve.simps a_serve.simps fuse_unlink_def
    by (rule answer_ns [OF assms(1-3)], rule keep_count, drule sym [of "dirs _"], simp, rule unlink_refines) (use assms(4) in simp_all)
  show "\<exists>s'. serve (ReqRmdir p) s = Some (s', snd (a_serve (ReqRmdir p) a)) \<and> stands_for s' (fst (a_serve (ReqRmdir p) a)) b m"
    unfolding serve.simps a_serve.simps fuse_rmdir_def
    by (rule answer_ns [OF assms(1-3)], rule keep_count, drule sym [of "dirs _"], simp, rule rmdir_refines) (use assms(4) in simp_all)
  assume mv: "name_fits p'" "place (a_dirs a) p \<noteq> place (a_dirs a) p'"
  show "\<exists>s'. serve (ReqRename p p') s = Some (s', snd (a_serve (ReqRename p p') a)) \<and> stands_for s' (fst (a_serve (ReqRename p p') a)) b m"
    unfolding serve.simps a_serve.simps fuse_rename_def
    by (rule answer_ns [OF assms(1-3)], rule keep_count, drule sym [of "dirs _"], simp, rule rename_refines) (use assms(4) mv in simp_all)
qed

text \<open>Reading and writing files.\<close>

lemma answer_walk:
  assumes "mdirs s S es" and "resolve (dirs es) p = Inl er" and "\<not> readonly s"
  shows "\<exists>s'. fuse_write e s p bs off = Some (s', Inl er) \<and> mdirs s' S es \<and> quiet S s s'"
    and "\<exists>s'. fuse_read s p n off = Some (s', Inl ENOENT) \<and> mdirs s' S es \<and> quiet S s s'"
    and "\<exists>s'. fuse_getattr e s p = Some (s', Inl ENOENT) \<and> mdirs s' S es \<and> quiet S s s'"
  using walk_err [OF assms(1,2), of zero_dir] assms(3)
  by (auto simp: fuse_write_def fuse_read_def fuse_getattr_def guarded_def write_file_def)

lemma answer_write:
  assumes st: "stands_for s a (b + req_blocks (ReqWrite e p bs off)) (m + req_room (ReqWrite e p bs off))" and nn: "0 \<le> b" "0 \<le> m"
    and al: "writable (a_dirs a) p" "off + length bs < 2 ^ 63"
  shows "\<exists>s'. serve (ReqWrite e p bs off) s = Some (s', snd (a_write a e p bs off)) \<and> stands_for s' (fst (a_write a e p bs off)) b m"
proof -
  let ?n = "nblks off (length bs)"
  obtain S es where i: "mdirs s S es" "files_ok (seen_by s S) es" "\<not> readonly s" "dirs es = a_dirs a" "sb_nextqid (sb s) = a_next a"
    "\<forall>q k. k < 2 ^ 63 \<longrightarrow> fbyte (seen_by s S) es q k = a_file a q k" "(b + (2 * int ?n + 1)) * BLKSZ \<le> free_bytes s"
    "m + (47 * int ?n + 594) \<le> leaf_room es"
    using st unfolding stands_for_def req_blocks.simps req_room.simps by blast
  show ?thesis
  proof (cases "resolve (a_dirs a) p")
    case (Inl er)
    then obtain s' where "fuse_write e s p bs off = Some (s', Inl er)" "mdirs s' S es" "quiet S s s'"
      using answer_walk(1) [OF i(1) _ i(3), of p er e bs off] i(4) by auto
    then show ?thesis
      using stands_quiet [OF _ _ i(2-8), of s' b m] Inl by (simp add: reply_def a_write_def)
  next
    case (Inr d)
    then obtain parent name where sp: "split_path p = Some (parent, name)" "name \<noteq> []" "name \<noteq> [0x2e]" "length p \<le> 255" "name_fits p"
      "unat (xlength d) < 2 ^ 63"
      using al(1) by (auto simp: writable_def split: option.splits)
    then obtain pd where pd: "resolve (a_dirs a) parent = Inr pd" "a_dirs a (qpath (xqid pd), name) = Some d"
      using resolve_split [OF sp(1,4,2,3), of "a_dirs a"] Inr by (auto simp: node_def split: sum.splits option.splits)
    have "(2 * int ?n + 1) * BLKSZ \<le> free_bytes s" "47 * int ?n + 323 \<le> leaf_room es" using i(7,8) nn by simp_all
    then obtain s' S' es' where w: "write_file e s p bs off = Some (s', Inr (length bs))" "mdirs s' S' es'" "files_ok (seen_by s' S') es'"
      "dirs es' = (dirs es)((qpath (xqid pd), name) \<mapsto> written_dir e (off + length bs) d)"
      "\<forall>q k. k < 2 ^ 63 \<longrightarrow> fbyte (seen_by s' S') es' q k = splice (fbyte (seen_by s S) es) (qpath (xqid d)) off bs q k"
      "readonly s' = readonly s" "sb s' = sb s" "free_bytes s' = free_bytes s - (2 * int ?n + 1) * BLKSZ"
      "leaf_room es - 47 * int ?n - 594 \<le> leaf_room es'"
      using write_file_bytes [OF i(1-3) sp(1,4,2,3,5), of pd d off bs e] pd i(4) sp(6) al(2) by auto
    have "stands_for s' (fst (a_write a e p bs off)) b m"
      unfolding stands_for_def
      by (intro exI [of _ S'] exI [of _ es'])
        (use w i Inr pd sp in \<open>simp add: a_write_def place_def splice_def\<close>)
    then show ?thesis using w(1) i(3) Inr pd sp by (simp add: reply_def fuse_write_def guarded_def a_write_def place_def)
  qed
qed

lemma answer_read:
  assumes st: "stands_for s a b m" and al: "case resolve (a_dirs a) p of Inl _ \<Rightarrow> True | Inr d \<Rightarrow> unat (xlength d) < 2 ^ 63" "off + n < 2 ^ 63"
  shows "\<exists>s'. serve (ReqRead p n off) s = Some (s', a_read a p n off) \<and> stands_for s' a b m"
proof -
  obtain S es where i: "mdirs s S es" "files_ok (seen_by s S) es" "\<not> readonly s" "dirs es = a_dirs a" "sb_nextqid (sb s) = a_next a"
    "\<forall>q k. k < 2 ^ 63 \<longrightarrow> fbyte (seen_by s S) es q k = a_file a q k" "b * BLKSZ \<le> free_bytes s" "m \<le> leaf_room es"
    using st unfolding stands_for_def by blast
  note stand = stands_quiet [OF _ _ i(2-8) order.refl order.refl]
  show ?thesis
  proof (cases "resolve (a_dirs a) p")
    case (Inl er)
    then show ?thesis
      using answer_walk(2) [OF i(1) _ i(3), of p er n off] i(4) stand by (auto simp: reply_def a_read_def)
  next
    case (Inr d)
    obtain s1 where w: "walk_path s (active_tree s) p zero_dir = Some (s1, d, Inr ())" "mdirs s1 S es" "quiet S s s1"
      using walk_found [OF i(1), of p d zero_dir] Inr i(4) by auto
    show ?thesis
    proof (cases "is_dir d")
      case True
      then show ?thesis using w Inr stand by (auto simp: fuse_read_def reply_def a_read_def)
    next
      case False
      note q = quietD [OF w(3)]
      have "files_ok (seen_by s1 S) es" using i(2) q by simp
      then obtain s2 where r: "read_file s1 (active_tree s1) d n off
          = Some (s2, map (fbyte (seen_by s1 S) es (qpath (xqid d))) [off..<min (off + n) (unat (xlength d))])"
        "mdirs s2 S es" "quiet S s1 s2"
        using read_file_bytes [OF w(2) _ _ al(2), of d] al(1) Inr by auto
      have "map (fbyte (seen_by s1 S) es (qpath (xqid d))) [off..<min (off + n) (unat (xlength d))]
          = map (a_file a (qpath (xqid d))) [off..<min (off + n) (unat (xlength d))]"
        using i(6) q al(2) by (intro map_cong) auto
      then show ?thesis
        using w(1) r Inr False stand [OF r(2) quiet_trans [OF w(3) r(3)]] by (auto simp: fuse_read_def reply_def a_read_def)
    qed
  qed
qed

lemma answer_getattr:
  assumes st: "stands_for s a b m"
  shows "\<exists>s'. serve (ReqGetattr e p) s = Some (s', snd (a_serve (ReqGetattr e p) a)) \<and> stands_for s' a b m"
proof -
  obtain S es where i: "mdirs s S es" "files_ok (seen_by s S) es" "\<not> readonly s" "dirs es = a_dirs a" "sb_nextqid (sb s) = a_next a"
    "\<forall>q k. k < 2 ^ 63 \<longrightarrow> fbyte (seen_by s S) es q k = a_file a q k" "b * BLKSZ \<le> free_bytes s" "m \<le> leaf_room es"
    using st unfolding stands_for_def by blast
  note stand = stands_quiet [OF _ _ i(2-8) order.refl order.refl]
  show ?thesis
  proof (cases "resolve (a_dirs a) p")
    case (Inl er)
    then show ?thesis
      using answer_walk(3) [OF i(1) _ i(3), of p er e] i(4) stand by (auto simp: reply_def)
  next
    case (Inr d)
    then show ?thesis
      using walk_found [OF i(1), of p d zero_dir] i(4) stand by (auto simp: fuse_getattr_def reply_def)
  qed
qed

text \<open>Listing with a filler that collects names.\<close>

lemma visit_names:
  "\<forall>c \<in> set ds. xname c \<noteq> None \<Longrightarrow>
     visit (fill_dir_cb (\<lambda>xs n st. (xs @ [n], False))) ds xs = xs @ map (the \<circ> xname) ds"
  by (induction ds arbitrary: xs) (auto simp: fill_dir_cb_def)

lemma distinct_names:
  assumes "distinct (map xname ds)" and "\<forall>c \<in> set ds. xname c \<noteq> None"
  shows "distinct (map (the \<circ> xname) ds)"
proof -
  have "inj_on (the \<circ> xname) (set ds)"
  proof (rule inj_onI)
    fix x y assume "x \<in> set ds" "y \<in> set ds" "(the \<circ> xname) x = (the \<circ> xname) y"
    moreover from this obtain a b where "xname x = Some a" "xname y = Some b" using assms(2) by blast
    ultimately show "x = y" using assms(1) by (auto simp: distinct_map inj_on_def)
  qed
  then show ?thesis using assms(1) by (simp add: distinct_map)
qed

text \<open>Listing a directory calls the filler with the dots and then with each entry once.\<close>

lemma readdir_names:
  assumes md: "mdirs s S es" and d: "resolve (dirs es) p = Inr d" "is_dir d"
  shows "\<exists>s' ns. fuse_readdir (\<lambda>xs n st. (xs @ [n], False)) s p [] = Some (s', Inr ([cstr ''.'', cstr ''..''] @ ns))
     \<and> distinct ns \<and> set ns = names_in (dirs es) (qpath (xqid d)) \<and> mdirs s' S es \<and> quiet S s s'"
proof -
  let ?q = "qpath (xqid d)" and ?cb = "fill_dir_cb (\<lambda>xs n st. (xs @ [n], False))"
  let ?ns = "map (the \<circ> xname) (children es ?q)"
  obtain s1 where w: "walk_path s (active_tree s) p zero_dir = Some (s1, d, Inr ())" "mdirs s1 S es" "quiet S s s1"
    using walk_found [OF md d(1)] by blast
  obtain s2 where l: "list_dir ?cb s1 (active_tree s1) ?q [cstr ''.'', cstr ''..'']
      = Some (s2, visit ?cb (children es ?q) [cstr ''.'', cstr ''..''])" "mdirs s2 S es" "quiet S s1 s2"
    using list_dir_mdirs [OF w(2), of ?cb ?q "[cstr ''.'', cstr ''..'']"] by blast
  have nm: "c \<in> set (children es ?q) \<longleftrightarrow> (\<exists>n. n \<noteq> [] \<and> dirs es (?q, n) = Some c \<and> xname c = Some n)" for c
    unfolding mem_children [OF md] using dirs_xname [OF md] by blast
  then have named: "\<forall>c \<in> set (children es ?q). xname c \<noteq> None" by auto
  have "n \<in> set ?ns \<longleftrightarrow> n \<noteq> [] \<and> dirs es (?q, n) \<noteq> None" for n
    using nm dirs_xname [OF md] by (simp add: image_iff) (metis option.sel)
  then have "set ?ns = names_in (dirs es) ?q" unfolding names_in_def by blast
  moreover note visit_names [OF named, of "[cstr ''.'', cstr ''..'']"] distinct_names [OF distinct_children [OF md] named]
  ultimately show ?thesis
    using w l d quiet_trans [OF w(3) l(3)] by (auto simp: fuse_readdir_def)
qed

lemma answer_readdir:
  assumes st: "stands_for s a b m"
  shows "\<exists>s'. serve (ReqReaddir p) s = Some (s', snd (a_serve (ReqReaddir p) a)) \<and> stands_for s' a b m"
proof -
  obtain S es where i: "mdirs s S es" "files_ok (seen_by s S) es" "\<not> readonly s" "dirs es = a_dirs a" "sb_nextqid (sb s) = a_next a"
    "\<forall>q k. k < 2 ^ 63 \<longrightarrow> fbyte (seen_by s S) es q k = a_file a q k" "b * BLKSZ \<le> free_bytes s" "m \<le> leaf_room es"
    using st unfolding stands_for_def by blast
  note stand = stands_quiet [OF _ _ i(2-8) order.refl order.refl]
  show ?thesis
  proof (cases "resolve (a_dirs a) p")
    case (Inl er)
    then show ?thesis using walk_err [OF i(1), of p er zero_dir] i(4) stand by (auto simp: fuse_readdir_def reply_def)
  next
    case (Inr d)
    show ?thesis
    proof (cases "is_dir d")
      case True
      then obtain s' ns where l: "fuse_readdir (\<lambda>xs n st. (xs @ [n], False)) s p [] = Some (s', Inr ([cstr ''.'', cstr ''..''] @ ns))"
        "distinct ns" "set ns = names_in (a_dirs a) (qpath (xqid d))" "mdirs s' S es" "quiet S s s'"
        using readdir_names [OF i(1), of p d] Inr i(4) by auto
      then show ?thesis
        using Inr True stand [OF l(4,5)] distinct_card [OF l(2)] by (simp add: reply_def listing_def Let_def)
    next
      case False
      then show ?thesis using walk_found [OF i(1), of p d zero_dir] Inr i(4) stand by (auto simp: fuse_readdir_def reply_def)
    qed
  qed
qed

lemma answer_readlink:
  assumes st: "stands_for s a b m" and al: "allowed (ReqReadlink p n) a"
  shows "\<exists>s'. serve (ReqReadlink p n) s = Some (s', a_readlink a p n) \<and> stands_for s' a b m"
proof -
  obtain S es where i: "mdirs s S es" "files_ok (seen_by s S) es" "\<not> readonly s" "dirs es = a_dirs a" "sb_nextqid (sb s) = a_next a"
    "\<forall>q k. k < 2 ^ 63 \<longrightarrow> fbyte (seen_by s S) es q k = a_file a q k" "b * BLKSZ \<le> free_bytes s" "m \<le> leaf_room es"
    using st unfolding stands_for_def by blast
  note stand = stands_quiet [OF _ _ i(2-8) order.refl order.refl]
  show ?thesis
  proof (cases "resolve (a_dirs a) p")
    case (Inl er)
    then show ?thesis using walk_err [OF i(1), of p er zero_dir] i(4) stand by (auto simp: fuse_readlink_def reply_def a_readlink_def)
  next
    case (Inr d)
    obtain s1 where w: "walk_path s (active_tree s) p zero_dir = Some (s1, d, Inr ())" "mdirs s1 S es" "quiet S s s1"
      using walk_found [OF i(1), of p d zero_dir] Inr i(4) by auto
    show ?thesis
    proof (cases "qtype (xqid d) AND QTSYMLINK = 0")
      case True
      then show ?thesis using w Inr stand by (auto simp: fuse_readlink_def reply_def a_readlink_def)
    next
      case False
      note q = quietD [OF w(3)]
      have al': "0 < n" "0 + (n - 1) < 2 ^ 63" "unat (xlength d) < 2 ^ 63" using al Inr by auto
      have "files_ok (seen_by s1 S) es" using i(2) q by simp
      then obtain s2 where r: "read_file s1 (active_tree s1) d (n - 1) 0
          = Some (s2, map (fbyte (seen_by s1 S) es (qpath (xqid d))) [0..<min (n - 1) (unat (xlength d))])"
        "mdirs s2 S es" "quiet S s1 s2"
        using read_file_bytes [OF w(2) _ al'(3,2)] by auto
      have "map (fbyte (seen_by s1 S) es (qpath (xqid d))) [0..<min (n - 1) (unat (xlength d))]
          = map (a_file a (qpath (xqid d))) [0..<min (n - 1) (unat (xlength d))]"
        using i(6) q al'(2) by (intro map_cong) auto
      then show ?thesis
        using w(1) r Inr False al'(1) stand [OF r(2) quiet_trans [OF w(3) r(3)]] by (auto simp: fuse_readlink_def reply_def a_readlink_def)
    qed
  qed
qed

lemma answer_open:
  assumes st: "stands_for s a (b + 1) (m + 594)" and nn: "0 \<le> b" "0 \<le> m" and fits: "name_fits p"
  shows "\<exists>s'. serve (ReqOpen e p trunc) s = Some (s', snd (a_serve (ReqOpen e p trunc) a)) \<and> stands_for s' (fst (a_serve (ReqOpen e p trunc) a)) b m"
proof -
  obtain S es where i: "mdirs s S es" "files_ok (seen_by s S) es" "\<not> readonly s" "dirs es = a_dirs a" "sb_nextqid (sb s) = a_next a"
    "\<forall>q k. k < 2 ^ 63 \<longrightarrow> fbyte (seen_by s S) es q k = a_file a q k" "(b + 1) * BLKSZ \<le> free_bytes s" "m + 594 \<le> leaf_room es"
    using st unfolding stands_for_def by blast
  note stand = stands_quiet [OF _ _ i(2-8)]
  show ?thesis
  proof (cases "resolve (a_dirs a) p")
    case (Inl er)
    then show ?thesis using walk_err [OF i(1), of p er zero_dir] i(4) stand [of _ b m] by (auto simp: fuse_open_def reply_def)
  next
    case (Inr d)
    obtain s1 where w: "walk_path s (active_tree s) p zero_dir = Some (s1, d, Inr ())" "mdirs s1 S es" "quiet S s s1"
      using walk_found [OF i(1), of p d zero_dir] Inr i(4) by auto
    have ro: "\<not> readonly s1" using i(3) quietD [OF w(3)] by simp
    show ?thesis
    proof (cases "is_dir d \<or> \<not> trunc")
      case True
      then show ?thesis using w Inr stand [OF w(2,3), of b m] by (auto simp: fuse_open_def reply_def)
    next
      case False
      have "stands_for s1 a (b + 1) (m + 594)" by (rule stand [OF w(2,3) order.refl order.refl])
      from answer_update [OF this nn fits, of "\<lambda>d. bump_vers (d\<lparr>xlength := 0, xmtime := now_ns e\<rparr>)"]
      obtain s2 r where "truncate_file e s1 p 0 = Some (s2, r)"
        "stands_for s2 (fst (a_set a 0 (a_update (a_dirs a) p (\<lambda>d. bump_vers (d\<lparr>xlength := 0, xmtime := now_ns e\<rparr>))))) b m"
        using ro by (auto simp: reply_def guarded_def truncate_file_def)
      then show ?thesis using w(1) Inr False ro by (simp add: fuse_open_def reply_def)
    qed
  qed
qed

lemma answer_symlink:
  assumes st: "stands_for s a (b + req_blocks (ReqSymlink e e2 tgt p)) (m + req_room (ReqSymlink e e2 tgt p))" and nn: "0 \<le> b" "0 \<le> m"
    and al: "linkable (a_dirs a) p" "length tgt < 2 ^ 63"
  shows "\<exists>s'. serve (ReqSymlink e e2 tgt p) s = Some (s', snd (a_symlink a e e2 tgt p)) \<and> stands_for s' (fst (a_symlink a e e2 tgt p)) b m"
proof -
  let ?n = "int (nblks 0 (length tgt))"
  obtain S es where i: "mdirs s S es" "files_ok (seen_by s S) es" "\<not> readonly s" "dirs es = a_dirs a" "sb_nextqid (sb s) = a_next a"
    "\<forall>q k. k < 2 ^ 63 \<longrightarrow> fbyte (seen_by s S) es q k = a_file a q k" "(b + (2 * ?n + 3)) * BLKSZ \<le> free_bytes s"
    "m + (47 * ?n + 1782) \<le> leaf_room es"
    using st unfolding stands_for_def req_blocks.simps req_room.simps by blast
  note stand = stands_quiet [OF _ _ i(2-8), of _ b m]
  show ?thesis
  proof (cases "split_path p")
    case None
    then show ?thesis using stand [OF i(1) quiet_refl] i(3)
      by (simp add: reply_def a_symlink_def fuse_symlink_def guarded_def create_symlink_def)
  next
    case (Some pn)
    then obtain parent name where sp: "split_path p = Some (parent, name)" by (cases pn) auto
    show ?thesis
    proof (cases "resolve (a_dirs a) parent")
      case (Inl er)
      then show ?thesis using walk_err [OF i(1), of parent er zero_dir] i(3,4) sp stand
        by (auto simp: reply_def a_symlink_def fuse_symlink_def guarded_def create_symlink_def)
    next
      case (Inr pd)
      then have nm: "name \<noteq> []" "name \<noteq> [0x2e]" "length p \<le> 255" "name_fits p" "a_dirs a (qpath (xqid pd), name) = None"
        using al(1) sp by (auto simp: linkable_def)
      have "(2 * ?n + 3) * BLKSZ \<le> free_bytes s" "47 * ?n + 1782 \<le> leaf_room es" using i(7,8) nn by (simp_all add: BLKSZ_def)
      then obtain s' S' es' where w: "create_symlink e e2 s tgt p = Some (s', Inr ())" "mdirs s' S' es'" "files_ok (seen_by s' S') es'"
        "dirs es' = (dirs es)((qpath (xqid pd), name) \<mapsto> written_dir e2 (length tgt) (new_dir e (sb_nextqid (sb s)) QTSYMLINK 0x1FF name))"
        "\<forall>q k. k < 2 ^ 63 \<longrightarrow> fbyte (seen_by s' S') es' q k = splice (fbyte (seen_by s S) es) (sb_nextqid (sb s)) 0 tgt q k"
        "\<not> readonly s'" "sb_nextqid (sb s') = sb_nextqid (sb s) + 1" "free_bytes s' = free_bytes s - (2 * ?n + 3) * BLKSZ"
        "leaf_room es - 47 * ?n - 1782 \<le> leaf_room es'"
        using symlink_bytes [OF i(1-3) sp nm(3,1,2,4), of pd tgt e e2] Inr i(4) nm(5) al(2) by auto
      have "stands_for s' (fst (a_symlink a e e2 tgt p)) b m"
        unfolding stands_for_def
        by (intro exI [of _ S'] exI [of _ es'])
          (use w i Inr sp in \<open>simp add: a_symlink_def splice_def BLKSZ_def algebra_simps\<close>)
      then show ?thesis using w(1) i(3) Inr sp by (simp add: reply_def fuse_symlink_def guarded_def a_symlink_def)
    qed
  qed
qed

lemma nblks_nonneg: "0 \<le> req_blocks q" "0 \<le> req_room q"
  by (cases q; simp)+

interpretation mount: budgeted_service stands_for serve a_serve allowed req_blocks req_room
proof
  fix s a b q r
  assume st: "stands_for s a (b + req_blocks q) (r + req_room q)" and nn: "0 \<le> b" "0 \<le> r" and al: "allowed q a"
  show "\<exists>s'. serve q s = Some (s', snd (a_serve q a)) \<and> stands_for s' (fst (a_serve q a)) b r"
  proof (cases q)
    case (ReqWrite e p bs off)
    then show ?thesis using answer_write [of s a b e p bs off r] st nn al by simp
  next
    case (ReqRead p n off)
    then show ?thesis using answer_read [of s a b r p off n] st al by simp
  next
    case (ReqGetattr e p)
    then show ?thesis using answer_getattr [of s a b r e p] st by simp
  next
    case (ReqReaddir p)
    then show ?thesis using answer_readdir [of s a b r p] st by (auto split: sum.splits)
  next
    case (ReqReadlink p n)
    then show ?thesis using answer_readlink [of s a b r p n] st al by simp
  next
    case (ReqOpen e p trunc)
    then show ?thesis using answer_open [of s a b r p e trunc] st nn al by (simp del: a_serve.simps serve.simps)
  next
    case (ReqSymlink e e2 tgt p)
    then show ?thesis using answer_symlink [of s a b e e2 tgt p r] st nn al by simp
  qed (use st nn al answer_create [of s a b r] answer_remove [of s a b r] answer_update [of s a b r] in
      \<open>simp_all add: fuse_truncate_def truncate_file_def fuse_chmod_def chmod_entry_def fuse_chown_def chown_entry_def
         fuse_utimens_def utimens_update\<close>)
qed (rule nblks_nonneg)+

end
