(* ===== verification/Pathspec.thy ===== *)
theory Pathspec
  imports Mount
begin

text \<open>
  What requests mean one after the other in the abstract filesystem: where paths lead after an
  entry was added, replaced or removed, and what a later request then finds.
\<close>

section \<open>Paths after an update\<close>

text \<open>Replacing an entry by one of the same file keeps where every path leads.\<close>

lemma resolve_from_same:
  assumes "D k = Some d" and "qpath (xqid d') = qpath (xqid d)"
  shows "resolve_from D cs x = Inr r \<Longrightarrow> qpath (xqid x') = qpath (xqid x) \<Longrightarrow>
    \<exists>r'. resolve_from (D(k \<mapsto> d')) cs x' = Inr r' \<and> qpath (xqid r') = qpath (xqid r)"
proof (induction cs arbitrary: x x')
  case (Cons c cs)
  show ?case
  proof (cases "c = [0x2e]")
    case False
    then obtain y where y: "D (qpath (xqid x), c) = Some y" "resolve_from D cs y = Inr r"
      using Cons.prems by (auto simp: node_def split: option.splits sum.splits)
    then obtain y' where "(D(k \<mapsto> d')) (qpath (xqid x), c) = Some y'" "qpath (xqid y') = qpath (xqid y)"
      using assms by (cases "(qpath (xqid x), c) = k") auto
    then show ?thesis using Cons.IH [OF y(2)] False Cons.prems(2) by (simp add: node_def)
  qed (use Cons in simp)
qed simp

lemma resolve_same:
  assumes "D k = Some d" and "qpath (xqid d') = qpath (xqid d)" and "resolve D p = Inr r"
  shows "\<exists>r'. resolve (D(k \<mapsto> d')) p = Inr r' \<and> qpath (xqid r') = qpath (xqid r)"
proof -
  obtain x where x: "D (- 1, []) = Some x" "resolve_from D (components (take 1023 p)) x = Inr r"
    using assms(3) by (auto simp: resolve_components node_def split: option.splits sum.splits)
  then obtain x' where "(D(k \<mapsto> d')) (- 1, []) = Some x'" "qpath (xqid x') = qpath (xqid x)"
    using assms(1,2) by (cases "(- 1, []) = k") auto
  then show ?thesis using resolve_from_same [where x' = x', OF assms(1,2) x(2)] by (simp add: resolve_components node_def)
qed

text \<open>A path whose parent and name are known, after its entry was replaced, added or removed.\<close>

lemma resolve_replaced:
  assumes sp: "split_path p = Some (parent, name)" and len: "length p \<le> 255" and nm: "name \<noteq> []" "name \<noteq> [0x2e]"
    and pd: "resolve D parent = Inr pd" and d: "D (qpath (xqid pd), name) = Some d" "qpath (xqid d') = qpath (xqid d)"
  shows "resolve (D((qpath (xqid pd), name) \<mapsto> d')) p = Inr d'"
proof -
  obtain r where "resolve (D((qpath (xqid pd), name) \<mapsto> d')) parent = Inr r" "qpath (xqid r) = qpath (xqid pd)"
    using resolve_same [OF d pd] by blast
  then show ?thesis unfolding resolve_split [OF sp len nm] by (simp add: node_def)
qed

lemma resolve_added:
  assumes sp: "split_path p = Some (parent, name)" and len: "length p \<le> 255" and nm: "name \<noteq> []" "name \<noteq> [0x2e]"
    and pd: "resolve D parent = Inr pd" and d: "D (qpath (xqid pd), name) = None"
  shows "resolve (D((qpath (xqid pd), name) \<mapsto> d')) p = Inr d'"
proof -
  have "D \<subseteq>\<^sub>m D((qpath (xqid pd), name) \<mapsto> d')" using d by (auto simp: map_le_def)
  then show ?thesis unfolding resolve_split [OF sp len nm] using resolve_mono pd by (simp add: node_def)
qed

text \<open>Where a path that resolves lies.\<close>

lemma resolve_place:
  assumes "resolve D p = Inr d" and "split_path p = Some (parent, name)" and "length p \<le> 255" and "name \<noteq> []" "name \<noteq> [0x2e]"
  shows "\<exists>pd. resolve D parent = Inr pd \<and> D (qpath (xqid pd), name) = Some d \<and> place D p = Some (qpath (xqid pd), name)"
  using assms resolve_split [OF assms(2-5), of D] by (auto simp: node_def place_def split: sum.splits option.splits)

lemma written_length:
  assumes "unat (xlength d) < 2 ^ 63" and "n < 2 ^ 63"
  shows "unat (xlength (written_dir e n d)) = max (unat (xlength d)) n" and "qpath (xqid (written_dir e n d)) = qpath (xqid d)"
    and "is_dir (written_dir e n d) = is_dir d"
  using assms unat_of_small [of n] by (auto simp: written_dir_def bump_vers_def is_dir_def)

section \<open>Requests in sequence\<close>

lemma a_write_read:
  assumes w: "writable D p" and n: "off + length bs < 2 ^ 63" and d: "resolve D p = Inr d" "\<not> is_dir d" and D: "D = a_dirs a"
  shows "snd (a_write a e p bs off) = Count (length bs)"
    and "a_read (fst (a_write a e p bs off)) p (length bs) off = Data bs"
    and "allowed (ReqRead p (length bs) off) (fst (a_write a e p bs off))"
proof -
  let ?d = "written_dir e (off + length bs) d" and ?a = "fst (a_write a e p bs off)"
  obtain parent name where sp: "split_path p = Some (parent, name)" "length p \<le> 255" "name \<noteq> []" "name \<noteq> [0x2e]" "unat (xlength d) < 2 ^ 63"
    using w d by (auto simp: writable_def split: option.splits)
  obtain pd where pd: "resolve D parent = Inr pd" "D (qpath (xqid pd), name) = Some d" "place D p = Some (qpath (xqid pd), name)"
    using resolve_place [OF d(1) sp(1-4)] by blast
  note l = written_length [OF sp(5) n, of e]
  have r: "resolve (a_dirs ?a) p = Inr ?d"
    using resolve_replaced [OF sp(1-4) pd(1,2), of ?d] l(2) d pd D by (simp add: a_write_def)
  have c: "a_file ?a = splice (a_file a) (qpath (xqid d)) off bs" using d pd D by (simp add: a_write_def)
  show "snd (a_write a e p bs off) = Count (length bs)" using d pd D by (simp add: a_write_def)
  have "map (splice (a_file a) (qpath (xqid d)) off bs (qpath (xqid d))) [off..<off + length bs] = bs"
    by (rule nth_equalityI) (simp_all add: splice_def)
  then show "a_read ?a p (length bs) off = Data bs"
    using r c d(2) l by (simp add: a_read_def min_def)
  show "allowed (ReqRead p (length bs) off) ?a" using r l(1) n sp(5) by simp
qed

lemma reply_cases:
  "reply f x = Some (s, v) \<Longrightarrow> (\<exists>er. x = Some (s, Inl er) \<and> v = Err er) \<or> (\<exists>u. x = Some (s, Inr u) \<and> v = f u)"
proof -
  assume r: "reply f x = Some (s, v)"
  then obtain u where "x = Some (s, u)" by (cases x) (auto simp: reply_def)
  then show ?thesis using r by (cases u) (auto simp: reply_def)
qed

lemma replyD:
  "reply Count x = Some (s, Count n) \<Longrightarrow> x = Some (s, Inr n)" "reply Data y = Some (s, Data bs) \<Longrightarrow> y = Some (s, Inr bs)"
  "reply Attr z = Some (s, Attr st) \<Longrightarrow> z = Some (s, Inr st)" "reply (\<lambda>_. Done) w = Some (s, Done) \<Longrightarrow> \<exists>v. w = Some (s, Inr v)"
  "reply Attr z = Some (s, Err er) \<Longrightarrow> z = Some (s, Inl er)" "reply (\<lambda>_. Done) w = Some (s, Err er) \<Longrightarrow> w = Some (s, Inl er)"
  "reply Data y = Some (s, Err er) \<Longrightarrow> y = Some (s, Inl er)"
  by (auto dest: reply_cases)

text \<open>A name that can be created: its parent resolves and the name is free.\<close>

definition creatable :: "dirmap \<Rightarrow> byte list \<Rightarrow> bool" where
  "creatable D p \<longleftrightarrow> name_fits p \<and> length p \<le> 255
     \<and> (case split_path p of
          None \<Rightarrow> False
        | Some (parent, name) \<Rightarrow> name \<noteq> [] \<and> name \<noteq> [0x2e]
            \<and> (case resolve D parent of Inl _ \<Rightarrow> False | Inr pd \<Rightarrow> D (qpath (xqid pd), name) = None))"

lemma creatableE:
  assumes "creatable D p"
  obtains parent name pd where "split_path p = Some (parent, name)" "length p \<le> 255" "name \<noteq> []" "name \<noteq> [0x2e]"
    "resolve D parent = Inr pd" "D (qpath (xqid pd), name) = None"
proof -
  from assms obtain parent name where sp: "split_path p = Some (parent, name)" "length p \<le> 255" "name \<noteq> []" "name \<noteq> [0x2e]"
    and r: "case resolve D parent of Inl _ \<Rightarrow> False | Inr pd \<Rightarrow> D (qpath (xqid pd), name) = None"
    by (auto simp: creatable_def split: option.splits)
  show ?thesis using that [OF sp] r by (cases "resolve D parent") auto
qed

lemma a_create_found:
  assumes "creatable D p" and "D = a_dirs a"
  shows "\<exists>parent name a'. split_path p = Some (parent, name) \<and> a_set a n (a_create D p mk) = (a', Done) \<and> resolve (a_dirs a') p = Inr (mk name)"
proof -
  obtain parent name pd where sp: "split_path p = Some (parent, name)" "length p \<le> 255" "name \<noteq> []" "name \<noteq> [0x2e]"
    and pd: "resolve D parent = Inr pd" "D (qpath (xqid pd), name) = None"
    using assms(1) by (rule creatableE)
  then show ?thesis using resolve_added [OF sp pd] sp pd assms(2) by (simp add: a_create_def at_parent_def a_set_def)
qed

text \<open>An entry that was removed is not found.\<close>

lemma resolve_removed:
  assumes "split_path p = Some (parent, name)" and "length p \<le> 255" and "name \<noteq> []" "name \<noteq> [0x2e]" and "resolve D parent = Inr pd"
  shows "\<exists>er. resolve (D((qpath (xqid pd), name) := None)) p = Inl er"
proof (cases "resolve (D((qpath (xqid pd), name) := None)) parent")
  case (Inr pd')
  have "D((qpath (xqid pd), name) := None) \<subseteq>\<^sub>m D" by (auto simp: map_le_def)
  then have "pd' = pd" using resolve_mono [OF _ Inr] assms(5) by auto
  then show ?thesis unfolding resolve_split [OF assms(1-4)] using Inr by (simp add: node_def)
qed (simp add: resolve_split [OF assms(1-4)])

text \<open>Metadata updates keep the file a path leads to.\<close>

lemma a_update_found:
  assumes "resolve D p = Inr d" and "split_path p = Some (parent, name)" and "length p \<le> 255" and "name \<noteq> []" "name \<noteq> [0x2e]"
    and "qpath (xqid (f d)) = qpath (xqid d)"
  shows "\<exists>D'. a_update D p f = Inr D' \<and> resolve D' p = Inr ((f d)\<lparr>xname := Some name\<rparr>)"
proof -
  obtain pd where pd: "resolve D parent = Inr pd" "D (qpath (xqid pd), name) = Some d"
    using resolve_place [OF assms(1-5)] by blast
  then show ?thesis
    using resolve_replaced [OF assms(2-5) pd, of "(f d)\<lparr>xname := Some name\<rparr>"] assms by (simp add: a_update_def at_parent_def)
qed

lemma created_twice:
  assumes "creatable D p" and "D = a_dirs a" and "a_set a n (a_create D p mk) = (a', Done)"
  shows "a_create (a_dirs a') p mk' = Inl EEXIST"
proof -
  obtain parent name pd where sp: "split_path p = Some (parent, name)" and pd: "resolve D parent = Inr pd" "D (qpath (xqid pd), name) = None"
    using assms(1) by (rule creatableE)
  have "D \<subseteq>\<^sub>m D((qpath (xqid pd), name) \<mapsto> mk name)" using pd(2) by (auto simp: map_le_def)
  then show ?thesis using resolve_mono [OF _ pd(1)] sp pd assms(2,3) by (auto simp: a_create_def at_parent_def a_set_def)
qed

text \<open>A rename to a free name, when neither parent lies below the entry.\<close>

lemma a_rename_found:
  assumes "writable D p" and d: "resolve D p = Inr d" and k: "place D p = Some k" and sp: "split_path p = Some (parent, name)"
    and pd: "resolve (D(k := None)) parent = Inr pd" and new: "creatable (D(k := None)) p'" "place D p' \<noteq> Some k"
  shows "\<exists>D'. a_rename D p p' = Inr D' \<and> resolve D' p = Inl ENOENT \<and> (\<exists>d'. resolve D' p' = Inr d' \<and> attr_of e d' = attr_of e d)"
proof -
  have nm: "length p \<le> 255" "name \<noteq> []" "name \<noteq> [0x2e]" "length name \<le> 244"
    using assms(1) d sp by (auto simp: writable_def name_fits_def)
  obtain parent' name' pd' where n: "split_path p' = Some (parent', name')" "length p' \<le> 255" "name' \<noteq> []" "name' \<noteq> [0x2e]"
    "resolve (D(k := None)) parent' = Inr pd'" "(D(k := None)) (qpath (xqid pd'), name') = None"
    using new(1) by (rule creatableE)
  have sub: "D(k := None) \<subseteq>\<^sub>m D" by (auto simp: map_le_def)
  have r: "resolve D parent = Inr pd" "resolve D parent' = Inr pd'" using resolve_mono [OF sub] pd n(5) by blast+
  have kk: "k = (qpath (xqid pd), name)" "(qpath (xqid pd'), name') \<noteq> k" using k new(2) sp n(1) r by (auto simp: place_def)
  let ?d = "bump_vers (d\<lparr>xname := Some name'\<rparr>)"
  let ?D = "D(k := None, (qpath (xqid pd'), name') \<mapsto> ?d)"
  have le: "D(k := None) \<subseteq>\<^sub>m ?D" using n(6) by (auto simp: map_le_def)
  have "a_rename D p p' = Inr ?D" using d sp n(1) r kk by (simp add: a_rename_def at_parent_def)
  moreover have "resolve ?D p' = Inr ?d" by (rule resolve_added [OF n])
  moreover have "resolve ?D p = Inl ENOENT"
    unfolding resolve_split [OF sp nm(1-3)] resolve_mono [OF le pd] using kk nm(4) by (auto simp: node_def)
  moreover have "attr_of e ?d = attr_of e d" by (simp add: attr_of_def bump_vers_def)
  ultimately show ?thesis by blast
qed

text \<open>What the attributes of a new file are.\<close>

lemma attr_of_new_file:
  "st_ino (attr_of e (new_dir e q QTFILE (m AND 0x1FF) n)) = q \<and> st_mode (attr_of e (new_dir e q QTFILE (m AND 0x1FF) n)) = 0x8000 OR (m AND 0x1FF)
     \<and> st_nlink (attr_of e (new_dir e q QTFILE (m AND 0x1FF) n)) = 1 \<and> st_size (attr_of e (new_dir e q QTFILE (m AND 0x1FF) n)) = 0
     \<and> st_blocks (attr_of e (new_dir e q QTFILE (m AND 0x1FF) n)) = 0 \<and> st_uid (attr_of e (new_dir e q QTFILE (m AND 0x1FF) n)) = e_uid e
     \<and> st_gid (attr_of e (new_dir e q QTFILE (m AND 0x1FF) n)) = e_gid e"
proof -
  have "(m AND 0x1FF) AND 0x1FF = m AND (0x1FF :: u32)" "(m AND 0x1FF) AND DMDIR = 0" "(0x8000 OR (m AND 0x1FF)) AND (0x4000 :: u32) = 0"
    by (simp_all add: and.assoc bit.conj_disj_distrib2)
  then show ?thesis by (simp add: attr_of_def Let_def mode_to_posix_def new_dir_def)
qed

end
