(* ===== verification/Samplefs.thy ===== *)
theory Samplefs
  imports Sample Pathspec
begin

text \<open>
  A mounted filesystem used to exercise the operations on concrete requests: the context of
  \<^verbatim>\<open>Sample\<close> whose active tree holds the root directory and an empty file \<^verbatim>\<open>/a\<close>.
\<close>

definition sample_env :: env where
  "sample_env = \<lparr>e_time = 1, e_uid = 0, e_gid = 0\<rparr>"

definition sample_root :: xdir where
  "sample_root = new_dir sample_env 0 QTDIR DMDIR []"

definition sample_file :: xdir where
  "sample_file = new_dir sample_env 5 QTFILE 0x1A4 [0x61]"

definition sample_es :: "kvp list" where
  "sample_es = [\<lparr>kv_k = dkey 0 [0x61], kv_v = packdval_bytes sample_file\<rparr>, \<lparr>kv_k = dkey (- 1) [], kv_v = packdval_bytes sample_root\<rparr>]"

abbreviation sample_mount :: ctx where
  "sample_mount \<equiv> sample_ctx sample_es []"

definition sample_afs :: afs where
  "sample_afs = \<lparr>a_dirs = [(0, [0x61]) \<mapsto> sample_file, (- 1, []) \<mapsto> sample_root], a_next = 16, a_file = (\<lambda>_ _. 0)\<rparr>"

lemma sample_names [simp]: "xname sample_root = Some []" "xname sample_file = Some [0x61]"
  by (simp_all add: sample_root_def sample_file_def new_dir_def)

lemma sample_fields [simp]: "qpath (xqid sample_root) = 0" "qpath (xqid sample_file) = 5" "xlength sample_file = 0"
  "qtype (xqid sample_file) = 0" "qtype (xqid sample_root) = 0x80" "xmode sample_root = 0x80000000"
  "xmode sample_file = 0x1A4"
  by (simp_all add: sample_root_def sample_file_def new_dir_def)

lemma sample_strict: "strict (map kv_k sample_es)"
  by code_simp

lemma sample_entry:
  "entry sample_es k = (if k = dkey 0 [0x61] then Some \<lparr>kv_k = k, kv_v = packdval_bytes sample_file\<rparr>
     else if k = dkey (- 1) [] then Some \<lparr>kv_k = k, kv_v = packdval_bytes sample_root\<rparr> else None)"
  by (auto simp: entry_def sample_es_def)

lemma sample_fits: "leaf_fits sample_es" "15000 \<le> leaf_room sample_es" "small_entries KVMAX sample_es"
  by (simp_all add: sample_es_def leaf_fits_def leaf_room_def leaf_cost_def kv_small_def kvs_size_def kvsz_def small_entries_def)

lemma sample_mdirs: "mdirs sample_mount sample_addrs sample_es"
proof -
  have "dirs_ok sample_es"
    by (auto simp: dirs_ok_def sample_entry dirent_ok_def split: if_splits)
  moreover have "mounted sample_mount sample_addrs sample_es"
    using sample_ok [of sample_es "[]"] sample_trees(1) [of sample_es "[]"] sample_fits sample_strict
    by (simp add: mounted_def sample_ctx_def sample_tree_def zero_tree_def zero_bptr_def leaf_fits_def strict_def kvs_size_def)
  ultimately show ?thesis by (simp add: mdirs_def)
qed

lemma sample_dirs: "dirs sample_es = a_dirs sample_afs"
  by (auto simp: fun_eq_iff dirs_def sample_entry sample_afs_def kv2dir_dkey)

lemma sample_files: "files_ok V sample_es" "fbyte V sample_es = (\<lambda>_ _. 0)"
  by (auto simp: files_ok_def fbyte_def fblk_def sample_entry fun_eq_iff)

lemma sample_stands: "b \<le> 8 \<Longrightarrow> r \<le> 15000 \<Longrightarrow> stands_for sample_mount sample_afs b r"
  unfolding stands_for_def
  by (intro exI [of _ sample_addrs] exI [of _ sample_es])
    (use sample_mdirs sample_dirs sample_files sample_fits in
      \<open>simp add: sample_ctx_def sample_super_def sample_afs_def free_bytes_def free_ranges_def zero_arena_def\<close>)

end
