(* ===== verification/Samplepivot.thy ===== *)
theory Samplepivot
  imports Sample
begin

text \<open>
  A tree of height 2 used to exercise lookups: a pivot at block 262144 with one child, the leaf of
  \<^verbatim>\<open>Sample\<close> at 16384, and three messages pending in its buffer: an insertion of key 1, and for key 2
  a deletion followed by an insertion. The block is written byte by byte in the format the code reads.
\<close>

definition pending_msgs :: "gmsg list" where
  "pending_msgs = [\<lparr>m_op = OINSERT, m_k = [1], m_v = [5]\<rparr>, \<lparr>m_op = ODELETE, m_k = [2], m_v = []\<rparr>, \<lparr>m_op = OINSERT, m_k = [2], m_v = [9]\<rparr>]"

definition pivot_ptr :: bptr where
  "pivot_ptr = zero_bptr\<lparr>bp_addr := 16384\<rparr>"

definition pivot_kv :: kvp where
  "pivot_kv = \<lparr>kv_k = [1], kv_v = packbp pivot_ptr\<rparr>"

text \<open>Header, offset table and value of the entry area; offset table and messages of the buffer.\<close>

definition pivot_mem :: mem where
  "pivot_mem =
     wr (wr (wr (wr (wr zeros 0 (pack16 1 @ pack16 1 @ pack16 29 @ pack16 3 @ pack16 20))
       10 (pack16 8158)) 8168 (kvbytes pivot_kv))
       8197 (pack16 8180 @ pack16 8174 @ pack16 8167))
       16364 ([1, 0, 1, 2, 0, 1, 9] @ [2, 0, 1, 2, 0, 0] @ [1, 0, 1, 1, 0, 1, 5])"

definition pivot_ctx :: "kvp list \<Rightarrow> ctx" where
  "pivot_ctx es = (sample_ctx es [])\<lparr>dev := pwrite_blk (sample_dev es []) 262144 pivot_mem\<rparr>"

definition pivot_tree :: gtree where
  "pivot_tree = zero_tree\<lparr>t_ht := 2, t_bp := zero_bptr\<lparr>bp_addr := 262144\<rparr>, t_gen := 1\<rparr>"

lemma pivot_read: "pread_blk (dev (pivot_ctx es)) 262144 = Some (\<lambda>i. if 0 \<le> i \<and> i < BLKSZ then pivot_mem i else 0)"
  by (simp add: pivot_ctx_def pread_pwrite_same)

lemma pivot_leaf_read: "pread_blk (dev (pivot_ctx es)) 16384 = pread_blk (sample_dev es []) 16384"
  by (simp add: pivot_ctx_def pread_pwrite_apart)

lemma rd_masked:
  "0 \<le> a \<Longrightarrow> a + int n \<le> 16384 \<Longrightarrow> rd (\<lambda>i. if 0 \<le> i \<and> i < 16384 then m i else 0) a n = rd m a n"
  by (simp add: rd_def)

text \<open>The fields of the pivot, read one by one.\<close>

lemma pivot_fields:
  "rd pivot_mem 0 2 = pack16 1" "rd pivot_mem 2 2 = pack16 1" "rd pivot_mem 4 2 = pack16 29" "rd pivot_mem 6 2 = pack16 3"
  "rd pivot_mem 8 2 = pack16 20" "rd pivot_mem 10 2 = pack16 8158"
  "rd pivot_mem 8197 2 = pack16 8180" "rd pivot_mem 8199 2 = pack16 8174" "rd pivot_mem 8201 2 = pack16 8167"
  "rd pivot_mem 8168 2 = pack16 1" "rd pivot_mem 8170 (Suc 0) = [1]" "rd pivot_mem 8171 2 = pack16 24" "rd pivot_mem 8173 24 = packbp pivot_ptr"
  "rd pivot_mem 16364 (Suc 0) = [1]" "rd pivot_mem 16365 2 = pack16 1" "rd pivot_mem 16367 (Suc 0) = [2]" "rd pivot_mem 16368 2 = pack16 1" "rd pivot_mem 16370 (Suc 0) = [9]"
  "rd pivot_mem 16371 (Suc 0) = [2]" "rd pivot_mem 16372 2 = pack16 1" "rd pivot_mem 16374 (Suc 0) = [2]" "rd pivot_mem 16375 2 = pack16 0" "rd pivot_mem 16377 0 = []"
  "rd pivot_mem 16377 (Suc 0) = [1]" "rd pivot_mem 16378 2 = pack16 1" "rd pivot_mem 16380 (Suc 0) = [1]" "rd pivot_mem 16381 2 = pack16 1" "rd pivot_mem 16383 (Suc 0) = [5]"
  by (simp_all add: pivot_mem_def pivot_kv_def kvbytes_def rd_def wr_def pack16_def packbp_def pack64_def pivot_ptr_def upt_rec)

definition pivot_blk :: gblk where
  "pivot_blk = norm (parse_blk zero_bptr (\<lambda>i. if 0 \<le> i \<and> i < 16384 then pivot_mem i else 0))"

lemma pivot_blk_simps:
  "btype pivot_blk = TPIVOT" "nval pivot_blk = 1" "nbuf pivot_blk = 3" "doff pivot_blk = 10"
  "bget pivot_blk a n = (if 0 \<le> a \<and> a + int n \<le> 16384 then Some (rd pivot_mem a n) else None)"
  by (simp_all add: pivot_blk_def parse_blk_def norm_def rd_masked pivot_fields bget_def Let_def zero_blk_def)

lemma pivot_blk_reads:
  "getval pivot_blk 0 = Some pivot_kv"
  "getmsg pivot_blk 0 = Some (pending_msgs ! 0)" "getmsg pivot_blk 1 = Some (pending_msgs ! 1)" "getmsg pivot_blk 2 = Some (pending_msgs ! 2)"
  by (simp_all add: getval_def getmsg_def pivot_blk_simps pivot_fields Let_def pivot_kv_def pending_msgs_def)

lemma pivot_tree_at:
  assumes "leaf_fits es" and "strict (map kv_k es)"
  shows "tree_at (seen_by (pivot_ctx es) (insert 262144 sample_addrs)) 2 262144 (APivot [([1], ALeaf es)] pending_msgs)"
proof -
  let ?V = "seen_by (pivot_ctx es) (insert 262144 sample_addrs)"
  obtain v where v: "on_disk (sample_dev es []) 16384 = Some v" "blk_vals v es" "btype v = TLEAF"
    using written_leaf [OF sample_leaf_rep [OF assms(1), of 16384], of "sample_dev es []" 16384] sample_reads(1) by auto
  have V: "?V 16384 = Some v" "?V 262144 = Some pivot_blk"
    using v(1) pivot_leaf_read [of es] pivot_read [of es]
    by (simp_all add: pivot_ctx_def sample_ctx_def on_disk_def pivot_blk_def)
  have leaf: "tree_at ?V 1 16384 (ALeaf es)"
    using v V(1) assms(2) by (intro tree_at.leaf [of _ _ v]) (auto simp: strict_iff)
  have "tree_at ?V (Suc 1) 262144 (APivot [([1], ALeaf es)] pending_msgs)"
  proof (rule tree_at.pivot [of 1 ?V 262144 pivot_blk "[pivot_kv]" pending_msgs _ "\<lambda>_. pivot_ptr"])
    show "blk_vals pivot_blk [pivot_kv]" by (simp add: blk_vals_def pivot_blk_simps pivot_blk_reads)
    show "msgs_rep pivot_blk pending_msgs"
      unfolding msgs_rep_def using pivot_blk_reads(2-) by (simp add: pivot_blk_simps pending_msgs_def All_less_Suc less_Suc_eq)
  qed (use V leaf in \<open>simp_all add: pivot_blk_simps pivot_kv_def pivot_ptr_def pending_msgs_def\<close>)
  then show ?thesis by (simp add: numeral_2_eq_2)
qed

lemma pivot_ok: "fs_ok (pivot_ctx es) [] (insert 262144 sample_addrs)"
  by (auto simp: fs_ok_def pivot_ctx_def sample_ctx_def sample_super_def free_ranges_def ranges_ok_def range_in_def
      outside_def dvd_def zero_arena_def cache_init_ok pwrite_blk_def)

end
