(* ===== verification/Reamspec.thy ===== *)
theory Reamspec
  imports Ream Dirspec Sample
begin

text \<open>
  What the formatter leaves on the image, read back with the code that opens it: the superblock,
  the root of the main tree, the snapshot catalog and the header of the first arena.
\<close>

section \<open>Reading back a sequence of writes\<close>

definition holds :: "device \<Rightarrow> int \<Rightarrow> mem \<Rightarrow> bool" where
  "holds d a m \<longleftrightarrow> 0 \<le> a \<and> a + BLKSZ \<le> dsize d \<and> (\<forall>i. 0 \<le> i \<and> i < BLKSZ \<longrightarrow> dbytes d (a + i) = m i)"

lemma holds_pread: "holds d a m \<Longrightarrow> pread_blk d a = Some (\<lambda>i. if 0 \<le> i \<and> i < BLKSZ then m i else 0)"
  by (auto simp: holds_def pread_blk_def)

lemma holds_write: "0 \<le> a \<Longrightarrow> holds (pwrite_blk d a m) a m"
  by (auto simp: holds_def pwrite_blk_def wr_inside)

lemma holds_keep: "holds d a m \<Longrightarrow> b + BLKSZ \<le> a \<or> a + BLKSZ \<le> b \<Longrightarrow> holds (pwrite_blk d b m') a m"
  by (auto simp: holds_def pwrite_blk_def wr_outside)

lemma ream_write_simps:
  "fst (ream_write d b) = pwrite_blk d (sint (bp_addr (blk_bp b))) (finalize_hdr b)"
  "bp_addr (snd (ream_write d b)) = bp_addr (blk_bp b)"
  by (simp_all add: ream_write_def Let_def finalize_blk_def)

lemma ream_arenas_Suc:
  "ream_arenas (Suc n) asz off d =
     (let r1 = ream_write d (log_blk (off + 2 * BLKSZ) asz);
          r2 = ream_write (fst r1) (hdr_blk off asz (snd r1));
          r3 = ream_write (fst r2) (hdr_blk (off + BLKSZ) asz (snd r1));
          r4 = ream_arenas n asz (off + asz + 2 * BLKSZ) (fst r3)
      in (fst r4, snd r2 # snd r4))"
  by (simp add: Let_def case_prod_unfold)

lemma blk_addrs [simp]:
  "bp_addr (blk_bp (log_blk a asz)) = word_of_int a" "bp_addr (blk_bp (hdr_blk a asz bp)) = word_of_int a"
  "bp_addr (blk_bp (ream_leaf a)) = word_of_int a"
  by (simp_all add: log_blk_def hdr_blk_def ream_leaf_def)

lemma ream_arenas_keep:
  assumes "holds d a m" and "a + BLKSZ \<le> off" and "0 \<le> asz" and "off + int n * (asz + 2 * BLKSZ) + 2 * BLKSZ < 2 ^ 63"
  shows "holds (fst (ream_arenas n asz off d)) a m"
  using assms
proof (induction n arbitrary: d off)
  case (Suc n)
  have a: "0 \<le> a" using Suc.prems(1) by (simp add: holds_def)
  have b: "0 \<le> off" "off + asz + 2 * BLKSZ + int n * (asz + 2 * BLKSZ) + 2 * BLKSZ < 2 ^ 63"
    using Suc.prems(2,4) a by (simp_all add: algebra_simps)
  have "0 \<le> int n * (asz + 2 * BLKSZ)" using Suc.prems(3) by simp
  then have "off + 2 * BLKSZ < 2 ^ 63" using b Suc.prems(3) BLKSZ_def by linarith
  then have s: "sint (word_of_int (off + 2 * BLKSZ) :: u64) = off + 2 * BLKSZ" "sint (word_of_int off :: u64) = off"
    "sint (word_of_int (off + BLKSZ) :: u64) = off + BLKSZ"
    using b(1) by (intro sint_addr; simp)+
  have w: "holds (fst (ream_write (fst (ream_write (fst (ream_write d (log_blk (off + 2 * BLKSZ) asz))) h0)) h1)) a m"
    if "sint (bp_addr (blk_bp h0)) = off" "sint (bp_addr (blk_bp h1)) = off + BLKSZ" for h0 h1
    unfolding ream_write_simps blk_addrs s that
    using Suc.prems(1,2) by (intro holds_keep) auto
  show ?case
    unfolding ream_arenas_Suc Let_def fst_conv
    by (rule Suc.IH [OF w]) (use s Suc.prems b a in simp_all)
qed simp

lemma ream_arenas_first:
  assumes "0 \<le> off" "0 \<le> asz" and "off + int (Suc n) * (asz + 2 * BLKSZ) + 2 * BLKSZ < 2 ^ 63"
  shows "\<exists>logbp bp bps. holds (fst (ream_arenas (Suc n) asz off d)) off (finalize_hdr (hdr_blk off asz logbp))
     \<and> bp_addr logbp = word_of_int (off + 2 * BLKSZ) \<and> snd (ream_arenas (Suc n) asz off d) = bp # bps \<and> bp_addr bp = word_of_int off"
proof -
  let ?r1 = "ream_write d (log_blk (off + 2 * BLKSZ) asz)"
  let ?r2 = "ream_write (fst ?r1) (hdr_blk off asz (snd ?r1))"
  let ?r3 = "ream_write (fst ?r2) (hdr_blk (off + BLKSZ) asz (snd ?r1))"
  have "0 \<le> int (Suc n) * (asz + 2 * BLKSZ)" using assms(2) by simp
  then have "off + 2 * BLKSZ < 2 ^ 63" using assms(3) BLKSZ_def by linarith
  then have s: "sint (word_of_int off :: u64) = off" "sint (word_of_int (off + BLKSZ) :: u64) = off + BLKSZ"
    using assms(1) by (intro sint_addr; simp)+
  have "holds (fst ?r2) off (finalize_hdr (hdr_blk off asz (snd ?r1)))"
    using assms(1) s by (simp add: ream_write_simps holds_write)
  then have "holds (fst ?r3) off (finalize_hdr (hdr_blk off asz (snd ?r1)))"
    unfolding ream_write_simps(1) [of _ "hdr_blk (off + BLKSZ) _ _"] blk_addrs s by (intro holds_keep) auto
  then have "holds (fst (ream_arenas (Suc n) asz off d)) off (finalize_hdr (hdr_blk off asz (snd ?r1)))"
    unfolding ream_arenas_Suc Let_def fst_conv by (rule ream_arenas_keep) (use assms in \<open>simp_all add: algebra_simps\<close>)
  then show ?thesis by (auto simp: ream_arenas_Suc Let_def ream_write_simps simp del: ream_arenas.simps)
qed

section \<open>Sizes\<close>

lemma ream_sizes:
  assumes "128 * 1024 * 1024 + BLKSZ \<le> n" and "sz = ream_size n"
  shows "8 \<le> ream_narena sz" "ream_narena sz \<le> 32" "0 \<le> ream_asz sz" "ream_narena sz * (ream_asz sz + 2 * BLKSZ) \<le> sz"
    "100 * BLKSZ \<le> sz" "sz + 2 * BLKSZ \<le> n"
proof -
  let ?k = "ream_narena sz"
  have m: "0 \<le> n mod 16384" "n mod 16384 < 16384" by simp_all
  then have sz: "128 * 1024 * 1024 - 2 * 16384 \<le> sz" "sz + 2 * 16384 \<le> n" using assms unfolding ream_size_def BLKSZ_def by linarith+
  show k: "8 \<le> ?k" "?k \<le> 32" by (simp_all add: ream_narena_def)
  show "100 * BLKSZ \<le> sz" "sz + 2 * BLKSZ \<le> n" using sz by simp_all
  let ?q = "sz div ?k"
  have q: "?k * ?q \<le> sz" using k pos_mod_sign [of ?k sz] mult_div_mod_eq [of ?k sz] by linarith
  have "(128 * 1024 * 1024 - 2 * 16384) div 32 \<le> sz div 32" using sz(1) by (rule zdiv_mono1) simp
  also have "\<dots> \<le> ?q" using k sz(1) by (intro zdiv_mono2) auto
  finally have q0: "4193280 \<le> ?q" by simp
  have a: "ream_asz sz = ?q - ?q mod 16384 - 2 * 16384" by (simp add: ream_asz_def Let_def)
  have r: "0 \<le> ?q mod 16384" "?q mod 16384 < 16384" by simp_all
  show "0 \<le> ream_asz sz" using a q0 r by linarith
  have "ream_asz sz + 2 * BLKSZ \<le> ?q" using a r by simp
  then have "?k * (ream_asz sz + 2 * BLKSZ) \<le> ?k * ?q" using k by (intro mult_left_mono) auto
  then show "?k * (ream_asz sz + 2 * BLKSZ) \<le> sz" using q by linarith
qed

section \<open>The superblock\<close>

lemma unpacksb_cong:
  assumes "\<And>i. 0 \<le> i \<Longrightarrow> i < BLKSZ \<Longrightarrow> m' i = m i"
  shows "unpacksb fi m' BLKSZ = unpacksb fi m BLKSZ"
proof -
  have r: "rd m' a n = rd m a n" if "0 \<le> a" "a + int n \<le> BLKSZ" for a n
    using assms that by (intro rd_cong) auto
  let ?n = "sint (unpack32 (rd m 16 4))"
  show ?thesis
  proof (cases "0 < ?n \<and> ?n \<le> 512")
    case True
    then have b: "104 + 16 * int (nat ?n) + 8 \<le> BLKSZ" by simp
    have "unpack_arenabp m' i = unpack_arenabp m i" if "i < nat ?n" for i
    proof -
      have "int i \<le> 511" using that True by linarith
      then show ?thesis by (simp add: unpack_arenabp_def r)
    qed
    then have "map (unpack_arenabp m') [0..<nat ?n] = map (unpack_arenabp m) [0..<nat ?n]" by simp
    moreover have "rd m' (104 + 16 * int (nat ?n)) 8 = rd m (104 + 16 * int (nat ?n)) 8" "rd m' 0 (104 + 16 * nat ?n) = rd m 0 (104 + 16 * nat ?n)"
      using b by (auto intro!: r)
    ultimately show ?thesis by (simp add: unpacksb_def r Let_def)
  qed (auto simp: unpacksb_def r Let_def)
qed

lemma super_magic:
  assumes "pack_sb_block BLKSZ fi = Some m"
  shows "wr m 0 (pack16 TSUPER) = m"
proof -
  have "rd m 0 8 = sb_magic"
    using assms packsb_fields(1) rd_packed [of 0 8] by (auto simp: pack_sb_block_def Let_def pack_simps)
  then have "rd m 0 2 = take 2 sb_magic" using take_rd [of 2 8 m 0] by simp
  also have "\<dots> = pack16 TSUPER" by code_simp
  finally show ?thesis using wr_rd_id [of m 0 2] by simp
qed

section \<open>The leaves\<close>

lemma init_leaf:
  assumes "leaf_fits es"
  shows "\<exists>b. setvals (ream_leaf a) es = Some b \<and> leaf_rep b es \<and> bp_addr (blk_bp b) = word_of_int a"
proof -
  have "leaf_rep (ream_leaf a) []" by (rule leaf_rep_empty) (simp_all add: ream_leaf_def zero_blk_def)
  then show ?thesis using setvals_rep [of "ream_leaf a" "[]" es] assms by (auto simp: same_frame_def)
qed

lemma dkey_less_upkey: "dkey up n < upkey q"
  by (simp add: dkey_def upkey_def)

lemma packdkey_sizes: "packdkey 256 up (Some []) = Some (dkey up [])" "packdkey 512 up (Some []) = Some (dkey up [])"
  by (simp_all add: packdkey_inl [simplified])

lemmas fits_simps = leaf_fits_def kv_small_def kvs_size_def kvsz_def

lemma root_entries_ok:
  "\<exists>es. root_entries = Some es \<and> leaf_fits es \<and> strict (map kv_k es)
     \<and> dirs es (- 1, []) = Some (fillxdir 0 [] QTDIR (DMDIR OR 0x1FD))"
proof -
  let ?d = "fillxdir 0 [] QTDIR (DMDIR OR 0x1FD)"
  have n: "xname ?d = Some []" by (simp add: fillxdir_def)
  then have d: "?d\<lparr>xname := Some []\<rparr> = ?d" by simp
  have r: "root_entries = Some [\<lparr>kv_k = dkey (- 1) [], kv_v = packdval_bytes ?d\<rparr>, \<lparr>kv_k = upkey 0, kv_v = dkey (- 1) []\<rparr>]"
    using n by (simp add: root_entries_def dir2kv_def kup_def packdkey_sizes)
  have "kv2dir \<lparr>kv_k = dkey (- 1) [], kv_v = packdval_bytes ?d\<rparr> = Some ?d" using kv2dir_dkey [of "[]" "- 1" ?d] d by simp
  then show ?thesis unfolding r by (simp add: fits_simps dirs_def entry_def strict_def dkey_less_upkey)
qed

lemma adm_entries_ok: "\<exists>es. adm_entries ubp n = Some es \<and> leaf_fits es"
  by (simp add: adm_entries_def dir2kv_def kup_def fillxdir_def packdkey_sizes packdkey_dkey [simplified] fits_simps cstr_def datkey_def)

lemma snap_entries_ok:
  "\<exists>es k. snap_entries rbp abp 1 = Some (es, 4) \<and> leaf_fits es \<and> strict (map kv_k es)
     \<and> map_option kv_v (entry es (KLABEL # cstr ''main'')) = Some (packlblval 2 (LMUT OR LTSNAP))
     \<and> packsnap KEYMAX 2 = Some k
     \<and> map_option kv_v (entry es k)
         = Some (packtree (zero_tree\<lparr>t_nlbl := 1, t_ht := 1, t_gen := 3, t_succ := - 1, t_bp := rbp\<rparr>))"
proof -
  have "pack64 0 < pack64 1 \<and> pack64 0 < pack64 2 \<and> pack64 1 < pack64 2" by code_simp
  moreover have "length (packlblval g f) = 13" for g f by (simp add: packlblval_def)
  ultimately show ?thesis
    by (simp add: snap_entries_def lbl2kv_def snap2kv_def fits_simps packlbl_def packsnap_def cstr_def strict_def entry_def zero_tree_def)
qed

section \<open>The formatted image\<close>

lemma holds_leaf:
  assumes "holds d a (finalize_hdr b)" and "leaf_rep b es" and "a < 2 ^ 63"
  shows "\<exists>v. on_disk d (word_of_int a) = Some v \<and> leaf_rep v es"
proof -
  have a: "sint (word_of_int a :: u64) = a" using assms(1,3) by (intro sint_addr) (auto simp: holds_def)
  have "leaf_rep (parse_blk zero_bptr (\<lambda>i. if 0 \<le> i \<and> i < BLKSZ then finalize_hdr b i else 0)) es"
    by (rule parse_blk_mask [OF parse_finalize_leaf [OF assms(2)]]) simp
  then show ?thesis using holds_pread [OF assms(1)] by (simp add: on_disk_def a)
qed

lemma holds_super:
  assumes "holds d 0 (finalize_hdr sb0)" and "super_blk 0 fi = Some sb0" and "super_ok fi"
  shows "read_super d = Inr (super_stored zero_tree fi)"
proof -
  obtain m where m: "pack_sb_block BLKSZ fi = Some m" "finalize_hdr sb0 = m"
    using assms(2) super_magic by (auto simp: super_blk_def finalize_hdr_def Let_def)
  have "unpacksb zero_super (\<lambda>i. if 0 \<le> i \<and> i < BLKSZ then m i else 0) BLKSZ = unpacksb zero_super m BLKSZ"
    by (rule unpacksb_cong) simp
  moreover have "pread_blk d 0 = Some (\<lambda>i. if 0 \<le> i \<and> i < BLKSZ then m i else 0)" using holds_pread [OF assms(1)] unfolding m(2) .
  ultimately show ?thesis
    using unpacksb_pack_sb_block [OF assms(3) m(1), of zero_super] by (simp add: read_super_def) (simp add: zero_super_def)
qed

lemma length_arenas: "length (snd (ream_arenas n asz off d)) = n"
  by (induction n arbitrary: off d) (simp_all add: Let_def case_prod_unfold)

lemma super_blk_simps: "super_ok fi \<Longrightarrow> \<exists>b. super_blk a fi = Some b \<and> bp_addr (blk_bp b) = word_of_int a"
  by (simp add: super_blk_def pack_sb_block_def Let_def)

definition formatted :: "device \<Rightarrow> super \<Rightarrow> kvp list \<Rightarrow> kvp list \<Rightarrow> bool" where
  "formatted d fi es cat \<longleftrightarrow>
     (\<exists>sb0. super_blk 0 fi = Some sb0 \<and> holds d 0 (finalize_hdr sb0)) \<and> super_ok fi
     \<and> (\<exists>bp bps asz logbp. sb_arenabp fi = bp # bps \<and> bp_addr bp = word_of_int BLKSZ
          \<and> holds d BLKSZ (finalize_hdr (hdr_blk BLKSZ asz logbp)) \<and> bp_addr logbp = word_of_int (BLKSZ + 2 * BLKSZ))
     \<and> sb_nextqid fi = Nreamqid \<and> sb_nextgen fi = 4
     \<and> root_entries = Some es \<and> (\<exists>v. on_disk d (word_of_int mb_addr) = Some v \<and> leaf_rep v es)
     \<and> (\<exists>rbp abp. bp_addr rbp = word_of_int mb_addr \<and> snap_entries rbp abp 1 = Some (cat, 4))
     \<and> (\<exists>w. on_disk d (bp_addr (t_bp (sb_snap fi))) = Some w \<and> leaf_rep w cat)"

lemma sint_addrs [simp]:
  "sint (word_of_int mb_addr :: u64) = mb_addr" "sint (word_of_int ab_addr :: u64) = ab_addr"
  "sint (word_of_int ub_addr :: u64) = ub_addr" "sint (word_of_int tb_addr :: u64) = tb_addr" "sint (word_of_int 0 :: u64) = 0"
  by simp_all

lemma ream_formatted:
  assumes n: "128 * 1024 * 1024 + BLKSZ \<le> dsize d" "dsize d < 2 ^ 62"
  shows "\<exists>d' fi es cat. ream d user = Some (Inr d') \<and> formatted d' fi es cat"
proof -
  let ?sz = "ream_size (dsize d)"
  let ?k = "ream_narena ?sz" and ?asz = "ream_asz ?sz"
  let ?r = "ream_arenas (nat ?k) ?asz BLKSZ d"
  note z = ream_sizes [OF n(1) refl]
  obtain j where j: "nat ?k = Suc j" using z(1) by (cases "nat ?k") auto
  have kj: "int (Suc j) = ?k" using j z(1) by linarith
  obtain logbp bp bps where a: "holds (fst ?r) BLKSZ (finalize_hdr (hdr_blk BLKSZ ?asz logbp))"
    "bp_addr logbp = word_of_int (BLKSZ + 2 * BLKSZ)" "snd ?r = bp # bps" "bp_addr bp = word_of_int BLKSZ"
    using ream_arenas_first [of BLKSZ ?asz j d] z kj n j by auto
  obtain es where es: "root_entries = Some es" "leaf_fits es" using root_entries_ok by blast
  obtain mb where mb: "setvals (ream_leaf mb_addr) es = Some mb" "leaf_rep mb es" "bp_addr (blk_bp mb) = word_of_int mb_addr"
    using init_leaf [OF es(2)] by blast
  let ?r2 = "ream_write (fst ?r) mb"
  let ?r3 = "ream_write (fst ?r2) (users_blk user)"
  obtain ads where ads: "adm_entries (snd ?r3) (length (utab user)) = Some ads" "leaf_fits ads" using adm_entries_ok by blast
  obtain ab where ab: "setvals (ream_leaf ab_addr) ads = Some ab" "bp_addr (blk_bp ab) = word_of_int ab_addr"
    using init_leaf [OF ads(2)] by blast
  let ?r4 = "ream_write (fst ?r3) ab"
  obtain cat where cat: "snap_entries (snd ?r2) (snd ?r4) 1 = Some (cat, 4)" "leaf_fits cat" using snap_entries_ok by blast
  obtain tb where tb: "setvals (ream_leaf tb_addr) cat = Some tb" "leaf_rep tb cat" "bp_addr (blk_bp tb) = word_of_int tb_addr"
    using init_leaf [OF cat(2)] by blast
  let ?r5 = "ream_write (fst ?r4) tb"
  define fi where "fi = \<lparr>sb_blksz = word_of_int BLKSZ, sb_bufspc = word_of_int BUFSPC, sb_narena = word_of_int ?k,
          sb_snap = zero_tree\<lparr>t_ht := 1, t_bp := snd ?r5\<rparr>, sb_flag = 0, sb_nextqid = Nreamqid, sb_nextgen = 4,
          sb_qgen = 0, sb_arenabp = snd ?r\<rparr>"
  have ok: "super_ok fi"
  proof -
    have "sint (word_of_int ?k :: u32) = ?k" using z(1,2) by (subst signed_of_int) (simp add: signed_take_bit_int_eq_self)
    then show ?thesis using z(1,2) length_arenas [of "nat ?k" ?asz BLKSZ d] by (simp add: super_ok_def fi_def)
  qed
  obtain sb0 where sb0: "super_blk 0 fi = Some sb0" "bp_addr (blk_bp sb0) = word_of_int 0" using super_blk_simps [OF ok] by blast
  obtain sb1 where sb1: "super_blk (?sz + BLKSZ) fi = Some sb1" "bp_addr (blk_bp sb1) = word_of_int (?sz + BLKSZ)" using super_blk_simps [OF ok] by blast
  let ?r6 = "ream_write (fst ?r5) sb0"
  let ?d = "fst (ream_write (fst ?r6) sb1)"
  have init: "initroot (ream_leaf mb_addr) = Some mb" "initadm (ream_leaf ab_addr) (snd ?r3) (length (utab user)) = Some ab"
    "initsnap (ream_leaf tb_addr) (snd ?r2) (snd ?r4) 1 = Some (tb, 4)"
    unfolding initroot_def initadm_def initsnap_def es(1) ads(1) cat(1) by (simp_all add: mb(1) [simplified] ab(1) [simplified] tb(1) [simplified])
  have run: "ream d user = Some (Inr ?d)"
    unfolding ream_def Let_def case_prod_unfold init bind.bind_lunit snd_conv fst_conv
      fi_def [symmetric] sb0(1) sb1(1) using n(1) by simp
  have u: "bp_addr (blk_bp (users_blk user)) = word_of_int ub_addr" by (simp add: users_blk_def)
  have s1: "sint (word_of_int (?sz + BLKSZ) :: u64) = ?sz + BLKSZ" using z(5,6) n by (intro sint_addr) auto
  note w = ream_write_simps(1) mb(3) u ab(2) tb(3) sb0(2) sb1(2) s1 sint_addrs
  have "holds ?d BLKSZ (finalize_hdr (hdr_blk BLKSZ ?asz logbp))"
    unfolding w by (intro holds_keep a(1)) (use z(5) in simp_all)
  moreover have "holds ?d mb_addr (finalize_hdr mb)"
    unfolding w by (intro holds_keep holds_write) (use z(5) in simp_all)
  then have "\<exists>v. on_disk ?d (word_of_int mb_addr) = Some v \<and> leaf_rep v es" by (rule holds_leaf [OF _ mb(2)]) simp
  moreover have "holds ?d tb_addr (finalize_hdr tb)"
    unfolding w by (intro holds_keep holds_write) (use z(5) in simp_all)
  then have "\<exists>w. on_disk ?d (word_of_int tb_addr) = Some w \<and> leaf_rep w cat" by (rule holds_leaf [OF _ tb(2)]) simp
  then have "\<exists>w. on_disk ?d (bp_addr (t_bp (sb_snap fi))) = Some w \<and> leaf_rep w cat"
    unfolding fi_def by (simp add: ream_write_simps(2) tb(3))
  moreover have "holds ?d 0 (finalize_hdr sb0)"
    unfolding w by (intro holds_keep holds_write) (use z(5) in simp_all)
  moreover have "bp_addr (snd ?r2) = word_of_int mb_addr" unfolding ream_write_simps(2) by (rule mb(3))
  ultimately have "formatted ?d fi es cat"
    unfolding formatted_def using ok a(2-4) sb0(1) es(1) cat(1) by (simp add: fi_def) blast
  then show ?thesis using run by blast
qed

section \<open>Opening the image\<close>

text \<open>
  What the loop over the entries of a log block reads, apart from what it does with them: where the
  entry behind the one at \<open>i\<close> starts, if that entry lies in the buffer, and the offset of the first
  entry that does not.
\<close>

definition next_ent :: "gblk \<Rightarrow> int \<Rightarrow> int option" where
  "next_ent b i = do {
     eb \<leftarrow> bget b (doff b + i) 8;
     let op = uint (unpack64 eb AND 0xff);
     if op = 0 \<or> op = 1 then do { _ \<leftarrow> bget b (doff b + i + 8) 8; Some (i + 16) } else Some (i + 8)
   }"

lemma next_ent_grows: "next_ent b i = Some j \<Longrightarrow> i < j"
  by (auto simp: next_ent_def Let_def split: bind_splits if_splits)

function read_fault :: "gblk \<Rightarrow> int \<Rightarrow> int \<Rightarrow> int option" where
  "read_fault b lsz i =
     (if i < lsz then (case next_ent b i of None \<Rightarrow> Some i | Some j \<Rightarrow> read_fault b lsz j) else None)"
  by pat_completeness auto
termination
  by (relation "measure (\<lambda>(b, lsz, i). nat (lsz - i))") (auto dest: next_ent_grows)

declare read_fault.simps [simp del]

text \<open>The replay of a block returns only when it never read outside.\<close>

lemma replay_reads: "read_fault b lsz i = Some k \<Longrightarrow> replay b lsz i rs = None"
proof (induction b lsz i arbitrary: rs rule: read_fault.induct)
  case (1 b lsz i)
  then have i: "i < lsz" by (subst (asm) read_fault.simps) (simp split: if_splits)
  show ?case
  proof (cases "next_ent b i")
    case None
    then show ?thesis using i by (subst replay.simps) (auto simp: next_ent_def Let_def split: bind_splits if_splits)
  next
    case (Some j)
    then have f: "read_fault b lsz j = Some k" using 1(2) i by (subst (asm) read_fault.simps) simp
    have "replay b lsz j rs' = None" for rs' by (rule 1(1) [OF i Some f])
    then show ?thesis using i Some by (subst replay.simps) (auto simp: next_ent_def Let_def split: bind_splits if_splits)
  qed
qed

text \<open>A block that claims more bytes than the buffer has is read past the end.\<close>

lemma read_fault_past:
  assumes "doff b = 0" and "BLKSZ < lsz"
  shows "0 \<le> i \<Longrightarrow> i \<le> BLKSZ \<Longrightarrow> \<exists>j. read_fault b lsz i = Some j \<and> BLKSZ < j + 16 \<and> j \<le> BLKSZ"
proof (induction "nat (BLKSZ - i)" arbitrary: i rule: less_induct)
  case less
  show ?case
  proof (cases "next_ent b i")
    case None
    then have "BLKSZ < i + 16" using assms(1) less.prems by (auto simp: next_ent_def bget_def Let_def split: if_splits)
    then show ?thesis using None assms(2) less.prems by (subst read_fault.simps) auto
  next
    case (Some j)
    then have j: "i < j" "j \<le> BLKSZ" using assms(1) by (auto simp: next_ent_def bget_def Let_def split: if_splits)
    then have "\<exists>k. read_fault b lsz j = Some k \<and> BLKSZ < k + 16 \<and> k \<le> BLKSZ" using less.hyps [of j] less.prems by simp
    then show ?thesis using Some j assms(2) by (subst read_fault.simps) auto
  qed
qed

lemma replay_overrun:
  assumes "doff b = 0" and "BLKSZ < lsz"
  shows "replay b lsz 0 rs = None"
  using replay_reads [of b lsz 0 _ rs] read_fault_past [OF assms, of 0] by force

text \<open>The header of arena 0 as \<^verbatim>\<open>load_arena\<close> reads it: the log pointer comes out as address 0.\<close>

lemma log_pointer_shifted:
  assumes "bp_addr logbp = word_of_int (BLKSZ + 2 * BLKSZ)" and "\<And>i. 0 \<le> i \<Longrightarrow> i < BLKSZ \<Longrightarrow> m i = finalize_hdr (hdr_blk BLKSZ asz logbp) i"
  shows "rd m 0 2 = pack16 TARENA" and "unpack64 (rd m 32 8) = 0"
proof -
  let ?P = "packarena (word_of_int asz) (word_of_int BLKSZ) logbp"
  have f: "finalize_hdr (hdr_blk BLKSZ asz logbp) = wr (wr zeros 2 ?P) 0 (pack16 TARENA)"
    by (simp add: finalize_hdr_def hdr_blk_def Let_def)
  have r: "rd m a n = rd (wr (wr zeros 2 ?P) 0 (pack16 TARENA)) a n" if "0 \<le> a" "a + int n \<le> BLKSZ" for a n
    using assms(2) that unfolding f by (intro rd_cong) auto
  show "rd m 0 2 = pack16 TARENA" by (simp add: r)
  have "rd m 32 8 = fld ?P 30 8"
    by (simp add: r rd_wr_disjoint rd_wr_within fld_def packarena_def)
  have p: "pack64 0 = replicate 8 0" "pack64 49152 = [0, 0, 0, 0, 0, 0, 192, 0]" by code_simp+
  note \<open>rd m 32 8 = fld ?P 30 8\<close>
  also have "fld ?P 30 8 = replicate 8 0"
    using assms(1) by (simp add: fld_def packarena_def packbp_def p eval_nat_numeral)
  finally show "unpack64 (rd m 32 8) = 0" unfolding p(1) [symmetric] by (simp add: unpack64_pack64)
qed

lemma parse_other:
  assumes "s16 (unpack16 (rd m 0 2)) \<noteq> TLEAF" and "s16 (unpack16 (rd m 0 2)) \<noteq> TPIVOT" and "norm b = norm (parse_blk bp m)"
  shows "doff b = 0" and "0 \<le> a \<Longrightarrow> a + int n \<le> BLKSZ \<Longrightarrow> bget b a n = Some (rd m a n)"
proof -
  have "doff (norm b) = 0" using assms by (simp add: parse_blk_def Let_def zero_blk_def)
  then show "doff b = 0" by simp
  have "bget b = bget (parse_blk bp m)" using bget_norm assms(3) by metis
  moreover have "buf (parse_blk bp m) = m" by (simp add: parse_blk_def Let_def zero_blk_def)
  ultimately show "0 \<le> a \<Longrightarrow> a + int n \<le> BLKSZ \<Longrightarrow> bget b a n = Some (rd m a n)" by (simp add: bget_def)
qed

text \<open>
  On a formatted image: the log pointer of arena 0 as the code reads it is address 0, the block there
  is the superblock, and its bytes 2 and 3 are taken for the size of a log block.
\<close>

definition fresh_log :: "device \<Rightarrow> gblk \<Rightarrow> gblk \<Rightarrow> bool" where
  "fresh_log d h b \<longleftrightarrow>
     on_disk d (word_of_int BLKSZ) = Some h \<and> doff h = 0
     \<and> map_option bp_addr (Option.bind (bget h 0 56) (\<lambda>hd. unpackbp (drop 32 hd))) = Some 0
     \<and> on_disk d 0 = Some b \<and> doff b = 0 \<and> map_option unpack16 (bget b 2 2) = Some 26227"

lemma formatted_fresh_log:
  assumes "formatted d fi es cat"
  shows "\<exists>h b. fresh_log d h b"
proof -
  let ?mask = "\<lambda>m i. if 0 \<le> i \<and> i < BLKSZ then m i else (0 :: byte)"
  obtain sb0 asz logbp where f: "super_blk 0 fi = Some sb0" "holds d 0 (finalize_hdr sb0)"
    "holds d BLKSZ (finalize_hdr (hdr_blk BLKSZ asz logbp))" "bp_addr logbp = word_of_int (BLKSZ + 2 * BLKSZ)"
    using assms(1) unfolding formatted_def by blast
  let ?h = "?mask (finalize_hdr (hdr_blk BLKSZ asz logbp))" and ?z = "?mask (finalize_hdr sb0)"
  let ?hb = "norm (parse_blk zero_bptr ?h)" and ?zb = "norm (parse_blk zero_bptr ?z)"
  have nn: "norm (norm x) = norm x" for x by (simp add: norm_def)
  have B: "sint (word_of_int BLKSZ :: u64) = BLKSZ" by simp
  have vh: "on_disk d (word_of_int BLKSZ) = Some ?hb" using holds_pread [OF f(3)] unfolding on_disk_def B by simp
  have vz: "on_disk d 0 = Some ?zb" using holds_pread [OF f(2)] by (simp add: on_disk_def)
  note h = log_pointer_shifted [OF f(4), of ?h asz]
  have hb: "doff ?hb = 0" "bget ?hb 0 56 = Some (rd ?h 0 56)"
    using parse_other [of ?h ?hb zero_bptr] h(1) nn by simp_all
  have "fld (drop 32 (rd ?h 0 56)) 0 8 = rd ?h 32 8" by (simp add: drop_rd fld_rd)
  then have lh: "map_option bp_addr (unpackbp (drop 32 (rd ?h 0 56))) = Some 0"
    using h(2) by (auto simp: unpackbp_def)
  obtain m where m: "pack_sb_block BLKSZ fi = Some m" "finalize_hdr sb0 = m"
    using f(1) super_magic by (auto simp: super_blk_def finalize_hdr_def Let_def)
  have "rd m 0 8 = sb_magic"
    using m(1) packsb_fields(1) rd_packed [of 0 8] by (auto simp: pack_sb_block_def Let_def pack_simps)
  moreover have "rd ?z a k = rd m a k" if "0 \<le> a" "a + int k \<le> BLKSZ" for a k using that m(2) by (intro rd_cong) auto
  ultimately have z: "rd ?z 0 2 = take 2 sb_magic" "rd ?z 2 2 = take 2 (drop 2 sb_magic)"
    using take_rd [of 2 8 m 0] drop_rd [of 2 m 0 8] take_rd [of 2 6 m 2] by simp_all
  have ty: "s16 (unpack16 (take 2 sb_magic)) = 26469" "unpack16 (take 2 (drop 2 sb_magic)) = 26227" by code_simp+
  have zb: "doff ?zb = 0" "bget ?zb 2 2 = Some (rd ?z 2 2)" using parse_other [of ?z ?zb zero_bptr] ty z nn by simp_all
  show ?thesis
    unfolding fresh_log_def by (intro exI [of _ ?hb] exI [of _ ?zb]) (use vh vz hb lh zb z(2) ty(2) in simp)
qed

lemma load_arena_overruns:
  assumes l: "fresh_log d h b" and s: "dev s = d" "bc s = cache_init n zero_cache" "arenas s \<noteq> []" and bp: "bp_addr bp = word_of_int BLKSZ"
  shows "load_arena s 0 bp = None"
proof -
  have vh: "view d (bc s) (bp_addr bp) = Some h" using l unfolding s(2) view_init bp by (simp add: fresh_log_def)
  obtain c1 c2 p b1 where r: "fetch d (bc s) bp = Some (c1, Some (p, b1))" "release c1 p = Some c2" "norm b1 = h"
    "cache_ok d c2 [] {0}" "\<forall>a \<in> {0}. view d c2 a = view d (bc s) a"
    using bstore.fetch_release [OF _ vh, of "[]" "{0}"] cache_init_ok [of d n "{0}"] s(2) by auto
  have hb: "doff b1 = 0" "bget b1 = bget h" using l bget_norm [of b1] unfolding r(3) [symmetric] fresh_log_def by simp_all
  obtain hd loghd where lh: "bget h 0 56 = Some hd" "unpackbp (drop 32 hd) = Some loghd" "bp_addr loghd = 0"
    using l by (auto simp: fresh_log_def bind_eq_Some_conv)
  have vz: "view d c2 (bp_addr loghd) = Some b"
    using r(5) l unfolding lh(3) s(2) view_init by (simp add: fresh_log_def)
  obtain c3 p3 b3 where r3: "fetch d c2 loghd = Some (c3, Some (p3, b3))" "norm b3 = b"
    using bstore.fetch_present [OF r(4) vz] by blast
  have zb: "doff b3 = 0" "bget b3 = bget b" using l bget_norm [of b3] unfolding r3(2) [symmetric] fresh_log_def by simp_all
  obtain sz where sz: "bget b 2 2 = Some sz" "unpack16 sz = 26227" using l by (auto simp: fresh_log_def)
  have "log_walk d c2 loghd (a_free a) = None" for a :: arena
    using lh(3) r3(1) zb sz replay_overrun [of b3 26227 "a_free a"]
    by (subst log_walk.simps) (auto split: bind_splits)
  then show ?thesis
    using r(1,2) hb lh s by (simp add: load_arena_def getb_def dropb_def Let_def)
qed

lemma open_overruns:
  assumes "formatted d fi es cat" and "fresh_log d h b"
  shows "fs_open ReadWrite d = None"
proof -
  obtain sb0 where sb0: "super_blk 0 fi = Some sb0" "holds d 0 (finalize_hdr sb0)" and ok: "super_ok fi"
    using assms(1) unfolding formatted_def by blast
  obtain bp bps where bps: "sb_arenabp fi = bp # bps" "bp_addr bp = word_of_int BLKSZ"
    using assms(1) unfolding formatted_def by blast
  note rs = holds_super [OF sb0(2,1) ok]
  let ?n = "nat (sint (sb_narena fi))"
  obtain k where k: "?n = Suc k" "0 < sint (sb_narena fi)" using ok by (cases ?n) (auto simp: super_ok_def)
  let ?s = "(zero_ctx d)\<lparr>readonly := False, sb := super_stored zero_tree fi, bc := cache_init 4096 zero_cache, arenas := replicate ?n zero_arena\<rparr>"
  have "load_arena ?s 0 (bp\<lparr>bp_gen := - 1\<rparr>) = None"
    by (rule load_arena_overruns [OF assms(2), where n = 4096]) (use bps k in \<open>simp_all add: zero_ctx_def\<close>)
  then show ?thesis
    using rs bps k by (simp add: fs_open_def Let_def super_stored_def zero_ctx_def)
qed

end
