(* ===== verification/Syncspec.thy ===== *)
theory Syncspec
  imports Reamspec
begin

text \<open>
  What \<^verbatim>\<open>gefs_sync_fs\<close> makes durable, and the snapshot catalog: a snapshot that was created can be
  opened under its name.
\<close>

section \<open>What an update leaves alone\<close>

definition frame :: "ctx \<Rightarrow> ctx \<Rightarrow> bool" where
  "frame s s' \<longleftrightarrow> sb s' = sb s \<and> dsize (dev s) \<le> dsize (dev s') \<and> readonly s' = readonly s"

lemma frame_refl [simp]: "frame s s"
  by (simp add: frame_def)

lemma frame_trans: "frame s s' \<Longrightarrow> frame s' s'' \<Longrightarrow> frame s s''"
  by (auto simp: frame_def)

lemma frame_steps:
  "getb s bp = Some (s', q) \<Longrightarrow> frame s s'" "dropb s p = Some s' \<Longrightarrow> frame s s'" "alloc_blk s = Some (s', off) \<Longrightarrow> frame s s'"
  "enterb s new = Some s' \<Longrightarrow> frame s s'" "frame s (set_tree tr t s)" "frame s (s\<lparr>active_tree := t\<rparr>)" "frame s (s\<lparr>dirty := x\<rparr>)"
  "frame s (fst (blk_finalize_and_write s new))"
  by (auto simp: frame_def getb_def dropb_def alloc_blk_def enterb_def blk_finalize_and_write_def Let_def pwrite_blk_def
      split: bind_splits if_splits option.splits) (cases tr; simp)+

lemma btupsert_frame:
  assumes "btupsert s tr ms = Some (s', r)"
  shows "frame s s'"
proof (cases "readonly s \<or> ms = []")
  case True
  then show ?thesis using assms by (simp add: btupsert_def)
next
  case False
  then obtain s1 q where g: "getb s (t_bp (tree_of tr s)) = Some (s1, q)"
    using assms by (auto simp: btupsert_def split: bind_splits)
  show ?thesis
  proof (cases q)
    case None
    then show ?thesis using assms False g frame_steps(1) [OF g] by (simp add: btupsert_def)
  next
    case (Some pr)
    then obtain p root where pr: "q = Some (p, root)" by (cases pr) auto
    obtain s2 addr where al: "alloc_blk s1 = Some (s2, addr)"
      using assms False g pr by (auto simp: btupsert_def split: bind_splits)
    note f2 = frame_trans [OF frame_steps(1) [OF g] frame_steps(3) [OF al]]
    show ?thesis
    proof (cases "addr < 0")
      case True
      then show ?thesis
        using assms False g pr al frame_trans [OF f2 frame_steps(2)] by (auto simp: btupsert_def split: bind_splits)
    next
      case ok: False
      let ?t = "tree_of tr s2"
      obtain new where mg: "merge_loop root 0 (stablesort m_k ms) (new_leaf addr (t_gen ?t)) = Some new"
        using assms False g pr al ok by (auto simp: btupsert_def Let_def split: bind_splits)
      let ?w = "blk_finalize_and_write s2 new"
      let ?s3 = "set_tree tr (?t\<lparr>t_bp := blk_bp (snd ?w), t_ht := 1\<rparr>) (fst ?w)"
      let ?s4 = "if t_gen ?t = t_gen (active_tree ?s3) then ?s3\<lparr>active_tree := (active_tree ?s3)\<lparr>t_bp := blk_bp (snd ?w), t_ht := 1\<rparr>\<rparr> else ?s3"
      obtain s5 s6 where e: "enterb ?s4 (snd ?w) = Some s5" "dropb s5 p = Some s6" "s' = s6\<lparr>dirty := True\<rparr>"
        using assms False g pr al ok mg unfolding btupsert_def Let_def by (auto simp: case_prod_unfold cong: if_cong split: bind_splits)
      have "frame s2 ?s3" by (rule frame_trans [OF frame_steps(8) frame_steps(5)])
      then have "frame s2 ?s4" using frame_trans [OF _ frame_steps(6)] by simp
      then have "frame s s6" using frame_trans [OF f2] frame_trans frame_steps(4) [OF e(1)] frame_steps(2) [OF e(2)] by blast
      then show ?thesis using e(3) frame_trans [OF _ frame_steps(7)] by simp
    qed
  qed
qed

lemma sync_arenas_frame:
  "sync_arenas i n s = Some s' \<Longrightarrow> snap_tree s' = snap_tree s \<and> active_tree s' = active_tree s \<and> dsize (dev s) \<le> dsize (dev s')
     \<and> length (sb_arenabp (sb s')) = length (sb_arenabp (sb s)) \<and> sb_narena (sb s') = sb_narena (sb s)
     \<and> sb_nextqid (sb s') = sb_nextqid (sb s) \<and> sb_nextgen (sb s') = sb_nextgen (sb s)"
proof (induction n arbitrary: i s)
  case (Suc n)
  then show ?case
    by (fastforce simp: blk_finalize_and_write_def Let_def pwrite_blk_def split: if_splits)
qed simp

section \<open>Synchronising\<close>

text \<open>The two superblocks that \<^verbatim>\<open>gefs_sync_fs\<close> writes last.\<close>

lemma sync_fs_super:
  assumes "sync_fs s = Some s'" and "dirty s" and "\<not> readonly s" and ok: "super_ok (sb s)" and sz: "2 * BLKSZ \<le> dsize (dev s)"
  shows "\<exists>m. pack_sb_block BLKSZ (sb s') = Some m \<and> holds (dev s') 0 m \<and> holds (dev s') (dsize (dev s') - BLKSZ) m
     \<and> super_ok (sb s') \<and> sb_snap (sb s') = snap_tree s' \<and> 2 * BLKSZ \<le> dsize (dev s') \<and> \<not> dirty s'
     \<and> sb_nextqid (sb s') = sb_nextqid (sb s) \<and> sb_nextgen (sb s') = sb_nextgen (sb s)"
proof -
  obtain k s1 r s2 m where st: "btupsert s TSnap [\<lparr>m_op = OINSERT, m_k = k, m_v = packtree (active_tree s)\<rparr>] = Some (s1, r)"
    "sync_arenas 0 (nat (sint (sb_narena (sb s1)))) s1 = Some s2" "pack_sb_block BLKSZ ((sb s2)\<lparr>sb_snap := snap_tree s2\<rparr>) = Some m"
    and s': "s' = (let d = pwrite_blk (dev s2) 0 m in s2\<lparr>sb := (sb s2)\<lparr>sb_snap := snap_tree s2\<rparr>,
        dev := (if BLKSZ < dsize d then pwrite_blk d (dsize d - BLKSZ) m else d), dirty := False\<rparr>)"
    using assms(1-3) by (auto simp: sync_fs_def Let_def split: bind_splits)
  let ?d = "pwrite_blk (dev s2) 0 m"
  have f: "sb s1 = sb s" "dsize (dev s) \<le> dsize (dev s1)" using btupsert_frame [OF st(1)] by (auto simp: frame_def)
  note a = sync_arenas_frame [OF st(2)]
  have d: "dsize ?d = dsize (dev s2)" "2 * BLKSZ \<le> dsize (dev s2)" using a f sz by (auto simp: pwrite_blk_def)
  have dev: "dev s' = pwrite_blk ?d (dsize (dev s2) - BLKSZ) m" "dsize (dev s') = dsize (dev s2)"
    using d by (auto simp: s' Let_def pwrite_blk_def)
  have "holds ?d 0 m" by (rule holds_write) simp
  then have "holds (dev s') 0 m" unfolding dev(1) by (rule holds_keep) (use d(2) in simp)
  moreover have "holds (dev s') (dsize (dev s') - BLKSZ) m" unfolding dev(2) unfolding dev(1) by (rule holds_write) (use d(2) in simp)
  ultimately show ?thesis using st(3) d dev a f ok by (simp add: s' Let_def super_ok_def)
qed

lemma holds_packed:
  assumes "holds d a m" and "pack_sb_block BLKSZ fi = Some m" and "super_ok fi"
  shows "\<exists>m'. pread_blk d a = Some m' \<and> unpacksb zero_super m' BLKSZ = Inr (super_stored zero_tree fi)"
proof -
  have "unpacksb zero_super (\<lambda>i. if 0 \<le> i \<and> i < BLKSZ then m i else 0) BLKSZ = unpacksb zero_super m BLKSZ"
    by (rule unpacksb_cong) simp
  then show ?thesis
    using holds_pread [OF assms(1)] unpacksb_pack_sb_block [OF assms(3,2), of zero_super] by (simp add: zero_super_def)
qed

text \<open>
  C13: after \<^verbatim>\<open>gefs_sync_fs\<close> of a changed filesystem, opening the image reads back the superblock with
  the current snapshot tree, next file id and next generation; and if block 0 is then overwritten
  with anything that is no superblock, the backup at the end of the image still gives it.
\<close>

theorem sync_survives_lost_superblock:
  assumes "sync_fs s = Some s'" and "dirty s" and "\<not> readonly s" and "super_ok (sb s)" and "2 * BLKSZ \<le> dsize (dev s)"
  shows "read_super (dev s') = Inr (super_stored zero_tree (sb s')) \<and> sb_snap (sb s') = snap_tree s' \<and> \<not> dirty s'
     \<and> sb_nextqid (sb s') = sb_nextqid (sb s) \<and> sb_nextgen (sb s') = sb_nextgen (sb s)
     \<and> (isl (unpacksb zero_super (\<lambda>i. if 0 \<le> i \<and> i < BLKSZ then junk i else 0) BLKSZ)
          \<longrightarrow> read_super (pwrite_blk (dev s') 0 junk) = Inr (super_stored zero_tree (sb s')))"
proof -
  obtain m where m: "pack_sb_block BLKSZ (sb s') = Some m" "holds (dev s') 0 m" "holds (dev s') (dsize (dev s') - BLKSZ) m"
    "super_ok (sb s')" "sb_snap (sb s') = snap_tree s'" "2 * BLKSZ \<le> dsize (dev s')" "\<not> dirty s'"
    "sb_nextqid (sb s') = sb_nextqid (sb s)" "sb_nextgen (sb s') = sb_nextgen (sb s)"
    using sync_fs_super [OF assms] by blast
  obtain m0 where m0: "pread_blk (dev s') 0 = Some m0" "unpacksb zero_super m0 BLKSZ = Inr (super_stored zero_tree (sb s'))"
    using holds_packed [OF m(2,1,4)] by blast
  let ?d = "pwrite_blk (dev s') 0 junk"
  have d: "dsize ?d = dsize (dev s')" using m(6) by (simp add: pwrite_blk_def)
  have "holds ?d (dsize (dev s') - BLKSZ) m" by (rule holds_keep [OF m(3)]) (use m(6) in simp)
  then obtain m1 where m1: "pread_blk ?d (dsize ?d - BLKSZ) = Some m1" "unpacksb zero_super m1 BLKSZ = Inr (super_stored zero_tree (sb s'))"
    unfolding d using holds_packed [OF _ m(1,4)] by blast
  have j: "pread_blk ?d 0 = Some (\<lambda>i. if 0 \<le> i \<and> i < BLKSZ then junk i else 0)" by (rule pread_pwrite_same) simp
  have "read_super (dev s') = Inr (super_stored zero_tree (sb s'))" using m0 by (simp add: read_super_def)
  moreover have "read_super ?d = Inr (super_stored zero_tree (sb s'))"
    if "isl (unpacksb zero_super (\<lambda>i. if 0 \<le> i \<and> i < BLKSZ then junk i else 0) BLKSZ)"
    unfolding read_super_def j using that m1 m(6) d by (auto split: sum.splits)
  ultimately show ?thesis using m by blast
qed

section \<open>The snapshot catalog\<close>

text \<open>Blocks at fixed addresses: the arena headers and the two superblocks.\<close>

definition homes :: "ctx \<Rightarrow> u64 set" where
  "homes s = insert 0 (insert (word_of_int (dsize (dev s) - BLKSZ)) (a_hdaddr ` set (arenas s)))"

definition homes_ok :: "ctx \<Rightarrow> u64 set \<Rightarrow> bool" where
  "homes_ok s S \<longleftrightarrow> BLKSZ < dsize (dev s)
     \<and> (\<forall>w \<in> homes s. 0 \<le> sint w \<and> sint w + BLKSZ \<le> dsize (dev s) \<and> (\<forall>a \<in> S. apart (sint w) a)
          \<and> (\<forall>r \<in> set (free_ranges s). outside r w))"

definition flushed :: "u64 set \<Rightarrow> ctx \<Rightarrow> ctx \<Rightarrow> bool" where
  "flushed S s s' \<longleftrightarrow> fs_ok s' [] S \<and> seen_by s' S = seen_by s S \<and> arenas s' = arenas s \<and> snap_tree s' = snap_tree s
     \<and> active_tree s' = active_tree s \<and> dsize (dev s') = dsize (dev s) \<and> readonly s' = readonly s
     \<and> sb_narena (sb s') = sb_narena (sb s) \<and> length (sb_arenabp (sb s')) = length (sb_arenabp (sb s))"

lemma flushed_trans: "flushed S s s' \<Longrightarrow> flushed S s' s'' \<Longrightarrow> flushed S s s''"
  by (auto simp: flushed_def)

lemma flushed_homes: "flushed S s s' \<Longrightarrow> homes_ok s' S = homes_ok s S"
  by (auto simp: flushed_def homes_ok_def homes_def free_ranges_def)

lemma flush_write:
  assumes "fs_ok s [] S" and "homes_ok s S" and "w \<in> homes s"
  shows "flushed S s (s\<lparr>dev := pwrite_blk (dev s) (sint w) m\<rparr>)"
proof -
  have w: "0 \<le> sint w" "sint w + BLKSZ \<le> dsize (dev s)" "\<forall>a \<in> S. apart (sint w) a" using assms(2,3) by (auto simp: homes_ok_def)
  then have d: "dsize (pwrite_blk (dev s) (sint w) m) = dsize (dev s)" by (simp add: pwrite_blk_def)
  have "cache_ok (dev s) (bc s) [] S" using assms(1) by (simp add: fs_ok_def)
  from bstore.write_law [OF this w(2,3), of m]
  have c: "cache_ok (pwrite_blk (dev s) (sint w) m) (bc s) [] S" "\<forall>a \<in> S. view (pwrite_blk (dev s) (sint w) m) (bc s) a = view (dev s) (bc s) a"
    by auto
  then have "seen (pwrite_blk (dev s) (sint w) m) (bc s) S = seen (dev s) (bc s) S"
    by (auto simp: restrict_map_def fun_eq_iff)
  then show ?thesis using assms(1) c(1) d by (simp add: flushed_def fs_ok_def free_ranges_def)
qed

lemma flushed_sb:
  "fs_ok s [] S \<Longrightarrow> sb_narena v = sb_narena (sb s) \<Longrightarrow> length (sb_arenabp v) = length (sb_arenabp (sb s)) \<Longrightarrow> flushed S s (s\<lparr>sb := v\<rparr>)"
  by (simp add: flushed_def fs_ok_def free_ranges_def)

lemma sync_arenas_flushed:
  "fs_ok s [] S \<Longrightarrow> homes_ok s S \<Longrightarrow> i + n \<le> length (arenas s) \<Longrightarrow> i + n \<le> length (sb_arenabp (sb s)) \<Longrightarrow>
     \<exists>s'. sync_arenas i n s = Some s' \<and> flushed S s s'"
proof (induction n arbitrary: i s)
  case 0
  then show ?case by (simp add: flushed_def)
next
  case (Suc n)
  let ?b = "arena_hdr (arenas s ! i)"
  have a: "bp_addr (blk_bp (finalize_blk ?b)) = a_hdaddr (arenas s ! i)" by (simp add: arena_hdr_def finalize_blk_def Let_def)
  then have w: "bp_addr (blk_bp (finalize_blk ?b)) \<in> homes s" using Suc.prems(3) by (simp add: homes_def)
  let ?s1 = "s\<lparr>dev := pwrite_blk (dev s) (sint (bp_addr (blk_bp (finalize_blk ?b)))) (buf (finalize_blk ?b))\<rparr>"
  let ?s2 = "?s1\<lparr>sb := (sb s)\<lparr>sb_arenabp := (sb_arenabp (sb s))[i := blk_bp (finalize_blk ?b)]\<rparr>\<rparr>"
  have f1: "flushed S s ?s1" by (rule flush_write [OF Suc.prems(1,2) w])
  have "flushed S ?s1 ?s2" by (rule flushed_sb) (use f1 in \<open>simp_all add: flushed_def\<close>)
  then have f2: "flushed S s ?s2" by (rule flushed_trans [OF f1])
  have "fs_ok ?s2 [] S" "homes_ok ?s2 S" "Suc i + n \<le> length (arenas ?s2)" "Suc i + n \<le> length (sb_arenabp (sb ?s2))"
    using f2 flushed_homes [OF f2] Suc.prems by (auto simp: flushed_def)
  from Suc.IH [OF this] obtain s' where "sync_arenas (Suc i) n ?s2 = Some s'" "flushed S ?s2 s'" by blast
  then show ?case using Suc.prems(3,4) flushed_trans [OF f2] by (auto simp: blk_finalize_and_write_def Let_def)
qed

text \<open>The lookups of \<^verbatim>\<open>gefs_opensnap\<close> in the entries of the catalog.\<close>

abbreviation snapkey :: "u64 \<Rightarrow> key" where
  "snapkey g \<equiv> KSNAP # pack64 g"

definition find_snap :: "kvp list \<Rightarrow> byte list \<Rightarrow> errno + gtree \<times> u32" where
  "find_snap cs name =
     (if KVMAX < length name + 1 then Inl EINVAL
      else (case entry cs (KLABEL # name) of
          None \<Rightarrow> Inl ENOENT
        | Some kv \<Rightarrow>
            if length (kv_v kv) < 13 then Inl EIO
            else (case Option.bind (entry cs (snapkey (unpack64 (fld (kv_v kv) 1 8)))) (\<lambda>kv. unpacktree (kv_v kv)) of
                None \<Rightarrow> Inl EIO
              | Some t \<Rightarrow> Inr (t, unpack32 (fld (kv_v kv) 9 4)))))"

lemma leaf_tree_lookup:
  assumes "leaf_tree tr s S es"
  shows "\<exists>s'. lookup s (tree_of tr s) k KVMAX = Some (s', entry es k) \<and> leaf_tree tr s' S es \<and> quiet S s s'"
proof -
  obtain s' where s': "lookup s (tree_of tr s) k KVMAX = Some (s', entry es k)" "fs_ok s' [] S" "seen_by s' S = seen_by s S" "same_fs s s'"
    using lookup_leaf [of s "[]" S "tree_of tr s" es KVMAX k] assms unfolding leaf_tree_def by blast
  moreover have "tree_of tr s' = tree_of tr s" using same_fsD [OF s'(4)] by (cases tr) simp_all
  ultimately show ?thesis using assms by (auto simp: leaf_tree_def quiet_def)
qed

lemma opensnap_find:
  assumes "leaf_tree TSnap s S cs"
  shows "\<exists>s'. opensnap s name = Some (s', find_snap cs name) \<and> leaf_tree TSnap s' S cs \<and> quiet S s s'"
proof (cases "KVMAX < length name + 1 \<or> entry cs (KLABEL # name) = None")
  case True
  then show ?thesis
    using leaf_tree_lookup [OF assms, of "KLABEL # name"] assms by (auto simp: opensnap_def find_snap_def packlbl_def)
next
  case False
  then obtain kv where kv: "entry cs (KLABEL # name) = Some kv" by auto
  obtain s1 where s1: "lookup s (snap_tree s) (KLABEL # name) KVMAX = Some (s1, Some kv)" "leaf_tree TSnap s1 S cs" "quiet S s s1"
    using leaf_tree_lookup [OF assms, of "KLABEL # name"] kv by auto
  obtain s2 where s2: "lookup s1 (snap_tree s1) (snapkey (unpack64 (fld (kv_v kv) 1 8))) KVMAX
      = Some (s2, entry cs (snapkey (unpack64 (fld (kv_v kv) 1 8))))" "leaf_tree TSnap s2 S cs" "quiet S s1 s2"
    using leaf_tree_lookup [OF s1(2)] by fastforce
  show ?thesis
    using False kv s1 s2 quiet_trans [OF s1(3) s2(3)]
    by (auto simp: opensnap_def find_snap_def packlbl_def packsnap_def Let_def split: option.splits)
qed

text \<open>A catalog that can be written: its entries, the fixed blocks, and what is left of both budgets.\<close>

definition catalog :: "ctx \<Rightarrow> u64 set \<Rightarrow> kvp list \<Rightarrow> int \<Rightarrow> int \<Rightarrow> bool" where
  "catalog s S cs b r \<longleftrightarrow> leaf_tree TSnap s S cs \<and> homes_ok s S \<and> \<not> readonly s
     \<and> int (length (sb_arenabp (sb s))) = sint (sb_narena (sb s))
     \<and> t_gen (snap_tree s) \<noteq> t_gen (active_tree s) \<and> b * BLKSZ \<le> free_bytes s \<and> r \<le> leaf_room cs"

lemma btupsert_dsize:
  assumes "leaf_tree tr s S es" and "\<not> readonly s" and "msgs \<noteq> []" and "free_ranges s \<noteq> []" and "distinct (map m_k msgs)"
    and "\<forall>m \<in> set msgs. m_op m \<noteq> OWSTAT" and "leaf_fits (es @ ins msgs)" and "btupsert s tr msgs = Some (s', r)"
  shows "dsize (dev s') = dsize (dev s)"
proof -
  have ok: "fs_ok s [] S" "tree_at (seen_by s S) 1 (bp_addr (t_bp (tree_of tr s))) (ALeaf es)" using assms(1) by (auto simp: leaf_tree_def)
  obtain out where mg: "merge_spec es (sort_key m_k msgs) = Some out" using merge_spec_defined [of "sort_key m_k msgs" es] assms(6) by auto
  have st: "strict (map kv_k out)" using merge_spec_strict [OF mg mounted_strict [OF assms(1)] strict_sort [OF assms(5)]] .
  obtain s2 where "btupsert s tr msgs = Some (s2, Inr ())" "dsize (dev s2) = dsize (dev s)"
    using btupsert_leaf [OF ok(1) assms(2-4) ok(2) mg merge_fits(1) [OF mg assms(6,7)] st] by blast
  then show ?thesis using assms(8) by simp
qed

lemma catalog_upsert:
  assumes cat: "catalog s S cs (b + 1) (r + leaf_cost (ins msgs))" and nn: "0 \<le> b" "0 \<le> r"
    and ms: "msgs \<noteq> []" "distinct (map m_k msgs)" "\<forall>m \<in> set msgs. m_op m \<noteq> OWSTAT" "small_entries KVMAX (ins msgs)" "list_all kv_small (ins msgs)"
  shows "\<exists>s' S' cs'. btupsert s TSnap msgs = Some (s', Inr ()) \<and> catalog s' S' cs' b r \<and> active_tree s' = active_tree s
     \<and> sb s' = sb s \<and> dirty s' \<and> seen_by s S \<subseteq>\<^sub>m seen_by s' S' \<and> S \<subseteq> S'
     \<and> (\<forall>k. entry cs' k = (case msg_for msgs k of None \<Rightarrow> entry cs k | Some m \<Rightarrow> upd m (entry cs k)))"
proof -
  have lt: "leaf_tree TSnap s S cs" and h: "homes_ok s S" and rw: "\<not> readonly s" and g: "t_gen (snap_tree s) \<noteq> t_gen (active_tree s)"
    and bd: "(b + 1) * BLKSZ \<le> free_bytes s" "r + leaf_cost (ins msgs) \<le> leaf_room cs"
    using cat by (auto simp: catalog_def)
  have free: "free_ranges s \<noteq> []" using free_bytes_pos [of s] bd(1) nn by auto
  have fit: "leaf_fits (cs @ ins msgs)"
    using lt bd(2) nn ms(5) by (auto simp: leaf_tree_def leaf_fits_def leaf_room_def leaf_cost_def)
  obtain s' out and bp :: bptr where u: "btupsert s TSnap msgs = Some (s', Inr ())" "leaf_tree TSnap s' (insert (bp_addr bp) S) out"
    "upserted s s' TSnap bp" "seen_by s S \<subseteq>\<^sub>m seen_by s' (insert (bp_addr bp) S)" "leaf_room cs - leaf_cost (ins msgs) \<le> leaf_room out"
    "\<forall>k. entry out k = (case msg_for msgs k of None \<Rightarrow> entry cs k | Some m \<Rightarrow> upd m (entry cs k))"
    using leaf_upsert [OF lt rw ms(1) free ms(2,3) fit ms(4)] by blast
  note up = u(3) [unfolded upserted_def]
  have sz: "dsize (dev s') = dsize (dev s)" using u(1) btupsert_dsize [OF lt rw ms(1) free ms(2,3) fit] by simp
  have "a_hdaddr ` set (arenas s') = a_hdaddr ` set (arenas s)" using up by (metis list.set_map)
  then have "homes s' = homes s" using sz by (simp add: homes_def)
  moreover have "0 \<le> sint w \<and> sint w + BLKSZ \<le> dsize (dev s) \<and> (\<forall>a \<in> insert (bp_addr bp) S. apart (sint w) a)
      \<and> (\<forall>q \<in> set (free_ranges s'). outside q w)" if w: "w \<in> homes s" for w
  proof -
    have hw: "0 \<le> sint w" "sint w + BLKSZ \<le> dsize (dev s)" "\<forall>a \<in> S. apart (sint w) a" "\<forall>q \<in> set (free_ranges s). outside q w"
      using h w unfolding homes_ok_def by blast+
    then have "apart (sint (bp_addr bp)) w" "\<forall>q \<in> set (free_ranges s'). outside q w" using up by blast+
    then show ?thesis using hw by (auto simp: apart_def)
  qed
  ultimately have "homes_ok s' (insert (bp_addr bp) S)" using h sz unfolding homes_ok_def by simp
  then have "catalog s' (insert (bp_addr bp) S) out b r"
    using cat u(2,5) up bd g by (auto simp: catalog_def)
  moreover have "active_tree s' = active_tree s" using up g by simp
  ultimately show ?thesis using u up by blast
qed

section \<open>Synchronising and the catalog\<close>

lemma catalog_flushed: "catalog s S cs b r \<Longrightarrow> flushed S s s' \<Longrightarrow> catalog s' S cs b r"
  using flushed_homes [of S s s'] by (auto simp: catalog_def flushed_def leaf_tree_def free_bytes_def free_ranges_def)

lemma catalog_cong:
  "catalog s S cs b r \<Longrightarrow> sb_narena v = sb_narena (sb s) \<Longrightarrow> length (sb_arenabp v) = length (sb_arenabp (sb s)) \<Longrightarrow>
     catalog (s\<lparr>sb := v, dirty := x\<rparr>) S cs b r"
  by (simp add: catalog_def leaf_tree_def fs_ok_def free_bytes_def free_ranges_def homes_ok_def homes_def)

lemma catalog_fs_ok: "catalog s S cs b r \<Longrightarrow> fs_ok s [] S \<and> homes_ok s S"
  by (simp add: catalog_def leaf_tree_def)

text \<open>The entry that stands for a tree, and the room it needs.\<close>

abbreviation snap_entry :: "gtree \<Rightarrow> kvp" where
  "snap_entry t \<equiv> \<lparr>kv_k = snapkey (t_gen t), kv_v = packtree t\<rparr>"

lemma sync_catalog:
  assumes cat: "catalog s S cs (b + 1) (r + 87)" and nn: "0 \<le> b" "0 \<le> r" and dt: "dirty s"
  shows "\<exists>s' S' cs'. sync_fs s = Some s' \<and> catalog s' S' cs' b r \<and> \<not> dirty s' \<and> active_tree s' = active_tree s
     \<and> sb_nextgen (sb s') = sb_nextgen (sb s) \<and> seen_by s S \<subseteq>\<^sub>m seen_by s' S'
     \<and> (\<forall>k. entry cs' k = (if k = snapkey (t_gen (active_tree s)) then Some (snap_entry (active_tree s)) else entry cs k))"
proof -
  let ?k = "snapkey (t_gen (active_tree s))"
  let ?ms = "[\<lparr>m_op = OINSERT, m_k = ?k, m_v = packtree (active_tree s)\<rparr>]"
  have c1: "catalog s S cs (b + 1) (r + leaf_cost (ins ?ms))"
    using cat by (simp add: leaf_cost_def kvs_size_def kvsz_def apply_new_def)
  obtain s1 S1 cs1 where u: "btupsert s TSnap ?ms = Some (s1, Inr ())" "catalog s1 S1 cs1 b r" "active_tree s1 = active_tree s"
    "sb s1 = sb s" "seen_by s S \<subseteq>\<^sub>m seen_by s1 S1"
    "\<forall>k. entry cs1 k = (case msg_for ?ms k of None \<Rightarrow> entry cs k | Some m \<Rightarrow> upd m (entry cs k))"
    using catalog_upsert [OF c1 nn] by (auto simp: small_entries_def kv_small_def apply_new_def)
  let ?n = "nat (sint (sb_narena (sb s1)))"
  have n: "0 + ?n \<le> length (arenas s1)" "0 + ?n \<le> length (sb_arenabp (sb s1))"
    using u(2) by (auto simp: catalog_def leaf_tree_def fs_ok_def)
  note k1 = catalog_fs_ok [OF u(2)]
  obtain s2 where s2: "sync_arenas 0 ?n s1 = Some s2" "flushed S1 s1 s2"
    using sync_arenas_flushed [OF conjunct1 [OF k1] conjunct2 [OF k1] n] by blast
  let ?s3 = "s2\<lparr>sb := (sb s2)\<lparr>sb_snap := snap_tree s2\<rparr>\<rparr>"
  obtain m where m: "pack_sb_block BLKSZ (sb ?s3) = Some m" by (simp add: pack_sb_block_def Let_def)
  let ?s4 = "?s3\<lparr>dev := pwrite_blk (dev ?s3) 0 m\<rparr>"
  let ?w = "word_of_int (dsize (dev ?s4) - BLKSZ) :: u64"
  let ?s5 = "?s4\<lparr>dev := pwrite_blk (dev ?s4) (sint ?w) m\<rparr>"
  have f3: "flushed S1 s2 ?s3" by (rule flushed_sb) (use s2 in \<open>simp_all add: flushed_def\<close>)
  have c3: "catalog ?s3 S1 cs1 b r" by (rule catalog_flushed [OF catalog_flushed [OF u(2) s2(2)] f3])
  note k3 = catalog_fs_ok [OF c3]
  have f4: "flushed S1 ?s3 ?s4"
    using flush_write [OF conjunct1 [OF k3] conjunct2 [OF k3], of 0 m] by (simp add: homes_def)
  have c4: "catalog ?s4 S1 cs1 b r" by (rule catalog_flushed [OF c3 f4])
  note k4 = catalog_fs_ok [OF c4]
  have f5: "flushed S1 ?s4 ?s5"
    by (rule flush_write [OF conjunct1 [OF k4] conjunct2 [OF k4]]) (simp add: homes_def)
  have c5: "catalog ?s5 S1 cs1 b r" by (rule catalog_flushed [OF c4 f5])
  let ?s6 = "?s5\<lparr>sb := sb ?s5, dirty := False\<rparr>"
  have sz: "BLKSZ < dsize (dev ?s4)" "dsize (dev ?s4) < 2 ^ 63" using k4 by (auto simp: homes_ok_def fs_ok_def)
  then have w: "sint ?w = dsize (dev ?s4) - BLKSZ" by (intro sint_addr) simp_all
  have "sync_fs s = Some ?s6"
    using cat dt u s2 m sz(1) w by (simp add: sync_fs_def catalog_def packsnap_def Let_def)
  moreover have "catalog ?s6 S1 cs1 b r" by (rule catalog_cong [OF c5]) simp_all
  moreover have "active_tree ?s6 = active_tree s" "sb_nextgen (sb ?s6) = sb_nextgen (sb s)"
    using u s2 sync_arenas_frame [OF s2(1)] by (simp_all add: flushed_def)
  moreover have "seen_by ?s6 S1 = seen_by s1 S1" using s2(2) f3 f4 f5 by (simp add: flushed_def)
  moreover have "entry cs1 k = (if k = ?k then Some (snap_entry (active_tree s)) else entry cs k)" for k
    using u(6) by (simp add: msg_for_def upd_def)
  moreover have "\<not> dirty ?s6" by simp
  ultimately show ?thesis using u(5) by (intro exI [of _ ?s6] exI [of _ S1] exI [of _ cs1] conjI allI) (assumption | simp only:)+
qed

section \<open>Snapshots\<close>

lemma find_snap_label:
  assumes "length name < KVMAX" and "entry cs (KLABEL # name) = Some \<lparr>kv_k = k, kv_v = packlblval g flg\<rparr>"
    and "entry cs (snapkey g) = Some \<lparr>kv_k = k', kv_v = packtree t\<rparr>"
  shows "find_snap cs name = Inr (t, flg)"
  using assms by (simp add: find_snap_def packlblval_def fld_def pack_simps)

text \<open>The tree that \<^verbatim>\<open>gefs_create_snapshot\<close> records.\<close>

definition snapshot_of :: "ctx \<Rightarrow> gtree" where
  "snapshot_of s = zero_tree\<lparr>t_nlbl := 1, t_ht := t_ht (active_tree s), t_bp := t_bp (active_tree s),
     t_gen := sb_nextgen (sb s), t_pred := t_gen (active_tree s), t_succ := - 1\<rparr>"

definition snapshot_flags :: "bool \<Rightarrow> u32" where
  "snapshot_flags mutable_flag = LTSNAP OR (if mutable_flag then LMUT else 0)"

lemma create_snapshot_catalog:
  assumes cat: "catalog s S cs (b + 2) (r + 194 + int (length name))" and nn: "0 \<le> b" "0 \<le> r"
    and nm: "length name \<le> 255" and g: "sb_nextgen (sb s) \<noteq> t_gen (active_tree s)"
  shows "\<exists>s' S' cs'. create_snapshot s name mf = Some (s', Inr ()) \<and> catalog s' S' cs' b r \<and> \<not> dirty s'
     \<and> active_tree s' = active_tree s \<and> sb_nextgen (sb s') = sb_nextgen (sb s) + 1 \<and> seen_by s S \<subseteq>\<^sub>m seen_by s' S'
     \<and> find_snap cs' name = Inr (snapshot_of s, snapshot_flags mf)"
proof -
  let ?g = "sb_nextgen (sb s)"
  let ?s0 = "s\<lparr>sb := (sb s)\<lparr>sb_nextgen := ?g + 1\<rparr>, dirty := dirty s\<rparr>"
  let ?ms = "[\<lparr>m_op = OINSERT, m_k = KLABEL # name, m_v = packlblval ?g (snapshot_flags mf)\<rparr>,
    \<lparr>m_op = OINSERT, m_k = snapkey ?g, m_v = packtree (snapshot_of s)\<rparr>]"
  have s0: "?s0 = s\<lparr>sb := (sb s)\<lparr>sb_nextgen := ?g + 1\<rparr>\<rparr>" "seen_by ?s0 S = seen_by s S" by simp_all
  have "catalog ?s0 S cs (b + 2) (r + 194 + int (length name))" by (rule catalog_cong [OF cat]) simp_all
  then have c0: "catalog ?s0 S cs (b + 1 + 1) (r + 87 + leaf_cost (ins ?ms))"
    by (simp add: leaf_cost_def kvs_size_def kvsz_def apply_new_def packlblval_def add_ac)
  have nn1: "0 \<le> b + 1" "0 \<le> r + 87" using nn by simp_all
  obtain s1 S1 cs1 where u: "btupsert ?s0 TSnap ?ms = Some (s1, Inr ())" "catalog s1 S1 cs1 (b + 1) (r + 87)"
    "active_tree s1 = active_tree s" "sb s1 = sb ?s0" "dirty s1" "seen_by ?s0 S \<subseteq>\<^sub>m seen_by s1 S1"
    "\<forall>k. entry cs1 k = (case msg_for ?ms k of None \<Rightarrow> entry cs k | Some m \<Rightarrow> upd m (entry cs k))"
    using catalog_upsert [OF c0 nn1] nm by (auto simp: small_entries_def kv_small_def apply_new_def packlblval_def)
  obtain s2 S2 cs2 where y: "sync_fs s1 = Some s2" "catalog s2 S2 cs2 b r" "\<not> dirty s2" "active_tree s2 = active_tree s1"
    "sb_nextgen (sb s2) = sb_nextgen (sb s1)" "seen_by s1 S1 \<subseteq>\<^sub>m seen_by s2 S2"
    "\<forall>k. entry cs2 k = (if k = snapkey (t_gen (active_tree s1)) then Some (snap_entry (active_tree s1)) else entry cs1 k)"
    using sync_catalog [OF u(2) nn u(5)] by blast
  have "create_snapshot s name mf = Some (s2, Inr ())"
    using cat nm u(1) y(1) unfolding s0(1)
    by (simp add: create_snapshot_def catalog_def packlbl_def packsnap_def Let_def snapshot_of_def snapshot_flags_def zero_tree_def)
  moreover have "find_snap cs2 name = Inr (snapshot_of s, snapshot_flags mf)"
    using nm g u(3,7) y(7) by (intro find_snap_label [where k = "KLABEL # name" and k' = "snapkey ?g"]) (auto simp: msg_for_def upd_def)
  moreover have "seen_by s S \<subseteq>\<^sub>m seen_by s2 S2" using map_le_trans [OF u(6) y(6)] unfolding s0(2) .
  ultimately show ?thesis using y u(3,4) by auto
qed

lemma delete_snapshot_catalog:
  assumes cat: "catalog s S cs (b + 2) (r + 87)" and nn: "0 \<le> b" "0 \<le> r"
    and nm: "length name \<le> 255" "name \<notin> {cstr ''main'', cstr ''adm'', cstr ''empty''}"
  shows "\<exists>s' S' cs'. delete_snapshot s name = Some (s', Inr ()) \<and> catalog s' S' cs' b r
     \<and> active_tree s' = active_tree s \<and> seen_by s S \<subseteq>\<^sub>m seen_by s' S'
     \<and> (\<forall>k. entry cs' k = (if k = snapkey (t_gen (active_tree s)) then Some (snap_entry (active_tree s))
            else if k = KLABEL # name then None else entry cs k))"
proof -
  let ?ms = "[\<lparr>m_op = ODELETE, m_k = KLABEL # name, m_v = []\<rparr>]"
  have c0: "catalog s S cs (b + 1 + 1) (r + 87 + leaf_cost (ins ?ms))"
    using cat by (simp add: leaf_cost_def kvs_size_def apply_new_def add_ac)
  have nn1: "0 \<le> b + 1" "0 \<le> r + 87" using nn by simp_all
  obtain s1 S1 cs1 where u: "btupsert s TSnap ?ms = Some (s1, Inr ())" "catalog s1 S1 cs1 (b + 1) (r + 87)"
    "active_tree s1 = active_tree s" "sb s1 = sb s" "dirty s1" "seen_by s S \<subseteq>\<^sub>m seen_by s1 S1"
    "\<forall>k. entry cs1 k = (case msg_for ?ms k of None \<Rightarrow> entry cs k | Some m \<Rightarrow> upd m (entry cs k))"
    using catalog_upsert [OF c0 nn1] nm by (auto simp: small_entries_def kv_small_def apply_new_def)
  obtain s2 S2 cs2 where y: "sync_fs s1 = Some s2" "catalog s2 S2 cs2 b r" "active_tree s2 = active_tree s1"
    "seen_by s1 S1 \<subseteq>\<^sub>m seen_by s2 S2"
    "\<forall>k. entry cs2 k = (if k = snapkey (t_gen (active_tree s1)) then Some (snap_entry (active_tree s1)) else entry cs1 k)"
    using sync_catalog [OF u(2) nn u(5)] by blast
  have "delete_snapshot s name = Some (s2, Inr ())"
    using cat nm u(1) y(1) by (simp add: delete_snapshot_def catalog_def packlbl_def)
  moreover have "entry cs2 k = (if k = snapkey (t_gen (active_tree s)) then Some (snap_entry (active_tree s))
            else if k = KLABEL # name then None else entry cs k)" for k
    using u(3,7) y(5) by (simp add: msg_for_def upd_def)
  moreover have "seen_by s S \<subseteq>\<^sub>m seen_by s2 S2" using map_le_trans [OF u(6) y(4)] .
  moreover have "active_tree s2 = active_tree s" using y(3) u(3) by simp
  ultimately show ?thesis using y(2) by blast
qed

lemma catalog_leaf: "catalog s S cs b r \<Longrightarrow> leaf_tree TSnap s S cs"
  by (simp add: catalog_def)

text \<open>
  C14: synchronising a changed filesystem records the active tree in the catalog: opening a label that
  names the active tree's generation gives exactly the active tree, with the label's flags.
\<close>

theorem sync_publishes_active_tree:
  assumes "catalog s S cs 1 87" and "dirty s" and "length name \<le> 255"
    and "entry cs (KLABEL # name) = Some \<lparr>kv_k = KLABEL # name, kv_v = packlblval (t_gen (active_tree s)) flg\<rparr>"
  shows "\<exists>s' s''. sync_fs s = Some s' \<and> opensnap s' name = Some (s'', Inr (active_tree s, flg))"
proof -
  obtain s' S' cs' where y: "sync_fs s = Some s'" "catalog s' S' cs' 0 0"
    "\<forall>k. entry cs' k = (if k = snapkey (t_gen (active_tree s)) then Some (snap_entry (active_tree s)) else entry cs k)"
    using sync_catalog [of s S cs 0 0] assms(1,2) by auto
  have "find_snap cs' name = Inr (active_tree s, flg)"
    using assms(3,4) y(3)
    by (intro find_snap_label [where k = "KLABEL # name" and k' = "snapkey (t_gen (active_tree s))"]) auto
  then show ?thesis using y(1) opensnap_find [OF catalog_leaf [OF y(2)], of name] by auto
qed

text \<open>
  C12: a snapshot can be opened under its name and is frozen: \<^verbatim>\<open>gefs_create_snapshot\<close> succeeds and leaves the
  active tree as it was, \<^verbatim>\<open>gefs_opensnap\<close> finds the tree it recorded, and after any further
  \<^verbatim>\<open>gefs_btupsert\<close> of the active tree a lookup in the snapshot still gives what the active tree
  held when the snapshot was made.
\<close>

theorem snapshot_is_frozen:
  assumes cat: "catalog s S cs (b + 2) (194 + int (length name))" and b: "1 \<le> b" and act: "mounted s S es"
    and nm: "length name \<le> 255" and g: "sb_nextgen (sb s) \<noteq> t_gen (active_tree s)"
    and ms: "msgs \<noteq> []" "distinct (map m_k msgs)" "\<forall>m \<in> set msgs. m_op m \<noteq> OWSTAT"
      "leaf_fits (es @ ins msgs)" "small_entries KVMAX (ins msgs)"
  shows "\<exists>s1 s2 s3 s4. create_snapshot s name mf = Some (s1, Inr ()) \<and> active_tree s1 = active_tree s
     \<and> opensnap s1 name = Some (s2, Inr (snapshot_of s, snapshot_flags mf))
     \<and> btupsert s2 TActive msgs = Some (s3, Inr ()) \<and> lookup s3 (snapshot_of s) k KVMAX = Some (s4, entry es k)"
proof -
  obtain s1 S1 cs1 where c: "create_snapshot s name mf = Some (s1, Inr ())" "catalog s1 S1 cs1 b 0"
    "active_tree s1 = active_tree s" "seen_by s S \<subseteq>\<^sub>m seen_by s1 S1" "find_snap cs1 name = Inr (snapshot_of s, snapshot_flags mf)"
    using create_snapshot_catalog [of s S cs b 0 name mf] cat b nm g by auto
  obtain s2 where o2: "opensnap s1 name = Some (s2, Inr (snapshot_of s, snapshot_flags mf))" "leaf_tree TSnap s2 S1 cs1" "quiet S1 s1 s2"
    using opensnap_find [OF catalog_leaf [OF c(2)], of name] c(5) by auto
  have same: "active_tree s2 = active_tree s" "seen_by s2 S1 = seen_by s1 S1" "readonly s2 = readonly s1" "free_ranges s2 = free_ranges s1"
    using quietD [OF o2(3)] c(3) by simp_all
  have t: "tree_at (seen_by s2 S1) 1 (bp_addr (t_bp (active_tree s))) (ALeaf es)"
    using act c(4) same(2) by (auto simp: mounted_def intro: tree_at_mono)
  then have m2: "mounted s2 S1 es" using act o2(2) same(1) by (simp add: leaf_tree_def)
  have "\<not> readonly s2" "free_ranges s2 \<noteq> []"
    using c(2) same b free_bytes_pos [of s1] by (auto simp: catalog_def)
  from leaf_upsert [OF m2 this(1) ms(1) this(2) ms(2-5)]
  obtain s3 and bp :: bptr where u: "btupsert s2 TActive msgs = Some (s3, Inr ())" "fs_ok s3 [] (insert (bp_addr bp) S1)"
    "seen_by s2 S1 \<subseteq>\<^sub>m seen_by s3 (insert (bp_addr bp) S1)"
    unfolding leaf_tree_def by blast
  have "tree_at (seen_by s3 (insert (bp_addr bp) S1)) 1 (bp_addr (t_bp (snapshot_of s))) (ALeaf es)"
    using t u(3) by (auto simp: snapshot_of_def intro: tree_at_mono)
  moreover have "t_ht (snapshot_of s) = 1" "small_entries KVMAX es" using act by (auto simp: snapshot_of_def mounted_def)
  ultimately obtain s4 where "lookup s3 (snapshot_of s) k KVMAX = Some (s4, entry es k)" using lookup_leaf [OF u(2)] by blast
  then show ?thesis using c o2 u(1) by blast
qed

text \<open>
  Deleting a snapshot that is not one of \<^verbatim>\<open>main\<close>, \<^verbatim>\<open>adm\<close> and \<^verbatim>\<open>empty\<close> removes its name and no other:
  opening it then fails with \<^verbatim>\<open>ENOENT\<close>, and every other label that named a tree different from the
  active one still opens that tree.
\<close>

theorem delete_snapshot_removes_label:
  assumes cat: "catalog s S cs 2 87" and nm: "length name \<le> 255" "name \<notin> {cstr ''main'', cstr ''adm'', cstr ''empty''}"
  shows "\<exists>s' s''. delete_snapshot s name = Some (s', Inr ()) \<and> opensnap s' name = Some (s'', Inl ENOENT)
     \<and> active_tree s' = active_tree s
     \<and> (\<forall>other t flg. other \<noteq> name \<longrightarrow> length other \<le> 255 \<longrightarrow> t_gen t \<noteq> t_gen (active_tree s)
          \<longrightarrow> entry cs (KLABEL # other) = Some \<lparr>kv_k = KLABEL # other, kv_v = packlblval (t_gen t) flg\<rparr>
          \<longrightarrow> entry cs (snapkey (t_gen t)) = Some (snap_entry t)
          \<longrightarrow> (\<exists>s3. opensnap s' other = Some (s3, Inr (t, flg))))"
proof -
  obtain s' S' cs' where y: "delete_snapshot s name = Some (s', Inr ())" "catalog s' S' cs' 0 0" "active_tree s' = active_tree s"
    "\<forall>k. entry cs' k = (if k = snapkey (t_gen (active_tree s)) then Some (snap_entry (active_tree s))
            else if k = KLABEL # name then None else entry cs k)"
    using delete_snapshot_catalog [of s S cs 0 0 name] cat nm by auto
  note op = opensnap_find [OF catalog_leaf [OF y(2)]]
  have "find_snap cs' name = Inl ENOENT" using nm y(4) by (simp add: find_snap_def)
  moreover have "find_snap cs' other = Inr (t, flg)"
    if "other \<noteq> name" "length other \<le> 255" "t_gen t \<noteq> t_gen (active_tree s)"
      "entry cs (KLABEL # other) = Some \<lparr>kv_k = KLABEL # other, kv_v = packlblval (t_gen t) flg\<rparr>"
      "entry cs (snapkey (t_gen t)) = Some (snap_entry t)" for other t flg
    using that y(4) by (intro find_snap_label [where k = "KLABEL # other" and k' = "snapkey (t_gen t)"]) auto
  ultimately show ?thesis using y(1,3) op by metis
qed

section \<open>A concrete catalog\<close>

text \<open>The label \<^verbatim>\<open>main\<close> of the active tree, and a snapshot \<^verbatim>\<open>old\<close> of generation 5.\<close>

definition sample_cat :: "kvp list" where
  "sample_cat = [\<lparr>kv_k = KLABEL # cstr ''main'', kv_v = packlblval 1 LMUT\<rparr>, \<lparr>kv_k = KLABEL # cstr ''old'', kv_v = packlblval 5 LTSNAP\<rparr>,
     snap_entry (sample_tree 16384 5)]"

definition sample_vals :: "kvp list" where
  "sample_vals = [\<lparr>kv_k = [9], kv_v = [7]\<rparr>]"

abbreviation changed_ctx :: ctx where
  "changed_ctx \<equiv> (sample_ctx sample_vals sample_cat)\<lparr>dirty := True\<rparr>"

lemma sample_cat_strict: "strict (map kv_k sample_cat)" "strict (map kv_k sample_vals)"
  by code_simp+

lemma sample_cat_fits: "leaf_fits sample_cat" "small_entries KVMAX sample_cat" "300 \<le> leaf_room sample_cat"
    "leaf_fits sample_vals" "small_entries KVMAX sample_vals"
  by (simp_all add: sample_cat_def sample_vals_def leaf_fits_def leaf_room_def leaf_cost_def kv_small_def kvs_size_def kvsz_def small_entries_def
      packlblval_def cstr_def)

lemma changed_trees:
  "leaf_tree TSnap changed_ctx sample_addrs sample_cat" "mounted changed_ctx sample_addrs sample_vals"
  using sample_ok [of sample_vals sample_cat] sample_trees [OF sample_cat_fits(4,1) sample_cat_strict(2,1)] sample_cat_fits
  by (simp_all add: leaf_tree_def fs_ok_def free_ranges_def sample_ctx_def sample_tree_def zero_tree_def zero_bptr_def)

lemma changed_catalog:
  assumes "b \<le> 8" and "r \<le> 300"
  shows "catalog changed_ctx sample_addrs sample_cat b r"
  using changed_trees(1) assms sample_cat_fits(3)
  by (auto simp: catalog_def homes_ok_def homes_def sample_ctx_def sample_super_def free_ranges_def free_bytes_def apart_def outside_def
      sample_tree_def zero_tree_def zero_arena_def)

section \<open>The properties on the concrete catalog\<close>

lemma zeros_no_super: "isl (unpacksb zero_super (\<lambda>i. if 0 \<le> i \<and> i < BLKSZ then zeros i else 0) BLKSZ)"
  by code_simp

theorem sync_survives_lost_superblock_witness:
  "\<exists>s'. sync_fs changed_ctx = Some s' \<and> read_super (dev s') = Inr (super_stored zero_tree (sb s'))
     \<and> read_super (pwrite_blk (dev s') 0 zeros) = Inr (super_stored zero_tree (sb s')) \<and> sb_nextgen (sb s') = 8"
proof -
  obtain s' where s': "sync_fs changed_ctx = Some s'"
    using sync_catalog [of changed_ctx sample_addrs sample_cat 0 0] changed_catalog [of 1 87] by auto
  show ?thesis
    using sync_survives_lost_superblock [OF s', of zeros] s' zeros_no_super
    by (simp add: sample_ctx_def sample_super_def super_ok_def)
qed

theorem sync_publishes_active_tree_witness:
  "\<exists>s' s''. sync_fs changed_ctx = Some s' \<and> opensnap s' (cstr ''main'') = Some (s'', Inr (sample_tree 16384 1, LMUT))"
  using sync_publishes_active_tree [OF changed_catalog, of "cstr ''main''" LMUT]
  by (simp add: sample_ctx_def sample_tree_def zero_tree_def entry_def sample_cat_def cstr_def)

theorem snapshot_is_frozen_witness:
  "\<exists>s1 s2 s3 s4. create_snapshot changed_ctx (cstr ''new'') False = Some (s1, Inr ())
     \<and> opensnap s1 (cstr ''new'') = Some (s2, Inr (snapshot_of changed_ctx, LTSNAP))
     \<and> btupsert s2 TActive [\<lparr>m_op = ODELETE, m_k = [9], m_v = []\<rparr>] = Some (s3, Inr ())
     \<and> lookup s3 (snapshot_of changed_ctx) [9] KVMAX = Some (s4, Some \<lparr>kv_k = [9], kv_v = [7]\<rparr>)"
proof -
  have e: "entry sample_vals [9] = Some \<lparr>kv_k = [9], kv_v = [7]\<rparr>" "snapshot_flags False = LTSNAP"
    by (simp_all add: entry_def sample_vals_def snapshot_flags_def)
  have g: "sb_nextgen (sb changed_ctx) \<noteq> t_gen (active_tree changed_ctx)"
    by (simp add: sample_ctx_def sample_super_def sample_tree_def zero_tree_def)
  show ?thesis
    using snapshot_is_frozen [of changed_ctx sample_addrs sample_cat 1 "cstr ''new''" sample_vals
        "[\<lparr>m_op = ODELETE, m_k = [9], m_v = []\<rparr>]" False "[9]"] changed_catalog [of 3 197] changed_trees(2) g sample_cat_fits(4)
    unfolding e by (auto simp: small_entries_def apply_new_def cstr_def)
qed

theorem delete_snapshot_removes_label_witness:
  "\<exists>s' s''. delete_snapshot changed_ctx (cstr ''old'') = Some (s', Inr ()) \<and> opensnap s' (cstr ''old'') = Some (s'', Inl ENOENT)"
  using delete_snapshot_removes_label [OF changed_catalog, of "cstr ''old''"] by (auto simp: cstr_def)

end
