(* ===== verification/Formatter.thy ===== *)
theory Formatter
  imports Syncspec
begin

text \<open>
  What \<^verbatim>\<open>mkfs.gefs\<close> leaves on the image, and what the storage layer makes of it when it opens the
  image.
\<close>

lemma find_snap_values:
  assumes "length name < KVMAX" and "map_option kv_v (entry cs (KLABEL # name)) = Some (packlblval g flg)"
    and "map_option kv_v (entry cs (snapkey g)) = Some (packtree t)"
  shows "find_snap cs name = Inr (t, flg)"
  using assms by (auto simp: find_snap_def packlblval_def fld_def pack_simps)

text \<open>
  C19: the formatter refuses images below 128 MiB plus one block, so also one of exactly 128 MiB, which
  the README and the formatter's own message give as the minimum; any larger one it turns into a filesystem: the superblock reads back with the first free file id and generation 4, its
  catalog block holds the label \<^verbatim>\<open>main\<close>, the label leads to a tree of height 1 whose leaf holds the
  root directory. The label names tree 2, whose own generation is 3.
\<close>

theorem formatter_lays_out_filesystem:
  assumes "dsize d < 2 ^ 62"
  shows "if dsize d < 128 * 1024 * 1024 + BLKSZ then ream d user = Some (Inl ())
     else \<exists>d' fi w cat t v es. ream d user = Some (Inr d') \<and> read_super d' = Inr (super_stored zero_tree fi)
       \<and> sb_nextqid fi = Nreamqid \<and> sb_nextgen fi = 4
       \<and> on_disk d' (bp_addr (t_bp (sb_snap fi))) = Some w \<and> blk_vals w cat
       \<and> map_option kv_v (entry cat (KLABEL # cstr ''main'')) = Some (packlblval 2 (LMUT OR LTSNAP))
       \<and> find_snap cat (cstr ''main'') = Inr (t, LMUT OR LTSNAP) \<and> t_ht t = 1 \<and> t_gen t = 3
       \<and> on_disk d' (bp_addr (t_bp t)) = Some v \<and> blk_vals v es
       \<and> dirs es (- 1, []) = Some (fillxdir 0 [] QTDIR (DMDIR OR 0x1FD))"
proof (cases "dsize d < 128 * 1024 * 1024 + BLKSZ")
  case True
  then show ?thesis by (simp add: ream_def)
next
  case False
  then obtain d' fi es cat where r: "ream d user = Some (Inr d')" and f: "formatted d' fi es cat"
    using ream_formatted [of d user] assms by auto
  obtain sb0 where sb0: "super_blk 0 fi = Some sb0" "holds d' 0 (finalize_hdr sb0)" "super_ok fi"
    using f unfolding formatted_def by blast
  obtain v where v: "on_disk d' (word_of_int mb_addr) = Some v" "leaf_rep v es" "root_entries = Some es"
    using f unfolding formatted_def by blast
  obtain rbp abp where sn: "bp_addr rbp = word_of_int mb_addr" "snap_entries rbp abp 1 = Some (cat, 4)"
    using f unfolding formatted_def by blast
  obtain w where w: "on_disk d' (bp_addr (t_bp (sb_snap fi))) = Some w" "leaf_rep w cat"
    using f unfolding formatted_def by blast
  let ?t = "zero_tree\<lparr>t_nlbl := 1, t_ht := 1, t_gen := 3, t_succ := - 1, t_bp := rbp\<rparr>"
  have m: "map_option kv_v (entry cat (KLABEL # cstr ''main'')) = Some (packlblval 2 (LMUT OR LTSNAP))"
    "map_option kv_v (entry cat (snapkey 2)) = Some (packtree ?t)"
    using snap_entries_ok [of rbp abp] sn(2) by (auto simp: packsnap_def)
  have fs: "find_snap cat (cstr ''main'') = Inr (?t, LMUT OR LTSNAP)" by (rule find_snap_values [OF _ m]) (simp add: cstr_def)
  have nx: "sb_nextqid fi = Nreamqid" "sb_nextgen fi = 4" using f unfolding formatted_def by blast+
  have root: "dirs es (- 1, []) = Some (fillxdir 0 [] QTDIR (DMDIR OR 0x1FD))" using root_entries_ok [unfolded v(3)] by auto
  have t: "t_ht ?t = 1" "t_gen ?t = 3" "on_disk d' (bp_addr (t_bp ?t)) = Some v" using sn(1) v(1) by simp_all
  note all = r holds_super [OF sb0(2,1,3)] nx w(1) leaf_rep_blk_vals [OF w(2)] m(1) fs t leaf_rep_blk_vals [OF v(2)] root
  show ?thesis using False all by (metis (no_types, lifting))
qed

text \<open>
  C26: on a freshly formatted image \<^verbatim>\<open>load_arena\<close> reads the log pointer of arena 0 two bytes too early and
  gets address 0; the superblock there, taken for a log block, claims 26227 bytes of entries, more
  than the 16384 of its buffer; and the loop over the entries, whatever it makes of them, comes to
  one at an offset that ends behind the buffer (\<^verbatim>\<open>read_fault\<close>; \<^verbatim>\<open>replay\<close> is total, so its \<open>None\<close> is that read or
  an overflow before it, not a loop that never ends). Opening the image is therefore undefined.
  \<^verbatim>\<open>src/src/gefs_test.c\<close> (line 60) asserts that opening such an image returns 0: there the bytes behind the
  buffer are read unnoticed.
\<close>

theorem fresh_image_open_overruns:
  assumes "128 * 1024 * 1024 + BLKSZ \<le> dsize d" and "dsize d < 2 ^ 62"
  shows "\<exists>d' h b i. ream d user = Some (Inr d')
     \<and> on_disk d' (word_of_int BLKSZ) = Some h \<and> doff h = 0
     \<and> map_option bp_addr (Option.bind (bget h 0 56) (\<lambda>hd. unpackbp (drop 32 hd))) = Some 0
     \<and> on_disk d' 0 = Some b \<and> doff b = 0 \<and> map_option unpack16 (bget b 2 2) = Some 26227
     \<and> read_fault b 26227 0 = Some i \<and> BLKSZ < i + 16 \<and> i \<le> BLKSZ
     \<and> (\<forall>rs. replay b 26227 0 rs = None) \<and> fs_open ReadWrite d' = None"
proof -
  obtain d' fi es cat where f: "ream d user = Some (Inr d')" "formatted d' fi es cat" using ream_formatted [OF assms, of user] by auto
  obtain h b where l: "fresh_log d' h b" using formatted_fresh_log [OF f(2)] by blast
  then have b: "doff b = 0" by (simp add: fresh_log_def)
  obtain i where "read_fault b 26227 0 = Some i" "BLKSZ < i + 16" "i \<le> BLKSZ" using read_fault_past [OF b, of 26227 0] by auto
  moreover have "replay b 26227 0 rs = None" for rs by (rule replay_overrun [OF b]) simp
  moreover note open_overruns [OF f(2) l] f(1) l [unfolded fresh_log_def]
  ultimately show ?thesis by blast
qed

text \<open>A blank image of 256 MiB.\<close>

definition blank_image :: device where
  "blank_image = \<lparr>dbytes = zeros, dsize = 268435456\<rparr>"

theorem formatter_lays_out_filesystem_witness:
  "\<exists>d' fi. ream blank_image (cstr ''glenda'') = Some (Inr d') \<and> read_super d' = Inr (super_stored zero_tree fi) \<and> sb_nextgen fi = 4"
  using formatter_lays_out_filesystem [of blank_image "cstr ''glenda''"] by (auto simp: blank_image_def)

theorem fresh_image_open_overruns_witness:
  "\<exists>d' b i. ream blank_image (cstr ''glenda'') = Some (Inr d') \<and> on_disk d' 0 = Some b
     \<and> read_fault b 26227 0 = Some i \<and> BLKSZ < i + 16 \<and> fs_open ReadWrite d' = None"
  using fresh_image_open_overruns [of blank_image "cstr ''glenda''"] unfolding blank_image_def by fastforce

end
