(* ===== verification/Checkspec.thy ===== *)
theory Checkspec
  imports Check Syncspec Samplepivot
begin

text \<open>
  What the counters of \<^verbatim>\<open>fsck.gefs\<close> say of a tree: a leaf gets one error for each pair of neighbouring
  keys out of order, and a well-formed tree of any height gets none.
\<close>

section \<open>Leaves\<close>

fun inversions :: "key list \<Rightarrow> nat" where
  "inversions (x # y # ks) = (if x < y then 0 else 1) + inversions (y # ks)"
| "inversions _ = 0"

lemma inversions_zero: "inversions ks = 0 \<longleftrightarrow> strict ks"
proof (induction ks rule: inversions.induct)
  case (1 x y ks)
  then show ?case by (auto simp: strict_Cons dest: less_trans)
qed (simp_all add: strict_def)

lemma check_vals_leaf:
  assumes "blk_vals b es" and "btype b \<noteq> TPIVOT"
  shows "es = pre @ x # ys \<Longrightarrow>
     check_vals kid b (int (Suc (length pre))) x (c, e, w) = Some (c, e + inversions (map kv_k (x # ys)), w)"
proof (induction ys arbitrary: pre x e)
  case Nil
  then show ?case using assms(1) by (simp add: check_vals.simps [of _ _ "_ + _"] blk_vals_def)
next
  case (Cons y ys)
  let ?i = "Suc (length pre)"
  have g: "?i < length es" "es ! ?i = y" using Cons.prems by (simp_all add: nth_append)
  then have v: "getval b (int ?i) = Some y" "int ?i < nval b" using assms(1) unfolding blk_vals_def by (metis, simp)
  have "es = (pre @ [x]) @ y # ys" using Cons.prems by simp
  from Cons.IH [OF this]
  have IH: "check_vals kid b (int ?i + 1) y (c, e', w) = Some (c, e' + inversions (map kv_k (y # ys)), w)" for e'
    by (simp add: add.commute)
  show ?case
    unfolding check_vals.simps [of _ _ "int ?i"]
    using v IH assms(2) by (simp add: err_def keycmp_order Let_def not_le)
qed

lemma check_leaf_node:
  assumes "blk_vals b es" and "btype b = TLEAF"
  shows "check_btree_node 1 d b None hi (c, e, w)
    = Some (c, e + inversions (map kv_k es), if es = [] then Suc w else w)"
proof (cases es)
  case Nil
  then show ?thesis using assms by (simp add: blk_vals_def warn_def)
next
  case (Cons x ys)
  have "getval b 0 = Some x" "nval b \<noteq> 0" using assms(1) Cons by (auto simp: blk_vals_def)
  moreover have "check_vals kid b 1 x (c, e, w) = Some (c, e + inversions (map kv_k (x # ys)), w)" for kid
    using check_vals_leaf [OF assms(1), of "[]" x ys] assms(2) Cons by simp
  ultimately show ?thesis using assms(2) Cons by (simp add: Let_def)
qed

section \<open>Trees\<close>

text \<open>The first key of a node, and trees in which no child starts before its separator.\<close>

fun first_key :: "atree \<Rightarrow> key option" where
  "first_key (ALeaf es) = (case es of [] \<Rightarrow> None | e # _ \<Rightarrow> Some (kv_k e))"
| "first_key (APivot kids ms) = (case kids of [] \<Rightarrow> None | (k, _) # _ \<Rightarrow> Some k)"

definition starts_after :: "key \<Rightarrow> atree \<Rightarrow> bool" where
  "starts_after k t \<longleftrightarrow> (case first_key t of None \<Rightarrow> True | Some k' \<Rightarrow> k \<le> k')"

inductive separated :: "atree \<Rightarrow> bool" where
  leaf: "separated (ALeaf es)"
| pivot: "(\<And>k t. (k, t) \<in> set kids \<Longrightarrow> separated t \<and> starts_after k t) \<Longrightarrow> separated (APivot kids ms)"

inductive_cases separated_pivotE: "separated (APivot kids ms)"

text \<open>What checking a subtree leaves alone: the view of the store and the number of errors.\<close>

definition clean :: "device \<Rightarrow> nat list \<Rightarrow> u64 set \<Rightarrow> bcache \<times> tally \<Rightarrow> bcache \<times> tally \<Rightarrow> bool" where
  "clean d hs S st st' \<longleftrightarrow> cache_ok d (fst st') hs S \<and> seen d (fst st') S = seen d (fst st) S \<and> fst (snd st') = fst (snd st)"

lemma clean_trans: "clean d hs S st st' \<Longrightarrow> clean d hs S st' st'' \<Longrightarrow> clean d hs S st st''"
  by (simp add: clean_def)

lemma check_msgs_clean:
  assumes "msgs_rep b ms" and "sorted (map m_k ms)"
  shows "ms = pre @ x # ys \<Longrightarrow> check_msgs b (int (Suc (length pre))) x w = Some w"
proof (induction ys arbitrary: pre x)
  case Nil
  then show ?case using assms(1) by (simp add: check_msgs.simps [of _ "_ + _"] msgs_rep_def)
next
  case (Cons y ys)
  let ?i = "Suc (length pre)"
  have g: "?i < length ms" "ms ! ?i = y" using Cons.prems by (simp_all add: nth_append)
  then have v: "getmsg b (int ?i) = Some y" "int ?i < nbuf b" using assms(1) unfolding msgs_rep_def by (metis, simp)
  have le: "\<not> m_k y < m_k x" using assms(2) Cons.prems by (simp add: sorted_append not_less)
  have "ms = (pre @ [x]) @ y # ys" using Cons.prems by simp
  from Cons.IH [OF this] have "check_msgs b (int ?i + 1) y w = Some w" by (simp add: add.commute)
  then show ?case unfolding check_msgs.simps [of _ "int ?i"] using v le by (simp add: keycmp_iff)
qed

lemma check_vals_clean:
  assumes "blk_vals b es" and "strict (map kv_k es)"
    and kid: "\<And>i st. Suc i < length es \<Longrightarrow> clean d hs S st0 st \<Longrightarrow> \<exists>st'. kid (es ! i) (es ! Suc i) st = Some st' \<and> clean d hs S st st'"
  shows "es = pre @ x # ys \<Longrightarrow> clean d hs S st0 st \<Longrightarrow>
     \<exists>st'. check_vals kid b (int (Suc (length pre))) x st = Some st' \<and> clean d hs S st0 st'"
proof (induction ys arbitrary: pre x st)
  case Nil
  then show ?case using assms(1) by (simp add: check_vals.simps [of _ _ "_ + _"] blk_vals_def)
next
  case (Cons y ys)
  let ?i = "Suc (length pre)"
  have g: "?i < length es" "es ! ?i = y" "es ! length pre = x" using Cons.prems by (simp_all add: nth_append)
  then have v: "getval b (int ?i) = Some y" "int ?i < nval b" using assms(1) unfolding blk_vals_def by (metis, simp)
  have lt: "keycmp (kv_k x) (kv_k y) < 0" using assms(2) Cons.prems by (simp add: strict_def sorted_wrt_append keycmp_iff)
  obtain st1 where st1: "(if btype b = TPIVOT then kid x y st else Some st) = Some st1" "clean d hs S st0 st1"
    using kid [of "length pre" st] g Cons.prems(2) clean_trans [OF Cons.prems(2)] by (cases "btype b = TPIVOT") auto
  have "es = (pre @ [x]) @ y # ys" using Cons.prems by simp
  from Cons.IH [OF this st1(2)]
  obtain st' where "check_vals kid b (int ?i + 1) y st1 = Some st'" "clean d hs S st0 st'" by (auto simp: add.commute)
  then show ?case unfolding check_vals.simps [of _ _ "int ?i"] using v lt st1(1) by (cases "btype b = TPIVOT") (auto simp: Let_def)
qed

text \<open>The check of one child, as it appears inside \<^verbatim>\<open>check_btree_node\<close>.\<close>

definition check_kid :: "nat \<Rightarrow> device \<Rightarrow> kvp \<Rightarrow> kvp option \<Rightarrow> bcache \<times> tally \<Rightarrow> (bcache \<times> tally) option" where
  "check_kid h d x hi st = do {
     bp \<leftarrow> unpackbp (kv_v x);
     (c, q) \<leftarrow> fetch d (fst st) bp;
     case q of
       None \<Rightarrow> Some (c, err (snd st))
     | Some (p, ch) \<Rightarrow> do {
         (c, w) \<leftarrow> check_btree_node h d ch (Some x) hi (c, snd st);
         c \<leftarrow> release c p;
         Some (c, w)
       }
   }"

lemma check_pivot_node:
  assumes "btype b = TPIVOT" and "nval b \<noteq> 0"
  shows "check_btree_node (Suc h) d b lo hi st = do {
     x \<leftarrow> getval b 0;
     st \<leftarrow> check_vals (\<lambda>x y. check_kid h d x (Some y)) b 1 x
       (fst st, case lo of None \<Rightarrow> snd st | Some l \<Rightarrow> if keycmp (kv_k l) (kv_k x) > 0 then err (snd st) else snd st);
     y \<leftarrow> getval b (nval b - 1);
     st \<leftarrow> check_kid h d y hi st;
     if 0 < nbuf b then do { mx \<leftarrow> getmsg b 0; w \<leftarrow> check_msgs b 1 mx (snd st); Some (fst st, w) } else Some st
   }"
proof -
  have "(\<lambda>x hi (c, w). do {
            bp \<leftarrow> unpackbp (kv_v x);
            (c, q) \<leftarrow> fetch d c bp;
            case q of
              None \<Rightarrow> Some (c, err w)
            | Some (p, ch) \<Rightarrow> do {
                (c, w) \<leftarrow> check_btree_node h d ch (Some x) hi (c, w);
                c \<leftarrow> release c p;
                Some (c, w)
              }
          }) = check_kid h d"
    by (auto simp: fun_eq_iff check_kid_def)
  then show ?thesis using assms by (simp add: Let_def cong: option.case_cong)
qed

lemma low_bound:
  assumes "\<forall>x. lo = Some x \<longrightarrow> starts_after (kv_k x) t" and "first_key t = Some k"
  shows "(case lo of None \<Rightarrow> w | Some l \<Rightarrow> if keycmp (kv_k l) k > 0 then err w else w) = w"
  using assms by (auto simp: starts_after_def keycmp_iff split: option.splits)

lemma check_leaf_clean:
  assumes "btype b = TLEAF" and "blk_vals b es" and "strict (map kv_k es)"
    and "\<forall>x. lo = Some x \<longrightarrow> starts_after (kv_k x) (ALeaf es)" and "cache_ok d c hs S"
  shows "\<exists>st'. check_btree_node 1 d b lo hi (c, w) = Some st' \<and> clean d hs S (c, w) st'"
proof (cases es)
  case Nil
  then show ?thesis using assms by (simp add: blk_vals_def clean_def warn_def)
next
  case (Cons x ys)
  have v: "getval b 0 = Some x" "nval b \<noteq> 0" using assms(2) Cons by (auto simp: blk_vals_def)
  have lb: "(case lo of None \<Rightarrow> w | Some l \<Rightarrow> if keycmp (kv_k l) (kv_k x) > 0 then err w else w) = w"
    by (rule low_bound [OF assms(4)]) (simp add: Cons)
  have "check_vals kid b 1 x (c, w) = Some (c, w)" for kid
    using check_vals_leaf [OF assms(2), of "[]" x ys kid c "fst w" "snd w"] assms(1,3) Cons inversions_zero [of "map kv_k es"] by simp
  then show ?thesis using assms(1,5) v lb by (simp add: Let_def clean_def)
qed

lemma check_kid_clean:
  assumes bp: "unpackbp (kv_v x) = Some bp" and v: "seen d c S (bp_addr bp) = Some v" and ok: "cache_ok d c hs S"
    and IH: "\<And>ch c' hs'. norm ch = v \<Longrightarrow> cache_ok d c' hs' S \<Longrightarrow> seen d c' S = seen d c S \<Longrightarrow>
      \<exists>st'. check_btree_node h d ch (Some x) hi (c', w) = Some st' \<and> clean d hs' S (c', w) st'"
  shows "\<exists>st'. check_kid h d x hi (c, w) = Some st' \<and> clean d hs S (c, w) st'"
proof -
  have "view d c (bp_addr bp) = Some v" using v by (auto simp: restrict_map_def split: if_splits)
  from bstore.fetch_present [OF ok this]
  obtain c1 p ch where f: "fetch d c bp = Some (c1, Some (p, ch))" "norm ch = v" "cache_ok d c1 (p # hs) S"
    "\<forall>a \<in> S. view d c1 a = view d c a" by blast
  obtain c2 w2 where n: "check_btree_node h d ch (Some x) hi (c1, w) = Some (c2, w2)" "clean d (p # hs) S (c1, w) (c2, w2)"
    using IH [OF f(2,3) seen_cong [OF f(4)]] by auto
  have "cache_ok d c2 (p # hs) S" using n(2) by (simp add: clean_def)
  from bstore.release_law [OF this, of p]
  obtain c3 where "release c2 p = Some c3" "cache_ok d c3 hs S" "\<forall>a. view d c3 a = view d c2 a" by auto
  then show ?thesis using bp f n seen_cong [OF f(4)] seen_cong [of S d c3 c2] by (simp add: check_kid_def clean_def)
qed

lemma check_node_clean:
  assumes "tree_at V h a T"
  shows "separated T \<Longrightarrow> (\<forall>x. lo = Some x \<longrightarrow> starts_after (kv_k x) T) \<Longrightarrow> V a = Some (norm b) \<Longrightarrow> cache_ok d c hs S \<Longrightarrow>
     seen d c S = V \<Longrightarrow> \<exists>st'. check_btree_node h d b lo hi (c, w) = Some st' \<and> clean d hs S (c, w) st'"
  using assms
proof (induction arbitrary: lo hi b c hs w rule: tree_at.induct)
  case (leaf a b0 es)
  then show ?case by (intro check_leaf_clean) (auto simp: strict_iff)
next
  case (pivot h a b0 es ms kids bps)
  have b: "btype b = TPIVOT" "blk_vals b es" "msgs_rep b ms" using pivot by auto
  have st: "strict (map kv_k es)" using pivot by (simp add: strict_iff)
  have kids: "length kids = length es" using pivot(9) by (metis length_map)
  have kid: "\<exists>st'. check_kid h d (es ! i) hi' st = Some st' \<and> clean d hs S st st'"
    if i: "i < length es" and cl: "clean d hs S (c, w) st" for i hi' st
  proof -
    have fk: "fst (kids ! i) = kv_k (es ! i)" using pivot(9) i kids by (metis nth_map)
    then have "(kv_k (es ! i), snd (kids ! i)) \<in> set kids" using i kids by (metis nth_mem prod.collapse)
    then have sp: "separated (snd (kids ! i))" "starts_after (kv_k (es ! i)) (snd (kids ! i))"
      using pivot.prems(1) by (auto elim: separated_pivotE)
    have V: "seen d (fst st) S = V" "cache_ok d (fst st) hs S" using cl pivot.prems(5) by (auto simp: clean_def)
    have at: "tree_at V h (bp_addr (bps i)) (snd (kids ! i))" using pivot(10) [OF i] by blast
    then obtain v where v: "V (bp_addr (bps i)) = Some v" by (rule tree_at.cases) auto
    note IH = conjunct2 [OF conjunct2 [OF pivot(10) [OF i]], rule_format, OF sp(1)]
    have "\<exists>st'. check_kid h d (es ! i) hi' (fst st, snd st) = Some st' \<and> clean d hs S (fst st, snd st) st'"
    proof (rule check_kid_clean [OF _ _ V(2)])
      show "unpackbp (kv_v (es ! i)) = Some (bps i)" using pivot(10) [OF i] by blast
      show "seen d (fst st) S (bp_addr (bps i)) = Some v" unfolding V(1) by (rule v)
      fix ch c' hs'
      assume "norm ch = v" "cache_ok d c' hs' S" "seen d c' S = seen d (fst st) S"
      then show "\<exists>st'. check_btree_node h d ch (Some (es ! i)) hi' (c', snd st) = Some st' \<and> clean d hs' S (c', snd st) st'"
        using sp(2) v V(1) by (intro IH) auto
    qed
    then show ?thesis by simp
  qed
  show ?case
  proof (cases es)
    case Nil
    then show ?thesis using b pivot.prems(4) by (simp add: blk_vals_def clean_def warn_def)
  next
    case (Cons x ys)
    have v: "getval b 0 = Some x" "nval b \<noteq> 0" "nval b - 1 = int (length ys)" "getval b (int (length ys)) = Some (es ! length ys)"
      using b(2) Cons by (auto simp: blk_vals_def)
    have lb: "(case lo of None \<Rightarrow> w | Some l \<Rightarrow> if keycmp (kv_k l) (kv_k x) > 0 then err w else w) = w"
      by (rule low_bound [OF pivot.prems(2)]) (use pivot(9) Cons in \<open>cases kids; auto\<close>)
    have c0: "clean d hs S (c, w) (c, w)" using pivot.prems(4) by (simp add: clean_def)
    obtain st1 where s1: "check_vals (\<lambda>x y. check_kid h d x (Some y)) b 1 x (c, w) = Some st1" "clean d hs S (c, w) st1"
      using check_vals_clean [OF b(2) st, of d hs S "(c, w)" "\<lambda>x y. check_kid h d x (Some y)" "[]" x ys "(c, w)"] kid Cons c0 by auto
    obtain st2 where s2: "check_kid h d (es ! length ys) hi st1 = Some st2" "clean d hs S st1 st2"
      using kid [OF _ s1(2), of "length ys" hi] Cons by auto
    have "ms = [] \<or> (\<exists>m ms'. ms = m # ms' \<and> getmsg b 0 = Some m \<and> check_msgs b 1 m (snd st2) = Some (snd st2))"
      using b(3) check_msgs_clean [OF b(3) pivot(8), of "[]"] by (cases ms) (auto simp: msgs_rep_def)
    then show ?thesis
      unfolding check_pivot_node [OF b(1) v(2)] v(3) fst_conv snd_conv
      using v lb s1 s2 clean_trans [OF s1(2) s2(2)] b(3) by (cases st2) (auto simp: msgs_rep_def)
  qed
qed

section \<open>What the checker says of a tree\<close>

lemma check_tree_root:
  assumes "cache_ok d c hs S" and "seen d c S (bp_addr (t_bp t)) = Some v"
    and "\<And>b c' hs'. norm b = v \<Longrightarrow> cache_ok d c' hs' S \<Longrightarrow> seen d c' S = seen d c S \<Longrightarrow>
      \<exists>c2 w2. check_btree_node (nat (sint (t_ht t))) d b None None (c', w) = Some (c2, w2) \<and> Q w2
        \<and> cache_ok d c2 hs' S \<and> seen d c2 S = seen d c' S"
  shows "\<exists>c' w'. check_tree d t (c, w) = Some (c', w') \<and> Q w' \<and> cache_ok d c' hs S \<and> seen d c' S = seen d c S"
proof -
  have "view d c (bp_addr (t_bp t)) = Some v" using assms(2) by (auto simp: restrict_map_def split: if_splits)
  from bstore.fetch_present [OF assms(1) this]
  obtain c1 p b where f: "fetch d c (t_bp t) = Some (c1, Some (p, b))" "norm b = v" "cache_ok d c1 (p # hs) S"
    "\<forall>a \<in> S. view d c1 a = view d c a" by blast
  obtain c2 w2 where n: "check_btree_node (nat (sint (t_ht t))) d b None None (c1, w) = Some (c2, w2)" "Q w2" "cache_ok d c2 (p # hs) S"
    "seen d c2 S = seen d c1 S"
    using assms(3) [OF f(2,3) seen_cong [OF f(4)]] by blast
  obtain c3 where "release c2 p = Some c3" "cache_ok d c3 hs S" "\<forall>a. view d c3 a = view d c2 a"
    using bstore.release_law [OF n(3), of p] by auto
  then show ?thesis using f(1) n seen_cong [OF f(4)] seen_cong [of S d c3 c2] by (auto simp: check_tree_def)
qed

text \<open>
  On a tree of one leaf the checker adds exactly one error for each pair of neighbouring keys out
  of order, so none if and only if the keys are strictly ascending; an empty leaf gets one warning.
  The blocks a client sees stay as they were.
\<close>

theorem checker_counts_inversions:
  assumes "cache_ok d c hs S" and "seen d c S (bp_addr (t_bp t)) = Some v" and "btype v = TLEAF" and "blk_vals v es" and "sint (t_ht t) = 1"
  shows "\<exists>c' n. check_tree d t (c, e, w) = Some (c', e + n, if es = [] then Suc w else w)
     \<and> n = inversions (map kv_k es) \<and> (n = 0 \<longleftrightarrow> strict (map kv_k es)) \<and> seen d c' S = seen d c S"
proof -
  let ?w = "(e + inversions (map kv_k es), if es = [] then Suc w else w)"
  have "\<exists>c' w'. check_tree d t (c, e, w) = Some (c', w') \<and> w' = ?w \<and> cache_ok d c' hs S \<and> seen d c' S = seen d c S"
  proof (rule check_tree_root [OF assms(1,2)])
    fix b c' hs'
    assume "norm b = v" "cache_ok d c' hs' S"
    then show "\<exists>c2 w2. check_btree_node (nat (sint (t_ht t))) d b None None (c', e, w) = Some (c2, w2) \<and> w2 = ?w
        \<and> cache_ok d c2 hs' S \<and> seen d c2 S = seen d c' S"
      using check_leaf_node [of b es d None c' e w] assms(3-5) by auto
  qed
  then show ?thesis using inversions_zero by blast
qed

text \<open>
  C18: the checker accepts every well-formed tree of any height, with messages pending in its pivots:
  if the nodes have strictly ascending keys and ascending messages and no child starts before its
  separator, checking the tree returns with no new error and leaves the store as it was seen.
\<close>

theorem checker_accepts_trees:
  assumes "fs_ok s hs S" and "tree_at (seen_by s S) h (bp_addr (t_bp t)) T" and "sint (t_ht t) = int h" and "separated T"
  shows "\<exists>c' w'. check_tree (dev s) t (bc s, w) = Some (c', w') \<and> fst w' = fst w
     \<and> cache_ok (dev s) c' hs S \<and> seen (dev s) c' S = seen_by s S"
proof -
  have ok: "cache_ok (dev s) (bc s) hs S" using assms(1) by (simp add: fs_ok_def)
  obtain v where v: "seen_by s S (bp_addr (t_bp t)) = Some v" using assms(2) by (rule tree_at.cases) auto
  show ?thesis
  proof (rule check_tree_root [OF ok v])
    fix b c' hs'
    assume b: "norm b = v" "cache_ok (dev s) c' hs' S" "seen (dev s) c' S = seen_by s S"
    then obtain st' where "check_btree_node h (dev s) b None None (c', w) = Some st'" "clean (dev s) hs' S (c', w) st'"
      using check_node_clean [OF assms(2,4), of None b "dev s" c' hs' S None w] v by auto
    then show "\<exists>c2 w2. check_btree_node (nat (sint (t_ht t))) (dev s) b None None (c', w) = Some (c2, w2) \<and> fst w2 = fst w
        \<and> cache_ok (dev s) c2 hs' S \<and> seen (dev s) c2 S = seen (dev s) c' S"
      using assms(3) by (cases st') (auto simp: clean_def)
  qed
qed

section \<open>Concrete trees\<close>

lemma sample_leaf_at: "\<exists>v. seen_by (sample_ctx sample_vals sample_cat) sample_addrs 16384 = Some v \<and> btype v = TLEAF \<and> blk_vals v sample_vals"
  using sample_trees(1) [OF sample_cat_fits(4,1) sample_cat_strict(2,1)] by (auto elim: tree_at_leafE)

theorem checker_counts_inversions_witness:
  "\<exists>c'. check_tree (sample_dev sample_vals sample_cat) (sample_tree 16384 1) (cache_init 4096 zero_cache, 0, 0) = Some (c', 0, 0)"
proof -
  obtain v where v: "seen_by (sample_ctx sample_vals sample_cat) sample_addrs 16384 = Some v" "btype v = TLEAF" "blk_vals v sample_vals"
    using sample_leaf_at by blast
  have "cache_ok (sample_dev sample_vals sample_cat) (cache_init 4096 zero_cache) [] sample_addrs"
    using sample_ok [of sample_vals sample_cat] by (simp add: fs_ok_def sample_ctx_def)
  from checker_counts_inversions [OF this, of "sample_tree 16384 1" v sample_vals 0 0] v
  show ?thesis by (auto simp: sample_ctx_def sample_tree_def zero_tree_def sample_vals_def)
qed

text \<open>A pivot with a leaf below it and three messages pending.\<close>

theorem checker_accepts_trees_witness:
  "\<exists>c' w'. check_tree (dev (pivot_ctx [\<lparr>kv_k = [1], kv_v = [7]\<rparr>, \<lparr>kv_k = [2], kv_v = [8]\<rparr>])) pivot_tree (cache_init 4096 zero_cache, 0, 0) = Some (c', w')
     \<and> fst w' = 0"
proof -
  let ?es = "[\<lparr>kv_k = [1], kv_v = [7]\<rparr>, \<lparr>kv_k = [2], kv_v = [8]\<rparr>]"
  have t: "tree_at (seen_by (pivot_ctx ?es) (insert 262144 sample_addrs)) 2 262144 (APivot [([1], ALeaf ?es)] pending_msgs)"
    by (rule pivot_tree_at) (simp_all add: leaf_fits_def kv_small_def kvs_size_def kvsz_def strict_def)
  have "separated (APivot [([1], ALeaf ?es)] pending_msgs)" by (auto intro!: separated.intros simp: starts_after_def)
  then show ?thesis
    using checker_accepts_trees [OF pivot_ok, of ?es 2 pivot_tree "APivot [([1], ALeaf ?es)] pending_msgs" "(0, 0)"] t
    by (auto simp: pivot_tree_def zero_tree_def zero_bptr_def pivot_ctx_def sample_ctx_def)
qed

end
