(* ===== verification/Syncq.thy ===== *)
theory Syncq
  imports Serial "HOL-Library.Multiset" "HOL-Library.Product_Lexorder"
begin

text \<open>
  The write queue of an arena in the upstream server (\<^verbatim>\<open>qcmp\<close>, \<^verbatim>\<open>qput\<close>, \<^verbatim>\<open>qpop\<close> of \<^verbatim>\<open>src/src/blk.c\<close>): a
  binary heap in an array, ordered by generation, then operation, then address. One call is one
  step, since both run under the queue's lock; a caller that has to wait gets \<open>QWait\<close> and
  tries again. The flag \<^verbatim>\<open>Bqueued\<close> that \<^verbatim>\<open>qpop\<close> clears is set nowhere.
\<close>

section \<open>The queue\<close>

record qent =
  qe_qgen :: u64
  qe_bp :: bptr
  qe_b :: "nat option"
  qe_op :: int

record syncq =
  q_heap :: "qent list"
  q_nheap :: nat
  q_heapsz :: nat

abbreviation (input) Qfence :: int where "Qfence \<equiv> 1"
abbreviation (input) Qwrite :: int where "Qwrite \<equiv> 2"
abbreviation (input) Qfree :: int where "Qfree \<equiv> 3"

definition zero_qent :: qent where
  "zero_qent = \<lparr>qe_qgen = 0, qe_bp = \<lparr>bp_addr = 0, bp_hash = 0, bp_gen = 0\<rparr>, qe_b = None, qe_op = 0\<rparr>"

definition qinit :: "nat \<Rightarrow> syncq" where
  "qinit cmax = \<lparr>q_heap = replicate cmax zero_qent, q_nheap = 0, q_heapsz = cmax\<rparr>"

definition qcmp :: "qent \<Rightarrow> qent \<Rightarrow> int" where
  "qcmp a b =
     (if qe_qgen a \<noteq> qe_qgen b then if sint (qe_qgen a) < sint (qe_qgen b) then - 1 else 1
      else if qe_op a \<noteq> qe_op b then if qe_op a < qe_op b then - 1 else 1
      else if bp_addr (qe_bp a) \<noteq> bp_addr (qe_bp b) then if sint (bp_addr (qe_bp a)) < sint (bp_addr (qe_bp b)) then - 1 else 1
      else 0)"

text \<open>The loop of \<^verbatim>\<open>qput\<close>, from the free slot towards the root.\<close>

function sift_up :: "qent list \<Rightarrow> qent \<Rightarrow> nat \<Rightarrow> qent list" where
  "sift_up h qe i =
     (if 0 < i \<and> qcmp qe (h ! ((i - 1) div 2)) \<noteq> 1
      then sift_up (h[i := h ! ((i - 1) div 2)]) qe ((i - 1) div 2)
      else h[i := qe])"
  by pat_completeness auto
termination
  by (relation "measure (\<lambda>(h, qe, i). i)") auto

declare sift_up.simps [simp del]

datatype 'a qres = QAbort | QWait | QDone 'a

text \<open>
  \<^verbatim>\<open>qput\<close>: \<open>syncing\<close> is \<^verbatim>\<open>fs->syncing\<close>, \<open>refs\<close> the reference counts of the blocks, \<open>qgen\<close> the current
  generation \<^verbatim>\<open>fs->qgen\<close>.
\<close>

definition qput :: "int \<Rightarrow> (nat \<Rightarrow> int) \<Rightarrow> u64 \<Rightarrow> qent \<Rightarrow> syncq \<Rightarrow> syncq qres" where
  "qput syncing refs qgen qe q =
     (if (if qe_op qe = Qfree \<or> qe_op qe = Qwrite then bp_addr (qe_bp qe) AND (word_of_int BLKSZ - 1) \<noteq> 0
          else if qe_op qe = Qfence then syncing \<le> 0 else True) then QAbort
      else if (case qe_b qe of None \<Rightarrow> False | Some p \<Rightarrow> refs p \<le> 0) then QAbort
      else if q_nheap q = q_heapsz q then QWait
      else QDone (q\<lparr>q_heap := sift_up (q_heap q) (qe\<lparr>qe_qgen := qgen\<rparr>) (q_nheap q), q_nheap := q_nheap q + 1\<rparr>))"

text \<open>The loop of \<^verbatim>\<open>qpop\<close>, from the root towards the leaves.\<close>

definition smaller_child :: "qent list \<Rightarrow> nat \<Rightarrow> nat \<Rightarrow> nat" where
  "smaller_child h n i =
     (let l = 2 * i + 1; r = 2 * i + 2;
          m = (if l < n \<and> qcmp (h ! i) (h ! l) = 1 then l else i)
      in if r < n \<and> qcmp (h ! m) (h ! r) = 1 then r else m)"

function sift_down :: "qent list \<Rightarrow> nat \<Rightarrow> nat \<Rightarrow> qent list" where
  "sift_down h n i =
     (let m = smaller_child h n i
      in if m = i then h else sift_down (h[m := h ! i, i := h ! m]) n m)"
  by pat_completeness auto
termination
  by (relation "measure (\<lambda>(h, n, i). n - i)") (auto simp: smaller_child_def Let_def split: if_splits)

declare sift_down.simps [simp del]

definition qpop :: "syncq \<Rightarrow> (qent \<times> syncq) qres" where
  "qpop q =
     (if q_nheap q = 0 then QWait
      else (let e = q_heap q ! 0; n = q_nheap q - 1
            in if n = 0 then QDone (e, q\<lparr>q_nheap := 0\<rparr>)
               else QDone (e, q\<lparr>q_heap := sift_down ((q_heap q)[0 := q_heap q ! n]) n 0, q_nheap := n\<rparr>)))"

section \<open>The order\<close>

definition qkey :: "qent \<Rightarrow> int \<times> int \<times> int" where
  "qkey e = (sint (qe_qgen e), qe_op e, sint (bp_addr (qe_bp e)))"

lemma word_neq_sint: "x \<noteq> y \<longleftrightarrow> sint x \<noteq> sint (y :: u64)"
  using signed_word_eqI by blast

lemma qcmp_qkey: "qcmp a b = 1 \<longleftrightarrow> qkey b < qkey a"
  unfolding qcmp_def qkey_def word_neq_sint by (auto simp: not_less order_less_le)

section \<open>The heap\<close>

abbreviation up :: "nat \<Rightarrow> nat" where
  "up i \<equiv> (i - 1) div 2"

definition heap_on :: "nat \<Rightarrow> qent list \<Rightarrow> bool" where
  "heap_on n h \<longleftrightarrow> (\<forall>i. 0 < i \<and> i < n \<longrightarrow> qkey (h ! up i) \<le> qkey (h ! i))"

text \<open>A heap but for the slot \<open>i\<close>, which is to hold an entry with key \<open>k\<close>.\<close>

definition hole :: "nat \<Rightarrow> qent list \<Rightarrow> nat \<Rightarrow> int \<times> int \<times> int \<Rightarrow> bool" where
  "hole n h i k \<longleftrightarrow>
     (\<forall>j. 0 < j \<and> j < n \<and> j \<noteq> i \<and> up j \<noteq> i \<longrightarrow> qkey (h ! up j) \<le> qkey (h ! j))
     \<and> (\<forall>j. 0 < j \<and> j < n \<and> up j = i \<longrightarrow> k \<le> qkey (h ! j) \<and> (0 < i \<longrightarrow> qkey (h ! up i) \<le> qkey (h ! j)))"

lemma up_less: "0 < i \<Longrightarrow> up i < i"
  by simp

lemma hole_up:
  assumes h: "hole n h i k" and i: "0 < i" "i < n" "n \<le> length h" and k: "k \<le> qkey (h ! up i)"
  shows "hole n (h[i := h ! up i]) (up i) k"
proof -
  have rest: "qkey (h ! up j) \<le> qkey (h ! j)" if "0 < j" "j < n" "j \<noteq> i" "up j \<noteq> i" for j
    using h that unfolding hole_def by blast
  have below: "qkey (h ! up i) \<le> qkey (h ! j)" if "0 < j" "j < n" "up j = i" for j
    using h i(1) that unfolding hole_def by blast
  have u: "up i \<noteq> i" "up i < length h" "i < length h" using i by auto
  have sib: "qkey (h ! up i) \<le> qkey (h ! j)" if "0 < j" "j < n" "j \<noteq> i" "up j = up i" for j
    using rest [OF that(1-3)] that(4) u(1) by simp
  have top: "qkey (h ! up (up i)) \<le> qkey (h ! up i)" if "0 < up i"
    using rest [of "up i"] that i by (auto simp: div_eq_dividend_iff)
  show ?thesis
    unfolding hole_def
  proof (intro conjI allI impI; elim conjE)
    fix j
    assume j: "0 < j" "j < n" "j \<noteq> up i" "up j \<noteq> up i"
    then have "j \<noteq> i" by auto
    then show "qkey (h[i := h ! up i] ! up j) \<le> qkey (h[i := h ! up i] ! j)"
      using rest [of j] below [of j] j u by (cases "up j = i") auto
  next
    fix j
    assume j: "0 < j" "j < n" "up j = up i"
    have jl: "qkey (h ! up i) \<le> qkey (h[i := h ! up i] ! j)" using sib [of j] j u by (cases "j = i") auto
    then show "k \<le> qkey (h[i := h ! up i] ! j)" using k by simp
    assume "0 < up i"
    then have "up (up i) \<noteq> i" using i(1) by auto
    then show "qkey (h[i := h ! up i] ! up (up i)) \<le> qkey (h[i := h ! up i] ! j)"
      using top [OF \<open>0 < up i\<close>] jl by auto
  qed
qed

lemma hole_fill:
  assumes h: "hole n h i (qkey e)" and i: "i < n" "n \<le> length h" and e: "0 < i \<longrightarrow> qkey (h ! up i) \<le> qkey e"
  shows "heap_on n (h[i := e])"
  unfolding heap_on_def
proof (intro allI impI; elim conjE)
  fix j
  assume j: "0 < j" "j < n"
  show "qkey (h[i := e] ! up j) \<le> qkey (h[i := e] ! j)"
  proof (cases "j = i")
    case True
    then have "up j \<noteq> i" using j(1) by auto
    then show ?thesis using True e j i by auto
  next
    case False
    then show ?thesis using h j i unfolding hole_def by (cases "up j = i") auto
  qed
qed

lemma sift_up_heap:
  "hole n h i (qkey e) \<Longrightarrow> i < n \<Longrightarrow> n \<le> length h \<Longrightarrow> heap_on n (sift_up h e i)"
proof (induction h e i rule: sift_up.induct)
  case (1 h e i)
  show ?case
  proof (cases "0 < i \<and> qcmp e (h ! up i) \<noteq> 1")
    case True
    then have k: "qkey e \<le> qkey (h ! up i)" by (simp add: qcmp_qkey not_less)
    have "heap_on n (sift_up (h[i := h ! up i]) e (up i))"
      using 1 True hole_up [OF 1(2) _ 1(3,4) k] by auto
    then show ?thesis using True by (simp add: sift_up.simps [of h])
  next
    case False
    then have "heap_on n (h[i := e])" using hole_fill [OF 1(2-4)] by (auto simp: qcmp_qkey intro: less_imp_le)
    then show ?thesis unfolding sift_up.simps [of h] using False by auto
  qed
qed

lemma sift_up_mset:
  "i < n \<Longrightarrow> n \<le> length h \<Longrightarrow> mset (take n (sift_up h e i)) = mset (take n (h[i := e])) \<and> length (sift_up h e i) = length h"
proof (induction h e i rule: sift_up.induct)
  case (1 h e i)
  let ?p = "up i"
  show ?case
  proof (cases "0 < i \<and> qcmp e (h ! ?p) \<noteq> 1")
    case True
    let ?xs = "take n (h[i := e])"
    have p: "?p < i" "?p < length ?xs" "i < length ?xs" using True 1(2,3) by auto
    have "take n ((h[i := h ! ?p])[?p := e]) = ?xs[i := ?xs ! ?p, ?p := ?xs ! i]"
      using p 1(2,3) by (auto simp: take_update_swap nth_list_update intro!: nth_equalityI)
    then have "mset (take n ((h[i := h ! ?p])[?p := e])) = mset ?xs" using mset_swap [OF p(2,3)] by simp
    then show ?thesis using 1 True p by (simp add: sift_up.simps [of h])
  next
    case False
    then show ?thesis unfolding sift_up.simps [of h] using 1 by auto
  qed
qed

text \<open>A heap but for the entry in slot \<open>i\<close>, which may be larger than its children.\<close>

definition sinking :: "nat \<Rightarrow> qent list \<Rightarrow> nat \<Rightarrow> bool" where
  "sinking n h i \<longleftrightarrow>
     (\<forall>j. 0 < j \<and> j < n \<and> up j \<noteq> i \<longrightarrow> qkey (h ! up j) \<le> qkey (h ! j))
     \<and> (\<forall>j. 0 < i \<and> 0 < j \<and> j < n \<and> up j = i \<longrightarrow> qkey (h ! up i) \<le> qkey (h ! j))"

lemma child_cases: "0 < j \<Longrightarrow> up j = i \<longleftrightarrow> j = 2 * i + 1 \<or> j = 2 * i + 2"
  by auto

lemma smaller_child_stop: "smaller_child h n i = i \<Longrightarrow> 0 < j \<Longrightarrow> j < n \<Longrightarrow> up j = i \<Longrightarrow> qkey (h ! i) \<le> qkey (h ! j)"
  unfolding child_cases by (auto simp: smaller_child_def Let_def qcmp_qkey not_less split: if_splits)

lemma smaller_child_go:
  assumes "smaller_child h n i = m" and "m \<noteq> i"
  shows "0 < m" "m < n" "up m = i" "qkey (h ! m) < qkey (h ! i)" "0 < j \<Longrightarrow> j < n \<Longrightarrow> up j = i \<Longrightarrow> qkey (h ! m) \<le> qkey (h ! j)"
  using assms unfolding child_cases
  by (auto simp: smaller_child_def Let_def qcmp_qkey not_less split: if_splits)

lemma sinking_down:
  assumes s: "sinking n h i" and m: "smaller_child h n i = m" "m \<noteq> i" and n: "n \<le> length h"
  shows "sinking n (h[m := h ! i, i := h ! m]) m"
proof -
  note c = smaller_child_go [OF m]
  let ?h = "h[m := h ! i, i := h ! m]"
  have im: "i < m" "i < n" using c(1-3) by auto
  have v: "?h ! i = h ! m" "?h ! m = h ! i" "\<And>j. j \<noteq> i \<Longrightarrow> j \<noteq> m \<Longrightarrow> ?h ! j = h ! j"
    using im c n by (auto simp: nth_list_update)
  have rest: "qkey (h ! up j) \<le> qkey (h ! j)" if "0 < j" "j < n" "up j \<noteq> i" for j
    using s that unfolding sinking_def by blast
  have top: "qkey (h ! up i) \<le> qkey (h ! m)" if "0 < i" using s c that unfolding sinking_def by blast
  show ?thesis
    unfolding sinking_def
  proof (intro conjI allI impI; elim conjE)
    fix j
    assume j: "0 < j" "j < n" "up j \<noteq> m"
    consider "up j = i" "j = m" | "up j = i" "j \<noteq> m" | "up j \<noteq> i" "j = i" | "up j \<noteq> i" "j \<noteq> i" by blast
    then show "qkey (?h ! up j) \<le> qkey (?h ! j)"
    proof cases
      case 1
      then show ?thesis using v c(4) by simp
    next
      case 2
      then have "j \<noteq> i" using j(1) by auto
      then show ?thesis using v 2 c(5) [of j] j by simp
    next
      case 3
      then show ?thesis using v top j by simp
    next
      case 4
      then have "j \<noteq> m" using c(3) by auto
      then show ?thesis using v 4 rest [of j] j by simp
    qed
  next
    fix j
    assume j: "0 < j" "j < n" "up j = m"
    then have "j \<noteq> i" "j \<noteq> m" "up j \<noteq> i" using im m(2) by auto
    then show "qkey (?h ! up m) \<le> qkey (?h ! j)" using v c(3) rest [of j] j by simp
  qed
qed

lemma sift_down_heap: "sinking n h i \<Longrightarrow> n \<le> length h \<Longrightarrow> heap_on n (sift_down h n i)"
proof (induction h n i rule: sift_down.induct)
  case (1 h n i)
  let ?m = "smaller_child h n i"
  show ?case
  proof (cases "?m = i")
    case True
    have "heap_on n h"
      using 1(2) smaller_child_stop [OF True] unfolding heap_on_def sinking_def by blast
    then show ?thesis using True by (simp add: sift_down.simps [of h] Let_def)
  next
    case False
    then show ?thesis using 1 sinking_down [OF 1(2) refl False 1(3)] by (simp add: sift_down.simps [of h] Let_def)
  qed
qed

lemma sift_down_mset:
  "i < n \<Longrightarrow> n \<le> length h \<Longrightarrow> mset (take n (sift_down h n i)) = mset (take n h) \<and> length (sift_down h n i) = length h"
proof (induction h n i rule: sift_down.induct)
  case (1 h n i)
  let ?m = "smaller_child h n i"
  show ?case
  proof (cases "?m = i")
    case True
    then show ?thesis by (simp add: sift_down.simps [of h] Let_def)
  next
    case False
    note c = smaller_child_go [OF refl False]
    have l: "?m < length (take n h)" "i < length (take n h)" using c(2) 1(2,3) by auto
    have "take n (h[?m := h ! i, i := h ! ?m]) = (take n h)[?m := take n h ! i, i := take n h ! ?m]"
      using c(2) 1(2) by (simp add: take_update_swap)
    then have "mset (take n (h[?m := h ! i, i := h ! ?m])) = mset (take n h)" using mset_swap [OF l(2,1)] by simp
    then show ?thesis using 1 False c by (simp add: sift_down.simps [of h] Let_def)
  qed
qed

lemma heap_root: "heap_on n h \<Longrightarrow> i < n \<Longrightarrow> qkey (h ! 0) \<le> qkey (h ! i)"
proof (induction i rule: less_induct)
  case (less i)
  show ?case
  proof (cases "i = 0")
    case False
    then have "qkey (h ! 0) \<le> qkey (h ! up i)" using less by auto
    also have "\<dots> \<le> qkey (h ! i)" using less(2,3) False unfolding heap_on_def by blast
    finally show ?thesis .
  qed simp
qed

section \<open>Queues that give out the least entry\<close>

primrec puts :: "('e \<Rightarrow> 'q \<Rightarrow> 'q qres) \<Rightarrow> 'e list \<Rightarrow> 'q \<Rightarrow> 'q qres" where
  "puts put [] q = QDone q"
| "puts put (e # es) q = (case put e q of QDone q' \<Rightarrow> puts put es q' | r \<Rightarrow> r)"

primrec pops :: "('q \<Rightarrow> ('e \<times> 'q) qres) \<Rightarrow> nat \<Rightarrow> 'q \<Rightarrow> ('e list \<times> 'q) qres" where
  "pops pop 0 q = QDone ([], q)"
| "pops pop (Suc n) q =
     (case pop q of
        QDone (e, q) \<Rightarrow> (case pops pop n q of QDone (es, q) \<Rightarrow> QDone (e # es, q) | QWait \<Rightarrow> QWait | QAbort \<Rightarrow> QAbort)
      | QWait \<Rightarrow> QWait
      | QAbort \<Rightarrow> QAbort)"

locale ordered_queue =
  fixes put :: "'e \<Rightarrow> 'q \<Rightarrow> 'q qres"
    and pop :: "'q \<Rightarrow> ('e \<times> 'q) qres"
    and items :: "'q \<Rightarrow> 'e multiset"
    and room :: "'q \<Rightarrow> nat"
    and ok :: "'q \<Rightarrow> bool"
    and accepts :: "'e \<Rightarrow> bool"
    and key :: "'e \<Rightarrow> 'k :: linorder"
  assumes put_law: "ok q \<Longrightarrow> 0 < room q \<Longrightarrow> accepts e \<Longrightarrow>
      \<exists>q'. put e q = QDone q' \<and> ok q' \<and> items q' = add_mset e (items q) \<and> room q = Suc (room q')"
    and pop_law: "ok q \<Longrightarrow> items q \<noteq> {#} \<Longrightarrow>
      \<exists>e q'. pop q = QDone (e, q') \<and> ok q' \<and> items q = add_mset e (items q') \<and> (\<forall>x \<in># items q. key e \<le> key x) \<and> room q' = Suc (room q)"
begin

lemma puts_all:
  "ok q \<Longrightarrow> length es \<le> room q \<Longrightarrow> \<forall>e \<in> set es. accepts e \<Longrightarrow>
     \<exists>q'. puts put es q = QDone q' \<and> ok q' \<and> items q' = mset es + items q"
proof (induction es arbitrary: q)
  case (Cons e es)
  then obtain q1 where q1: "put e q = QDone q1" "ok q1" "items q1 = add_mset e (items q)" "room q = Suc (room q1)"
    using put_law [of q e] by auto
  then obtain q' where "puts put es q1 = QDone q'" "ok q'" "items q' = mset es + items q1"
    using Cons.IH [of q1] Cons.prems by auto
  then show ?case using q1 by auto
qed simp

lemma pops_all:
  "ok q \<Longrightarrow> size (items q) = n \<Longrightarrow>
     \<exists>es q'. pops pop n q = QDone (es, q') \<and> ok q' \<and> items q' = {#} \<and> mset es = items q \<and> sorted (map key es)"
proof (induction n arbitrary: q)
  case (Suc n)
  then obtain e q1 where q1: "pop q = QDone (e, q1)" "ok q1" "items q = add_mset e (items q1)" "\<forall>x \<in># items q. key e \<le> key x"
    using pop_law [of q] by (metis size_eq_0_iff_empty nat.distinct(1))
  then obtain es q' where es: "pops pop n q1 = QDone (es, q')" "ok q'" "items q' = {#}" "mset es = items q1" "sorted (map key es)"
    using Suc.IH [of q1] Suc.prems(2) by auto
  have "\<forall>x \<in> set es. key e \<le> key x" using q1(3,4) es(4) by (metis set_mset_add_mset_insert insert_iff set_mset_mset)
  then show ?case using q1 es by auto
qed simp

end

text \<open>The heap implements the interface.\<close>

definition q_items :: "syncq \<Rightarrow> qent multiset" where
  "q_items q = mset (take (q_nheap q) (q_heap q))"

definition q_ok :: "syncq \<Rightarrow> bool" where
  "q_ok q \<longleftrightarrow> heap_on (q_nheap q) (q_heap q) \<and> q_nheap q \<le> q_heapsz q \<and> length (q_heap q) = q_heapsz q"

definition acceptable :: "int \<Rightarrow> (nat \<Rightarrow> int) \<Rightarrow> qent \<Rightarrow> bool" where
  "acceptable syncing refs e \<longleftrightarrow>
     (qe_op e \<in> {Qwrite, Qfree} \<and> bp_addr (qe_bp e) AND (word_of_int BLKSZ - 1) = 0 \<or> qe_op e = Qfence \<and> 0 < syncing)
     \<and> (\<forall>p. qe_b e = Some p \<longrightarrow> 0 < refs p)"

lemma qput_law:
  assumes "q_ok q" and "q_nheap q < q_heapsz q" and "acceptable syncing refs e"
  shows "\<exists>q'. qput syncing refs g e q = QDone q' \<and> q_ok q' \<and> q_items q' = add_mset (e\<lparr>qe_qgen := g\<rparr>) (q_items q)
     \<and> q_heapsz q - q_nheap q = Suc (q_heapsz q' - q_nheap q')"
proof -
  let ?n = "q_nheap q" and ?h = "q_heap q" and ?e = "e\<lparr>qe_qgen := g\<rparr>"
  have h: "heap_on ?n ?h" "?n < length ?h" "length ?h = q_heapsz q" using assms(1,2) by (auto simp: q_ok_def)
  have "hole (Suc ?n) ?h ?n (qkey ?e)" using h(1) unfolding hole_def heap_on_def by auto
  then have "heap_on (Suc ?n) (sift_up ?h ?e ?n)" using sift_up_heap [of "Suc ?n"] h(2) by simp
  moreover have "mset (take (Suc ?n) (sift_up ?h ?e ?n)) = add_mset ?e (mset (take ?n ?h)) \<and> length (sift_up ?h ?e ?n) = length ?h"
  proof -
    have "take (Suc ?n) (?h[?n := ?e]) = take ?n ?h @ [?e]" using h(2) by (simp add: take_Suc_conv_app_nth)
    then show ?thesis using sift_up_mset [of ?n "Suc ?n" ?h ?e] h(2) by simp
  qed
  moreover have "qput syncing refs g e q = QDone (q\<lparr>q_heap := sift_up ?h ?e ?n, q_nheap := ?n + 1\<rparr>)"
    using assms(2,3) by (auto simp: qput_def acceptable_def split: option.splits)
  ultimately show ?thesis using assms(2) h(3) by (auto simp: q_ok_def q_items_def)
qed

lemma qpop_law:
  assumes "q_ok q" and "q_items q \<noteq> {#}"
  shows "\<exists>e q'. qpop q = QDone (e, q') \<and> q_ok q' \<and> q_items q = add_mset e (q_items q') \<and> (\<forall>x \<in># q_items q. qkey e \<le> qkey x)
     \<and> q_heapsz q' - q_nheap q' = Suc (q_heapsz q - q_nheap q)"
proof -
  let ?h = "q_heap q"
  obtain n where n: "q_nheap q = Suc n" using assms(2) by (cases "q_nheap q") (auto simp: q_items_def)
  have h: "heap_on (Suc n) ?h" "Suc n \<le> length ?h" "length ?h = q_heapsz q" using assms(1) n by (auto simp: q_ok_def)
  have least: "\<forall>x \<in># q_items q. qkey (?h ! 0) \<le> qkey x"
    using heap_root [OF h(1)] h(2) n by (auto simp: q_items_def in_set_conv_nth)
  let ?h1 = "?h[0 := ?h ! n]"
  have "sinking n ?h1 0" using h(1,2) unfolding sinking_def heap_on_def by (auto simp: nth_list_update)
  then have d: "heap_on n (sift_down ?h1 n 0)" using sift_down_heap h(2) by simp
  have all: "mset (take (Suc n) ?h) = add_mset (?h ! 0) (mset (take n ?h1))"
  proof (cases n)
    case (Suc k)
    have "take (Suc n) ?h = ?h ! 0 # tl (take n ?h) @ [?h ! n]"
      using h(2) Suc by (cases ?h) (simp_all add: take_Suc_conv_app_nth)
    moreover have "take n ?h1 = ?h ! n # tl (take n ?h)" using h(2) Suc by (cases ?h) simp_all
    ultimately show ?thesis by simp
  qed (use h(2) in \<open>cases ?h; simp\<close>)
  show ?thesis
  proof (cases "n = 0")
    case True
    then show ?thesis using n h all least by (auto simp: qpop_def q_ok_def q_items_def heap_on_def)
  next
    case False
    then have "mset (take n (sift_down ?h1 n 0)) = mset (take n ?h1) \<and> length (sift_down ?h1 n 0) = length ?h"
      using sift_down_mset [of 0 n ?h1] h(2) by simp
    then show ?thesis using False n h d all least by (auto simp: qpop_def q_ok_def q_items_def Let_def)
  qed
qed

interpretation wq: ordered_queue "\<lambda>e. qput syncing refs (qe_qgen e) e" qpop q_items "\<lambda>q. q_heapsz q - q_nheap q" q_ok
  "acceptable syncing refs" qkey
proof unfold_locales
  show "\<exists>q'. qput syncing refs (qe_qgen e) e q = QDone q' \<and> q_ok q' \<and> q_items q' = add_mset e (q_items q)
      \<and> q_heapsz q - q_nheap q = Suc (q_heapsz q' - q_nheap q')"
    if "q_ok q" "0 < q_heapsz q - q_nheap q" "acceptable syncing refs e" for q e
    using qput_law [OF that(1) _ that(3), of "qe_qgen e"] that(2) by simp
  show "\<exists>e q'. qpop q = QDone (e, q') \<and> q_ok q' \<and> q_items q = add_mset e (q_items q') \<and> (\<forall>x \<in># q_items q. qkey e \<le> qkey x)
      \<and> q_heapsz q' - q_nheap q' = Suc (q_heapsz q - q_nheap q)"
    if "q_ok q" "q_items q \<noteq> {#}" for q
    by (rule qpop_law [OF that])
qed

section \<open>The write queue\<close>

lemma q_ok_init: "q_ok (qinit cmax)" "q_items (qinit cmax) = {#}" "q_heapsz (qinit cmax) - q_nheap (qinit cmax) = cmax"
  by (simp_all add: q_ok_def q_items_def qinit_def heap_on_def)

text \<open>
  C31: the write queue gives out its entries in order: whatever acceptable entries are put into an
  empty queue that has room for them, taking as many out succeeds, gives each entry exactly once, and
  in ascending order of generation, then operation (fences before writes before frees), then address,
  and leaves the queue empty.
\<close>

theorem queue_drains_in_order:
  assumes "length es \<le> cmax" and "\<forall>e \<in> set es. acceptable syncing refs e"
  shows "\<exists>q out q'. puts (\<lambda>e. qput syncing refs (qe_qgen e) e) es (qinit cmax) = QDone q \<and> pops qpop (length es) q = QDone (out, q')
     \<and> mset out = mset es \<and> sorted (map qkey out) \<and> qpop q' = QWait"
proof -
  obtain q where q: "puts (\<lambda>e. qput syncing refs (qe_qgen e) e) es (qinit cmax) = QDone q" "q_ok q" "q_items q = mset es"
    using wq.puts_all [of "qinit cmax" es syncing refs] q_ok_init assms by auto
  then obtain out q' where o: "pops qpop (length es) q = QDone (out, q')" "q_ok q'" "q_items q' = {#}" "mset out = q_items q" "sorted (map qkey out)"
    using wq.pops_all [of q "length es"] by auto
  have "q_nheap q' = 0" using o(2,3) by (auto simp: q_items_def q_ok_def)
  then show ?thesis using q o by (simp add: qpop_def)
qed

text \<open>A free and a write of generation 7 and a fence of generation 8, put in a queue of four.\<close>

definition sample_qent :: "u64 \<Rightarrow> int \<Rightarrow> u64 \<Rightarrow> qent" where
  "sample_qent g op a = zero_qent\<lparr>qe_qgen := g, qe_op := op, qe_bp := \<lparr>bp_addr = a, bp_hash = 0, bp_gen = 0\<rparr>\<rparr>"

theorem queue_drains_in_order_witness:
  "\<exists>q out q'. puts (\<lambda>e. qput 1 (\<lambda>_. 0) (qe_qgen e) e) [sample_qent 8 Qfence 0, sample_qent 7 Qfree 16384, sample_qent 7 Qwrite 32768] (qinit 4) = QDone q
     \<and> pops qpop 3 q = QDone (out, q') \<and> map qkey out = [(7, 2, 32768), (7, 3, 16384), (8, 1, 0)]"
proof -
  let ?es = "[sample_qent 8 Qfence 0, sample_qent 7 Qfree 16384, sample_qent 7 Qwrite 32768]"
  have "length ?es \<le> 4" "\<forall>e \<in> set ?es. acceptable 1 (\<lambda>_. 0) e"
    by (simp_all add: acceptable_def sample_qent_def zero_qent_def)
  from queue_drains_in_order [OF this]
  obtain q out q' where o: "puts (\<lambda>e. qput 1 (\<lambda>_. 0) (qe_qgen e) e) ?es (qinit 4) = QDone q" "pops qpop 3 q = QDone (out, q')"
    "mset out = mset ?es" "sorted (map qkey out)" by (auto simp: eval_nat_numeral)
  have "sort (map qkey ?es) = map qkey out"
    by (rule properties_for_sort) (use o(3,4) in simp_all)
  moreover have "sort (map qkey ?es) = [(7, 2, 32768), (7, 3, 16384), (8, 1, 0)]"
    by (simp add: qkey_def sample_qent_def zero_qent_def)
  ultimately show ?thesis using o by metis
qed

end
