(* ===== verification/Ranges.thy ===== *)
theory Ranges
  imports Context
begin

text \<open>
  The free space of an arena in the upstream server (\<^verbatim>\<open>freerange\<close>, \<^verbatim>\<open>grabrange\<close>, \<^verbatim>\<open>blkalloc_lk\<close> of
  \<^verbatim>\<open>src/src/blk.c\<close>). The \<^verbatim>\<open>Avltree\<close> of the system library, ordered by \<^verbatim>\<open>rangecmp\<close>, is the list of its
  ranges in that order; \<^verbatim>\<open>avlprev\<close> and \<^verbatim>\<open>avlnext\<close> are the neighbours in the list. Offsets and lengths
  are \<^verbatim>\<open>vlong\<close>s that stay below the size of the device.
\<close>

section \<open>Operations\<close>

text \<open>The merging loop: \<open>ls\<close> are the ranges before \<open>r\<close>, nearest first, \<open>rs\<close> those behind it.\<close>

function coalesce :: "range list \<Rightarrow> range \<Rightarrow> range list \<Rightarrow> range list" where
  "coalesce ls r rs =
     (if ls \<noteq> [] \<and> fst (hd ls) + snd (hd ls) = fst r then coalesce (tl ls) (fst (hd ls), snd (hd ls) + snd r) rs
      else if rs \<noteq> [] \<and> fst r + snd r = fst (hd rs) then coalesce ls (fst r, snd (hd rs) + snd r) (tl rs)
      else rev ls @ r # rs)"
  by pat_completeness auto
termination
  by (relation "measure (\<lambda>(ls, r, rs). length ls + length rs)") (auto simp: neq_Nil_conv)

declare coalesce.simps [simp del]

definition freerange :: "range list \<Rightarrow> int \<Rightarrow> int \<Rightarrow> range list option" where
  "freerange t off len =
     (if len mod BLKSZ \<noteq> 0 \<or> off \<in> fst ` set t then None
      else Some (coalesce (rev (takeWhile (\<lambda>s. fst s < off) t)) (off, len) (dropWhile (\<lambda>s. fst s < off) t)))"

text \<open>The range found by \<^verbatim>\<open>avllookup(t, &q, -1)\<close> splits the list: it is the last one that starts at or before \<open>off\<close>.\<close>

definition grabrange :: "range list \<Rightarrow> int \<Rightarrow> int \<Rightarrow> range list option" where
  "grabrange t off len =
     (if len mod BLKSZ \<noteq> 0 then None
      else (let ls = takeWhile (\<lambda>s. fst s \<le> off) t; rs = dropWhile (\<lambda>s. fst s \<le> off) t in
        if ls = [] then None
        else (let (ro, rl) = last ls; ls = butlast ls in
          if off + len > ro + rl then None
          else if off = ro then
            Some (ls @ (if rl - len = 0 then [] else [(ro + len, rl - len)]) @ rs)
          else if off + len = ro + rl then
            Some (ls @ (if rl - len = 0 then [] else [(ro, rl - len)]) @ rs)
          else if off > ro \<and> off + len < ro + rl then
            Some (ls @ (if off - ro = 0 then [] else [(ro, off - ro)]) @ [(off + len, rl - (off - ro) - len)] @ rs)
          else None)))"

section \<open>Free space as a set of addresses\<close>

definition cells :: "range list \<Rightarrow> int set" where
  "cells t = (\<Union>r \<in> set t. {fst r..<fst r + snd r})"

text \<open>Ranges in order, none empty and none touching the next: every free space has one such list.\<close>

definition tidy :: "range list \<Rightarrow> bool" where
  "tidy t \<longleftrightarrow> sorted_wrt (\<lambda>r s. fst r + snd r < fst s) t \<and> (\<forall>r \<in> set t. 0 < snd r)"

lemma cells_simps [simp]: "cells [] = {}" "cells (r # t) = {fst r..<fst r + snd r} \<union> cells t" "cells (s @ t) = cells s \<union> cells t"
  "cells (rev t) = cells t"
  by (auto simp: cells_def)

lemma tidy_Nil [simp]: "tidy []"
  by (simp add: tidy_def)

lemma tidy_Cons: "tidy (r # t) \<longleftrightarrow> 0 < snd r \<and> (\<forall>s \<in> set t. fst r + snd r < fst s) \<and> tidy t"
  by (auto simp: tidy_def)

lemma tidy_append: "tidy (s @ t) \<longleftrightarrow> tidy s \<and> tidy t \<and> (\<forall>x \<in> set s. \<forall>y \<in> set t. fst x + snd x < fst y)"
  by (auto simp: tidy_def sorted_wrt_append)

lemma tidy_above: "tidy t \<Longrightarrow> \<forall>s \<in> set t. x < fst s \<Longrightarrow> a \<in> cells t \<Longrightarrow> x < a"
  by (auto simp: cells_def)

lemma tidy_hd: "tidy (r # t) \<Longrightarrow> a \<in> cells (r # t) \<Longrightarrow> fst r \<le> a"
  using tidy_above [of t "fst r" a] by (fastforce simp: tidy_Cons)

lemma tidy_disj: "tidy (r # t) \<Longrightarrow> {fst r..<fst r + snd r} \<inter> cells t = {}"
  using tidy_above [of t "fst r + snd r"] by (fastforce simp: tidy_Cons)

text \<open>The list is determined by the set.\<close>

lemma tidy_unique: "tidy s \<Longrightarrow> tidy t \<Longrightarrow> cells s = cells t \<Longrightarrow> s = t"
proof (induction s arbitrary: t)
  case Nil
  then show ?case by (cases t) (auto simp: tidy_Cons)
next
  case (Cons r s)
  have ne: "fst r \<in> cells t" using Cons.prems by (auto simp: tidy_Cons)
  then obtain q t' where t: "t = q # t'" by (cases t) auto
  have "fst q \<in> cells (r # s)" using Cons.prems(2,3) t by (auto simp: tidy_Cons)
  then have f: "fst r = fst q"
    using tidy_hd [OF Cons.prems(1)] tidy_hd [of q t' "fst r"] Cons.prems(2) ne t by force
  have gap: "fst r + snd r \<notin> cells (r # s)" if "tidy (r # s)" for r s
    using tidy_above [of s "fst r + snd r" "fst r + snd r"] that by (auto simp: tidy_Cons)
  have l: "snd r = snd q"
  proof (rule ccontr)
    assume "snd r \<noteq> snd q"
    then consider "snd r < snd q" | "snd q < snd r" by linarith
    then show False
    proof cases
      case 1
      then have "fst r + snd r \<in> cells t" using f t Cons.prems(1) by (auto simp: tidy_Cons)
      then show False using gap [OF Cons.prems(1)] unfolding Cons.prems(3) by simp
    next
      case 2
      then have "fst q + snd q \<in> cells (r # s)" using f t Cons.prems(2) by (auto simp: tidy_Cons)
      then show False using gap [of q t'] Cons.prems(2) t unfolding Cons.prems(3) by blast
    qed
  qed
  have "r = q" using f l by (simp add: prod_eq_iff)
  moreover have "cells s = cells t'"
  proof -
    have "{fst r..<fst r + snd r} \<inter> cells s = {}" "{fst r..<fst r + snd r} \<inter> cells t' = {}"
      using tidy_disj [OF Cons.prems(1)] tidy_disj [of q t'] Cons.prems(2) t \<open>r = q\<close> by blast+
    moreover have "{fst r..<fst r + snd r} \<union> cells s = {fst r..<fst r + snd r} \<union> cells t'" using Cons.prems(3) t \<open>r = q\<close> by simp
    ultimately show ?thesis by blast
  qed
  ultimately have "s = t'" using Cons.IH [of t'] Cons.prems(1,2) t by (simp add: tidy_Cons)
  then show ?case using t \<open>r = q\<close> by simp
qed

section \<open>Freeing and grabbing\<close>

lemma coalesce_tidy:
  "tidy (rev ls) \<Longrightarrow> tidy rs \<Longrightarrow> 0 < snd r \<Longrightarrow> \<forall>x \<in> set ls. fst x + snd x \<le> fst r \<Longrightarrow> \<forall>y \<in> set rs. fst r + snd r \<le> fst y \<Longrightarrow>
     tidy (coalesce ls r rs) \<and> cells (coalesce ls r rs) = cells ls \<union> cells rs \<union> {fst r..<fst r + snd r}"
proof (induction ls r rs rule: coalesce.induct)
  case (1 ls r rs)
  consider (prev) x ls' where "ls = x # ls'" "fst x + snd x = fst r"
    | (nxt) y rs' where "\<not> (ls \<noteq> [] \<and> fst (hd ls) + snd (hd ls) = fst r)" "rs = y # rs'" "fst r + snd r = fst y"
    | (stop) "\<not> (ls \<noteq> [] \<and> fst (hd ls) + snd (hd ls) = fst r)" "\<not> (rs \<noteq> [] \<and> fst r + snd r = fst (hd rs))"
    by (cases ls; cases rs) auto
  then show ?case
  proof cases
    case prev
    have "tidy (coalesce ls' (fst x, snd x + snd r) rs)
        \<and> cells (coalesce ls' (fst x, snd x + snd r) rs) = cells ls' \<union> cells rs \<union> {fst x..<fst x + (snd x + snd r)}"
      using "1.IH"(1) prev "1.prems" by (fastforce simp: tidy_append tidy_Cons)
    moreover have "coalesce ls r rs = coalesce ls' (fst x, snd x + snd r) rs" unfolding coalesce.simps [of ls r rs] using prev by auto
    moreover have "{fst x..<fst x + (snd x + snd r)} = {fst x..<fst x + snd x} \<union> {fst r..<fst r + snd r}"
      using prev "1.prems"(1,3) by (auto simp: tidy_append tidy_Cons)
    ultimately show ?thesis using prev by auto
  next
    case nxt
    have "tidy (coalesce ls (fst r, snd y + snd r) rs')
        \<and> cells (coalesce ls (fst r, snd y + snd r) rs') = cells ls \<union> cells rs' \<union> {fst r..<fst r + (snd y + snd r)}"
      using "1.IH"(2) nxt "1.prems" by (fastforce simp: tidy_Cons)
    moreover have "coalesce ls r rs = coalesce ls (fst r, snd y + snd r) rs'"
      unfolding coalesce.simps [of ls r rs] using nxt by auto
    moreover have "{fst r..<fst r + (snd y + snd r)} = {fst y..<fst y + snd y} \<union> {fst r..<fst r + snd r}"
      using nxt "1.prems"(2,3) by (auto simp: tidy_Cons)
    ultimately show ?thesis using nxt by auto
  next
    case stop
    have e: "coalesce ls r rs = rev ls @ r # rs" unfolding coalesce.simps [of ls r rs] using stop by auto
    have "\<forall>x \<in> set ls. fst x + snd x < fst r"
    proof (cases ls)
      case (Cons x ls')
      then show ?thesis using stop(1) "1.prems"(1,4) by (fastforce simp: tidy_append tidy_Cons)
    qed simp
    moreover have "\<forall>y \<in> set rs. fst r + snd r < fst y"
    proof (cases rs)
      case (Cons y rs')
      then show ?thesis using stop(2) "1.prems"(2,5) by (fastforce simp: tidy_Cons)
    qed simp
    moreover from calculation have "\<forall>x \<in> set ls. \<forall>y \<in> set rs. fst x + snd x < fst y"
      using "1.prems"(3) by (meson less_trans zless_add1_eq add_strict_increasing less_le_trans order_refl add_less_cancel_left less_add_same_cancel1)
    ultimately show ?thesis using "1.prems" by (auto simp: e tidy_append tidy_Cons)
  qed
qed

lemma tidy_split: "tidy t \<Longrightarrow> tidy (takeWhile P t) \<and> tidy (dropWhile P t) \<and> cells t = cells (takeWhile P t) \<union> cells (dropWhile P t)"
  by (metis takeWhile_dropWhile_id tidy_append cells_simps(3))

lemma tidy_dropWhile: "tidy t \<Longrightarrow> s \<in> set (dropWhile (\<lambda>s. fst s < off) t) \<Longrightarrow> off \<le> fst s"
proof (induction t)
  case (Cons r t)
  then show ?case by (fastforce simp: tidy_Cons split: if_splits)
qed simp

lemma freerange_ok:
  assumes t: "tidy t" and l: "0 < len" "len mod BLKSZ = 0" and new: "{off..<off + len} \<inter> cells t = {}"
  shows "\<exists>t'. freerange t off len = Some t' \<and> tidy t' \<and> cells t' = cells t \<union> {off..<off + len}"
proof -
  let ?ls = "takeWhile (\<lambda>s. fst s < off) t" and ?rs = "dropWhile (\<lambda>s. fst s < off) t"
  have apart: "fst s + snd s \<le> off \<or> off + len \<le> fst s" if "s \<in> set t" for s
  proof (rule ccontr)
    assume "\<not> (fst s + snd s \<le> off \<or> off + len \<le> fst s)"
    moreover have "0 < snd s" using t that by (auto simp: tidy_def)
    ultimately have "max off (fst s) \<in> {off..<off + len} \<inter> {fst s..<fst s + snd s}" using l by auto
    moreover have "{fst s..<fst s + snd s} \<subseteq> cells t" using that by (auto simp: cells_def)
    ultimately show False using new by blast
  qed
  have "off \<notin> fst ` set t" using apart t l by (fastforce simp: tidy_def)
  moreover have "\<forall>x \<in> set (rev ?ls). fst x + snd x \<le> off"
    using apart l by (fastforce dest: set_takeWhileD)
  moreover have "\<forall>y \<in> set ?rs. off + len \<le> fst y"
  proof
    fix y
    assume y: "y \<in> set ?rs"
    then have "y \<in> set t" "off \<le> fst y" "0 < snd y" using tidy_dropWhile [OF t y] t by (auto dest: set_dropWhileD simp: tidy_def)
    then show "off + len \<le> fst y" using apart by fastforce
  qed
  ultimately show ?thesis
    using coalesce_tidy [of "rev ?ls" ?rs "(off, len)"] tidy_split [OF t, of "\<lambda>s. fst s < off"] l
    by (auto simp: freerange_def)
qed

text \<open>A range of a tidy list that lies in the free space lies in one of its ranges.\<close>

lemma tidy_inside:
  assumes t: "tidy t" and l: "0 < len" and sub: "{off..<off + len} \<subseteq> cells t"
  shows "\<exists>ls r rs. t = ls @ r # rs \<and> fst r \<le> off \<and> off + len \<le> fst r + snd r"
proof -
  have "off \<in> cells t" using sub l by auto
  then obtain r where r: "r \<in> set t" "fst r \<le> off" "off < fst r + snd r" by (auto simp: cells_def)
  obtain ls rs where s: "t = ls @ r # rs" using split_list [OF r(1)] by blast
  have "off + len \<le> fst r + snd r"
  proof (rule ccontr)
    assume "\<not> off + len \<le> fst r + snd r"
    then have "fst r + snd r \<in> cells t" using sub r by auto
    moreover have "fst r + snd r \<notin> cells ls" using t s r by (fastforce simp: tidy_append cells_def)
    moreover have "fst r + snd r \<notin> cells rs" using tidy_above [of rs "fst r + snd r"] t s by (fastforce simp: tidy_append tidy_Cons)
    ultimately show False using s by auto
  qed
  then show ?thesis using s r by blast
qed

lemma tidy_takeWhile:
  assumes "tidy (ls @ r # rs)" and "fst r \<le> off" and "off < fst r + snd r"
  shows "takeWhile (\<lambda>s. fst s \<le> off) (ls @ r # rs) = ls @ [r]" "dropWhile (\<lambda>s. fst s \<le> off) (ls @ r # rs) = rs"
proof -
  have "\<forall>x \<in> set ls. fst x \<le> off"
  proof
    fix x
    assume "x \<in> set ls"
    then have "fst x + snd x < fst r" "0 < snd x" using assms(1) by (auto simp: tidy_def sorted_wrt_append)
    then show "fst x \<le> off" using assms(2) by linarith
  qed
  moreover have "rs = [] \<or> \<not> fst (hd rs) \<le> off" using assms by (cases rs) (fastforce simp: tidy_append tidy_Cons)+
  ultimately show "takeWhile (\<lambda>s. fst s \<le> off) (ls @ r # rs) = ls @ [r]" "dropWhile (\<lambda>s. fst s \<le> off) (ls @ r # rs) = rs"
    using assms(2) by (cases rs; simp)+
qed

lemma grabrange_ok:
  assumes t: "tidy t" and l: "0 < len" "len mod BLKSZ = 0" and sub: "{off..<off + len} \<subseteq> cells t"
  shows "\<exists>t'. grabrange t off len = Some t' \<and> tidy t' \<and> cells t' = cells t - {off..<off + len}"
proof -
  obtain ls ro rl rs where s: "t = ls @ (ro, rl) # rs" "ro \<le> off" "off + len \<le> ro + rl"
    using tidy_inside [OF t l(1) sub] by force
  have w: "takeWhile (\<lambda>s. fst s \<le> off) t = ls @ [(ro, rl)]" "dropWhile (\<lambda>s. fst s \<le> off) t = rs"
    using tidy_takeWhile [of ls "(ro, rl)" rs off] t s l(1) by auto
  let ?mid = "(if off - ro = 0 then [] else [(ro, off - ro)]) @ (if ro + rl - (off + len) = 0 then [] else [(off + len, ro + rl - (off + len))])"
  have g: "grabrange t off len = Some (ls @ ?mid @ rs)"
    using s(2,3) l by (auto simp: grabrange_def w Let_def)
  have td: "tidy (ls @ ?mid @ rs)"
    using t s l(1) by (fastforce simp: tidy_append tidy_Cons)
  have mid: "cells ?mid = {ro..<ro + rl} - {off..<off + len}" using s(2,3) l(1) by auto
  have out: "cells ls \<inter> {off..<off + len} = {}" "cells rs \<inter> {off..<off + len} = {}"
  proof -
    show "cells ls \<inter> {off..<off + len} = {}" using t s by (fastforce simp: tidy_append cells_def)
    show "cells rs \<inter> {off..<off + len} = {}" using tidy_above [of rs "ro + rl"] t s by (fastforce simp: tidy_append tidy_Cons)
  qed
  have "cells (ls @ ?mid @ rs) = cells t - {off..<off + len}"
  proof -
    have "cells (ls @ ?mid @ rs) = cells ls \<union> cells ?mid \<union> cells rs" by (simp only: cells_simps(3) Un_assoc)
    then have "cells (ls @ ?mid @ rs) = cells ls \<union> ({ro..<ro + rl} - {off..<off + len}) \<union> cells rs" unfolding mid .
    then show ?thesis using out by (auto simp: s(1))
  qed
  then show ?thesis using g td by blast
qed

lemma grabrange_outside:
  assumes t: "tidy t" and l: "0 < len" and g: "grabrange t off len = Some t'"
  shows "{off..<off + len} \<subseteq> cells t"
proof -
  let ?ls = "takeWhile (\<lambda>s. fst s \<le> off) t"
  obtain ro rl where r: "?ls \<noteq> []" "last ?ls = (ro, rl)" "off + len \<le> ro + rl"
    using g by (auto simp: grabrange_def Let_def split: if_splits prod.splits)
  then have m: "(ro, rl) \<in> set ?ls" by (metis last_in_set)
  then have "(ro, rl) \<in> set t" "ro \<le> off" by (auto dest: set_takeWhileD)
  then show ?thesis using r(3) by (force simp: cells_def)
qed

section \<open>Blocks\<close>

text \<open>Free space that consists of whole blocks.\<close>

abbreviation blk_at :: "int \<Rightarrow> int set" where
  "blk_at b \<equiv> {b..<b + BLKSZ}"

definition blockwise :: "int set \<Rightarrow> bool" where
  "blockwise A \<longleftrightarrow> (\<forall>x \<in> A. blk_at (x - x mod BLKSZ) \<subseteq> A)"

lemma blk_at_iff: "b mod BLKSZ = 0 \<Longrightarrow> x \<in> blk_at b \<longleftrightarrow> x - x mod BLKSZ = b"
  using zmod_eq_0_iff [of b BLKSZ] by (auto simp: minus_mod_eq_mult_div)

lemma blockwise_Un: "b mod BLKSZ = 0 \<Longrightarrow> blockwise A \<Longrightarrow> blockwise (A \<union> blk_at b)"
  unfolding blockwise_def
proof
  fix x
  assume b: "b mod BLKSZ = 0" and A: "\<forall>x \<in> A. blk_at (x - x mod BLKSZ) \<subseteq> A" and x: "x \<in> A \<union> blk_at b"
  show "blk_at (x - x mod BLKSZ) \<subseteq> A \<union> blk_at b"
  proof (cases "x \<in> A")
    case False
    then have "x - x mod BLKSZ = b" using x blk_at_iff [OF b, of x] by simp
    then show ?thesis by (metis Un_upper2)
  qed (use A in \<open>meson le_supI1\<close>)
qed

lemma blockwise_Diff: "b mod BLKSZ = 0 \<Longrightarrow> blockwise A \<Longrightarrow> blockwise (A - blk_at b)"
  unfolding blockwise_def
proof
  fix x
  assume b: "b mod BLKSZ = 0" and A: "\<forall>x \<in> A. blk_at (x - x mod BLKSZ) \<subseteq> A" and x: "x \<in> A - blk_at b"
  have "y \<notin> blk_at b" if "y \<in> blk_at (x - x mod BLKSZ)" for y
  proof -
    have "(x - x mod BLKSZ) mod BLKSZ = 0" by (simp add: minus_mod_eq_mult_div)
    then have "y - y mod BLKSZ = x - x mod BLKSZ" using that blk_at_iff [of "x - x mod BLKSZ" y] by simp
    then show ?thesis using x blk_at_iff [OF b] by auto
  qed
  then show "blk_at (x - x mod BLKSZ) \<subseteq> A - blk_at b" using A x by blast
qed

lemma tidy_aligned:
  assumes t: "tidy t" and bw: "blockwise (cells t)" and r: "r \<in> set t"
  shows "fst r mod BLKSZ = 0" "snd r mod BLKSZ = 0"
proof -
  obtain ls rs where s: "t = ls @ r # rs" using split_list [OF r] by blast
  have pos: "0 < snd r" using t r by (auto simp: tidy_def)
  have lo: "fst r - 1 \<notin> cells t"
  proof
    assume "fst r - 1 \<in> cells t"
    then obtain x where x: "x \<in> set t" "fst x \<le> fst r - 1" "fst r - 1 < fst x + snd x" by (auto simp: cells_def)
    then have "x \<in> set ls \<or> x = r \<or> x \<in> set rs" using s by auto
    then show False using t s x pos by (auto simp: tidy_append tidy_Cons)
  qed
  have hi: "fst r + snd r \<notin> cells t"
  proof
    assume "fst r + snd r \<in> cells t"
    then obtain x where x: "x \<in> set t" "fst x \<le> fst r + snd r" "fst r + snd r < fst x + snd x" by (auto simp: cells_def)
    then have "x \<in> set ls \<or> x = r \<or> x \<in> set rs" using s by auto
    then show False using t s x pos by (auto simp: tidy_append tidy_Cons)
  qed
  have "{fst r..<fst r + snd r} \<subseteq> cells t" using r by (auto simp: cells_def)
  then have "fst r \<in> cells t" "fst r + snd r - 1 \<in> cells t" using pos by auto
  then have sub: "blk_at (fst r - fst r mod BLKSZ) \<subseteq> cells t" "blk_at (fst r + snd r - 1 - (fst r + snd r - 1) mod BLKSZ) \<subseteq> cells t"
    using bw unfolding blockwise_def by blast+
  show f: "fst r mod BLKSZ = 0"
  proof (rule ccontr)
    assume "fst r mod BLKSZ \<noteq> 0"
    then have "fst r - 1 \<in> blk_at (fst r - fst r mod BLKSZ)"
      using pos_mod_bound [of BLKSZ "fst r"] pos_mod_sign [of BLKSZ "fst r"] by auto
    then show False using sub(1) lo by blast
  qed
  have "(fst r + snd r) mod BLKSZ = 0"
  proof (rule ccontr)
    let ?e = "fst r + snd r"
    assume a: "?e mod BLKSZ \<noteq> 0"
    have "?e - 1 = ?e mod BLKSZ - 1 + BLKSZ * (?e div BLKSZ)" using mult_div_mod_eq [of BLKSZ ?e] by linarith
    then have "(?e - 1) mod BLKSZ = (?e mod BLKSZ - 1) mod BLKSZ" by (metis mod_mult_self2)
    also have "\<dots> = ?e mod BLKSZ - 1"
      using a pos_mod_bound [of BLKSZ ?e] pos_mod_sign [of BLKSZ ?e] by (intro mod_pos_pos_trivial) auto
    finally have "(?e - 1) mod BLKSZ = ?e mod BLKSZ - 1" .
    then have "?e \<in> blk_at (?e - 1 - (?e - 1) mod BLKSZ)"
      using pos_mod_bound [of BLKSZ ?e] pos_mod_sign [of BLKSZ ?e] a by auto
    then show False using sub(2) hi by blast
  qed
  then show "snd r mod BLKSZ = 0" using f unfolding mod_eq_0_iff_dvd using dvd_add_right_iff by blast
qed

end
