(* ===== verification/Alloclog.thy ===== *)
theory Alloclog
  imports Ranges
begin

text \<open>
  The allocation log of an arena in the upstream server (\<^verbatim>\<open>blkalloc_lk\<close>, \<^verbatim>\<open>mklogblk\<close>, \<^verbatim>\<open>logappend\<close>,
  \<^verbatim>\<open>loadlog\<close>, \<^verbatim>\<open>flushlog\<close>, \<^verbatim>\<open>logbarrier\<close>, \<^verbatim>\<open>blkdealloc_lk\<close> of \<^verbatim>\<open>src/src/blk.c\<close>), and what a crash leaves of
  it. A log block is its data area, the number of bytes used and the pointer to the next one. The
  disk maps addresses to the log blocks that \<^verbatim>\<open>syncblk\<close> wrote there: \<^verbatim>\<open>readblk\<close> gets the fields back that
  \<^verbatim>\<open>finalize\<close> put in the header. An arena owns two log buffers, the tail of the log and a spare one;
  the operations run with the arena's lock held.
\<close>

section \<open>Arenas\<close>

record logblk =
  lb_addr :: u64
  lb_data :: mem
  lb_logsz :: int
  lb_logp :: u64

record uarena =
  ua_free :: "range list"
  ua_size :: int
  ua_used :: int
  ua_reserve :: int
  ua_start :: int
  ua_loghd :: u64
  ua_logtl :: "logblk option"
  ua_spare :: mem
  ua_nlog :: int

type_synonym ldisk = "u64 \<Rightarrow> logblk option"

datatype gerr = Efull

definition LOGSPC :: int where [simp]: "LOGSPC = BLKSZ - 36"
definition LOGSLOP :: int where [simp]: "LOGSLOP = 40"

definition LogAlloc1 :: u64 where [simp]: "LogAlloc1 = 1"
definition LogFree1 :: u64 where [simp]: "LogFree1 = 2"
definition LogSync :: u64 where [simp]: "LogSync = 3"
definition LogAlloc :: u64 where [simp]: "LogAlloc = 4"
definition LogFree :: u64 where [simp]: "LogFree = 5"

section \<open>Allocating\<close>

text \<open>
  \<^verbatim>\<open>blkalloc_lk\<close>: a block from the first (\<open>seq\<close>) or from the last range, or -1 when only the reserve is
  left. No free range at all takes the server down (\<^verbatim>\<open>broke\<close>).
\<close>

definition blkalloc_lk :: "bool \<Rightarrow> uarena \<Rightarrow> bool \<Rightarrow> (uarena \<times> int) option" where
  "blkalloc_lk usereserve a seq =
     (if \<not> usereserve \<and> ua_size a - ua_used a \<le> ua_reserve a then Some (a, - 1)
      else if ua_free a = [] then None
      else if seq then
        (let (off, len) = hd (ua_free a); rs = tl (ua_free a)
         in Some (a\<lparr>ua_free := (if len - BLKSZ = 0 then rs else (off + BLKSZ, len - BLKSZ) # rs), ua_used := ua_used a + BLKSZ\<rparr>, off))
      else
        (let (off, len) = last (ua_free a); ls = butlast (ua_free a)
         in Some (a\<lparr>ua_free := (if len - BLKSZ = 0 then ls else ls @ [(off, len - BLKSZ)]), ua_used := ua_used a + BLKSZ\<rparr>,
              off + (len - BLKSZ))))"

section \<open>Writing the log\<close>

definition mklogblk :: "uarena \<Rightarrow> int \<Rightarrow> logblk" where
  "mklogblk a o' = \<lparr>lb_addr = word_of_int o', lb_data = ua_spare a, lb_logsz = 0, lb_logp = - 1\<rparr>"

definition put64 :: "logblk \<Rightarrow> u64 \<Rightarrow> logblk" where
  "put64 lb v = lb\<lparr>lb_data := wr (lb_data lb) (lb_logsz lb) (pack64 v), lb_logsz := lb_logsz lb + 8\<rparr>"

text \<open>The entry itself: one word, or two for a range of several blocks.\<close>

definition put_entry :: "logblk \<Rightarrow> int \<Rightarrow> int \<Rightarrow> u64 \<Rightarrow> logblk" where
  "put_entry lb off len op =
     (let op = (if len = BLKSZ then if op = LogAlloc then LogAlloc1 else if op = LogFree then LogFree1 else op else op);
          lb = put64 lb (word_of_int off OR op)
      in if LogAlloc \<le> op then put64 lb (word_of_int len) else lb)"

text \<open>
  \<^verbatim>\<open>logappend\<close> writes two blocks when it begins a new one, the new block and then the full one with the pointer to
  it. The model makes this one step: a crash between the two writes is not a state of its own.
\<close>

definition logappend :: "bool \<Rightarrow> uarena \<Rightarrow> ldisk \<Rightarrow> int \<Rightarrow> int \<Rightarrow> u64 \<Rightarrow> (gerr + uarena \<times> ldisk) option" where
  "logappend usereserve a d off len op =
     (case ua_logtl a of
        None \<Rightarrow> None
      | Some lb \<Rightarrow>
          if (word_of_int off :: u64) AND 0xff \<noteq> 0 \<or> op \<notin> {LogAlloc, LogFree, LogSync} then None
          else if op \<noteq> LogSync \<and> \<not> (ua_start a \<le> off \<and> off < ua_start a + ua_size a + 2 * BLKSZ) then None
          else if lb_logsz lb < 0 then None
          else if LOGSPC - LOGSLOP \<le> lb_logsz lb then do {
            (a, o') \<leftarrow> blkalloc_lk usereserve a False;
            if o' = - 1 then Some (Inl Efull)
            else (let old = (put64 lb (word_of_int o' OR LogAlloc1))\<lparr>lb_logp := word_of_int o'\<rparr>;
                      new = put_entry (mklogblk a o') off len op
                  in Some (Inr (a\<lparr>ua_logtl := Some new, ua_spare := lb_data old, ua_nlog := ua_nlog a + 1\<rparr>,
                       d(lb_addr new \<mapsto> new, lb_addr old \<mapsto> old))))
          }
          else Some (Inr (a\<lparr>ua_logtl := Some (put_entry lb off len op)\<rparr>, d)))"

definition logbarrier :: "bool \<Rightarrow> uarena \<Rightarrow> ldisk \<Rightarrow> int \<Rightarrow> (gerr + uarena \<times> ldisk) option" where
  "logbarrier usereserve a d gen = logappend usereserve a d (gen * 256) 0 LogSync"

definition flushlog :: "uarena \<Rightarrow> ldisk \<Rightarrow> ldisk option" where
  "flushlog a d = map_option (\<lambda>lb. d(lb_addr lb \<mapsto> lb)) (ua_logtl a)"

text \<open>
  Freeing a block (without the cache), and the locked part of \<^verbatim>\<open>blkalloc\<close> on one arena. When \<^verbatim>\<open>logappend\<close> fails,
  \<^verbatim>\<open>blkalloc\<close> leaves the arena as it is by then: the error carries it.
\<close>

definition blkdealloc_lk :: "bool \<Rightarrow> uarena \<Rightarrow> ldisk \<Rightarrow> int \<Rightarrow> (gerr + uarena \<times> ldisk) option" where
  "blkdealloc_lk usereserve a d b = do {
     r \<leftarrow> logappend usereserve a d b BLKSZ LogFree;
     case r of
       Inl e \<Rightarrow> Some (Inl e)
     | Inr (a, d) \<Rightarrow> do {
         fr \<leftarrow> freerange (ua_free a) b BLKSZ;
         Some (Inr (a\<lparr>ua_free := fr, ua_used := ua_used a - BLKSZ\<rparr>, d))
       }
   }"

definition blkalloc_arena :: "bool \<Rightarrow> uarena \<Rightarrow> ldisk \<Rightarrow> bool \<Rightarrow> (gerr \<times> uarena + uarena \<times> ldisk \<times> int) option" where
  "blkalloc_arena usereserve a d seq = do {
     (a, b) \<leftarrow> blkalloc_lk usereserve a seq;
     if b = - 1 then Some (Inr (a, d, - 1))
     else do {
       r \<leftarrow> logappend usereserve a d b BLKSZ LogAlloc;
       Some (case r of Inl e \<Rightarrow> Inl (e, a) | Inr (a, d) \<Rightarrow> Inr (a, d, b))
     }
   }"

text \<open>After the error the block is neither in the free list nor in the log.\<close>

lemma alloc_error_loses:
  assumes "blkalloc_arena ur a d seq = Some (Inl (e, a'))"
  shows "\<exists>b. b \<noteq> - 1 \<and> blkalloc_lk ur a seq = Some (a', b) \<and> ua_logtl a' = ua_logtl a \<and> ua_used a' = ua_used a + BLKSZ"
proof -
  obtain b where "blkalloc_lk ur a seq = Some (a', b)" "b \<noteq> - 1"
    using assms by (auto simp: blkalloc_arena_def split: bind_splits if_splits sum.splits)
  then show ?thesis by (auto simp: blkalloc_lk_def Let_def split_beta split: if_splits)
qed

section \<open>Reading the log\<close>

text \<open>
  The loop over the entries of one block. \<open>Some i\<close> is the position of a barrier of the generation
  \<open>qgen\<close> that was last synchronised, or of a later one.
\<close>

function load_ents :: "int \<Rightarrow> uarena \<Rightarrow> logblk \<Rightarrow> int \<Rightarrow> (uarena \<times> int option) option" where
  "load_ents qgen a b i =
     (if \<not> i < lb_logsz b then Some (a, None)
      else if i < 0 \<or> LOGSPC < i + 8 then None
      else (let ent = unpack64 (rd (lb_data b) i 8); op = ent AND 0xff; off = sint (ent AND NOT 0xff);
                n = (if LogAlloc \<le> op then 16 else 8);
                len = (if LogAlloc \<le> op then sint (unpack64 (rd (lb_data b) (i + 8) 8)) else BLKSZ)
            in if LOGSPC < i + n then None
               else if op = LogSync then
                 if qgen \<le> sint ent div 256 then Some (a, Some i) else load_ents qgen a b (i + n)
               else if op = LogAlloc \<or> op = LogAlloc1 then
                 (case grabrange (ua_free a) off len of
                    None \<Rightarrow> None
                  | Some fr \<Rightarrow> load_ents qgen (a\<lparr>ua_free := fr, ua_used := ua_used a + len\<rparr>) b (i + n))
               else if op = LogFree \<or> op = LogFree1 then
                 (case freerange (ua_free a) off len of
                    None \<Rightarrow> None
                  | Some fr \<Rightarrow> load_ents qgen (a\<lparr>ua_free := fr, ua_used := ua_used a - len\<rparr>) b (i + n))
               else None))"
  by pat_completeness auto
termination
  by (relation "measure (\<lambda>(qgen, a, b, i). nat (lb_logsz b - i))") (auto simp: Let_def split: if_splits)

declare load_ents.simps [simp del]

partial_function (option) loadlog :: "int \<Rightarrow> ldisk \<Rightarrow> uarena \<Rightarrow> u64 \<Rightarrow> uarena option" where
  "loadlog qgen d a bp =
     Option.bind (d bp) (\<lambda>b.
       Option.bind (load_ents qgen (a\<lparr>ua_nlog := ua_nlog a + 1\<rparr>) b 0) (\<lambda>(a, stop).
         case stop of
           Some i \<Rightarrow> Some (if ua_logtl a = None then a\<lparr>ua_logtl := Some (b\<lparr>lb_logsz := i\<rparr>)\<rparr> else a)
         | None \<Rightarrow>
             if lb_logp b = - 1 then Some (a\<lparr>ua_logtl := Some b\<rparr>)
             else loadlog qgen d a (lb_logp b)))"

text \<open>An arena as \<^verbatim>\<open>loadarena\<close> leaves it before the log is read.\<close>

definition fresh_arena :: "uarena \<Rightarrow> uarena" where
  "fresh_arena a = a\<lparr>ua_free := [], ua_used := ua_size a, ua_logtl := None, ua_nlog := 0\<rparr>"

section \<open>Logged operations\<close>

text \<open>\<open>LTake\<close> is an allocation that \<^verbatim>\<open>initarena\<close> writes as two words whatever its length.\<close>

datatype lop = LAlloc int int | LTake int int | LFree int int | LSync int

fun enc :: "lop \<Rightarrow> byte list" where
  "enc (LAlloc off len) = (if len = BLKSZ then pack64 (word_of_int off OR LogAlloc1) else pack64 (word_of_int off OR LogAlloc) @ pack64 (word_of_int len))"
| "enc (LTake off len) = pack64 (word_of_int off OR LogAlloc) @ pack64 (word_of_int len)"
| "enc (LFree off len) = (if len = BLKSZ then pack64 (word_of_int off OR LogFree1) else pack64 (word_of_int off OR LogFree) @ pack64 (word_of_int len))"
| "enc (LSync gen) = pack64 (word_of_int (gen * 256) OR LogSync)"

fun lop_ok :: "lop \<Rightarrow> bool" where
  "lop_ok (LAlloc off len) \<longleftrightarrow> 0 \<le> off \<and> off < 2 ^ 62 \<and> off mod 256 = 0 \<and> 0 < len \<and> len < 2 ^ 62"
| "lop_ok (LTake off len) \<longleftrightarrow> 0 \<le> off \<and> off < 2 ^ 62 \<and> off mod 256 = 0 \<and> 0 < len \<and> len < 2 ^ 62"
| "lop_ok (LFree off len) \<longleftrightarrow> 0 \<le> off \<and> off < 2 ^ 62 \<and> off mod 256 = 0 \<and> 0 < len \<and> len < 2 ^ 62"
| "lop_ok (LSync gen) \<longleftrightarrow> 0 \<le> gen \<and> gen < 2 ^ 54"

text \<open>The effect of a list of operations on the free space, and on the number of bytes in use.\<close>

fun play :: "lop list \<Rightarrow> range list \<Rightarrow> range list option" where
  "play [] fr = Some fr"
| "play (LAlloc off len # ops) fr = Option.bind (grabrange fr off len) (play ops)"
| "play (LTake off len # ops) fr = Option.bind (grabrange fr off len) (play ops)"
| "play (LFree off len # ops) fr = Option.bind (freerange fr off len) (play ops)"
| "play (LSync gen # ops) fr = play ops fr"

fun net :: "lop \<Rightarrow> int" where
  "net (LAlloc off len) = len"
| "net (LTake off len) = len"
| "net (LFree off len) = - len"
| "net (LSync gen) = 0"

abbreviation nets :: "lop list \<Rightarrow> int" where
  "nets ops \<equiv> (\<Sum>op \<leftarrow> ops. net op)"

fun stops :: "int \<Rightarrow> lop \<Rightarrow> bool" where
  "stops qgen (LSync gen) \<longleftrightarrow> qgen \<le> gen"
| "stops qgen _ \<longleftrightarrow> False"

lemma play_append: "play (xs @ ys) fr = Option.bind (play xs fr) (play ys)"
  by (induction xs fr rule: play.induct) (auto split: bind_splits)

abbreviation encs :: "lop list \<Rightarrow> byte list" where
  "encs ops \<equiv> concat (map enc ops)"

section \<open>Words of the log\<close>

lemma low_bits: "0 \<le> x \<Longrightarrow> x < 2 ^ 63 \<Longrightarrow> x mod 256 = 0 \<Longrightarrow> (word_of_int x :: u64) AND 0xff = 0"
proof -
  assume x: "0 \<le> x" "x < 2 ^ 63" "x mod 256 = 0"
  have "(word_of_int x :: u64) AND 0xff = take_bit 8 (word_of_int x)"
    by (simp add: take_bit_eq_mask mask_numeral)
  also have "\<dots> = word_of_int (take_bit 8 x)" by (simp add: take_bit_word_eq_self of_int_take_bit)
  also have "\<dots> = 0" using x by (simp add: take_bit_eq_mod)
  finally show ?thesis .
qed

lemma ent_split:
  fixes op :: u64
  assumes "0 \<le> x" "x < 2 ^ 63" "x mod 256 = 0" "op AND 0xff = op"
  shows "(word_of_int x OR op) AND 0xff = op" "sint ((word_of_int x OR op) AND NOT 0xff) = x"
proof -
  have l: "(word_of_int x :: u64) AND 0xff = 0" by (rule low_bits [OF assms(1-3)])
  have h: "(word_of_int x :: u64) AND NOT 0xff = word_of_int x"
  proof -
    have "(word_of_int x :: u64) = (word_of_int x AND 0xff) OR (word_of_int x AND NOT 0xff)"
      by (simp flip: bit.conj_disj_distrib)
    then show ?thesis using l by simp
  qed
  have "op AND NOT 0xff = (op AND 0xff) AND NOT 0xff" unfolding assms(4) ..
  then have "op AND NOT 0xff = 0" by (simp only: and.assoc bit.conj_cancel_right and_zero_eq)
  then have "(word_of_int x OR op) AND NOT 0xff = word_of_int x" using h by (simp add: bit.conj_disj_distrib2)
  then show "sint ((word_of_int x OR op) AND NOT 0xff) = x" using assms(1,2) sint_addr by simp
  show "(word_of_int x OR op) AND 0xff = op" using l assms(4) by (simp add: bit.conj_disj_distrib2)
qed

lemma sync_gen:
  assumes "0 \<le> g" "g < 2 ^ 54"
  shows "sint ((word_of_int (g * 256) :: u64) OR LogSync) div 256 = g"
proof -
  have x: "0 \<le> g * 256" "g * 256 < 2 ^ 62" using assms by auto
  have l: "(word_of_int (g * 256) :: u64) AND 0xff = 0" by (rule low_bits) (use x in auto)
  have "(word_of_int (g * 256) :: u64) AND 3 = (word_of_int (g * 256) AND 0xff) AND 3" by (simp only: and.assoc) simp
  then have "(word_of_int (g * 256) :: u64) AND 3 = 0" unfolding l by simp
  then have "(word_of_int (g * 256) :: u64) OR 3 = word_of_int (g * 256) + 3" by (simp add: disjunctive_add_eq_or)
  moreover have "sint (word_of_int (g * 256 + 3) :: u64) = g * 256 + 3"
    using x by (intro sint_addr) auto
  ultimately show ?thesis by simp
qed

section \<open>Replaying one block\<close>

definition holds_ops :: "logblk \<Rightarrow> int \<Rightarrow> lop list \<Rightarrow> bool" where
  "holds_ops b i ops \<longleftrightarrow> 0 \<le> i \<and> rd (lb_data b) i (length (encs ops)) = encs ops \<and> lb_logsz b = i + int (length (encs ops))
     \<and> lb_logsz b \<le> LOGSPC \<and> list_all lop_ok ops"

lemma rd_append_iff: "rd m i (length xs + n) = xs @ ys \<longleftrightarrow> rd m i (length xs) = xs \<and> rd m (i + int (length xs)) n = ys"
  by (simp add: rd_add)

lemma holds_ops_Cons:
  "holds_ops b i (op # ops) \<longleftrightarrow> 0 \<le> i \<and> lop_ok op \<and> rd (lb_data b) i (length (enc op)) = enc op \<and> holds_ops b (i + int (length (enc op))) ops"
  by (auto simp: holds_ops_def rd_append_iff add.assoc)

lemma rd_pair: "rd m i 16 = xs @ ys \<Longrightarrow> length xs = 8 \<Longrightarrow> rd m i 8 = xs \<and> rd m (i + 8) 8 = ys"
  using rd_add [of m i 8 8] by simp

lemma wide_ops: "\<not> (4 :: u64) \<le> 1" "\<not> (4 :: u64) \<le> 2" "\<not> (4 :: u64) \<le> 3" "(4 :: u64) \<le> 5"
  by code_simp+

lemma load_ents_step:
  assumes "holds_ops b i (op # ops)"
  shows "load_ents qgen a b i =
     (if stops qgen op then Some (a, Some i)
      else case play [op] (ua_free a) of
          None \<Rightarrow> None
        | Some fr \<Rightarrow> load_ents qgen (a\<lparr>ua_free := fr, ua_used := ua_used a + net op\<rparr>) b (i + int (length (enc op))))"
proof -
  have h: "0 \<le> i" "lop_ok op" "rd (lb_data b) i (length (enc op)) = enc op" "i + int (length (enc op)) \<le> lb_logsz b" "lb_logsz b \<le> LOGSPC"
    using assms unfolding holds_ops_Cons by (auto simp: holds_ops_def)
  show ?thesis
  proof (cases op)
    case (LAlloc off len)
    note e = ent_split [of off]
    show ?thesis
    proof (cases "len = BLKSZ")
      case True
      then have "unpack64 (rd (lb_data b) i 8) = word_of_int off OR 1" using h(3) LAlloc by simp
      then show ?thesis using h e [of 1] LAlloc True by (auto simp: load_ents.simps [of qgen a b i] Let_def wide_ops split: option.splits bind_splits)
    next
      case False
      then have "unpack64 (rd (lb_data b) i 8) = word_of_int off OR 4" "unpack64 (rd (lb_data b) (i + 8) 8) = word_of_int len"
        using rd_pair [of "lb_data b" i] h(3) LAlloc by auto
      then show ?thesis using h e [of 4] LAlloc False sint_addr [of len]
        by (auto simp: load_ents.simps [of qgen a b i] Let_def wide_ops split: option.splits bind_splits)
    qed
  next
    case (LTake off len)
    then have "unpack64 (rd (lb_data b) i 8) = word_of_int off OR 4" "unpack64 (rd (lb_data b) (i + 8) 8) = word_of_int len"
      using rd_pair [of "lb_data b" i] h(3) by auto
    then show ?thesis using h ent_split [of off 4] LTake sint_addr [of len]
      by (auto simp: load_ents.simps [of qgen a b i] Let_def wide_ops split: option.splits bind_splits)
  next
    case (LFree off len)
    note e = ent_split [of off]
    show ?thesis
    proof (cases "len = BLKSZ")
      case True
      then have "unpack64 (rd (lb_data b) i 8) = word_of_int off OR 2" using h(3) LFree by simp
      then show ?thesis using h e [of 2] LFree True by (auto simp: load_ents.simps [of qgen a b i] Let_def wide_ops split: option.splits bind_splits)
    next
      case False
      then have "unpack64 (rd (lb_data b) i 8) = word_of_int off OR 5" "unpack64 (rd (lb_data b) (i + 8) 8) = word_of_int len"
        using rd_pair [of "lb_data b" i] h(3) LFree by auto
      then show ?thesis using h e [of 5] LFree False sint_addr [of len]
        by (auto simp: load_ents.simps [of qgen a b i] Let_def wide_ops split: option.splits bind_splits)
    qed
  next
    case (LSync gen)
    have "unpack64 (rd (lb_data b) i 8) = word_of_int (gen * 256) OR 3" using h(3) LSync by simp
    moreover have "((word_of_int (gen * 256) :: u64) OR 3) AND 0xff = 3" using ent_split(1) [of "gen * 256" 3] h(2) LSync by simp
    ultimately show ?thesis using h LSync sync_gen [of gen] by (simp add: load_ents.simps [of qgen a b i] Let_def wide_ops)
  qed
qed

lemma load_ents_play:
  "holds_ops b i ops \<Longrightarrow> play (takeWhile (\<lambda>op. \<not> stops qgen op) ops) (ua_free a) = Some fr \<Longrightarrow>
     load_ents qgen a b i = Some (a\<lparr>ua_free := fr, ua_used := ua_used a + nets (takeWhile (\<lambda>op. \<not> stops qgen op) ops)\<rparr>,
       if \<exists>op \<in> set ops. stops qgen op then Some (i + int (length (encs (takeWhile (\<lambda>op. \<not> stops qgen op) ops)))) else None)"
proof (induction ops arbitrary: i a)
  case Nil
  then show ?case by (simp add: load_ents.simps [of qgen a b i] holds_ops_def)
next
  case (Cons op ops)
  show ?case
  proof (cases "stops qgen op")
    case True
    then show ?thesis using Cons.prems load_ents_step [OF Cons.prems(1), of qgen a] by simp
  next
    case False
    let ?tw = "takeWhile (\<lambda>op. \<not> stops qgen op) ops"
    have "play ([op] @ ?tw) (ua_free a) = Some fr" using Cons.prems(2) False by simp
    then obtain fr1 where p: "play [op] (ua_free a) = Some fr1" "play ?tw fr1 = Some fr" unfolding play_append by (auto split: bind_splits)
    let ?a = "a\<lparr>ua_free := fr1, ua_used := ua_used a + net op\<rparr>"
    have "load_ents qgen a b i = load_ents qgen ?a b (i + int (length (enc op)))"
      using load_ents_step [OF Cons.prems(1), of qgen a] False p(1) by simp
    then show ?thesis using Cons.IH [of "i + int (length (enc op))" ?a] Cons.prems(1) p(2) False by (simp add: holds_ops_Cons add.assoc)
  qed
qed

section \<open>Replaying the chain of blocks\<close>

text \<open>The full blocks from \<open>h\<close> up to the block at \<open>x\<close>, with the operations each of them holds.\<close>

fun path :: "ldisk \<Rightarrow> u64 \<Rightarrow> (logblk \<times> lop list) list \<Rightarrow> u64 \<Rightarrow> bool" where
  "path d h [] x \<longleftrightarrow> h = x"
| "path d h ((b, ops) # bs) x \<longleftrightarrow> d h = Some b \<and> lb_addr b = h \<and> lb_logp b \<noteq> - 1 \<and> holds_ops b 0 ops \<and> path d (lb_logp b) bs x"

abbreviation ops_of :: "(logblk \<times> lop list) list \<Rightarrow> lop list" where
  "ops_of bs \<equiv> concat (map snd bs)"

abbreviation addrs_of :: "(logblk \<times> lop list) list \<Rightarrow> u64 list" where
  "addrs_of bs \<equiv> map (\<lambda>p. lb_addr (fst p)) bs"

lemma path_upd: "x \<notin> set (addrs_of bs) \<Longrightarrow> path (d(x \<mapsto> b)) h bs y = path d h bs y"
  by (induction bs arbitrary: h) auto

lemma path_snoc:
  "path d h (bs @ [(b, ops)]) x \<longleftrightarrow> path d h bs (lb_addr b) \<and> d (lb_addr b) = Some b \<and> lb_logp b \<noteq> - 1 \<and> holds_ops b 0 ops \<and> lb_logp b = x"
  by (induction bs arbitrary: h) auto

lemma loadlog_path:
  "path d h bs x \<Longrightarrow> d x = Some b \<Longrightarrow> lb_addr b = x \<Longrightarrow> holds_ops b 0 (ops @ rest) \<Longrightarrow>
     \<forall>op \<in> set (ops_of bs @ ops). \<not> stops qgen op \<Longrightarrow> (rest \<noteq> [] \<and> stops qgen (hd rest) \<or> rest = [] \<and> lb_logp b = - 1) \<Longrightarrow>
     play (ops_of bs @ ops) (ua_free a) = Some fr \<Longrightarrow> ua_logtl a = None \<Longrightarrow>
     \<exists>n. loadlog qgen d a h = Some (a\<lparr>ua_nlog := n, ua_free := fr, ua_used := ua_used a + nets (ops_of bs @ ops),
       ua_logtl := Some (b\<lparr>lb_logsz := int (length (encs ops))\<rparr>)\<rparr>)"
proof (induction bs arbitrary: h a)
  case Nil
  have tw: "takeWhile (\<lambda>op. \<not> stops qgen op) (ops @ rest) = ops"
    using Nil.prems(5,6) by (cases rest) (auto simp: takeWhile_append)
  have ex: "(\<exists>op \<in> set (ops @ rest). stops qgen op) \<longleftrightarrow> rest \<noteq> []"
    using Nil.prems(5,6) by (cases rest) auto
  have l: "load_ents qgen (a\<lparr>ua_nlog := ua_nlog a + 1\<rparr>) b 0
      = Some (a\<lparr>ua_nlog := ua_nlog a + 1, ua_free := fr, ua_used := ua_used a + nets ops\<rparr>,
          if rest \<noteq> [] then Some (0 + int (length (encs ops))) else None)"
    using load_ents_play [OF Nil.prems(4), of qgen "a\<lparr>ua_nlog := ua_nlog a + 1\<rparr>" fr] Nil.prems(7) unfolding tw ex by simp
  have "rest = [] \<Longrightarrow> b\<lparr>lb_logsz := int (length (encs ops))\<rparr> = b" using Nil.prems(4) by (simp add: holds_ops_def)
  then show ?case
    unfolding loadlog.simps [of qgen d a h] using Nil.prems by (cases "rest = []") (auto simp: l)
next
  case (Cons p bs)
  obtain c cops where p: "p = (c, cops)" by (cases p)
  then have c: "d h = Some c" "lb_logp c \<noteq> - 1" "holds_ops c 0 cops" "path d (lb_logp c) bs x" using Cons.prems(1) by auto
  have ns: "\<forall>op \<in> set cops. \<not> stops qgen op" using Cons.prems(5) p by auto
  then have tw: "takeWhile (\<lambda>op. \<not> stops qgen op) cops = cops" "\<not> (\<exists>op \<in> set cops. stops qgen op)" by (auto simp: takeWhile_eq_all_conv)
  obtain fr1 where f1: "play cops (ua_free a) = Some fr1" "play (ops_of bs @ ops) fr1 = Some fr"
    using Cons.prems(7) p by (auto simp: play_append split: bind_splits)
  let ?a = "a\<lparr>ua_nlog := ua_nlog a + 1, ua_free := fr1, ua_used := ua_used a + nets cops\<rparr>"
  have "load_ents qgen (a\<lparr>ua_nlog := ua_nlog a + 1\<rparr>) c 0 = Some (?a, None)"
    using load_ents_play [OF c(3), of qgen "a\<lparr>ua_nlog := ua_nlog a + 1\<rparr>" fr1] f1(1) tw by simp
  then have "loadlog qgen d a h = loadlog qgen d ?a (lb_logp c)" using c(1,2) by (simp add: loadlog.simps [of qgen d a h])
  moreover have "\<exists>n. loadlog qgen d ?a (lb_logp c) = Some (?a\<lparr>ua_nlog := n, ua_free := fr, ua_used := ua_used ?a + nets (ops_of bs @ ops),
      ua_logtl := Some (b\<lparr>lb_logsz := int (length (encs ops))\<rparr>)\<rparr>)"
    by (rule Cons.IH [OF c(4) Cons.prems(2-4) _ Cons.prems(6)]) (use Cons.prems(5,8) p f1(2) in auto)
  ultimately show ?case using p by (auto simp: add.assoc)
qed

end
