(* ===== verification/Crash.thy ===== *)
theory Crash
  imports Alloclog
begin

text \<open>
  What the allocation log is for: an arena that allocates, frees, marks barriers and flushes its
  log can at any moment lose its memory, and reading the log from the disk restores the free space
  of the last barrier.
\<close>

section \<open>Allocating from tidy free space\<close>

text \<open>The blocks of an arena behind its two headers.\<close>

abbreviation area :: "uarena \<Rightarrow> int set" where
  "area a \<equiv> {ua_start a + 2 * BLKSZ..<ua_start a + ua_size a}"

definition space_ok :: "uarena \<Rightarrow> bool" where
  "space_ok a \<longleftrightarrow> tidy (ua_free a) \<and> blockwise (cells (ua_free a))
     \<and> cells (ua_free a) \<subseteq> area a
     \<and> 0 \<le> ua_start a \<and> ua_start a + ua_size a + 2 * BLKSZ \<le> 2 ^ 62"

lemma aligned_pos: "0 < len \<Longrightarrow> len mod BLKSZ = 0 \<Longrightarrow> BLKSZ \<le> len"
  by (auto dest: zdvd_imp_le)

lemma aligned_sub: "x mod BLKSZ = 0 \<Longrightarrow> y mod BLKSZ = 0 \<Longrightarrow> (x + y) mod BLKSZ = 0 \<and> (x - BLKSZ) mod BLKSZ = 0"
  by auto

lemma take_first:
  assumes t: "tidy ((off, len) # rs)" and l: "BLKSZ \<le> len"
  shows "tidy (if len - BLKSZ = 0 then rs else (off + BLKSZ, len - BLKSZ) # rs)"
    and "cells (if len - BLKSZ = 0 then rs else (off + BLKSZ, len - BLKSZ) # rs) = cells ((off, len) # rs) - blk_at off"
proof -
  have "\<forall>x \<in> cells rs. off + len < x" using tidy_above [of rs "off + len"] t by (auto simp: tidy_Cons)
  then show "cells (if len - BLKSZ = 0 then rs else (off + BLKSZ, len - BLKSZ) # rs) = cells ((off, len) # rs) - blk_at off"
    using l by auto
  show "tidy (if len - BLKSZ = 0 then rs else (off + BLKSZ, len - BLKSZ) # rs)" using t l by (auto simp: tidy_Cons)
qed

lemma take_last:
  assumes t: "tidy (ls @ [(off, len)])" and l: "BLKSZ \<le> len"
  shows "tidy (if len - BLKSZ = 0 then ls else ls @ [(off, len - BLKSZ)])"
    and "cells (if len - BLKSZ = 0 then ls else ls @ [(off, len - BLKSZ)]) = cells (ls @ [(off, len)]) - blk_at (off + (len - BLKSZ))"
proof -
  have "\<forall>x \<in> cells ls. x < off" using t by (fastforce simp: tidy_append cells_def)
  then show "cells (if len - BLKSZ = 0 then ls else ls @ [(off, len - BLKSZ)]) = cells (ls @ [(off, len)]) - blk_at (off + (len - BLKSZ))"
    using l by auto
  show "tidy (if len - BLKSZ = 0 then ls else ls @ [(off, len - BLKSZ)])" using t l by (auto simp: tidy_append tidy_Cons)
qed

lemma blkalloc_lk_ok:
  assumes ok: "space_ok a" and al: "blkalloc_lk ur a seq = Some (a', b)" and b: "\<not> (\<not> ur \<and> ua_size a - ua_used a \<le> ua_reserve a)"
  shows "blk_at b \<subseteq> cells (ua_free a) \<and> b mod BLKSZ = 0 \<and> tidy (ua_free a') \<and> cells (ua_free a') = cells (ua_free a) - blk_at b
     \<and> a' = a\<lparr>ua_free := ua_free a', ua_used := ua_used a + BLKSZ\<rparr>"
proof -
  have t: "tidy (ua_free a)" "blockwise (cells (ua_free a))" using ok by (auto simp: space_ok_def)
  have ne: "ua_free a \<noteq> []" "\<not> (\<not> ur \<and> ua_size a - ua_used a \<le> ua_reserve a)" using al b by (auto simp: blkalloc_lk_def split: if_splits)
  show ?thesis
  proof (cases seq)
    case True
    obtain off len rs where f: "ua_free a = (off, len) # rs" using ne(1) by (cases "ua_free a") auto
    have m: "off mod BLKSZ = 0" "BLKSZ \<le> len"
      using tidy_aligned [OF t, of "(off, len)"] aligned_pos [of len] f t(1) by (auto simp: tidy_Cons)
    have a': "a' = a\<lparr>ua_free := (if len - BLKSZ = 0 then rs else (off + BLKSZ, len - BLKSZ) # rs), ua_used := ua_used a + BLKSZ\<rparr>" "b = off"
      using al ne True by (auto simp: blkalloc_lk_def Let_def f cong: if_cong)
    have "blk_at off \<subseteq> cells (ua_free a)" using m(2) by (auto simp: f)
    then show ?thesis
      using take_first [OF t(1) [unfolded f] m(2)] m(1) unfolding a' f by simp
  next
    case False
    obtain off len ls where f: "ua_free a = ls @ [(off, len)]" using ne(1) by (cases "ua_free a" rule: rev_exhaust) auto
    have m: "off mod BLKSZ = 0" "len mod BLKSZ = 0" "BLKSZ \<le> len"
      using tidy_aligned [OF t, of "(off, len)"] aligned_pos [of len] f t(1) by (auto simp: tidy_append tidy_Cons)
    have a': "a' = a\<lparr>ua_free := (if len - BLKSZ = 0 then ls else ls @ [(off, len - BLKSZ)]), ua_used := ua_used a + BLKSZ\<rparr>"
      "b = off + (len - BLKSZ)"
      using al ne False by (auto simp: blkalloc_lk_def Let_def f cong: if_cong)
    have "b mod BLKSZ = 0" using m(1,2) unfolding a'(2) by (metis add_0 mod_add_eq mod_diff_right_eq mod_self diff_zero mod_0)
    moreover have "blk_at b \<subseteq> cells (ua_free a)" using m(3) by (auto simp: f a'(2))
    ultimately show ?thesis
      using take_last [OF t(1) [unfolded f] m(3)] unfolding a' f by simp
  qed
qed

lemma blkalloc_lk_cases:
  assumes ok: "space_ok a" and al: "blkalloc_lk ur a seq = Some (a', b)"
  shows "b = - 1 \<and> a' = a \<or> 0 \<le> b \<and> b mod BLKSZ = 0 \<and> blk_at b \<subseteq> cells (ua_free a) \<and> cells (ua_free a') = cells (ua_free a) - blk_at b
     \<and> space_ok a' \<and> a' = a\<lparr>ua_free := ua_free a', ua_used := ua_used a + BLKSZ\<rparr>"
proof (cases "\<not> ur \<and> ua_size a - ua_used a \<le> ua_reserve a")
  case True
  then show ?thesis using al by (simp add: blkalloc_lk_def)
next
  case False
  note b = blkalloc_lk_ok [OF ok al False]
  have "b \<in> cells (ua_free a)" using b by auto
  then have "0 \<le> b" using ok by (auto simp: space_ok_def)
  obtain fr where e: "a' = a\<lparr>ua_free := fr, ua_used := ua_used a + BLKSZ\<rparr>" using b by blast
  have "space_ok a'" using b ok blockwise_Diff [of b "cells (ua_free a)"] unfolding space_ok_def e by auto
  then show ?thesis using b \<open>0 \<le> b\<close> by blast
qed

section \<open>Appending to the log\<close>

lemma put64_holds: "0 \<le> lb_logsz lb \<Longrightarrow>
  rd (lb_data (put64 lb v)) 0 (nat (lb_logsz lb) + 8) = rd (lb_data lb) 0 (nat (lb_logsz lb)) @ pack64 v \<and> lb_logsz (put64 lb v) = lb_logsz lb + 8
  \<and> lb_addr (put64 lb v) = lb_addr lb \<and> lb_logp (put64 lb v) = lb_logp lb"
  by (simp add: put64_def rd_add rd_wr_disjoint)

text \<open>The arguments with which \<open>logappend\<close> writes an operation.\<close>

fun entry_of :: "lop \<Rightarrow> (int \<times> int \<times> u64) option" where
  "entry_of (LAlloc off len) = Some (off, len, LogAlloc)"
| "entry_of (LTake off len) = None"
| "entry_of (LFree off len) = Some (off, len, LogFree)"
| "entry_of (LSync gen) = Some (gen * 256, 0, LogSync)"

lemma holds_ops_snoc:
  "holds_ops b 0 (ops @ [op]) \<longleftrightarrow> rd (lb_data b) 0 (length (encs ops) + length (enc op)) = encs ops @ enc op
     \<and> lb_logsz b = int (length (encs ops) + length (enc op)) \<and> lb_logsz b \<le> LOGSPC \<and> list_all lop_ok ops \<and> lop_ok op"
  by (auto simp: holds_ops_def)

lemma holds_put:
  assumes "holds_ops lb 0 ops" and "enc op = pack64 v" and "lop_ok op" and "lb_logsz lb + 8 \<le> LOGSPC"
  shows "holds_ops (put64 lb v) 0 (ops @ [op])"
  using assms put64_holds [of lb v] by (auto simp: holds_ops_snoc holds_ops_def)

lemma holds_put2:
  assumes "holds_ops lb 0 ops" and "enc op = pack64 v @ pack64 w" and "lop_ok op" and "lb_logsz lb + 16 \<le> LOGSPC"
  shows "holds_ops (put64 (put64 lb v) w) 0 (ops @ [op])"
  using assms put64_holds [of lb v] put64_holds [of "put64 lb v" w]
  by (auto simp: holds_ops_snoc holds_ops_def nat_add_distrib add.commute)

lemma put_entry_logsz: "lb_logsz (put_entry lb off len k) \<le> lb_logsz lb + 16"
  by (simp add: put_entry_def put64_def Let_def)

lemma put_entry_holds:
  assumes "holds_ops lb 0 ops" and "lop_ok op" and "lb_logsz lb + 16 \<le> LOGSPC" and "entry_of op = Some (off, len, k)"
  shows "holds_ops (put_entry lb off len k) 0 (ops @ [op])" "lb_addr (put_entry lb off len k) = lb_addr lb" "lb_logp (put_entry lb off len k) = lb_logp lb"
proof -
  show "lb_addr (put_entry lb off len k) = lb_addr lb" "lb_logp (put_entry lb off len k) = lb_logp lb"
    by (simp_all add: put_entry_def put64_def Let_def)
  have s: "lb_logsz lb + 8 \<le> LOGSPC" using assms(3) by simp
  show "holds_ops (put_entry lb off len k) 0 (ops @ [op])"
    using assms(4) holds_put [OF assms(1) _ assms(2) s] holds_put2 [OF assms(1) _ assms(2,3)]
    by (cases op) (auto simp: put_entry_def Let_def wide_ops)
qed


text \<open>
  Log blocks stay clear of the free space and of the blocks \<open>Os\<close> that callers own, and these two of
  each other.
\<close>

definition clear :: "range list \<Rightarrow> int set \<Rightarrow> u64 list \<Rightarrow> bool" where
  "clear fr Os xs \<longleftrightarrow> (\<forall>x \<in> set xs. sint x mod BLKSZ = 0 \<and> sint x \<notin> cells fr \<and> sint x \<notin> Os)"

definition owned :: "uarena \<Rightarrow> int set \<Rightarrow> bool" where
  "owned a Os \<longleftrightarrow> (\<forall>b \<in> Os. b mod BLKSZ = 0 \<and> blk_at b \<subseteq> area a \<and> blk_at b \<inter> cells (ua_free a) = {})"

text \<open>The shape of the log: full blocks on disk, the tail in memory.\<close>

definition shape :: "uarena \<Rightarrow> ldisk \<Rightarrow> int set \<Rightarrow> (logblk \<times> lop list) list \<Rightarrow> logblk \<Rightarrow> lop list \<Rightarrow> bool" where
  "shape a d Os bs tb tops \<longleftrightarrow>
     ua_logtl a = Some tb \<and> path d (ua_loghd a) bs (lb_addr tb) \<and> holds_ops tb 0 tops \<and> lb_logsz tb + 24 \<le> LOGSPC
     \<and> distinct (lb_addr tb # addrs_of bs) \<and> clear (ua_free a) Os (lb_addr tb # addrs_of bs) \<and> space_ok a \<and> owned a Os"

text \<open>A barrier that is on the disk, and the operations before it.\<close>

definition saved :: "ldisk \<Rightarrow> (logblk \<times> lop list) list \<Rightarrow> logblk \<Rightarrow> lop list \<Rightarrow> lop list \<Rightarrow> int \<Rightarrow> range list \<Rightarrow> int set \<Rightarrow> bool" where
  "saved d bs tb tops pre g fr Os \<longleftrightarrow>
     (\<exists>bs1 b ops rest bs2. bs = bs1 @ (b, ops @ LSync g # rest) # bs2 \<and> pre = ops_of bs1 @ ops
        \<and> int (length (encs ops)) + 24 \<le> LOGSPC \<and> clear fr Os (lb_addr b # addrs_of bs1))
     \<or> (\<exists>ops rest rest' b. tops = ops @ LSync g # rest \<and> pre = ops_of bs @ ops
          \<and> d (lb_addr tb) = Some b \<and> lb_addr b = lb_addr tb \<and> holds_ops b 0 (ops @ LSync g # rest')
          \<and> int (length (encs ops)) + 24 \<le> LOGSPC \<and> clear fr Os (lb_addr tb # addrs_of bs))"

lemma shape_facts:
  assumes "shape a d Os bs tb tops"
  shows "ua_logtl a = Some tb" "path d (ua_loghd a) bs (lb_addr tb)" "holds_ops tb 0 tops" "lb_logsz tb + 24 \<le> LOGSPC"
    "distinct (lb_addr tb # addrs_of bs)" "clear (ua_free a) Os (lb_addr tb # addrs_of bs)" "space_ok a" "owned a Os"
  using assms unfolding shape_def by blast+

lemma saved_more:
  assumes "saved d bs tb tops pre g fr Bs" and "lb_addr tb' = lb_addr tb"
  shows "saved d bs tb' (tops @ post) pre g fr Bs"
  using assms(1) unfolding saved_def assms(2)
proof (elim disjE exE conjE, goal_cases)
  case (2 ops rest rest' b)
  then have "tops @ post = ops @ LSync g # (rest @ post)" by simp
  then show ?case using 2 by blast
qed blast

lemma saved_roll:
  assumes "saved d bs tb tops pre g fr Bs" and "lb_addr b = lb_addr tb"
  shows "saved d' (bs @ [(b, tops @ post)]) tb' tops' pre g fr Bs"
  using assms(1) unfolding saved_def
proof (elim disjE exE conjE, goal_cases)
  case (1 bs1 c ops rest bs2)
  then have "bs @ [(b, tops @ post)] = bs1 @ (c, ops @ LSync g # rest) # (bs2 @ [(b, tops @ post)])" by simp
  then show ?case using 1 by blast
next
  case (2 ops rest rest' c)
  then have "bs @ [(b, tops @ post)] = bs @ (b, ops @ LSync g # (rest @ post)) # []" by simp
  then show ?case using 2 assms(2) by metis
qed

definition keeps :: "ldisk \<Rightarrow> (logblk \<times> lop list) list \<Rightarrow> logblk \<Rightarrow> lop list \<Rightarrow> ldisk \<Rightarrow> (logblk \<times> lop list) list \<Rightarrow> logblk \<Rightarrow> lop list \<Rightarrow> bool" where
  "keeps d bs tb tops d' bs' tb' tops' \<longleftrightarrow> (\<forall>pre g fr Bs. saved d bs tb tops pre g fr Bs \<longrightarrow> saved d' bs' tb' tops' pre g fr Bs)"

text \<open>What \<open>logappend\<close> takes from the free space for a new log block.\<close>

definition grown :: "uarena \<Rightarrow> uarena \<Rightarrow> lop list \<Rightarrow> bool" where
  "grown a a' extra \<longleftrightarrow> ua_size a' = ua_size a \<and> ua_start a' = ua_start a \<and> ua_loghd a' = ua_loghd a \<and>
     (extra = [] \<and> ua_free a' = ua_free a \<and> ua_used a' = ua_used a \<or>
      (\<exists>x. extra = [LAlloc x BLKSZ] \<and> blk_at x \<subseteq> cells (ua_free a)
         \<and> cells (ua_free a') = cells (ua_free a) - blk_at x \<and> ua_used a' = ua_used a + BLKSZ))"

lemma logappend_shape:
  assumes sh: "shape a d Os bs tb tops" and op: "lop_ok op" "entry_of op = Some (off, len, k)"
    and la: "logappend ur a d off len k = Some (Inr (a', d'))"
  shows "\<exists>bs' tb' tops' extra. shape a' d' Os bs' tb' tops' \<and> ops_of bs' @ tops' = ops_of bs @ tops @ extra @ [op] \<and> tops' \<noteq> [] \<and> grown a a' extra
     \<and> keeps d bs tb tops d' bs' tb' tops'"
proof -
  note f = shape_facts [OF sh]
  show ?thesis
  proof (cases "LOGSPC - LOGSLOP \<le> lb_logsz tb")
    case False
    then have e: "a' = a\<lparr>ua_logtl := Some (put_entry tb off len k)\<rparr>" "d' = d"
      using la f(1) by (auto simp: logappend_def split: if_splits)
    have s: "lb_logsz tb + 16 \<le> LOGSPC" using False by simp
    note h = put_entry_holds [OF f(3) op(1) s op(2)]
    have "shape a' d' Os bs (put_entry tb off len k) (tops @ [op])"
      using sh h put_entry_logsz [of tb off len k] False unfolding shape_def e by (simp add: space_ok_def owned_def)
    moreover have "saved d bs (put_entry tb off len k) (tops @ [op]) pre g fr Bs" if "saved d bs tb tops pre g fr Bs" for pre g fr Bs
      using that h(2) by (rule saved_more)
    ultimately show ?thesis
      by (intro exI [of _ bs] exI [of _ "put_entry tb off len k"] exI [of _ "tops @ [op]"] exI [of _ "[]"]) (simp add: e grown_def keeps_def)
  next
    case True
    obtain a1 x where al: "blkalloc_lk ur a False = Some (a1, x)" "x \<noteq> - 1"
      and e: "a' = a1\<lparr>ua_logtl := Some (put_entry (mklogblk a1 x) off len k), ua_spare := lb_data (put64 tb (word_of_int x OR LogAlloc1)), ua_nlog := ua_nlog a1 + 1\<rparr>"
        "d' = d(lb_addr (put_entry (mklogblk a1 x) off len k) \<mapsto> put_entry (mklogblk a1 x) off len k,
             lb_addr tb \<mapsto> (put64 tb (word_of_int x OR LogAlloc1))\<lparr>lb_logp := word_of_int x\<rparr>)"
      using la f(1) True by (auto simp: logappend_def Let_def put64_def split: if_splits bind_splits prod.splits)
    have c: "0 \<le> x" "x mod BLKSZ = 0" "blk_at x \<subseteq> cells (ua_free a)" "cells (ua_free a1) = cells (ua_free a) - blk_at x" "space_ok a1"
      using blkalloc_lk_cases [OF f(7) al(1)] al(2) by blast+
    obtain fr where a1: "a1 = a\<lparr>ua_free := fr, ua_used := ua_used a + BLKSZ\<rparr>" using blkalloc_lk_cases [OF f(7) al(1)] al(2) by blast
    have xin: "x \<in> cells (ua_free a)" using c(3) by auto
    then have x62: "x < 2 ^ 62" using f(7) by (force simp: space_ok_def)
    have "256 dvd x" using c(2) by (auto simp: mod_eq_0_iff_dvd intro: dvd_trans [of 256 16384])
    then have lx: "lop_ok (LAlloc x BLKSZ)" using c(1) x62 by auto
    have sx: "sint (word_of_int x :: u64) = x" using c(1) x62 by (intro sint_addr) auto
    let ?old = "(put64 tb (word_of_int x OR LogAlloc1))\<lparr>lb_logp := word_of_int x\<rparr>"
    let ?new = "put_entry (mklogblk a1 x) off len k"
    have "holds_ops (put64 tb (word_of_int x OR LogAlloc1)) 0 (tops @ [LAlloc x BLKSZ])"
      by (rule holds_put [OF f(3) _ lx]) (use f(4) in auto)
    then have ho: "holds_ops ?old 0 (tops @ [LAlloc x BLKSZ])" by (simp add: holds_ops_def)
    have oa: "lb_addr ?old = lb_addr tb" by (simp add: put64_def)
    have m: "holds_ops (mklogblk a1 x) 0 []" "lb_logsz (mklogblk a1 x) = 0" "lb_addr (mklogblk a1 x) = word_of_int x" "lb_logp (mklogblk a1 x) = - 1"
      by (simp_all add: holds_ops_def mklogblk_def)
    have hn: "holds_ops ?new 0 [op]" "lb_addr ?new = word_of_int x" "lb_logsz ?new \<le> 16"
      using put_entry_holds [OF m(1) op(1) _ op(2)] put_entry_logsz [of "mklogblk a1 x" off len k] m(2-4) by auto
    have nin: "word_of_int x \<notin> set (lb_addr tb # addrs_of bs)" using f(6) xin sx unfolding clear_def by metis
    have nm: "(word_of_int x :: u64) \<noteq> - 1" using sx c(1) by auto
    let ?bs = "bs @ [(?old, tops @ [LAlloc x BLKSZ])]"
    have pa: "path d' (ua_loghd a) ?bs (lb_addr ?new)"
      unfolding path_snoc e(2) oa hn(2)
      using f(2,5) nin nm ho by (simp add: path_upd)
    have "x \<in> Os \<Longrightarrow> blk_at x \<inter> cells (ua_free a) = {}" using f(8) unfolding owned_def by blast
    moreover have "x \<in> blk_at x" by simp
    ultimately have nO: "x \<notin> Os" using xin by blast
    have cl: "clear (ua_free a1) Os (lb_addr ?new # addrs_of ?bs)"
      using f(6) nO c(2,4) sx oa unfolding clear_def hn(2) by auto
    have ow: "owned a1 Os" using f(8) c(4) unfolding owned_def by (auto simp: a1)
    have "shape a' d' Os ?bs ?new [op]"
      unfolding shape_def using pa hn f(5) nin c(5) cl ow oa by (simp add: e(1) a1 space_ok_def owned_def)
    moreover have "saved d' ?bs ?new [op] pre g fr Bs" if "saved d bs tb tops pre g fr Bs" for pre g fr Bs
      using that oa by (rule saved_roll)
    ultimately show ?thesis
      using c by (intro exI [of _ ?bs] exI [of _ ?new] exI [of _ "[op]"] exI [of _ "[LAlloc x BLKSZ]"]) (auto simp: e(1) a1 grown_def keeps_def)
  qed
qed

section \<open>Blocks in the free space\<close>

lemma grab_block:
  assumes "tidy t" and "blk_at b \<subseteq> cells t"
  shows "\<exists>t'. play [LAlloc b BLKSZ] t = Some t' \<and> tidy t' \<and> cells t' = cells t - blk_at b"
  using grabrange_ok [OF assms(1) _ _ assms(2)] by auto

lemma free_block:
  assumes "tidy t" and "blk_at b \<inter> cells t = {}"
  shows "\<exists>t'. freerange t b BLKSZ = Some t' \<and> tidy t' \<and> cells t' = cells t \<union> blk_at b"
  using freerange_ok [OF assms(1) _ _ assms(2)] by auto

lemma grown_play:
  assumes g: "grown a a' extra" and t: "tidy (ua_free a)" "tidy (ua_free a')" and t0: "tidy fr" "cells (ua_free a) \<subseteq> cells fr"
  shows "\<exists>fr'. play extra fr = Some fr' \<and> tidy fr' \<and> cells fr' = cells fr - (cells (ua_free a) - cells (ua_free a'))
     \<and> cells (ua_free a') \<subseteq> cells (ua_free a) \<and> ua_used a' = ua_used a + nets extra"
  using g unfolding grown_def
proof (elim conjE disjE exE, goal_cases)
  case 1
  then show ?case using t0 by auto
next
  case (2 x)
  have "blk_at x \<subseteq> cells fr" using 2(5) t0(2) by blast
  then obtain fr' where "play [LAlloc x BLKSZ] fr = Some fr'" "tidy fr'" "cells fr' = cells fr - blk_at x"
    using grab_block [OF t0(1)] by blast
  moreover have "cells (ua_free a) - cells (ua_free a') = blk_at x" using 2(5,6) by blast
  ultimately show ?case using 2 by auto
qed

section \<open>The arena in use\<close>

text \<open>The log accounts for the free space.\<close>

definition tracks :: "uarena \<Rightarrow> ldisk \<Rightarrow> int set \<Rightarrow> (logblk \<times> lop list) list \<Rightarrow> logblk \<Rightarrow> lop list \<Rightarrow> bool" where
  "tracks a d Os bs tb tops \<longleftrightarrow> shape a d Os bs tb tops
     \<and> play (ops_of bs @ tops) [] = Some (ua_free a) \<and> ua_used a = ua_size a + nets (ops_of bs @ tops)"

text \<open>An arena whose barriers are all older than \<open>n\<close>.\<close>

definition arena_inv :: "int \<Rightarrow> uarena \<Rightarrow> ldisk \<Rightarrow> int set \<Rightarrow> bool" where
  "arena_inv n a d Os \<longleftrightarrow> (\<exists>bs tb tops. tracks a d Os bs tb tops \<and> (\<forall>op \<in> set (ops_of bs @ tops). \<not> stops n op))"

text \<open>
  What the server does to an arena: it allocates a block, frees one that it owns, writes a barrier
  and flushes the log.
\<close>

inductive astep :: "uarena \<times> ldisk \<times> int set \<Rightarrow> uarena \<times> ldisk \<times> int set \<Rightarrow> bool" where
  alloc: "blkalloc_arena ur a d seq = Some (Inr (a', d', b)) \<Longrightarrow> astep (a, d, Os) (a', d', if b = - 1 then Os else insert b Os)"
| dealloc: "b \<in> Os \<Longrightarrow> blkdealloc_lk ur a d b = Some (Inr (a', d')) \<Longrightarrow> astep (a, d, Os) (a', d', Os - {b})"
| barrier: "0 \<le> g \<Longrightarrow> g < 2 ^ 54 \<Longrightarrow> logbarrier ur a d g = Some (Inr (a', d')) \<Longrightarrow> astep (a, d, Os) (a', d', Os)"
| flush: "flushlog a d = Some d' \<Longrightarrow> astep (a, d, Os) (a, d', Os)"

lemma log_op:
  assumes sh: "shape a d Os bs tb tops" and op: "lop_ok op" "entry_of op = Some (off, len, k)"
    and la: "logappend ur a d off len k = Some (Inr (a', d'))"
    and fr: "play (ops_of bs @ tops) [] = Some fr" "tidy fr" "cells (ua_free a) \<subseteq> cells fr"
  shows "\<exists>bs' tb' tops' extra fr'. shape a' d' Os bs' tb' tops' \<and> ops_of bs' @ tops' = ops_of bs @ tops @ extra @ [op] \<and> tops' \<noteq> []
     \<and> keeps d bs tb tops d' bs' tb' tops' \<and> play (ops_of bs @ tops @ extra) [] = Some fr' \<and> tidy fr'
     \<and> cells fr' = cells fr - (cells (ua_free a) - cells (ua_free a')) \<and> cells (ua_free a') \<subseteq> cells (ua_free a)
     \<and> ua_used a' = ua_used a + nets extra \<and> ua_size a' = ua_size a \<and> ua_start a' = ua_start a \<and> ua_loghd a' = ua_loghd a"
proof -
  obtain bs' tb' tops' extra where s: "shape a' d' Os bs' tb' tops'" "ops_of bs' @ tops' = ops_of bs @ tops @ extra @ [op]" "tops' \<noteq> []"
    and g: "grown a a' extra" and k: "keeps d bs tb tops d' bs' tb' tops'"
    using logappend_shape [OF sh op la] by blast
  have t: "tidy (ua_free a)" "tidy (ua_free a')"
    using shape_facts(7) [OF sh] shape_facts(7) [OF s(1)] by (simp_all add: space_ok_def)
  obtain fr' where p: "play extra fr = Some fr'" "tidy fr'" "cells fr' = cells fr - (cells (ua_free a) - cells (ua_free a'))"
    "cells (ua_free a') \<subseteq> cells (ua_free a)" "ua_used a' = ua_used a + nets extra"
    using grown_play [OF g t fr(2,3)] by blast
  have "play (ops_of bs @ tops @ extra) [] = Some fr'" 
    using play_append [of "ops_of bs @ tops" extra "[]"] fr(1) p(1) by simp
  moreover have "ua_size a' = ua_size a" "ua_start a' = ua_start a" "ua_loghd a' = ua_loghd a" using g unfolding grown_def by blast+
  ultimately show ?thesis using s k p by blast
qed

lemma tracks_facts:
  assumes "tracks a d Os bs tb tops"
  shows "shape a d Os bs tb tops" "play (ops_of bs @ tops) [] = Some (ua_free a)" "ua_used a = ua_size a + nets (ops_of bs @ tops)"
    "tidy (ua_free a)" "space_ok a" "owned a Os"
  using assms shape_facts(7,8) [of a d Os bs tb tops] unfolding tracks_def space_ok_def by blast+

lemma blk_256: "b mod BLKSZ = 0 \<Longrightarrow> (b :: int) mod 256 = 0"
  by (auto simp: mod_eq_0_iff_dvd intro: dvd_trans [of 256 16384])

lemma alloc_tracks:
  assumes tr: "tracks a d Os bs tb tops" and al: "blkalloc_arena ur a d seq = Some (Inr (a', d', b))" and b: "b \<noteq> - 1"
  shows "\<exists>bs' tb' tops'. tracks a' d' (insert b Os) bs' tb' tops' \<and> keeps d bs tb tops d' bs' tb' tops' \<and> ua_loghd a' = ua_loghd a
     \<and> ua_size a' = ua_size a \<and> ua_start a' = ua_start a"
    "blk_at b \<subseteq> cells (ua_free a)" "b mod BLKSZ = 0"
proof -
  note f = tracks_facts [OF tr] and sf = shape_facts [OF tracks_facts(1) [OF tr]]
  obtain a1 where a1: "blkalloc_lk ur a seq = Some (a1, b)" "logappend ur a1 d b BLKSZ LogAlloc = Some (Inr (a', d'))"
    using al b by (auto simp: blkalloc_arena_def split: bind_splits if_splits sum.splits)
  have c: "0 \<le> b" "b mod BLKSZ = 0" "blk_at b \<subseteq> cells (ua_free a)" "cells (ua_free a1) = cells (ua_free a) - blk_at b" "space_ok a1"
    using blkalloc_lk_cases [OF f(5) a1(1)] b by blast+
  then show "blk_at b \<subseteq> cells (ua_free a)" "b mod BLKSZ = 0" by blast+
  obtain fr where e: "a1 = a\<lparr>ua_free := fr, ua_used := ua_used a + BLKSZ\<rparr>" using blkalloc_lk_cases [OF f(5) a1(1)] b by blast
  have bin: "b \<in> cells (ua_free a)" using c(3) by auto
  have reg: "cells (ua_free a) \<subseteq> area a" "ua_start a + ua_size a + 2 * BLKSZ \<le> 2 ^ 62"
    using f(5) unfolding space_ok_def by blast+
  have cl: "clear (ua_free a1) (insert b Os) (lb_addr tb # addrs_of bs)" using sf(6) bin c(4) unfolding clear_def by auto
  have "blk_at b \<subseteq> area a" using c(3) reg(1) by (rule subset_trans)
  then have ow: "owned a1 (insert b Os)" using f(6) c(2,4) unfolding owned_def e by auto
  have sh: "shape a1 d (insert b Os) bs tb tops"
    using f(1) cl ow c(5) unfolding shape_def by (simp add: e)
  have op: "lop_ok (LAlloc b BLKSZ)" using c(1,2) bin reg blk_256 [of b] by auto
  obtain bs' tb' tops' extra fr' where s: "shape a' d' (insert b Os) bs' tb' tops'" "ops_of bs' @ tops' = ops_of bs @ tops @ extra @ [LAlloc b BLKSZ]"
    and k: "keeps d bs tb tops d' bs' tb' tops'" "play (ops_of bs @ tops @ extra) [] = Some fr'" "tidy fr'"
      "cells fr' = cells (ua_free a) - (cells (ua_free a1) - cells (ua_free a'))" "cells (ua_free a') \<subseteq> cells (ua_free a1)"
    and u: "ua_used a' = ua_used a1 + nets extra" "ua_size a' = ua_size a1" "ua_start a' = ua_start a1" "ua_loghd a' = ua_loghd a1"
    using log_op [OF sh op _ a1(2) f(2,4)] c(4) by auto
  have sub: "blk_at b \<subseteq> cells fr'" using k(4) c(3,4) by blast
  obtain fr2 where g: "play [LAlloc b BLKSZ] fr' = Some fr2" "tidy fr2" "cells fr2 = cells fr' - blk_at b"
    using grab_block [OF k(3) sub] by blast
  have "cells fr2 = cells (ua_free a')" using g(3) k(4,5) c(3,4) by blast
  then have "fr2 = ua_free a'" using tidy_unique [OF g(2)] shape_facts(7) [OF s(1)] by (simp add: space_ok_def)
  then have "play (ops_of bs' @ tops') [] = Some (ua_free a')"
    using k(2) g(1) play_append [of "ops_of bs @ tops @ extra" "[LAlloc b BLKSZ]" "[]"] unfolding s(2) by simp
  moreover have "ua_used a' = ua_size a' + nets (ops_of bs' @ tops')" unfolding s(2) using u f(3) by (simp add: e)
  ultimately have "tracks a' d' (insert b Os) bs' tb' tops'" using s(1) unfolding tracks_def by blast
  then show "\<exists>bs' tb' tops'. tracks a' d' (insert b Os) bs' tb' tops' \<and> keeps d bs tb tops d' bs' tb' tops' \<and> ua_loghd a' = ua_loghd a
     \<and> ua_size a' = ua_size a \<and> ua_start a' = ua_start a"
    using k(1) u(2-4) by (auto simp: e)
qed

lemma clear_free:
  assumes "clear fr Os xs" and "cells fr' = cells fr \<union> blk_at b" and "b \<in> Os" and "b mod BLKSZ = 0"
  shows "clear fr' (Os - {b}) xs"
  unfolding clear_def
proof
  fix x
  assume "x \<in> set xs"
  then have x: "sint x mod BLKSZ = 0" "sint x \<notin> cells fr" "sint x \<notin> Os" using assms(1) unfolding clear_def by blast+
  then have "sint x \<notin> blk_at b" using blk_at_iff [OF assms(4), of "sint x"] assms(3) by auto
  then show "sint x mod BLKSZ = 0 \<and> sint x \<notin> cells fr' \<and> sint x \<notin> Os - {b}" using x assms(2) by blast
qed

lemma aligned_disjoint: "b mod BLKSZ = 0 \<Longrightarrow> c mod BLKSZ = 0 \<Longrightarrow> b \<noteq> c \<Longrightarrow> blk_at b \<inter> blk_at c = {}"
proof -
  assume a: "b mod BLKSZ = 0" "c mod BLKSZ = 0" "b \<noteq> c"
  then have "x \<notin> blk_at c" if "x \<in> blk_at b" for x using that blk_at_iff [OF a(1), of x] blk_at_iff [OF a(2), of x] a(3) by metis
  then show "blk_at b \<inter> blk_at c = {}" by blast
qed

lemma dealloc_tracks:
  assumes tr: "tracks a d Os bs tb tops" and de: "blkdealloc_lk ur a d b = Some (Inr (a', d'))" and b: "b \<in> Os"
  shows "\<exists>bs' tb' tops'. tracks a' d' (Os - {b}) bs' tb' tops' \<and> keeps d bs tb tops d' bs' tb' tops' \<and> ua_loghd a' = ua_loghd a
     \<and> ua_size a' = ua_size a \<and> ua_start a' = ua_start a"
proof -
  note f = tracks_facts [OF tr]
  obtain a1 fr where a1: "logappend ur a d b BLKSZ LogFree = Some (Inr (a1, d'))" "freerange (ua_free a1) b BLKSZ = Some fr"
    and e: "a' = a1\<lparr>ua_free := fr, ua_used := ua_used a1 - BLKSZ\<rparr>"
    using de by (auto simp: blkdealloc_lk_def split: bind_splits sum.splits)
  have c: "b mod BLKSZ = 0" "blk_at b \<subseteq> area a" "blk_at b \<inter> cells (ua_free a) = {}"
    using f(6) b unfolding owned_def by blast+
  have "0 \<le> ua_start a" "ua_start a + ua_size a + 2 * BLKSZ \<le> 2 ^ 62" using f(5) unfolding space_ok_def by blast+
  then have op: "lop_ok (LFree b BLKSZ)" using c(2) blk_256 [OF c(1)] by auto
  obtain bs' tb' tops' extra fr' where s: "shape a1 d' Os bs' tb' tops'" "ops_of bs' @ tops' = ops_of bs @ tops @ extra @ [LFree b BLKSZ]"
    and k: "keeps d bs tb tops d' bs' tb' tops'" "play (ops_of bs @ tops @ extra) [] = Some fr'" "tidy fr'"
      "cells fr' = cells (ua_free a) - (cells (ua_free a) - cells (ua_free a1))" "cells (ua_free a1) \<subseteq> cells (ua_free a)"
    and u: "ua_used a1 = ua_used a + nets extra" "ua_size a1 = ua_size a" "ua_start a1 = ua_start a" "ua_loghd a1 = ua_loghd a"
    using log_op [OF f(1) op _ a1(1) f(2,4)] by auto
  note sf = shape_facts [OF s(1)]
  have t1: "tidy (ua_free a1)" "blockwise (cells (ua_free a1))" using sf(7) unfolding space_ok_def by blast+
  have "fr' = ua_free a1" using tidy_unique [OF k(3) t1(1)] k(4,5) by blast
  then have "play (ops_of bs' @ tops') [] = Some fr"
    using k(2) a1(2) play_append [of "ops_of bs @ tops @ extra" "[LFree b BLKSZ]" "[]"] unfolding s(2) by simp
  moreover have out: "blk_at b \<inter> cells (ua_free a1) = {}" using c(3) k(5) by blast
  then have fr: "tidy fr" "cells fr = cells (ua_free a1) \<union> blk_at b" using free_block [OF t1(1) out] a1(2) by auto
  have "space_ok a'"
    using sf(7) fr blockwise_Un [OF c(1) t1(2)] c(2) unfolding space_ok_def by (simp add: e u)
  moreover have "clear fr (Os - {b}) (lb_addr tb' # addrs_of bs')" by (rule clear_free [OF sf(6) fr(2) b c(1)])
  moreover have "owned a' (Os - {b})"
    unfolding owned_def
  proof
    fix x
    assume x: "x \<in> Os - {b}"
    then have o1: "x mod BLKSZ = 0" "blk_at x \<subseteq> area a1" "blk_at x \<inter> cells (ua_free a1) = {}"
      using sf(8) unfolding owned_def by blast+
    moreover have "blk_at x \<inter> blk_at b = {}" using aligned_disjoint [OF o1(1) c(1)] x by blast
    ultimately show "x mod BLKSZ = 0 \<and> blk_at x \<subseteq> area a' \<and> blk_at x \<inter> cells (ua_free a') = {}"
      by (simp add: e fr(2) Int_Un_distrib)
  qed
  moreover have "ua_used a' = ua_size a' + nets (ops_of bs' @ tops')" unfolding s(2) using u f(3) by (simp add: e)
  ultimately have "tracks a' d' (Os - {b}) bs' tb' tops'" using s(1) unfolding tracks_def shape_def by (simp add: e)
  then show ?thesis using k(1) u(2-4) by (auto simp: e)
qed

lemma barrier_tracks:
  assumes tr: "tracks a d Os bs tb tops" and g: "0 \<le> g" "g < 2 ^ 54" and ba: "logbarrier ur a d g = Some (Inr (a', d'))"
  shows "\<exists>bs' tb' tops' extra. tracks a' d' Os bs' tb' tops' \<and> keeps d bs tb tops d' bs' tb' tops' \<and> ua_loghd a' = ua_loghd a
     \<and> ua_size a' = ua_size a \<and> ua_start a' = ua_start a \<and> ops_of bs' @ tops' = ops_of bs @ tops @ extra @ [LSync g] \<and> tops' \<noteq> [] \<and> (\<forall>op \<in> set extra. \<forall>n. \<not> stops n op)"
proof -
  note f = tracks_facts [OF tr]
  have op: "lop_ok (LSync g)" "entry_of (LSync g) = Some (g * 256, 0, LogSync)" using g by auto
  note la = ba [unfolded logbarrier_def]
  obtain bs' tb' tops' extra where s: "shape a' d' Os bs' tb' tops'" "ops_of bs' @ tops' = ops_of bs @ tops @ extra @ [LSync g]" "tops' \<noteq> []"
    and gr: "grown a a' extra" and k: "keeps d bs tb tops d' bs' tb' tops'"
    using logappend_shape [OF f(1) op la] by blast
  have t': "tidy (ua_free a')" using shape_facts(7) [OF s(1)] unfolding space_ok_def by blast
  obtain fr' where p: "play extra (ua_free a) = Some fr'" "tidy fr'" "cells fr' = cells (ua_free a) - (cells (ua_free a) - cells (ua_free a'))"
    "cells (ua_free a') \<subseteq> cells (ua_free a)" "ua_used a' = ua_used a + nets extra"
    using grown_play [OF gr f(4) t' f(4)] by blast
  have "fr' = ua_free a'" using tidy_unique [OF p(2) t'] p(3,4) by blast
  then have "play (ops_of bs' @ tops') [] = Some (ua_free a')"
    using p(1) f(2) play_append [of "ops_of bs @ tops" "extra @ [LSync g]" "[]"] play_append [of extra "[LSync g]" "ua_free a"] unfolding s(2) by simp
  moreover have "ua_size a' = ua_size a" "ua_start a' = ua_start a" "ua_loghd a' = ua_loghd a" "\<forall>op \<in> set extra. \<forall>n. \<not> stops n op" using gr unfolding grown_def by auto
  moreover have "ua_used a' = ua_size a' + nets (ops_of bs' @ tops')" unfolding s(2) using p(5) f(3) calculation(2) by simp
  ultimately show ?thesis using s k unfolding tracks_def by blast
qed

lemma flush_tracks:
  assumes tr: "tracks a d Os bs tb tops" and fl: "flushlog a d = Some d'"
  shows "tracks a d' Os bs tb tops" "keeps d bs tb tops d' bs tb tops" "d' = d(lb_addr tb \<mapsto> tb)"
proof -
  note f = tracks_facts [OF tr] and sf = shape_facts [OF tracks_facts(1) [OF tr]]
  show e: "d' = d(lb_addr tb \<mapsto> tb)" using fl sf(1) by (simp add: flushlog_def)
  have "path d' (ua_loghd a) bs (lb_addr tb)" unfolding e using sf(2,5) by (simp add: path_upd)
  then show "tracks a d' Os bs tb tops" using tr unfolding tracks_def shape_def by blast
  show "keeps d bs tb tops d' bs tb tops"
    unfolding keeps_def
  proof (intro allI impI)
    fix pre g fr Bs
    assume "saved d bs tb tops pre g fr Bs"
    then show "saved d' bs tb tops pre g fr Bs"
      unfolding saved_def
    proof (elim disjE exE conjE, goal_cases)
      case (2 ops rest rest' b)
      then have "holds_ops tb 0 (ops @ LSync g # rest)" using sf(3) by simp
      moreover have "d' (lb_addr tb) = Some tb" by (simp add: e)
      ultimately show ?case using 2 by blast
    qed blast
  qed
qed

lemma astep_tracks:
  assumes "astep (a, d, Os) (a', d', Os')" and tr: "tracks a d Os bs tb tops"
  shows "\<exists>bs' tb' tops'. tracks a' d' Os' bs' tb' tops' \<and> keeps d bs tb tops d' bs' tb' tops' \<and> ua_loghd a' = ua_loghd a
     \<and> ua_size a' = ua_size a \<and> ua_start a' = ua_start a"
  using assms(1)
proof cases
  case (alloc ur seq b)
  show ?thesis
  proof (cases "b = - 1")
    case True
    obtain a1 where a1: "blkalloc_lk ur a seq = Some (a1, - 1)" "a' = a1" "d' = d"
      using alloc(2) True by (auto simp: blkalloc_arena_def split: bind_splits if_splits sum.splits)
    then have "a' = a" "d' = d" using blkalloc_lk_cases [OF tracks_facts(5) [OF tr] a1(1)] by auto
    then show ?thesis using tr alloc True by (auto simp: keeps_def)
  next
    case False
    then show ?thesis using alloc_tracks(1) [OF tr alloc(2)] alloc(1) by simp
  qed
next
  case (dealloc b ur)
  then show ?thesis using dealloc_tracks [OF tr dealloc(3,2)] by simp
next
  case (barrier g ur)
  then show ?thesis using barrier_tracks [OF tr barrier(2-4)] by blast
next
  case flush
  then show ?thesis using flush_tracks [OF tr] by blast
qed

lemma asteps_tracks:
  assumes "astep\<^sup>*\<^sup>* (a, d, Os) (a', d', Os')" and tr: "tracks a d Os bs tb tops"
  shows "\<exists>bs' tb' tops'. tracks a' d' Os' bs' tb' tops' \<and> keeps d bs tb tops d' bs' tb' tops' \<and> ua_loghd a' = ua_loghd a
     \<and> ua_size a' = ua_size a \<and> ua_start a' = ua_start a"
  using assms(1)
proof (induction "(a', d', Os')" arbitrary: a' d' Os' rule: rtranclp_induct)
  case base
  then show ?case using tr unfolding keeps_def by blast
next
  case (step s a2 d2 O2)
  obtain a1 d1 O1 where s: "s = (a1, d1, O1)" by (cases s)
  then obtain bs1 tb1 tops1 where 1: "tracks a1 d1 O1 bs1 tb1 tops1" "keeps d bs tb tops d1 bs1 tb1 tops1" "ua_loghd a1 = ua_loghd a"
    "ua_size a1 = ua_size a" "ua_start a1 = ua_start a"
    using step.hyps(3) by blast
  obtain bs2 tb2 tops2 where 2: "tracks a2 d2 O2 bs2 tb2 tops2" "keeps d1 bs1 tb1 tops1 d2 bs2 tb2 tops2" "ua_loghd a2 = ua_loghd a1"
    "ua_size a2 = ua_size a1" "ua_start a2 = ua_start a1"
    using astep_tracks [OF step.hyps(2) [unfolded s] 1(1)] by blast
  have "keeps d bs tb tops d2 bs2 tb2 tops2" using 1(2) 2(2) unfolding keeps_def by blast
  then show ?case using 1 2 by metis
qed

section \<open>Reading the log back\<close>

lemma path_split: "path d h (bs1 @ (b, ops) # bs2) x \<Longrightarrow> path d h bs1 (lb_addr b) \<and> d (lb_addr b) = Some b \<and> holds_ops b 0 ops"
  by (induction bs1 arbitrary: h) auto

lemma saved_on_disk:
  assumes sv: "saved d bs tb tops pre g fr Os" and sh: "path d h bs (lb_addr tb)" "distinct (lb_addr tb # addrs_of bs)"
  shows "\<exists>bs1 b ops rest. path d h bs1 (lb_addr b) \<and> d (lb_addr b) = Some b \<and> holds_ops b 0 (ops @ LSync g # rest) \<and> pre = ops_of bs1 @ ops
     \<and> int (length (encs ops)) + 24 \<le> LOGSPC \<and> clear fr Os (lb_addr b # addrs_of bs1) \<and> distinct (lb_addr b # addrs_of bs1)"
  using sv unfolding saved_def
proof (elim disjE exE conjE, goal_cases)
  case (1 bs1 b ops rest bs2)
  have "path d h bs1 (lb_addr b) \<and> d (lb_addr b) = Some b \<and> holds_ops b 0 (ops @ LSync g # rest)"
    using path_split sh(1) unfolding 1(1) by blast
  moreover have "distinct (lb_addr b # addrs_of bs1)" using sh(2) unfolding 1(1) by auto
  ultimately show ?case using 1 by blast
next
  case (2 ops rest rest' b)
  then show ?case using sh by metis
qed

lemma holds_prefix:
  assumes "holds_ops b 0 (ops @ rest)"
  shows "holds_ops (b\<lparr>lb_logsz := int (length (encs ops))\<rparr>) 0 ops"
  using assms rd_append_iff [of "lb_data b" 0 "encs ops" "length (encs rest)" "encs rest"] by (auto simp: holds_ops_def)

lemma load_saved:
  assumes sv: "saved d bs tb tops pre g fr Os" and sh: "path d (ua_loghd a) bs (lb_addr tb)" "distinct (lb_addr tb # addrs_of bs)"
    and pl: "play pre [] = Some fr" "\<forall>op \<in> set pre. \<not> stops g op"
    and ok: "space_ok (a\<lparr>ua_free := fr\<rparr>)" "owned (a\<lparr>ua_free := fr\<rparr>) Os"
  shows "\<exists>a'. loadlog g d (fresh_arena a) (ua_loghd a) = Some a' \<and> ua_free a' = fr \<and> ua_used a' = ua_size a + nets pre \<and> arena_inv g a' d Os"
proof -
  obtain bs1 b ops rest where p: "path d (ua_loghd a) bs1 (lb_addr b)" "d (lb_addr b) = Some b" "holds_ops b 0 (ops @ LSync g # rest)"
    "pre = ops_of bs1 @ ops" "int (length (encs ops)) + 24 \<le> LOGSPC" "clear fr Os (lb_addr b # addrs_of bs1)" "distinct (lb_addr b # addrs_of bs1)"
    using saved_on_disk [OF sv sh] by blast
  let ?b = "b\<lparr>lb_logsz := int (length (encs ops))\<rparr>"
  obtain n where n: "loadlog g d (fresh_arena a) (ua_loghd a) = Some ((fresh_arena a)\<lparr>ua_nlog := n, ua_free := fr,
      ua_used := ua_used (fresh_arena a) + nets (ops_of bs1 @ ops), ua_logtl := Some ?b\<rparr>)"
    using loadlog_path [OF p(1,2) refl p(3), of g "fresh_arena a" fr] pl by (auto simp: p(4) fresh_arena_def)
  let ?a = "(fresh_arena a)\<lparr>ua_nlog := n, ua_free := fr, ua_used := ua_used (fresh_arena a) + nets (ops_of bs1 @ ops), ua_logtl := Some ?b\<rparr>"
  have "tracks ?a d Os bs1 ?b ops"
    unfolding tracks_def shape_def using p holds_prefix [OF p(3)] ok pl(1)
    by (simp add: fresh_arena_def space_ok_def owned_def)
  then have "arena_inv g ?a d Os" using pl(2) unfolding arena_inv_def p(4) by blast
  then show ?thesis unfolding n by (intro exI [of _ ?a]) (simp add: p(4) fresh_arena_def)
qed

end
