(* ===== verification/Recovery.thy ===== *)
theory Recovery
  imports Crash
begin

text \<open>
  The life of an arena: \<^verbatim>\<open>initarena\<close> of \<^verbatim>\<open>src/src/ream.c\<close> writes its first log block, \<^verbatim>\<open>loadlog\<close> reads it,
  the server allocates and frees blocks, \<^verbatim>\<open>sync\<close> writes a barrier and flushes the log, and after a crash
  \<^verbatim>\<open>loadlog\<close> starts over from what is on the disk.
\<close>

section \<open>Formatting an arena\<close>

definition initarena :: "mem \<Rightarrow> ldisk \<Rightarrow> int \<Rightarrow> int \<Rightarrow> uarena \<times> ldisk" where
  "initarena spare d hdaddr asz =
     (let addr = hdaddr + 2 * BLKSZ;
          b = \<lparr>lb_addr = word_of_int addr,
               lb_data = wr zeros 0 (pack64 (word_of_int addr OR LogFree) @ pack64 (word_of_int (asz - 2 * BLKSZ))
                 @ pack64 (word_of_int addr OR LogAlloc) @ pack64 (word_of_int BLKSZ) @ pack64 LogSync),
               lb_logsz = 40, lb_logp = - 1\<rparr>
      in (\<lparr>ua_free = [], ua_size = asz, ua_used = BLKSZ, ua_reserve = 0, ua_start = hdaddr, ua_loghd = word_of_int addr,
            ua_logtl = None, ua_spare = spare, ua_nlog = 0\<rparr>, d(word_of_int addr \<mapsto> b)))"

definition arena_geometry :: "int \<Rightarrow> int \<Rightarrow> bool" where
  "arena_geometry hdaddr asz \<longleftrightarrow> 0 \<le> hdaddr \<and> hdaddr mod BLKSZ = 0 \<and> asz mod BLKSZ = 0 \<and> 4 * BLKSZ \<le> asz \<and> hdaddr + asz + 2 * BLKSZ \<le> 2 ^ 62"

lemma blockwise_span:
  assumes "s mod BLKSZ = 0" and "e mod BLKSZ = 0"
  shows "blockwise {s..<e}"
  unfolding blockwise_def
proof
  fix y
  assume y: "y \<in> {s..<e}"
  obtain k l where k: "s = BLKSZ * k" "e = BLKSZ * l" using assms by (auto simp: mod_eq_0_iff_dvd dvd_def)
  have "y - y mod BLKSZ = BLKSZ * (y div BLKSZ)" by (rule minus_mod_eq_mult_div)
  moreover have "k \<le> y div BLKSZ" "y div BLKSZ + 1 \<le> l"
    using y k mult_div_mod_eq [of 16384 y] pos_mod_bound [of 16384 y] pos_mod_sign [of 16384 y] by (simp_all only: BLKSZ_def atLeastLessThan_iff) linarith+
  ultimately show "blk_at (y - y mod BLKSZ) \<subseteq> {s..<e}" using k by simp
qed

lemma play_first:
  assumes "0 < n" and "n mod BLKSZ = 0"
  shows "play [LFree x (n + BLKSZ), LTake x BLKSZ] [] = Some [(x + BLKSZ, n)]"
  using assms by (auto simp: freerange_def coalesce.simps grabrange_def)

text \<open>The arena that \<^verbatim>\<open>loadarena\<close> and \<^verbatim>\<open>loadlog\<close> make of a formatted one.\<close>

definition loaded_arena :: "mem \<Rightarrow> int \<Rightarrow> int \<Rightarrow> int \<Rightarrow> logblk \<Rightarrow> uarena" where
  "loaded_arena spare hdaddr asz n tb =
     \<lparr>ua_free = [(hdaddr + 3 * BLKSZ, asz - 3 * BLKSZ)], ua_size = asz, ua_used = 3 * BLKSZ, ua_reserve = 0, ua_start = hdaddr,
      ua_loghd = word_of_int (hdaddr + 2 * BLKSZ), ua_logtl = Some tb, ua_spare = spare, ua_nlog = n\<rparr>"

lemma formatted_log:
  assumes g: "arena_geometry hdaddr asz" and i: "initarena spare d hdaddr asz = (a, d')"
  shows "\<exists>n tb. loadlog 0 d' (fresh_arena a) (ua_loghd a) = Some (loaded_arena spare hdaddr asz n tb) \<and> lb_logsz tb = 32
     \<and> arena_inv 0 (loaded_arena spare hdaddr asz n tb) d' {}"
proof -
  let ?x = "hdaddr + 2 * BLKSZ"
  let ?ops = "[LFree ?x (asz - 3 * BLKSZ + BLKSZ), LTake ?x BLKSZ]"
  let ?w = "word_of_int ?x :: u64"
  let ?fr = "[(?x + BLKSZ, asz - 3 * BLKSZ)]"
  have g1: "0 \<le> hdaddr" "hdaddr mod BLKSZ = 0" "asz mod BLKSZ = 0" "4 * BLKSZ \<le> asz" "hdaddr + asz + 2 * BLKSZ \<le> 2 ^ 62"
    using g unfolding arena_geometry_def by blast+
  obtain b where b: "d' ?w = Some b" "lb_addr b = ?w" "lb_logsz b = 40" "lb_data b = wr zeros 0 (encs (?ops @ [LSync 0]))"
    and a: "fresh_arena a = \<lparr>ua_free = [], ua_size = asz, ua_used = asz, ua_reserve = 0, ua_start = hdaddr,
      ua_loghd = ?w, ua_logtl = None, ua_spare = spare, ua_nlog = 0\<rparr>" "ua_loghd a = ?w"
    using i g1(4) by (auto simp: initarena_def fresh_arena_def Let_def algebra_simps)
  have x: "?x mod BLKSZ = 0" using g1(2) by (auto simp: mod_eq_0_iff_dvd)
  have "list_all lop_ok (?ops @ [LSync 0])" using g1 blk_256 [OF x] by simp
  then have h: "holds_ops b 0 (?ops @ [LSync 0])" using b(3,4) g1(4) by (simp add: holds_ops_def)
  have al: "(?x + BLKSZ) mod BLKSZ = 0" "(asz - 3 * BLKSZ) mod BLKSZ = 0" "(?x + BLKSZ + (asz - 3 * BLKSZ)) mod BLKSZ = 0"
    using g1(2,3) by (auto simp: mod_eq_0_iff_dvd)
  have pl: "play ?ops [] = Some ?fr" by (rule play_first) (use g1(4) al(2) in auto)
  have sx: "sint ?w = ?x" using g1 by (intro sint_addr) auto
  let ?tb = "b\<lparr>lb_logsz := int (length (encs ?ops))\<rparr>"
  have "ua_free (fresh_arena a) = []" "ua_logtl (fresh_arena a) = None" by (simp_all add: a(1))
  then obtain n where n: "loadlog 0 d' (fresh_arena a) ?w = Some ((fresh_arena a)\<lparr>ua_nlog := n, ua_free := ?fr,
      ua_used := ua_used (fresh_arena a) + nets (ops_of [] @ ?ops), ua_logtl := Some ?tb\<rparr>)"
    using loadlog_path [of d' ?w "[]" ?w b ?ops "[LSync 0]" 0 "fresh_arena a" ?fr] b h pl by auto
  let ?a = "loaded_arena spare hdaddr asz n ?tb"
  have e: "loadlog 0 d' (fresh_arena a) (ua_loghd a) = Some ?a" unfolding a(2) n loaded_arena_def by (simp add: a(1))
  have "space_ok ?a"
    using blockwise_span [OF al(1,3)] g1 unfolding space_ok_def loaded_arena_def by (simp add: tidy_Cons add.commute)
  then have "shape ?a d' {} [] ?tb ?ops"
    using holds_prefix [OF h] b(1,2) g1(4) x sx by (simp add: shape_def loaded_arena_def owned_def clear_def)
  then have "tracks ?a d' {} [] ?tb ?ops" using pl by (simp add: tracks_def loaded_arena_def)
  then have "arena_inv 0 ?a d' {}" unfolding arena_inv_def by (intro exI [of _ "[]"] exI [of _ ?tb] exI [of _ ?ops]) simp
  moreover have "lb_logsz ?tb = 32" using g1(4) by simp
  ultimately show ?thesis using e by blast
qed

section \<open>Properties\<close>

lemma arena_inv_mono: "arena_inv n a d Os \<Longrightarrow> n \<le> m \<Longrightarrow> arena_inv m a d Os"
proof -
  assume i: "arena_inv n a d Os" and m: "n \<le> m"
  have "\<not> stops m op" if "\<not> stops n op" for op using that m by (cases op) auto
  then show "arena_inv m a d Os" using i unfolding arena_inv_def by blast
qed

lemma barrier_saved:
  assumes tr: "tracks a1 d1 Os bs tb tops" and fl: "flushlog a1 d1 = Some d2" and o1: "ops_of bs @ tops = pre @ [LSync g]" "tops \<noteq> []"
  shows "saved d2 bs tb tops pre g (ua_free a1) Os"
proof -
  note sf = shape_facts [OF tracks_facts(1) [OF tr]]
  obtain ops where t: "tops = ops @ [LSync g]" "pre = ops_of bs @ ops"
    using o1 by (cases tops rule: rev_exhaust) auto
  then have "int (length (encs ops)) + 24 \<le> LOGSPC" using sf(3,4) by (simp add: holds_ops_def)
  moreover have "d2 (lb_addr tb) = Some tb" using flush_tracks(3) [OF tr fl] by simp
  ultimately show ?thesis using t sf(3,6) unfolding saved_def by blast
qed

lemma sync_crash_load:
  assumes inv: "arena_inv g a d Os" and g: "0 \<le> g" "g < 2 ^ 54" and ba: "logbarrier ur a d g = Some (Inr (a1, d1))"
    and fl: "flushlog a1 d1 = Some d2" and st: "astep\<^sup>*\<^sup>* (a1, d2, Os) (a2, d3, Os2)"
  shows "\<exists>a3. loadlog g d3 (fresh_arena a2) (ua_loghd a2) = Some a3 \<and> ua_free a3 = ua_free a1 \<and> ua_used a3 = ua_used a1 \<and> arena_inv g a3 d3 Os"
proof -
  obtain bs tb tops where t0: "tracks a d Os bs tb tops" "\<forall>op \<in> set (ops_of bs @ tops). \<not> stops g op"
    using inv unfolding arena_inv_def by blast
  obtain bs1 tb1 tops1 extra where t1: "tracks a1 d1 Os bs1 tb1 tops1" "ops_of bs1 @ tops1 = ops_of bs @ tops @ extra @ [LSync g]" "tops1 \<noteq> []"
    "\<forall>op \<in> set extra. \<forall>n. \<not> stops n op"
    using barrier_tracks [OF t0(1) g ba] by blast
  let ?pre = "ops_of bs @ tops @ extra"
  have o1: "ops_of bs1 @ tops1 = ?pre @ [LSync g]" using t1(2) by simp
  have sv: "saved d2 bs1 tb1 tops1 ?pre g (ua_free a1) Os" by (rule barrier_saved [OF t1(1) fl o1 t1(3)])
  have ns: "\<forall>op \<in> set ?pre. \<not> stops g op" using t0(2) t1(4) by auto
  note f1 = tracks_facts [OF t1(1)]
  have pl: "play ?pre [] = Some (ua_free a1)" "ua_used a1 = ua_size a1 + nets ?pre"
    using f1(2,3) play_append [of ?pre "[LSync g]" "[]"] unfolding o1 by (auto split: bind_splits)
  obtain bs2 tb2 tops2 where t2: "tracks a2 d3 Os2 bs2 tb2 tops2" "keeps d2 bs1 tb1 tops1 d3 bs2 tb2 tops2"
    "ua_size a2 = ua_size a1" "ua_start a2 = ua_start a1"
    using asteps_tracks [OF st flush_tracks(1) [OF t1(1) fl]] by blast
  note sf = shape_facts [OF tracks_facts(1) [OF t2(1)]]
  have "saved d3 bs2 tb2 tops2 ?pre g (ua_free a1) Os" using t2(2) sv unfolding keeps_def by blast
  moreover have "space_ok (a2\<lparr>ua_free := ua_free a1\<rparr>)" "owned (a2\<lparr>ua_free := ua_free a1\<rparr>) Os"
    using f1(5,6) t2(3,4) by (simp_all add: space_ok_def owned_def)
  ultimately show ?thesis using load_saved [OF _ sf(2,5) pl(1) ns] pl(2) t2(3) by metis
qed

text \<open>
  C30: Formatting an arena and loading it (\<^verbatim>\<open>initarena\<close> of \<^verbatim>\<open>ream.c\<close>, \<^verbatim>\<open>loadlog\<close> of \<^verbatim>\<open>blk.c\<close>) works for every
  block-aligned arena of at least four blocks: all blocks behind the headers and the first log
  block are free, three blocks count as used, the read stops in front of the barrier so that
  the next entry goes there, and the arena satisfies the invariant that the allocator needs.
\<close>

theorem formatted_arena_loads:
  assumes "arena_geometry hdaddr asz" and "initarena spare d hdaddr asz = (a, d')"
  shows "\<exists>n tb. loadlog 0 d' (fresh_arena a) (ua_loghd a) = Some (loaded_arena spare hdaddr asz n tb) \<and> lb_logsz tb = 32
     \<and> arena_inv 0 (loaded_arena spare hdaddr asz n tb) d' {}"
  by (rule formatted_log [OF assms])

text \<open>The witness formats an arena of eight blocks.\<close>

definition sample_format :: "uarena \<times> ldisk" where
  "sample_format = initarena zeros Map.empty 16384 131072"

lemma sample_geometry: "arena_geometry 16384 131072"
  by (simp add: arena_geometry_def)

theorem formatted_arena_loads_witness:
  "\<exists>n tb. loadlog 0 (snd sample_format) (fresh_arena (fst sample_format)) (ua_loghd (fst sample_format))
       = Some (loaded_arena zeros 16384 131072 n tb) \<and> lb_logsz tb = 32"
  using formatted_arena_loads [OF sample_geometry, of zeros Map.empty "fst sample_format" "snd sample_format"]
  by (auto simp: sample_format_def)

text \<open>
  C29: A block that the allocator hands out is nobody else's. From any arena that satisfies the
  invariant (a formatted or a recovered one), after any sequence of allocations, releases of owned
  blocks, barriers and flushes, a successful allocation returns an aligned block behind the headers
  of the arena that overlaps no block in use, is gone from the free space and is not the block the
  log is being written to.
\<close>

theorem allocated_blocks_are_fresh:
  assumes "arena_inv n a d Os" and "astep\<^sup>*\<^sup>* (a, d, Os) (a1, d1, Os1)" and "blkalloc_arena ur a1 d1 seq = Some (Inr (a2, d2, b))" and "b \<noteq> - 1"
  shows "b mod BLKSZ = 0 \<and> ua_start a + 2 * BLKSZ \<le> b \<and> b + BLKSZ \<le> ua_start a + ua_size a \<and> (\<forall>c \<in> Os1. blk_at b \<inter> blk_at c = {})
     \<and> blk_at b \<inter> cells (ua_free a2) = {} \<and> (\<forall>tb. ua_logtl a2 = Some tb \<longrightarrow> sint (lb_addr tb) \<noteq> b)"
proof -
  obtain bs tb tops where t0: "tracks a d Os bs tb tops" using assms(1) unfolding arena_inv_def by blast
  obtain bs1 tb1 tops1 where t1: "tracks a1 d1 Os1 bs1 tb1 tops1" "ua_size a1 = ua_size a" "ua_start a1 = ua_start a"
    using asteps_tracks [OF assms(2) t0] by blast
  obtain bs2 tb2 tops2 where t2: "tracks a2 d2 (insert b Os1) bs2 tb2 tops2"
    using alloc_tracks(1) [OF t1(1) assms(3,4)] by blast
  note sf = shape_facts [OF tracks_facts(1) [OF t2]]
  have c: "blk_at b \<subseteq> cells (ua_free a1)" "b mod BLKSZ = 0" using alloc_tracks(2,3) [OF t1(1) assms(3,4)] by blast+
  have "cells (ua_free a1) \<subseteq> area a1" using tracks_facts(5) [OF t1(1)] unfolding space_ok_def by blast
  then have "b \<in> area a1" "b + BLKSZ - 1 \<in> area a1" using c(1) by (auto simp: subset_iff)
  moreover have "blk_at b \<inter> blk_at x = {}" if "x \<in> Os1" for x
    using that tracks_facts(6) [OF t1(1)] c(1) unfolding owned_def by blast
  moreover have "blk_at b \<inter> cells (ua_free a2) = {}" using sf(8) unfolding owned_def by blast
  moreover have "sint (lb_addr tb2) \<noteq> b" using sf(6) unfolding clear_def by auto
  ultimately show ?thesis using c(2) sf(1) t1(2,3) by auto
qed

text \<open>The witness allocates the first free block of the formatted arena, and then another one.\<close>

lemma sample_alloc:
  assumes "lb_logsz tb < 15000" and "0 \<le> lb_logsz tb"
  shows "\<exists>a' tb'. blkalloc_arena True (loaded_arena zeros 16384 131072 n tb) d True = Some (Inr (a', d, 65536)) \<and> ua_free a' = [(81920, 65536)]
     \<and> ua_logtl a' = Some tb' \<and> lb_logsz tb' = lb_logsz tb + 8 \<and> ua_size a' = 131072 \<and> ua_start a' = 16384"
  using assms by (simp add: blkalloc_arena_def blkalloc_lk_def loaded_arena_def logappend_def put_entry_def put64_def Let_def wide_ops)

theorem allocated_blocks_are_fresh_witness:
  "\<exists>a d a1 a2 b. arena_inv 0 a d {} \<and> astep\<^sup>*\<^sup>* (a, d, {}) (a1, d, {65536}) \<and> blkalloc_arena True a1 d True = Some (Inr (a2, d, b)) \<and> b = 81920
     \<and> blk_at b \<inter> blk_at 65536 = {} \<and> blk_at b \<inter> cells (ua_free a2) = {}"
proof -
  obtain n tb where a: "lb_logsz tb = 32" "arena_inv 0 (loaded_arena zeros 16384 131072 n tb) (snd sample_format) {}"
    using formatted_log [OF sample_geometry, of zeros Map.empty "fst sample_format" "snd sample_format"] by (auto simp: sample_format_def)
  let ?a = "loaded_arena zeros 16384 131072 n tb" and ?d = "snd sample_format"
  obtain a1 tb1 where a1: "blkalloc_arena True ?a ?d True = Some (Inr (a1, ?d, 65536))" "ua_free a1 = [(81920, 65536)]" "ua_logtl a1 = Some tb1"
    "lb_logsz tb1 = 40" "ua_size a1 = 131072" "ua_start a1 = 16384"
    using sample_alloc [of tb n ?d] a(1) by auto
  have st: "astep\<^sup>*\<^sup>* (?a, ?d, {}) (a1, ?d, {65536})" using astep.alloc [OF a1(1), of "{}"] by (auto intro: r_into_rtranclp)
  obtain a2 where a2: "blkalloc_arena True a1 ?d True = Some (Inr (a2, ?d, 81920))"
    using a1 by (simp add: blkalloc_arena_def blkalloc_lk_def logappend_def Let_def)
  show ?thesis using allocated_blocks_are_fresh [OF a(2) st a2] a(2) st a2 by (intro exI [of _ ?a] exI [of _ ?d] exI [of _ a1] exI [of _ a2]) simp
qed

text \<open>
  C28: A crash loses nothing. After \<^verbatim>\<open>sync\<close> wrote a barrier of a generation newer than all earlier ones and
  flushed the log, let the server go on in any way (allocate, free, write barriers, flush) and lose
  its memory at any point. Reading the log from the disk up to that generation then ends, and
  restores exactly the free space and the number of used bytes of the moment of the barrier;
  the recovered arena satisfies the invariant again, with the blocks in use at the barrier.
\<close>

theorem crash_restores_arena:
  assumes "arena_inv g a d Os" and "0 \<le> g" "g < 2 ^ 54" and "logbarrier ur a d g = Some (Inr (a1, d1))" and "flushlog a1 d1 = Some d2"
    and "astep\<^sup>*\<^sup>* (a1, d2, Os) (a2, d3, Os2)"
  shows "\<exists>a3. loadlog g d3 (fresh_arena a2) (ua_loghd a2) = Some a3 \<and> ua_free a3 = ua_free a1 \<and> ua_used a3 = ua_used a1 \<and> arena_inv g a3 d3 Os"
  by (rule sync_crash_load [OF assms])

text \<open>The witness loses an allocation that was made after the barrier.\<close>

theorem crash_restores_arena_witness:
  "\<exists>a d a1 d2 a2 d3 a3. arena_inv 1 a d {} \<and> logbarrier False a d 1 = Some (Inr (a1, d)) \<and> flushlog a1 d = Some d2 \<and> astep\<^sup>*\<^sup>* (a1, d2, {}) (a2, d3, {65536})
     \<and> loadlog 1 d3 (fresh_arena a2) (ua_loghd a2) = Some a3 \<and> ua_free a2 = [(81920, 65536)] \<and> ua_free a3 = [(65536, 81920)]"
proof -
  obtain n tb where a: "lb_logsz tb = 32" "arena_inv 0 (loaded_arena zeros 16384 131072 n tb) (snd sample_format) {}"
    using formatted_log [OF sample_geometry, of zeros Map.empty "fst sample_format" "snd sample_format"] by (auto simp: sample_format_def)
  let ?a = "loaded_arena zeros 16384 131072 n tb" and ?d = "snd sample_format"
  have inv: "arena_inv 1 ?a ?d {}" by (rule arena_inv_mono [OF a(2)]) simp
  define tb1 where "tb1 = put_entry tb 256 0 LogSync"
  have t1: "lb_logsz tb1 = 40" using a(1) by (simp add: tb1_def put_entry_def put64_def Let_def wide_ops)
  have b: "logbarrier False ?a ?d 1 = Some (Inr (loaded_arena zeros 16384 131072 n tb1, ?d))"
    using a(1) by (simp add: logbarrier_def logappend_def loaded_arena_def tb1_def)
  obtain d2 where f: "flushlog (loaded_arena zeros 16384 131072 n tb1) ?d = Some d2" by (simp add: flushlog_def loaded_arena_def)
  obtain a2 where a2: "blkalloc_arena True (loaded_arena zeros 16384 131072 n tb1) d2 True = Some (Inr (a2, d2, 65536))" "ua_free a2 = [(81920, 65536)]"
    using sample_alloc [of tb1 n d2] t1 by auto
  have st: "astep\<^sup>*\<^sup>* (loaded_arena zeros 16384 131072 n tb1, d2, {}) (a2, d2, {65536})"
    using astep.alloc [OF a2(1), of "{}"] by (auto intro: r_into_rtranclp)
  obtain a3 where a3: "loadlog 1 d2 (fresh_arena a2) (ua_loghd a2) = Some a3" "ua_free a3 = ua_free (loaded_arena zeros 16384 131072 n tb1)"
    using crash_restores_arena [OF inv _ _ b f st] by auto
  then have "ua_free a3 = [(65536, 81920)]" by (simp add: loaded_arena_def)
  then show ?thesis using inv b f st a2(2) a3(1) by blast
qed

end
