(* ===== verification/Nodes.thy ===== *)
theory Nodes
  imports Btree
begin

text \<open>
  The nodes of the upstream server's B-epsilon tree (\<^verbatim>\<open>src/src/tree.c\<close>): sizes, messages, and the
  rebuilding of a leaf and of a pivot when messages move down. A node is the list of its entries
  and the list of its messages; \<^verbatim>\<open>nval\<close>, \<^verbatim>\<open>valsz\<close>, \<^verbatim>\<open>nbuf\<close> and \<^verbatim>\<open>bufsz\<close> are computed from them, as \<^verbatim>\<open>setval\<close> and
  \<^verbatim>\<open>setmsg\<close> keep them. A failed assertion, \<^verbatim>\<open>fatal\<close>, \<^verbatim>\<open>broke\<close> and a read of an uninitialised variable are
  \<open>None\<close>, as is a message that would be written over the offset table of the buffer.
\<close>

section \<open>Sizes\<close>

record unode =
  un_type :: int
  un_bp :: bptr
  un_vals :: "kvp list"
  un_msgs :: "gmsg list"

definition MSGMAX :: nat where [simp]: "MSGMAX = 1 + KVMAX"
definition KPMAX :: int where [simp]: "KPMAX = int KEYMAX + int PTRSZ"

definition ORELINK :: byte where [simp]: "ORELINK = 6"
definition OREPREV :: byte where [simp]: "OREPREV = 7"

definition umsgsz :: "gmsg \<Rightarrow> int" where
  "umsgsz m = 2 + 1 + 2 + int (length (m_k m)) + 2 + int (length (m_v m))"

definition uvalsz :: "kvp \<Rightarrow> int" where
  "uvalsz kv = 2 + 2 + int (length (kv_k kv)) + 2 + int (length (kv_v kv))"

abbreviation un_nval :: "unode \<Rightarrow> int" where "un_nval b \<equiv> int (length (un_vals b))"
abbreviation un_nbuf :: "unode \<Rightarrow> int" where "un_nbuf b \<equiv> int (length (un_msgs b))"

definition un_valsz :: "unode \<Rightarrow> int" where
  "un_valsz b = (\<Sum>kv \<leftarrow> un_vals b. uvalsz kv - 2)"

definition un_bufsz :: "unode \<Rightarrow> int" where
  "un_bufsz b = (\<Sum>m \<leftarrow> un_msgs b. umsgsz m - 2)"

definition ublkfill :: "unode \<Rightarrow> int option" where
  "ublkfill b =
     (if un_type b = TPIVOT then Some (2 * un_nbuf b + un_bufsz b + 2 * un_nval b + un_valsz b)
      else if un_type b = TLEAF then Some (2 * un_nval b + un_valsz b)
      else None)"

definition ubuffill :: "unode \<Rightarrow> int option" where
  "ubuffill b = (if un_type b = TPIVOT then Some (2 * un_nbuf b + un_bufsz b) else None)"

definition filledbuf :: "unode \<Rightarrow> int \<Rightarrow> int \<Rightarrow> bool option" where
  "filledbuf b nmsg needed = (if un_type b = TPIVOT then Some (2 * (un_nbuf b + nmsg) + un_bufsz b + needed > BUFSPC) else None)"

definition filledleaf :: "unode \<Rightarrow> int \<Rightarrow> bool option" where
  "filledleaf b needed = (if un_type b = TLEAF then Some (2 * (un_nval b + 1) + un_valsz b + needed > LEAFSPC) else None)"

definition filledpiv :: "unode \<Rightarrow> int \<Rightarrow> bool option" where
  "filledpiv b reserve = (if un_type b = TPIVOT then Some (2 * (un_nval b + 1) + un_valsz b + reserve * KPMAX > PIVSPC) else None)"

section \<open>Entries and messages\<close>

definition ugetval :: "unode \<Rightarrow> int \<Rightarrow> kvp option" where
  "ugetval b i = (if 0 \<le> i \<and> i < un_nval b then Some (un_vals b ! nat i) else None)"

definition ugetmsg :: "unode \<Rightarrow> int \<Rightarrow> gmsg option" where
  "ugetmsg b i = (if un_type b = TPIVOT \<and> 0 \<le> i \<and> i < un_nbuf b then Some (un_msgs b ! nat i) else None)"

definition usetval :: "unode \<Rightarrow> kvp \<Rightarrow> unode option" where
  "usetval b kv =
     (let spc = (if un_type b = TLEAF then LEAFSPC else PIVSPC); b' = b\<lparr>un_vals := un_vals b @ [kv]\<rparr>; off = spc - un_valsz b'
      in if 2 * (un_nval b + 1) + un_valsz b' \<le> spc \<and> 2 * (un_nval b + 1) \<le> off then Some b' else None)"

definition usetmsg :: "unode \<Rightarrow> gmsg \<Rightarrow> unode option" where
  "usetmsg b m =
     (let b' = b\<lparr>un_msgs := un_msgs b @ [m]\<rparr>
      in if un_type b = TPIVOT \<and> 2 * un_nbuf b' + un_bufsz b' \<le> BUFSPC then Some b' else None)"

definition usetptr :: "unode \<Rightarrow> key \<Rightarrow> bptr \<Rightarrow> int \<Rightarrow> unode option" where
  "usetptr b k bp fill = usetval b \<lparr>kv_k = k, kv_v = packbp bp @ pack16 fill\<rparr>"

definition ugetptr :: "kvp \<Rightarrow> (bptr \<times> int) option" where
  "ugetptr kv =
     (if length (kv_v kv) = PTRSZ + 2 then map_option (\<lambda>bp. (bp, unpack16 (drop PTRSZ (kv_v kv)))) (unpackbp (kv_v kv))
      else None)"

section \<open>Applying a message\<close>

text \<open>The name of a directory key must fill the key, and the value must be exactly the packed fields.\<close>

definition ukv2dir :: "kvp \<Rightarrow> xdir option" where
  "ukv2dir kv =
     (case unpackstr (drop 9 (kv_k kv)) of
        Some (nm, []) \<Rightarrow> if length (kv_v kv) = 61 then kv2dir kv else None
      | _ \<Rightarrow> None)"

definition ustatupdate :: "kvp \<Rightarrow> gmsg \<Rightarrow> kvp option" where
  "ustatupdate kv m = do {
     d \<leftarrow> ukv2dir kv;
     f \<leftarrow> (case m_v m of [] \<Rightarrow> None | f # _ \<Rightarrow> Some f);
     let d = d\<lparr>xqid := (xqid d)\<lparr>qvers := qvers (xqid d) + 1\<rparr>\<rparr>;
     x \<leftarrow> take_fld (bit f 0) 8 (\<lambda>bs d. d\<lparr>xlength := unpack64 bs\<rparr>) (drop 1 (m_v m), d);
     x \<leftarrow> take_fld (bit f 1) 4 (\<lambda>bs d. d\<lparr>xmode := unpack32 bs, xqid := (xqid d)\<lparr>qtype := ucast (drop_bit 24 (unpack32 bs))\<rparr>\<rparr>) x;
     x \<leftarrow> take_fld (bit f 2) 8 (\<lambda>bs d. d\<lparr>xmtime := unpack64 bs\<rparr>) x;
     x \<leftarrow> take_fld (bit f 3) 8 (\<lambda>bs d. d\<lparr>xatime := unpack64 bs\<rparr>) x;
     x \<leftarrow> take_fld (bit f 4) 4 (\<lambda>bs d. d\<lparr>xuid := unpack32 bs\<rparr>) x;
     x \<leftarrow> take_fld (bit f 5) 4 (\<lambda>bs d. d\<lparr>xgid := unpack32 bs\<rparr>) x;
     (v, d) \<leftarrow> take_fld (bit f 6) 4 (\<lambda>bs d. d\<lparr>xmuid := unpack32 bs\<rparr>) x;
     if v \<noteq> [] then None
     else Some (kv\<lparr>kv_v := packdval_bytes d\<rparr>)
   }"

text \<open>
  The relinking of a snapshot: the new neighbour and the signed changes of the two counters. The
  counters are \<^verbatim>\<open>int\<close>s that must stay non-negative; \<^verbatim>\<open>*p\<close> is a signed character.
\<close>

definition urelink :: "kvp \<Rightarrow> gmsg \<Rightarrow> kvp option" where
  "urelink kv m = do {
     t \<leftarrow> unpacktree (kv_v kv);
     if length (m_v m) \<noteq> 10 then None
     else (let x = unpack64 (take 8 (m_v m));
               t = (if m_op m = ORELINK then t\<lparr>t_succ := x\<rparr> else t\<lparr>t_pred := x\<rparr>);
               nlbl = sint (t_nlbl t) + sint (m_v m ! 8); nref = sint (t_nref t) + sint (m_v m ! 9)
           in if nlbl < 0 \<or> nref < 0 then None
              else Some (kv\<lparr>kv_v := packtree (t\<lparr>t_nlbl := word_of_int nlbl, t_nref := word_of_int nref\<rparr>) @ drop TREESZ (kv_v kv)\<rparr>))
   }"

definition msg_kvp :: "gmsg \<Rightarrow> kvp" where
  "msg_kvp m = \<lparr>kv_k = m_k m, kv_v = m_v m\<rparr>"

definition uapply :: "kvp \<Rightarrow> gmsg \<Rightarrow> (bool \<times> kvp) option" where
  "uapply kv m =
     (if m_op m = ODELETE then if keycmp (kv_k kv) (m_k m) = 0 then Some (False, kv) else None
      else if m_op m = OCLEARB \<or> m_op m = OCLOBBER then Some (False, kv)
      else if m_op m = OINSERT then map_option (Pair True) (cpkvp MSGMAX (msg_kvp m))
      else if m_op m = OWSTAT then
        if keycmp (kv_k kv) (m_k m) = 0 then map_option (Pair True) (ustatupdate kv m) else None
      else if m_op m = ORELINK \<or> m_op m = OREPREV then map_option (Pair True) (urelink kv m)
      else None)"

section \<open>Paths\<close>

datatype pop = POmod | POrot | POsplit | POmerge

record upath =
  up_ins :: "gmsg list option"
  up_b :: "unode option"
  up_idx :: int
  up_lo :: int
  up_hi :: int
  up_sz :: int
  up_op :: pop
  up_nl :: "unode option"
  up_nr :: "unode option"
  up_midx :: int
  up_npull :: int
  up_pullsz :: int

definition up_msg :: "upath \<Rightarrow> int \<Rightarrow> gmsg option" where
  "up_msg p i =
     (case up_ins p of
        Some ms \<Rightarrow> if 0 \<le> i \<and> i < int (length ms) then Some (ms ! nat i) else None
      | None \<Rightarrow> Option.bind (up_b p) (\<lambda>b. ugetmsg b i))"

text \<open>The result is the comparison, the message read (or the one before) and the flag \<^verbatim>\<open>full\<close>.\<close>

definition pullmsg :: "upath \<Rightarrow> int \<Rightarrow> key option \<Rightarrow> gmsg option \<Rightarrow> bool \<Rightarrow> int \<Rightarrow> (int \<times> gmsg option \<times> bool) option" where
  "pullmsg p i v m full spc =
     (if i < 0 \<or> i \<ge> up_hi p \<or> full then Some (- 1, m, full)
      else do {
        m \<leftarrow> up_msg p i;
        Some (if umsgsz m \<le> spc then (case v of None \<Rightarrow> 0 | Some k \<Rightarrow> keycmp k (m_k m), Some m, full)
              else (- 1, Some m, True))
      })"

text \<open>The pointer of a data block that an entry loses.\<close>

definition dropped_ptr :: "kvp \<Rightarrow> gmsg \<Rightarrow> bptr list option" where
  "dropped_ptr v m =
     (if kv_k v \<noteq> [] \<and> hd (kv_k v) = KDAT \<and> m_op m \<in> {OCLEARB, OINSERT, ODELETE}
      then map_option (\<lambda>bp. [bp]) (unpackbp (kv_v v)) else Some [])"

definition setb :: "bptr \<Rightarrow> unode \<Rightarrow> unode option" where
  "setb bp b = (if un_nval b = 0 then None else Some (b\<lparr>un_bp := bp\<rparr>))"

section \<open>Rebuilding a leaf\<close>

text \<open>
  The variables of \<^verbatim>\<open>updateleaf\<close> that live across its loops. \<open>ls_m\<close> is \<^verbatim>\<open>m\<close>, which is not initialised at first;
  \<open>ls_freed\<close> are the pointers given to \<^verbatim>\<open>freebp\<close>.
\<close>

record lstate =
  ls_i :: int
  ls_j :: int
  ls_full :: bool
  ls_spc :: int
  ls_pullsz :: int
  ls_m :: "gmsg option"
  ls_n :: unode
  ls_freed :: "bptr list"

text \<open>The loop at \<^verbatim>\<open>Copyloop\<close>: the messages with the key of \<open>v\<close>.\<close>

function copyloop :: "upath \<Rightarrow> bool \<Rightarrow> kvp \<Rightarrow> lstate \<Rightarrow> (bool \<times> kvp \<times> lstate) option" where
  "copyloop up ok v s =
     (if ls_j s < up_hi up then
        Option.bind (pullmsg up (ls_j s) (Some (kv_k v)) (ls_m s) (ls_full s) (ls_spc s)) (\<lambda>(c, m, full).
          if c \<noteq> 0 then Some (ok, v, s\<lparr>ls_m := m, ls_full := full\<rparr>)
          else Option.bind m (\<lambda>m.
            Option.bind (if ok then dropped_ptr v m else Some []) (\<lambda>fr.
              Option.bind (uapply v m) (\<lambda>(ok, v).
                copyloop up ok v (s\<lparr>ls_j := ls_j s + 1, ls_full := full, ls_pullsz := ls_pullsz s + umsgsz m, ls_m := Some m,
                  ls_freed := ls_freed s @ fr\<rparr>)))))
      else Some (ok, v, s))"
  by pat_completeness auto
termination
  by (relation "measure (\<lambda>(up, ok, v, s). nat (up_hi up - ls_j s))") auto

declare copyloop.simps [simp del]

definition copied :: "upath \<Rightarrow> bool \<Rightarrow> kvp \<Rightarrow> lstate \<Rightarrow> lstate option" where
  "copied up ok v s = do {
     (ok, v, s) \<leftarrow> copyloop up ok v s;
     n \<leftarrow> (if ok then usetval (ls_n s) v else Some (ls_n s));
     Some (s\<lparr>ls_n := n\<rparr>)
   }"

text \<open>The three cases of the main loop: copy a value, merge a value with messages, insert messages.\<close>

definition leaf_copy :: "kvp \<Rightarrow> lstate \<Rightarrow> lstate option" where
  "leaf_copy v s = map_option (\<lambda>n. s\<lparr>ls_i := ls_i s + 1, ls_n := n\<rparr>) (usetval (ls_n s) v)"

definition leaf_apply :: "upath \<Rightarrow> kvp \<Rightarrow> lstate \<Rightarrow> lstate option" where
  "leaf_apply up v s = do {
     m \<leftarrow> ls_m s;
     v \<leftarrow> cpkvp MSGMAX v;
     fr \<leftarrow> dropped_ptr v m;
     (ok, v) \<leftarrow> uapply v m;
     copied up ok v (s\<lparr>ls_i := ls_i s + 1, ls_j := ls_j s + 1, ls_freed := ls_freed s @ fr\<rparr>)
   }"

definition leaf_insert :: "upath \<Rightarrow> lstate \<Rightarrow> lstate option" where
  "leaf_insert up s = do {
     m \<leftarrow> ls_m s;
     v \<leftarrow> cpkvp MSGMAX (msg_kvp m);
     if m_op m \<noteq> OCLEARB \<and> m_op m \<noteq> OCLOBBER
     then copied up True v (s\<lparr>ls_j := ls_j s + 1, ls_spc := ls_spc s - uvalsz (msg_kvp m), ls_pullsz := ls_pullsz s + umsgsz m\<rparr>)
     else copied up False v (s\<lparr>ls_j := ls_j s + 1\<rparr>)
   }"

definition leaf_step :: "upath \<Rightarrow> unode \<Rightarrow> lstate \<Rightarrow> lstate option" where
  "leaf_step up b s =
     (if ls_i s \<ge> un_nval b then leaf_insert up s
      else do {
        v \<leftarrow> ugetval b (ls_i s);
        if ls_j s < up_hi up then do {
          m \<leftarrow> up_msg up (ls_j s);
          let s = s\<lparr>ls_m := Some m\<rparr>;
          if umsgsz m \<le> ls_spc s then
            (let c = keycmp (kv_k v) (m_k m)
             in if c = - 1 then leaf_copy v s else if c = 0 then leaf_apply up v s else leaf_insert up s)
          else leaf_copy v (s\<lparr>ls_full := True\<rparr>)
        }
        else leaf_copy v s
      })"

lemma copyloop_j: "copyloop up ok v s = Some (ok', v', s') \<Longrightarrow> ls_j s \<le> ls_j s' \<and> ls_i s' = ls_i s"
proof (induction up ok v s rule: copyloop.induct)
  case (1 up ok v s)
  show ?case
    using "1.prems" "1.IH" unfolding copyloop.simps [of up ok v s]
    by (fastforce split: if_splits bind_splits)
qed

lemma copied_j: "copied up ok v s = Some s' \<Longrightarrow> ls_j s \<le> ls_j s' \<and> ls_i s' = ls_i s"
  unfolding copied_def by (auto dest!: copyloop_j split: bind_splits if_splits)

lemma leaf_step_progress:
  assumes "leaf_step up b s = Some s'" and "ls_i s < un_nval b \<or> ls_j s < up_hi up"
  shows "nat (un_nval b - ls_i s') + nat (up_hi up - ls_j s') < nat (un_nval b - ls_i s) + nat (up_hi up - ls_j s)"
  using assms unfolding leaf_step_def leaf_copy_def leaf_apply_def leaf_insert_def Let_def
  by (auto dest!: copied_j split: bind_splits if_splits)

function leaf_loop :: "upath \<Rightarrow> unode \<Rightarrow> lstate \<Rightarrow> lstate option" where
  "leaf_loop up b s =
     (if ls_i s < un_nval b \<or> ls_j s < up_hi up
      then Option.bind (leaf_step up b s) (\<lambda>s. leaf_loop up b s) else Some s)"
  by pat_completeness auto
termination
  by (relation "measure (\<lambda>(up, b, s). nat (un_nval b - ls_i s) + nat (up_hi up - ls_j s))") (auto dest: leaf_step_progress)

declare leaf_loop.simps [simp del]

definition newnode :: "int \<Rightarrow> unode" where
  "newnode ty = \<lparr>un_type = ty, un_bp = \<lparr>bp_addr = - 1, bp_hash = - 1, bp_gen = - 1\<rparr>, un_vals = [], un_msgs = []\<rparr>"

text \<open>\<open>bp\<close> is the pointer that the allocator and \<^verbatim>\<open>finalize\<close> give to the new block.\<close>

definition updateleaf :: "bptr \<Rightarrow> upath \<Rightarrow> upath \<Rightarrow> (upath \<times> bptr list) option" where
  "updateleaf bp up p = do {
     b \<leftarrow> up_b p;
     fill \<leftarrow> ublkfill b;
     if up_lo up < 0 then None
     else do {
       s \<leftarrow> leaf_loop up b \<lparr>ls_i = 0, ls_j = up_lo up, ls_full = False, ls_spc = LEAFSPC - fill, ls_pullsz = up_pullsz p, ls_m = None,
         ls_n = newnode (un_type b), ls_freed = []\<rparr>;
       Some (p\<lparr>up_pullsz := ls_pullsz s, up_npull := ls_j s - up_lo up, up_op := POmod, up_nl := setb bp (ls_n s)\<rparr>, ls_freed s)
     }
   }"

end
