(* ===== verification/Leafspec.thy ===== *)
theory Leafspec
  imports Nodes Upsert
begin

text \<open>
  What \<^verbatim>\<open>updateleaf\<close> of \<^verbatim>\<open>src/src/tree.c\<close> makes of a leaf and a segment of messages: for each key the
  messages take effect one after the other, and the new leaf is sorted. It always returns
  when \<^verbatim>\<open>filledleaf\<close> is false, which is when \<^verbatim>\<open>flush\<close> calls it.
\<close>

section \<open>The effect of messages on one key\<close>

text \<open>The messages are applied in order; the last component collects the data blocks that are given up.\<close>

fun run_msgs :: "bool \<Rightarrow> kvp \<Rightarrow> gmsg list \<Rightarrow> (bool \<times> kvp \<times> bptr list) option" where
  "run_msgs ok v [] = Some (ok, v, [])"
| "run_msgs ok v (m # ms) = do {
     fr \<leftarrow> (if ok then dropped_ptr v m else Some []);
     (ok, v) \<leftarrow> uapply v m;
     (ok, v, frs) \<leftarrow> run_msgs ok v ms;
     Some (ok, v, fr @ frs)
   }"

definition kept :: "bool \<times> kvp \<times> bptr list \<Rightarrow> kvp list \<times> bptr list" where
  "kept r = (case r of (ok, v, frs) \<Rightarrow> (if ok then [v] else [], frs))"

text \<open>A key with the value it had, if any, and the messages for it: the value afterwards, if any.\<close>

fun settle :: "kvp list \<Rightarrow> gmsg list \<Rightarrow> (kvp list \<times> bptr list) option" where
  "settle vs [] = Some (vs, [])"
| "settle [] (m # ms) = do {
     v \<leftarrow> cpkvp MSGMAX (msg_kvp m);
     map_option kept (run_msgs (m_op m \<noteq> OCLEARB \<and> m_op m \<noteq> OCLOBBER) v ms)
   }"
| "settle (v # vs) (m # ms) = do {
     v \<leftarrow> cpkvp MSGMAX v;
     map_option kept (run_msgs True v (m # ms))
   }"

definition with_key :: "kvp list \<Rightarrow> key \<Rightarrow> kvp list" where
  "with_key vs k = filter (\<lambda>v. kv_k v = k) vs"

definition msgs_of :: "gmsg list \<Rightarrow> key \<Rightarrow> gmsg list" where
  "msgs_of ms k = filter (\<lambda>m. m_k m = k) ms"

section \<open>The reference merge\<close>

definition joined :: "(kvp list \<times> bptr list) option \<Rightarrow> (kvp list \<times> bptr list) option \<Rightarrow> (kvp list \<times> bptr list) option" where
  "joined x y = do { (a, f) \<leftarrow> x; (b, g) \<leftarrow> y; Some (a @ b, f @ g) }"

function leaf_merge :: "kvp list \<Rightarrow> gmsg list \<Rightarrow> (kvp list \<times> bptr list) option" where
  "leaf_merge vs [] = Some (vs, [])"
| "leaf_merge [] (m # ms) =
     joined (settle [] (m # takeWhile (\<lambda>x. m_k x = m_k m) ms)) (leaf_merge [] (dropWhile (\<lambda>x. m_k x = m_k m) ms))"
| "leaf_merge (v # vs) (m # ms) =
     (if kv_k v < m_k m then joined (Some ([v], [])) (leaf_merge vs (m # ms))
      else if kv_k v = m_k m then
        joined (settle [v] (m # takeWhile (\<lambda>x. m_k x = m_k m) ms)) (leaf_merge vs (dropWhile (\<lambda>x. m_k x = m_k m) ms))
      else joined (settle [] (m # takeWhile (\<lambda>x. m_k x = m_k m) ms)) (leaf_merge (v # vs) (dropWhile (\<lambda>x. m_k x = m_k m) ms)))"
  by pat_completeness auto
termination
  by (relation "measure (\<lambda>(vs, ms). length vs + length ms)") (auto simp: length_dropWhile_le less_Suc_eq_le intro: le_imp_less_Suc add_mono order_trans [OF length_dropWhile_le])

section \<open>Keys and sizes\<close>

abbreviation vals_room :: "kvp list \<Rightarrow> int" where
  "vals_room vs \<equiv> (\<Sum>v \<leftarrow> vs. uvalsz v)"

abbreviation msgs_room :: "gmsg list \<Rightarrow> int" where
  "msgs_room ms \<equiv> (\<Sum>m \<leftarrow> ms. umsgsz m)"

lemma umsgsz_pos: "7 \<le> umsgsz m" "6 \<le> uvalsz v"
  by (simp_all add: umsgsz_def uvalsz_def)

lemma msgs_room_nonneg: "0 \<le> msgs_room ms"
  using umsgsz_pos(1) by (intro sum_list_nonneg) (force intro: order_trans [of 0 7])

lemma vals_room_nonneg: "0 \<le> vals_room vs"
  using umsgsz_pos(2) by (intro sum_list_nonneg) (force intro: order_trans [of 0 6])

lemma ustatupdate_facts: "ustatupdate kv m = Some kv' \<Longrightarrow> kv_k kv' = kv_k kv \<and> length (kv_v kv') = length (kv_v kv)"
  by (auto simp: ustatupdate_def ukv2dir_def Let_def split: bind_splits if_splits option.splits prod.splits list.splits)

lemma urelink_facts: "urelink kv m = Some kv' \<Longrightarrow> kv_k kv' = kv_k kv \<and> length (kv_v kv') = length (kv_v kv)"
  by (auto simp: urelink_def unpacktree_def Let_def split: bind_splits if_splits)

lemma uapply_facts:
  assumes "uapply v m = Some (ok, v')" and "m_k m = kv_k v"
  shows "kv_k v' = kv_k v" "uvalsz v' \<le> uvalsz v + umsgsz m"
proof -
  have "kv_k v' = kv_k v \<and> uvalsz v' \<le> uvalsz v + umsgsz m"
    using assms umsgsz_pos(1) [of m] umsgsz_pos(2) [of v]
    by (auto simp: uapply_def cpkvp_def msg_kvp_def uvalsz_def umsgsz_def split: if_splits dest!: ustatupdate_facts urelink_facts)
  then show "kv_k v' = kv_k v" "uvalsz v' \<le> uvalsz v + umsgsz m" by blast+
qed

lemma run_msgs_facts:
  "run_msgs ok v ms = Some (ok', v', fr) \<Longrightarrow> \<forall>m \<in> set ms. m_k m = kv_k v \<Longrightarrow> kv_k v' = kv_k v \<and> uvalsz v' \<le> uvalsz v + msgs_room ms"
proof (induction ms arbitrary: ok v fr)
  case (Cons m ms)
  then obtain ok1 v1 fr1 where 1: "uapply v m = Some (ok1, v1)" "run_msgs ok1 v1 ms = Some (ok', v', fr1)"
    by (auto split: bind_splits)
  note u = uapply_facts [OF 1(1)]
  have "kv_k v' = kv_k v1 \<and> uvalsz v' \<le> uvalsz v1 + msgs_room ms"
    using Cons.IH [OF 1(2)] Cons.prems(2) u(1) by simp
  then show ?case using u Cons.prems(2) by simp
qed simp

lemma settle_facts:
  assumes "settle vs ms = Some (out, fr)" and "length vs \<le> 1" and "\<forall>m \<in> set ms. m_k m = k" and "\<forall>v \<in> set vs. kv_k v = k"
  shows "vals_room out \<le> vals_room vs + msgs_room ms \<and> length out \<le> 1 \<and> (\<forall>v \<in> set out. kv_k v = k)"
proof (cases ms)
  case Nil
  then show ?thesis using assms by simp
next
  case (Cons m ms')
  show ?thesis
  proof (cases vs)
    case Nil
    then obtain ok ok' v' where r: "run_msgs ok (msg_kvp m) ms' = Some (ok', v', fr)" "out = (if ok' then [v'] else [])"
      using assms(1) Cons by (auto simp: cpkvp_def kept_def split: bind_splits if_splits)
    have "kv_k (msg_kvp m) = k" "uvalsz (msg_kvp m) \<le> umsgsz m" using assms(3) Cons by (simp_all add: msg_kvp_def uvalsz_def umsgsz_def)
    then show ?thesis using run_msgs_facts [OF r(1)] r(2) assms(3) Cons Nil msgs_room_nonneg [of ms'] umsgsz_pos(1) [of m] by auto
  next
    case (Cons v ws)
    then obtain ok' v' where r: "run_msgs True v ms = Some (ok', v', fr)" "out = (if ok' then [v'] else [])"
      using assms(1) \<open>ms = m # ms'\<close> by (auto simp: cpkvp_def kept_def split: bind_splits if_splits simp del: run_msgs.simps)
    then show ?thesis using run_msgs_facts [OF r(1)] assms(2-4) Cons msgs_room_nonneg [of ms] umsgsz_pos(2) [of v] by auto
  qed
qed

section \<open>The loops\<close>

text \<open>The messages of a path from \<open>j\<close> on.\<close>

fun feeds :: "upath \<Rightarrow> int \<Rightarrow> gmsg list \<Rightarrow> bool" where
  "feeds up j [] \<longleftrightarrow> j = up_hi up"
| "feeds up j (m # ms) \<longleftrightarrow> 0 \<le> j \<and> j < up_hi up \<and> up_msg up j = Some m \<and> feeds up (j + 1) ms"

lemma pullmsg_next:
  assumes "feeds up j (m # ms)" and "umsgsz m \<le> spc"
  shows "pullmsg up j (Some k) m0 False spc = Some (keycmp k (m_k m), Some m, False)"
  using assms by (simp add: pullmsg_def)

lemma copyloop_runs:
  "feeds up (ls_j s) (ms1 @ ms2) \<Longrightarrow> \<forall>m \<in> set ms1. m_k m = kv_k v \<Longrightarrow> ms2 = [] \<or> m_k (hd ms2) \<noteq> kv_k v \<Longrightarrow>
     \<forall>m \<in> set (ms1 @ ms2). umsgsz m \<le> ls_spc s \<Longrightarrow> \<not> ls_full s \<Longrightarrow> run_msgs ok v ms1 = Some (ok', v', fr) \<Longrightarrow>
     \<exists>m' z. copyloop up ok v s = Some (ok', v', s\<lparr>ls_j := ls_j s + int (length ms1), ls_m := m', ls_pullsz := z, ls_freed := ls_freed s @ fr\<rparr>)
       \<and> (ms2 \<noteq> [] \<longrightarrow> m' = Some (hd ms2)) \<and> z = ls_pullsz s + msgs_room ms1"
proof (induction ms1 arbitrary: s ok v fr)
  case Nil
  show ?case
  proof (cases ms2)
    case Nil
    then have "copyloop up ok v s = Some (ok, v, s)" using Nil.prems(1) by (simp add: copyloop.simps [of up ok v s])
    then show ?thesis using Nil.prems(6) by (intro exI [of _ "ls_m s"] exI [of _ "ls_pullsz s"]) (cases s, simp add: Nil)
  next
    case (Cons m ms)
    then have "pullmsg up (ls_j s) (Some (kv_k v)) (ls_m s) False (ls_spc s) = Some (keycmp (kv_k v) (m_k m), Some m, False)"
      using Nil.prems by (intro pullmsg_next) auto
    moreover have "keycmp (kv_k v) (m_k m) \<noteq> 0" using Nil.prems(3) Cons by (auto simp: keycmp_iff)
    ultimately have "copyloop up ok v s = Some (ok, v, s\<lparr>ls_m := Some m, ls_full := False\<rparr>)"
      using Nil.prems(1,5) Cons by (simp add: copyloop.simps [of up ok v s])
    then show ?thesis using Nil.prems(5,6) Cons by (intro exI [of _ "Some m"] exI [of _ "ls_pullsz s"]) (cases s, simp)
  qed
next
  case (Cons m ms1)
  obtain fr1 ok1 v1 fr2 where r: "(if ok then dropped_ptr v m else Some []) = Some fr1" "uapply v m = Some (ok1, v1)"
    "run_msgs ok1 v1 ms1 = Some (ok', v', fr2)" "fr = fr1 @ fr2"
    using Cons.prems(6) by (auto split: bind_splits)
  have k: "m_k m = kv_k v" "kv_k v1 = kv_k v" using uapply_facts(1) [OF r(2)] Cons.prems(2) by auto
  let ?s = "s\<lparr>ls_j := ls_j s + 1, ls_full := False, ls_pullsz := ls_pullsz s + umsgsz m, ls_m := Some m, ls_freed := ls_freed s @ fr1\<rparr>"
  have "pullmsg up (ls_j s) (Some (kv_k v)) (ls_m s) False (ls_spc s) = Some (0, Some m, False)"
    using pullmsg_next [of up "ls_j s" m "ms1 @ ms2" "ls_spc s" "kv_k v" "ls_m s"] Cons.prems(1,4) k(1) by (simp add: keycmp_iff)
  then have e: "copyloop up ok v s = copyloop up ok1 v1 ?s"
    using Cons.prems(1,5) r(1,2) by (simp add: copyloop.simps [of up ok v s])
  obtain m' z where "copyloop up ok1 v1 ?s = Some (ok', v', ?s\<lparr>ls_j := ls_j ?s + int (length ms1), ls_m := m', ls_pullsz := z, ls_freed := ls_freed ?s @ fr2\<rparr>)"
    "ms2 \<noteq> [] \<longrightarrow> m' = Some (hd ms2)" "z = ls_pullsz ?s + msgs_room ms1"
    using Cons.IH [of ?s v1 ok1 fr2] Cons.prems r(3) k by auto
  then show ?case unfolding e using Cons.prems(5) r(4) by (intro exI [of _ m'] exI [of _ z]) (simp add: algebra_simps)
qed

text \<open>Where the loop stands: values and messages to come, and the room they may take.\<close>

definition leaf_at :: "upath \<Rightarrow> unode \<Rightarrow> lstate \<Rightarrow> kvp list \<Rightarrow> gmsg list \<Rightarrow> bool" where
  "leaf_at up b s vs ms \<longleftrightarrow> 0 \<le> ls_i s \<and> ls_i s \<le> un_nval b \<and> vs = drop (nat (ls_i s)) (un_vals b) \<and> feeds up (ls_j s) ms \<and> \<not> ls_full s
     \<and> msgs_room ms \<le> ls_spc s \<and> un_type (ls_n s) = TLEAF
     \<and> vals_room (un_vals (ls_n s)) + vals_room vs + msgs_room ms \<le> LEAFSPC \<and> (vs = [] \<and> ms \<noteq> [] \<longrightarrow> ls_m s = Some (hd ms))"

lemma un_room: "2 * un_nval b + un_valsz b = vals_room (un_vals b)"
proof -
  have "2 * int (length vs) + (\<Sum>kv \<leftarrow> vs. uvalsz kv - 2) = vals_room vs" for vs by (induction vs) auto
  then show ?thesis by (simp add: un_valsz_def)
qed

lemma usetval_leaf:
  assumes "un_type n = TLEAF" and "vals_room (un_vals n) + uvalsz v \<le> LEAFSPC"
  shows "usetval n v = Some (n\<lparr>un_vals := un_vals n @ [v]\<rparr>)"
proof -
  have "2 * (un_nval n + 1) + un_valsz (n\<lparr>un_vals := un_vals n @ [v]\<rparr>) = vals_room (un_vals n) + uvalsz v"
    using un_room [of "n\<lparr>un_vals := un_vals n @ [v]\<rparr>"] by simp
  then show ?thesis using assms by (simp add: usetval_def Let_def)
qed

lemma member_room: "m \<in> set ms \<Longrightarrow> umsgsz m \<le> msgs_room ms"
proof (induction ms)
  case (Cons x ms)
  then show ?case using msgs_room_nonneg [of ms] umsgsz_pos(1) [of x] by auto
qed simp

lemma copied_runs:
  assumes f: "feeds up (ls_j s) (ms1 @ ms2)" "\<forall>m \<in> set ms1. m_k m = kv_k v" "ms2 = [] \<or> m_k (hd ms2) \<noteq> kv_k v"
    and sp: "msgs_room (ms1 @ ms2) \<le> ls_spc s" "\<not> ls_full s" and r: "run_msgs ok v ms1 = Some (ok', v', fr)"
    and n: "un_type (ls_n s) = TLEAF" "vals_room (un_vals (ls_n s)) + uvalsz v' \<le> LEAFSPC"
  shows "\<exists>m' z. copied up ok v s = Some (s\<lparr>ls_j := ls_j s + int (length ms1), ls_m := m', ls_pullsz := z, ls_freed := ls_freed s @ fr,
       ls_n := (ls_n s)\<lparr>un_vals := un_vals (ls_n s) @ (if ok' then [v'] else [])\<rparr>\<rparr>)
     \<and> (ms2 \<noteq> [] \<longrightarrow> m' = Some (hd ms2)) \<and> z = ls_pullsz s + msgs_room ms1"
proof -
  have "\<forall>m \<in> set (ms1 @ ms2). umsgsz m \<le> ls_spc s" using member_room [of _ "ms1 @ ms2"] sp(1) by fastforce
  then obtain m' z where c: "copyloop up ok v s = Some (ok', v', s\<lparr>ls_j := ls_j s + int (length ms1), ls_m := m', ls_pullsz := z, ls_freed := ls_freed s @ fr\<rparr>)"
    "ms2 \<noteq> [] \<longrightarrow> m' = Some (hd ms2)" "z = ls_pullsz s + msgs_room ms1"
    using copyloop_runs [OF f _ sp(2) r] by blast
  have "usetval (ls_n s) v' = Some ((ls_n s)\<lparr>un_vals := un_vals (ls_n s) @ [v']\<rparr>)" by (rule usetval_leaf [OF n])
  then show ?thesis using c by (intro exI [of _ m'] exI [of _ z]) (auto simp: copied_def)
qed

lemma leaf_at_Cons:
  assumes "leaf_at up b s (v # vs) ms"
  shows "ls_i s < un_nval b" "ugetval b (ls_i s) = Some v" "vs = drop (nat (ls_i s + 1)) (un_vals b)"
proof -
  have d: "v # vs = drop (nat (ls_i s)) (un_vals b)" "0 \<le> ls_i s" using assms unfolding leaf_at_def by blast+
  then have l: "nat (ls_i s) < length (un_vals b)" by (metis drop_all list.discI not_le)
  then show i: "ls_i s < un_nval b" by linarith
  have "drop (nat (ls_i s)) (un_vals b) = un_vals b ! nat (ls_i s) # drop (Suc (nat (ls_i s))) (un_vals b)" using l by (rule Cons_nth_drop_Suc [symmetric])
  then have "v = un_vals b ! nat (ls_i s)" "vs = drop (Suc (nat (ls_i s))) (un_vals b)" using d(1) by simp_all
  then show "ugetval b (ls_i s) = Some v" "vs = drop (nat (ls_i s + 1)) (un_vals b)"
    using d(2) i by (simp_all add: ugetval_def nat_add_distrib)
qed

text \<open>What the loop has done when it is over.\<close>

definition leaf_done :: "upath \<Rightarrow> lstate \<Rightarrow> lstate \<Rightarrow> kvp list \<times> bptr list \<Rightarrow> gmsg list \<Rightarrow> bool" where
  "leaf_done up s s' r ms \<longleftrightarrow> ls_n s' = (ls_n s)\<lparr>un_vals := un_vals (ls_n s) @ fst r\<rparr> \<and> ls_freed s' = ls_freed s @ snd r \<and> ls_j s' = up_hi up
     \<and> ls_pullsz s' \<le> ls_pullsz s + msgs_room ms"

lemma leaf_copy_step:
  assumes "leaf_at up b s (v # vs) ms"
  shows "leaf_copy v s = Some (s\<lparr>ls_i := ls_i s + 1, ls_n := (ls_n s)\<lparr>un_vals := un_vals (ls_n s) @ [v]\<rparr>\<rparr>)"
    "ms \<noteq> [] \<longrightarrow> m = hd ms \<Longrightarrow> leaf_at up b (s\<lparr>ls_m := Some m, ls_i := ls_i s + 1, ls_n := (ls_n s)\<lparr>un_vals := un_vals (ls_n s) @ [v]\<rparr>\<rparr>) vs ms"
    "ms = [] \<Longrightarrow> leaf_at up b (s\<lparr>ls_i := ls_i s + 1, ls_n := (ls_n s)\<lparr>un_vals := un_vals (ls_n s) @ [v]\<rparr>\<rparr>) vs ms"
proof -
  have r: "un_type (ls_n s) = TLEAF" "vals_room (un_vals (ls_n s)) + vals_room (v # vs) + msgs_room ms \<le> LEAFSPC"
    using assms unfolding leaf_at_def by blast+
  then have "vals_room (un_vals (ls_n s)) + uvalsz v \<le> LEAFSPC" using vals_room_nonneg [of vs] msgs_room_nonneg [of ms] by simp
  then show "leaf_copy v s = Some (s\<lparr>ls_i := ls_i s + 1, ls_n := (ls_n s)\<lparr>un_vals := un_vals (ls_n s) @ [v]\<rparr>\<rparr>)"
    using usetval_leaf [OF r(1)] by (simp add: leaf_copy_def)
  note c = leaf_at_Cons [OF assms]
  show "ms \<noteq> [] \<longrightarrow> m = hd ms \<Longrightarrow> leaf_at up b (s\<lparr>ls_m := Some m, ls_i := ls_i s + 1, ls_n := (ls_n s)\<lparr>un_vals := un_vals (ls_n s) @ [v]\<rparr>\<rparr>) vs ms"
    "ms = [] \<Longrightarrow> leaf_at up b (s\<lparr>ls_i := ls_i s + 1, ls_n := (ls_n s)\<lparr>un_vals := un_vals (ls_n s) @ [v]\<rparr>\<rparr>) vs ms"
    using assms c unfolding leaf_at_def by simp_all
qed

lemma leaf_loop_copies:
  "leaf_at up b s vs [] \<Longrightarrow> \<exists>s'. leaf_loop up b s = Some s' \<and> leaf_done up s s' (vs, []) []"
proof (induction vs arbitrary: s)
  case Nil
  then have "\<not> (ls_i s < un_nval b \<or> ls_j s < up_hi up)" by (auto simp: leaf_at_def)
  then show ?case using Nil by (auto simp: leaf_loop.simps [of up b s] leaf_done_def leaf_at_def)
next
  case (Cons v vs)
  let ?s = "s\<lparr>ls_i := ls_i s + 1, ls_n := (ls_n s)\<lparr>un_vals := un_vals (ls_n s) @ [v]\<rparr>\<rparr>"
  note c = leaf_at_Cons [OF Cons.prems] and l = leaf_copy_step [OF Cons.prems]
  have "ls_j s = up_hi up" using Cons.prems by (simp add: leaf_at_def)
  then have "leaf_loop up b s = leaf_loop up b ?s" using c l(1) by (simp add: leaf_loop.simps [of up b s] leaf_step_def)
  moreover obtain s' where "leaf_loop up b ?s = Some s'" "leaf_done up ?s s' (vs, []) []" using Cons.IH [OF l(3)] by blast
  ultimately show ?case by (auto simp: leaf_done_def)
qed

lemma feeds_drop: "feeds up j (xs @ ys) \<Longrightarrow> feeds up (j + int (length xs)) ys"
proof (induction xs arbitrary: j)
  case (Cons x xs)
  then show ?case using Cons.IH [of "j + 1"] by (simp add: algebra_simps)
qed simp

lemma group_facts:
  fixes m :: gmsg
  defines "g ms \<equiv> takeWhile (\<lambda>x. m_k x = m_k m) ms" and "rest ms \<equiv> dropWhile (\<lambda>x. m_k x = m_k m) ms"
  shows "ms = g ms @ rest ms" "\<forall>x \<in> set (g ms). m_k x = m_k m" "rest ms = [] \<or> m_k (hd (rest ms)) \<noteq> m_k m" "msgs_room ms = msgs_room (g ms) + msgs_room (rest ms)"
proof -
  show ms: "ms = g ms @ rest ms" by (simp add: g_def rest_def)
  show "\<forall>x \<in> set (g ms). m_k x = m_k m" by (auto simp: g_def dest: set_takeWhileD)
  show "rest ms = [] \<or> m_k (hd (rest ms)) \<noteq> m_k m" using hd_dropWhile [of "\<lambda>x. m_k x = m_k m" ms] by (auto simp: rest_def)
  show "msgs_room ms = msgs_room (g ms) + msgs_room (rest ms)" using arg_cong [OF ms, of msgs_room] by simp
qed

text \<open>The common end of both cases: the group of messages is gone, its result is in the new leaf.\<close>

lemma group_copied:
  assumes at: "leaf_at up b s vs0 (m # ms)" and r: "run_msgs ok v (takeWhile (\<lambda>x. m_k x = m_k m) ms) = Some (ok', v', fr)"
    and k: "kv_k v = m_k m" and s1: "s1 = s\<lparr>ls_m := ma, ls_i := ia, ls_j := ls_j s + 1, ls_spc := spca, ls_pullsz := za, ls_freed := fra\<rparr>"
    and i: "0 \<le> ia" "ia \<le> un_nval b" "vs = drop (nat ia) (un_vals b)" and sp: "msgs_room ms \<le> spca"
    and room: "uvalsz v + vals_room vs \<le> vals_room vs0 + umsgsz m"
  shows "\<exists>s'. copied up ok v s1 = Some s' \<and> leaf_at up b s' vs (dropWhile (\<lambda>x. m_k x = m_k m) ms)
     \<and> ls_n s' = (ls_n s)\<lparr>un_vals := un_vals (ls_n s) @ (if ok' then [v'] else [])\<rparr> \<and> ls_freed s' = fra @ fr
     \<and> ls_pullsz s' = za + msgs_room (takeWhile (\<lambda>x. m_k x = m_k m) ms)"
proof -
  let ?g = "takeWhile (\<lambda>x. m_k x = m_k m) ms" and ?r = "dropWhile (\<lambda>x. m_k x = m_k m) ms"
  note gf = group_facts [where m = m and ms = ms]
  have a: "feeds up (ls_j s) (m # ms)" "\<not> ls_full s" "un_type (ls_n s) = TLEAF"
    "vals_room (un_vals (ls_n s)) + vals_room vs0 + msgs_room (m # ms) \<le> LEAFSPC"
    using at unfolding leaf_at_def by blast+
  have f: "feeds up (ls_j s1) (?g @ ?r)" using a(1) s1 by simp
  have keys: "\<forall>x \<in> set ?g. m_k x = kv_k v" "?r = [] \<or> m_k (hd ?r) \<noteq> kv_k v" unfolding k by (rule gf(2), rule gf(3))
  have big: "uvalsz v' \<le> uvalsz v + msgs_room ?g" using run_msgs_facts [OF r] keys(1) by blast
  have room1: "vals_room (un_vals (ls_n s)) + uvalsz v' + vals_room vs + msgs_room ?r \<le> LEAFSPC"
    using a(4) big room gf(4) by simp
  then have room2: "vals_room (un_vals (ls_n s1)) + uvalsz v' \<le> LEAFSPC"
    using vals_room_nonneg [of vs] msgs_room_nonneg [of ?r] s1 by simp
  have sp1: "msgs_room (?g @ ?r) \<le> ls_spc s1" "\<not> ls_full s1" "un_type (ls_n s1) = TLEAF" using sp s1 a(2,3) by simp_all
  obtain m' z where c: "copied up ok v s1 = Some (s1\<lparr>ls_j := ls_j s1 + int (length ?g), ls_m := m', ls_pullsz := z, ls_freed := ls_freed s1 @ fr,
       ls_n := (ls_n s1)\<lparr>un_vals := un_vals (ls_n s1) @ (if ok' then [v'] else [])\<rparr>\<rparr>)"
    "?r \<noteq> [] \<longrightarrow> m' = Some (hd ?r)" "z = ls_pullsz s1 + msgs_room ?g"
    using copied_runs [OF f keys sp1(1,2) r sp1(3) room2] by blast
  have "msgs_room ?r \<le> spca" using sp gf(4) msgs_room_nonneg [of ?g] by simp
  moreover have "vals_room (un_vals (ls_n s)) + vals_room (if ok' then [v'] else []) + vals_room vs + msgs_room ?r \<le> LEAFSPC"
    using room1 umsgsz_pos(2) [of v'] by simp
  ultimately have "leaf_at up b (s1\<lparr>ls_j := ls_j s1 + int (length ?g), ls_m := m', ls_pullsz := z, ls_freed := ls_freed s1 @ fr,
       ls_n := (ls_n s1)\<lparr>un_vals := un_vals (ls_n s1) @ (if ok' then [v'] else [])\<rparr>\<rparr>) vs ?r"
    using feeds_drop [OF f] c(2) i a(2,3) s1 unfolding leaf_at_def by simp
  then show ?thesis using c s1 by simp
qed

lemma leaf_apply_step:
  assumes at: "leaf_at up b s (v # vs) (m # ms)" and k: "kv_k v = m_k m"
    and se: "settle [v] (m # takeWhile (\<lambda>x. m_k x = m_k m) ms) = Some (out, fr)"
  shows "\<exists>s'. leaf_apply up v (s\<lparr>ls_m := Some m\<rparr>) = Some s' \<and> leaf_at up b s' vs (dropWhile (\<lambda>x. m_k x = m_k m) ms)
     \<and> ls_n s' = (ls_n s)\<lparr>un_vals := un_vals (ls_n s) @ out\<rparr> \<and> ls_freed s' = ls_freed s @ fr
     \<and> ls_pullsz s' \<le> ls_pullsz s + msgs_room (m # takeWhile (\<lambda>x. m_k x = m_k m) ms)"
proof -
  let ?g = "takeWhile (\<lambda>x. m_k x = m_k m) ms"
  obtain fr0 ok1 v1 ok' v' fr1 where r: "cpkvp MSGMAX v = Some v" "dropped_ptr v m = Some fr0" "uapply v m = Some (ok1, v1)"
    "run_msgs ok1 v1 ?g = Some (ok', v', fr1)" "out = (if ok' then [v'] else [])" "fr = fr0 @ fr1"
    using se by (auto simp: cpkvp_def kept_def split: bind_splits if_splits)
  note u = uapply_facts [OF r(3) k [symmetric]]
  note c = leaf_at_Cons [OF at]
  have sp: "msgs_room (m # ms) \<le> ls_spc s" "0 \<le> ls_i s" using at unfolding leaf_at_def by blast+
  obtain s' where "copied up ok1 v1 (s\<lparr>ls_m := Some m, ls_i := ls_i s + 1, ls_j := ls_j s + 1, ls_spc := ls_spc s, ls_pullsz := ls_pullsz s, ls_freed := ls_freed s @ fr0\<rparr>) = Some s'"
    "leaf_at up b s' vs (dropWhile (\<lambda>x. m_k x = m_k m) ms)" "ls_n s' = (ls_n s)\<lparr>un_vals := un_vals (ls_n s) @ (if ok' then [v'] else [])\<rparr>"
    "ls_freed s' = (ls_freed s @ fr0) @ fr1" "ls_pullsz s' = ls_pullsz s + msgs_room ?g"
    using group_copied [OF at r(4) _ refl, where ma = "Some m" and ia = "ls_i s + 1" and vs = vs and spca = "ls_spc s" and za = "ls_pullsz s" and fra = "ls_freed s @ fr0"] c u k sp umsgsz_pos(1) [of m] by auto
  then show ?thesis using r umsgsz_pos(1) [of m] by (auto simp: leaf_apply_def)
qed

lemma leaf_insert_step:
  assumes at: "leaf_at up b s vs (m # ms)" and se: "settle [] (m # takeWhile (\<lambda>x. m_k x = m_k m) ms) = Some (out, fr)"
  shows "\<exists>s'. leaf_insert up (s\<lparr>ls_m := Some m\<rparr>) = Some s' \<and> leaf_at up b s' vs (dropWhile (\<lambda>x. m_k x = m_k m) ms)
     \<and> ls_n s' = (ls_n s)\<lparr>un_vals := un_vals (ls_n s) @ out\<rparr> \<and> ls_freed s' = ls_freed s @ fr
     \<and> ls_pullsz s' \<le> ls_pullsz s + msgs_room (m # takeWhile (\<lambda>x. m_k x = m_k m) ms)"
proof -
  let ?g = "takeWhile (\<lambda>x. m_k x = m_k m) ms" and ?ok = "m_op m \<noteq> OCLEARB \<and> m_op m \<noteq> OCLOBBER" and ?v = "msg_kvp m"
  obtain ok' v' where r: "cpkvp MSGMAX ?v = Some ?v" "run_msgs ?ok ?v ?g = Some (ok', v', fr)" "out = (if ok' then [v'] else [])"
    using se by (auto simp: cpkvp_def kept_def split: bind_splits if_splits simp del: OCLEARB_def OCLOBBER_def)
  have v: "kv_k ?v = m_k m" "uvalsz ?v = umsgsz m - 1" by (simp_all add: msg_kvp_def uvalsz_def umsgsz_def)
  have a: "msgs_room (m # ms) \<le> ls_spc s" "0 \<le> ls_i s" "ls_i s \<le> un_nval b" "vs = drop (nat (ls_i s)) (un_vals b)"
    using at unfolding leaf_at_def by blast+
  have x: "\<exists>s'. copied up ?ok ?v (s\<lparr>ls_m := Some m, ls_i := ls_i s, ls_j := ls_j s + 1, ls_spc := spc1, ls_pullsz := z1, ls_freed := ls_freed s\<rparr>) = Some s'
      \<and> leaf_at up b s' vs (dropWhile (\<lambda>x. m_k x = m_k m) ms) \<and> ls_n s' = (ls_n s)\<lparr>un_vals := un_vals (ls_n s) @ (if ok' then [v'] else [])\<rparr>
      \<and> ls_freed s' = ls_freed s @ fr \<and> ls_pullsz s' = z1 + msgs_room ?g" if "msgs_room ms \<le> spc1" for spc1 z1
    using group_copied [OF at r(2) v(1) refl a(2-4) that, where ma = "Some m" and za = z1 and fra = "ls_freed s"] v(2) by simp
  show ?thesis
  proof (cases ?ok)
    case True
    then show ?thesis using x [of "ls_spc s - uvalsz ?v" "ls_pullsz s + umsgsz m"] a(1) v(2) r(1,3) by (auto simp: leaf_insert_def)
  next
    case False
    then show ?thesis using x [of "ls_spc s" "ls_pullsz s"] a(1) v(2) r(1,3) umsgsz_pos(1) [of m] by (auto simp: leaf_insert_def)
  qed
qed

lemma joined_Some: "joined x y = Some (c, h) \<longleftrightarrow> (\<exists>a f b g. x = Some (a, f) \<and> y = Some (b, g) \<and> c = a @ b \<and> h = f @ g)"
  by (auto simp: joined_def split: bind_splits)

lemma leaf_done_trans:
  assumes "leaf_done up s1 s' (b, g) rest" and "ls_n s1 = (ls_n s)\<lparr>un_vals := un_vals (ls_n s) @ a\<rparr>" and "ls_freed s1 = ls_freed s @ f"
    and "ls_pullsz s1 + msgs_room rest \<le> ls_pullsz s + msgs_room ms"
  shows "leaf_done up s s' (a @ b, f @ g) ms"
  using assms by (auto simp: leaf_done_def)

lemma leaf_step_insert:
  assumes at: "leaf_at up b s vs (m # ms)" and k: "vs = [] \<or> m_k m < kv_k (hd vs)"
  shows "leaf_step up b s = leaf_insert up (s\<lparr>ls_m := Some m\<rparr>)"
proof (cases vs)
  case Nil
  then have "un_nval b \<le> ls_i s" "ls_m s = Some m" using at by (auto simp: leaf_at_def)
  then show ?thesis by (cases s) (simp add: leaf_step_def)
next
  case (Cons v vs')
  have f: "ls_j s < up_hi up" "up_msg up (ls_j s) = Some m" "umsgsz m \<le> ls_spc s"
    using at msgs_room_nonneg [of ms] by (auto simp: leaf_at_def)
  have "keycmp (kv_k v) (m_k m) = 1" using k Cons by (simp add: keycmp_iff)
  then show ?thesis using leaf_at_Cons [OF at [unfolded Cons]] f by (simp add: leaf_step_def)
qed

lemma leaf_step_value:
  assumes at: "leaf_at up b s (v # vs) (m # ms)"
  shows "kv_k v < m_k m \<Longrightarrow> leaf_step up b s = leaf_copy v (s\<lparr>ls_m := Some m\<rparr>)"
    "kv_k v = m_k m \<Longrightarrow> leaf_step up b s = leaf_apply up v (s\<lparr>ls_m := Some m\<rparr>)"
proof -
  have f: "ls_j s < up_hi up" "up_msg up (ls_j s) = Some m" "umsgsz m \<le> ls_spc s"
    using at msgs_room_nonneg [of ms] by (auto simp: leaf_at_def)
  note c = leaf_at_Cons [OF at]
  show "kv_k v < m_k m \<Longrightarrow> leaf_step up b s = leaf_copy v (s\<lparr>ls_m := Some m\<rparr>)"
    "kv_k v = m_k m \<Longrightarrow> leaf_step up b s = leaf_apply up v (s\<lparr>ls_m := Some m\<rparr>)"
    using c f keycmp_iff(1,2) [of "kv_k v" "m_k m"] by (simp_all add: leaf_step_def)
qed

lemma leaf_at_m: "leaf_at up b s vs ms \<Longrightarrow> vs \<noteq> [] \<Longrightarrow> leaf_at up b (s\<lparr>ls_m := m\<rparr>) vs ms"
  by (auto simp: leaf_at_def)

lemma leaf_loop_Cons: "leaf_at up b s vs (m # ms) \<Longrightarrow> leaf_step up b s = Some s1 \<Longrightarrow> leaf_loop up b s = leaf_loop up b s1"
  by (simp add: leaf_loop.simps [of up b s] leaf_at_def)

text \<open>A group of messages handled in one step of the loop.\<close>

lemma leaf_loop_group:
  assumes at: "leaf_at up b s vs0 (m # ms)" and st: "leaf_step up b s = Some s1" and at1: "leaf_at up b s1 vs (dropWhile (\<lambda>x. m_k x = m_k m) ms)"
    and s1: "ls_n s1 = (ls_n s)\<lparr>un_vals := un_vals (ls_n s) @ a\<rparr>" "ls_freed s1 = ls_freed s @ f"
      "ls_pullsz s1 \<le> ls_pullsz s + msgs_room (m # takeWhile (\<lambda>x. m_k x = m_k m) ms)"
    and IH: "\<exists>s'. leaf_loop up b s1 = Some s' \<and> leaf_done up s1 s' (c, g) (dropWhile (\<lambda>x. m_k x = m_k m) ms)"
  shows "\<exists>s'. leaf_loop up b s = Some s' \<and> leaf_done up s s' (a @ c, f @ g) (m # ms)"
proof -
  obtain s' where "leaf_loop up b s1 = Some s'" "leaf_done up s1 s' (c, g) (dropWhile (\<lambda>x. m_k x = m_k m) ms)" using IH by blast
  moreover have "ls_pullsz s1 + msgs_room (dropWhile (\<lambda>x. m_k x = m_k m) ms) \<le> ls_pullsz s + msgs_room (m # ms)"
    using s1(3) group_facts(4) [where m = m and ms = ms] by simp
  ultimately show ?thesis using leaf_loop_Cons [OF at st] leaf_done_trans [OF _ s1(1,2)] by auto
qed

lemma leaf_loop_merges:
  "leaf_at up b s vs ms \<Longrightarrow> leaf_merge vs ms = Some r \<Longrightarrow> \<exists>s'. leaf_loop up b s = Some s' \<and> leaf_done up s s' r ms"
proof (induction vs ms arbitrary: s r rule: leaf_merge.induct)
  case (1 vs)
  then show ?case using leaf_loop_copies by auto
next
  case (2 m ms)
  obtain a f c g where j: "settle [] (m # takeWhile (\<lambda>x. m_k x = m_k m) ms) = Some (a, f)" "leaf_merge [] (dropWhile (\<lambda>x. m_k x = m_k m) ms) = Some (c, g)"
    "r = (a @ c, f @ g)" using "2.prems"(2) by (cases r) (auto simp: joined_Some)
  obtain s1 where s1: "leaf_insert up (s\<lparr>ls_m := Some m\<rparr>) = Some s1" "leaf_at up b s1 [] (dropWhile (\<lambda>x. m_k x = m_k m) ms)"
    "ls_n s1 = (ls_n s)\<lparr>un_vals := un_vals (ls_n s) @ a\<rparr>" "ls_freed s1 = ls_freed s @ f"
    "ls_pullsz s1 \<le> ls_pullsz s + msgs_room (m # takeWhile (\<lambda>x. m_k x = m_k m) ms)"
    using leaf_insert_step [OF "2.prems"(1) j(1)] by blast
  have "leaf_step up b s = Some s1" using leaf_step_insert [OF "2.prems"(1)] s1(1) by simp
  then show ?case unfolding j(3) by (rule leaf_loop_group [OF "2.prems"(1) _ s1(2-5) "2.IH" [OF s1(2) j(2)]])
next
  case (3 v vs m ms)
  consider (lt) "kv_k v < m_k m" | (eq) "kv_k v = m_k m" | (gt) "m_k m < kv_k v" by fastforce
  then show ?case
  proof cases
    case lt
    then obtain c g where j: "leaf_merge vs (m # ms) = Some (c, g)" "r = ([v] @ c, [] @ g)" using "3.prems"(2) by (cases r) (auto simp: joined_Some)
    let ?s = "s\<lparr>ls_m := Some m, ls_i := ls_i s + 1, ls_n := (ls_n s)\<lparr>un_vals := un_vals (ls_n s) @ [v]\<rparr>\<rparr>"
    have at: "leaf_at up b ?s vs (m # ms)" using leaf_copy_step(2) [OF "3.prems"(1), of m] by simp
    have "leaf_at up b (s\<lparr>ls_m := Some m\<rparr>) (v # vs) (m # ms)" by (rule leaf_at_m [OF "3.prems"(1)]) simp
    then have "leaf_step up b s = Some ?s" using leaf_copy_step(1) leaf_step_value(1) [OF "3.prems"(1) lt] by simp
    then have e: "leaf_loop up b s = leaf_loop up b ?s" by (rule leaf_loop_Cons [OF "3.prems"(1)])
    obtain s' where "leaf_loop up b ?s = Some s'" "leaf_done up ?s s' (c, g) (m # ms)" using "3.IH"(1) [OF lt at j(1)] by blast
    then show ?thesis unfolding e j(2) using leaf_done_trans [of up ?s s' c g "m # ms" s "[v]" "[]" "m # ms"] by auto
  next
    case eq
    then obtain a f c g where j: "settle [v] (m # takeWhile (\<lambda>x. m_k x = m_k m) ms) = Some (a, f)"
      "leaf_merge vs (dropWhile (\<lambda>x. m_k x = m_k m) ms) = Some (c, g)" "r = (a @ c, f @ g)" using "3.prems"(2) by (cases r) (auto simp: joined_Some)
    obtain s1 where s1: "leaf_apply up v (s\<lparr>ls_m := Some m\<rparr>) = Some s1" "leaf_at up b s1 vs (dropWhile (\<lambda>x. m_k x = m_k m) ms)"
      "ls_n s1 = (ls_n s)\<lparr>un_vals := un_vals (ls_n s) @ a\<rparr>" "ls_freed s1 = ls_freed s @ f"
      "ls_pullsz s1 \<le> ls_pullsz s + msgs_room (m # takeWhile (\<lambda>x. m_k x = m_k m) ms)"
      using leaf_apply_step [OF "3.prems"(1) eq j(1)] by blast
    have "leaf_step up b s = Some s1" using leaf_step_value(2) [OF "3.prems"(1) eq] s1(1) by simp
    moreover have "\<not> kv_k v < m_k m" using eq by simp
    ultimately show ?thesis unfolding j(3) using leaf_loop_group [OF "3.prems"(1) _ s1(2-5) "3.IH"(2) [OF _ eq s1(2) j(2)]] by blast
  next
    case gt
    then have n: "\<not> kv_k v < m_k m" "kv_k v \<noteq> m_k m" by auto
    then obtain a f c g where j: "settle [] (m # takeWhile (\<lambda>x. m_k x = m_k m) ms) = Some (a, f)"
      "leaf_merge (v # vs) (dropWhile (\<lambda>x. m_k x = m_k m) ms) = Some (c, g)" "r = (a @ c, f @ g)" using "3.prems"(2) by (cases r) (auto simp: joined_Some)
    obtain s1 where s1: "leaf_insert up (s\<lparr>ls_m := Some m\<rparr>) = Some s1" "leaf_at up b s1 (v # vs) (dropWhile (\<lambda>x. m_k x = m_k m) ms)"
      "ls_n s1 = (ls_n s)\<lparr>un_vals := un_vals (ls_n s) @ a\<rparr>" "ls_freed s1 = ls_freed s @ f"
      "ls_pullsz s1 \<le> ls_pullsz s + msgs_room (m # takeWhile (\<lambda>x. m_k x = m_k m) ms)"
      using leaf_insert_step [OF "3.prems"(1) j(1)] by blast
    have "leaf_step up b s = Some s1" using leaf_step_insert [OF "3.prems"(1)] gt s1(1) by simp
    then show ?thesis unfolding j(3) by (rule leaf_loop_group [OF "3.prems"(1) _ s1(2-5) "3.IH"(3) [OF n s1(2) j(2)]])
  qed
qed

section \<open>The reference merge, key by key\<close>

abbreviation freed_at :: "kvp list \<Rightarrow> gmsg list \<Rightarrow> key \<Rightarrow> bptr multiset" where
  "freed_at vs ms k \<equiv> mset (snd (the (settle (with_key vs k) (msgs_of ms k))))"

text \<open>
  The new entries are sorted and each key has what its messages made of it; the blocks given up are
  those that the messages of each key give up.
\<close>

definition meets :: "kvp list \<Rightarrow> gmsg list \<Rightarrow> kvp list \<times> bptr list \<Rightarrow> bool" where
  "meets vs ms r \<longleftrightarrow> strict (map kv_k (fst r)) \<and> kv_k ` set (fst r) \<subseteq> kv_k ` set vs \<union> m_k ` set ms
     \<and> (\<forall>k. map_option fst (settle (with_key vs k) (msgs_of ms k)) = Some (with_key (fst r) k))
     \<and> mset (snd r) = (\<Sum>k \<in> m_k ` set ms. freed_at vs ms k)"

lemma with_key_none: "k \<notin> kv_k ` set vs \<Longrightarrow> with_key vs k = []" "k \<notin> m_k ` set ms \<Longrightarrow> msgs_of ms k = []"
  by (auto simp: with_key_def msgs_of_def filter_empty_conv)

lemma strict_short:
  assumes "length a \<le> 1" and "\<forall>x \<in> set a. kv_k x = kz" and "strict (map kv_k c)" and "\<forall>x \<in> set c. kz < kv_k x"
  shows "strict (map kv_k (a @ c))"
  using assms by (cases a) (auto simp: strict_def)

lemma meets_join:
  assumes m: "meets vs' ms' (c, g)" and se: "settle (with_key vs kz) (msgs_of ms kz) = Some (a, f)"
    and same: "\<And>k. k \<noteq> kz \<Longrightarrow> with_key vs k = with_key vs' k \<and> msgs_of ms k = msgs_of ms' k"
    and above: "\<forall>k \<in> kv_k ` set vs' \<union> m_k ` set ms'. kz < k" and kz: "kz \<in> kv_k ` set vs \<union> m_k ` set ms"
    and a: "length a \<le> 1" "\<forall>x \<in> set a. kv_k x = kz"
    and sub: "kv_k ` set vs' \<subseteq> kv_k ` set vs" "m_k ` set ms' \<subseteq> m_k ` set ms" "m_k ` set ms \<subseteq> insert kz (m_k ` set ms')"
  shows "meets vs ms (a @ c, f @ g)"
proof -
  have mf: "strict (map kv_k c)" "kv_k ` set c \<subseteq> kv_k ` set vs' \<union> m_k ` set ms'"
    "\<And>k. map_option fst (settle (with_key vs' k) (msgs_of ms' k)) = Some (with_key c k)" "mset g = (\<Sum>k \<in> m_k ` set ms'. freed_at vs' ms' k)"
    using m by (auto simp: meets_def)
  have ca: "\<forall>x \<in> set c. kz < kv_k x" using mf(2) above by blast
  let ?U = "kv_k ` set vs \<union> m_k ` set ms"
  have "kv_k ` set vs' \<union> m_k ` set ms' \<subseteq> ?U" using sub(1,2) by (rule Un_mono)
  then have "kv_k ` set c \<subseteq> ?U" using mf(2) by (rule subset_trans [rotated])
  moreover have "kv_k ` set a \<subseteq> ?U" using a(2) kz by (metis image_subsetI)
  ultimately have ks: "kv_k ` set (a @ c) \<subseteq> ?U" by (metis Un_least image_Un set_append)
  have per: "map_option fst (settle (with_key vs k) (msgs_of ms k)) = Some (with_key (a @ c) k)" for k
  proof (cases "k = kz")
    case True
    then have "with_key a k = a" "with_key c k = []" using a(2) ca by (auto simp: with_key_def filter_id_conv filter_empty_conv)
    then show ?thesis using se True by (simp add: with_key_def)
  next
    case False
    then have "with_key a k = []" using a(2) by (auto simp: with_key_def filter_empty_conv)
    then show ?thesis using mf(3) [of k] same [OF False] by (simp add: with_key_def)
  qed
  have n0: "kz \<notin> m_k ` set ms'" using above by blast
  have rest: "(\<Sum>k \<in> m_k ` set ms'. freed_at vs ms k) = mset g"
    unfolding mf(4)
  proof (rule sum.cong [OF refl])
    fix k
    assume "k \<in> m_k ` set ms'"
    then have "k \<noteq> kz" using n0 by blast
    then show "freed_at vs ms k = freed_at vs' ms' k" using same [of k] by simp
  qed
  have "(\<Sum>k \<in> m_k ` set ms. freed_at vs ms k) = mset f + mset g"
  proof (cases "kz \<in> m_k ` set ms")
    case True
    then have "m_k ` set ms = insert kz (m_k ` set ms')" using sub(2,3) by blast
    then show ?thesis using n0 rest se by simp
  next
    case False
    then have "m_k ` set ms = m_k ` set ms'" "msgs_of ms kz = []" using sub(2,3) with_key_none(2) [OF False] by blast+
    then show ?thesis using rest se by simp
  qed
  then show ?thesis using strict_short [OF a mf(1) ca] ks per by (simp add: meets_def)
qed

lemma sorted_group:
  assumes "sorted (map m_k (m # ms))"
  shows "msgs_of (m # ms) (m_k m) = m # takeWhile (\<lambda>x. m_k x = m_k m) ms" "\<forall>x \<in> set (dropWhile (\<lambda>x. m_k x = m_k m) ms). m_k m < m_k x"
    "k \<noteq> m_k m \<Longrightarrow> msgs_of (m # ms) k = msgs_of (dropWhile (\<lambda>x. m_k x = m_k m) ms) k" "sorted (map m_k (dropWhile (\<lambda>x. m_k x = m_k m) ms))"
proof -
  let ?P = "\<lambda>x. m_k x = m_k m"
  show so: "sorted (map m_k (dropWhile ?P ms))" using assms by (auto simp: sorted_map intro: sorted_wrt_dropWhile)
  show up: "\<forall>x \<in> set (dropWhile ?P ms). m_k m < m_k x"
  proof (cases "dropWhile ?P ms")
    case (Cons y ys)
    then have y: "m_k y \<noteq> m_k m" "y \<in> set ms" using hd_dropWhile [of ?P ms] set_dropWhileD [of y ?P ms] by auto
    then have "m_k m < m_k y" using assms by (simp add: order_less_le)
    moreover have "\<forall>x \<in> set ys. m_k y \<le> m_k x" using so Cons by simp
    ultimately show ?thesis using Cons by fastforce
  next
    case Nil
    show ?thesis unfolding Nil by simp
  qed
  have ms: "ms = takeWhile ?P ms @ dropWhile ?P ms" by simp
  have "filter ?P ms = filter ?P (takeWhile ?P ms) @ filter ?P (dropWhile ?P ms)" by (metis filter_append ms)
  moreover have "filter ?P (takeWhile ?P ms) = takeWhile ?P ms" by (auto simp: filter_id_conv dest: set_takeWhileD)
  moreover have "filter ?P (dropWhile ?P ms) = []" using up by (auto simp: filter_empty_conv)
  ultimately show "msgs_of (m # ms) (m_k m) = m # takeWhile ?P ms" by (simp add: msgs_of_def)
  assume k: "k \<noteq> m_k m"
  have "filter (\<lambda>x. m_k x = k) ms = filter (\<lambda>x. m_k x = k) (takeWhile ?P ms) @ filter (\<lambda>x. m_k x = k) (dropWhile ?P ms)" by (metis filter_append ms)
  moreover have "filter (\<lambda>x. m_k x = k) (takeWhile ?P ms) = []" using k by (auto simp: filter_empty_conv dest: set_takeWhileD)
  ultimately show "msgs_of (m # ms) k = msgs_of (dropWhile ?P ms) k" using k by (simp add: msgs_of_def)
qed

lemma strict_Cons_above: "strict (map kv_k (v # vs)) \<Longrightarrow> strict (map kv_k vs) \<and> (\<forall>x \<in> set vs. kv_k v < kv_k x)"
  by (simp add: strict_def)

lemma meets_nil: "strict (map kv_k vs) \<Longrightarrow> meets vs [] (vs, [])"
  by (auto simp: meets_def msgs_of_def)

lemma rest_defined:
  assumes "\<forall>k. settle (with_key vs k) (msgs_of ms k) \<noteq> None" and "\<And>k. k \<noteq> kz \<Longrightarrow> with_key vs k = with_key vs' k \<and> msgs_of ms k = msgs_of ms' k"
    and "\<forall>k \<in> kv_k ` set vs' \<union> m_k ` set ms'. kz < k"
  shows "\<forall>k. settle (with_key vs' k) (msgs_of ms' k) \<noteq> None"
proof
  fix k
  have "kz \<notin> kv_k ` set vs' \<union> m_k ` set ms'" using assms(3) by blast
  then have "with_key vs' kz = []" "msgs_of ms' kz = []" using with_key_none by auto
  then show "settle (with_key vs' k) (msgs_of ms' k) \<noteq> None" using assms(1,2) by (cases "k = kz") (simp, metis)
qed

text \<open>One group of messages, for the first key, and the rest.\<close>

lemma merge_group:
  assumes so: "sorted (map m_k (m # ms))" and de: "\<forall>k. settle (with_key vs k) (msgs_of (m # ms) k) \<noteq> None"
    and vs: "vs = v0 @ vs'" "with_key vs (m_k m) = v0" "length v0 \<le> 1" "\<forall>x \<in> set vs'. m_k m < kv_k x"
    and IH: "sorted (map m_k (dropWhile (\<lambda>x. m_k x = m_k m) ms)) \<Longrightarrow> \<forall>k. settle (with_key vs' k) (msgs_of (dropWhile (\<lambda>x. m_k x = m_k m) ms) k) \<noteq> None \<Longrightarrow>
      \<exists>r. leaf_merge vs' (dropWhile (\<lambda>x. m_k x = m_k m) ms) = Some r \<and> meets vs' (dropWhile (\<lambda>x. m_k x = m_k m) ms) r"
  shows "\<exists>r. joined (settle v0 (m # takeWhile (\<lambda>x. m_k x = m_k m) ms)) (leaf_merge vs' (dropWhile (\<lambda>x. m_k x = m_k m) ms)) = Some r \<and> meets vs (m # ms) r"
proof -
  let ?r = "dropWhile (\<lambda>x. m_k x = m_k m) ms"
  note g = sorted_group [OF so]
  have v0: "\<forall>x \<in> set v0. kv_k x = m_k m" using vs(2) by (auto simp: with_key_def)
  have same: "with_key vs k = with_key vs' k \<and> msgs_of (m # ms) k = msgs_of ?r k" if "k \<noteq> m_k m" for k
  proof -
    have "filter (\<lambda>x. kv_k x = k) v0 = []" using v0 that by (auto simp: filter_empty_conv)
    then show ?thesis using g(3) [OF that] by (simp add: vs(1) with_key_def)
  qed
  have above: "\<forall>k \<in> kv_k ` set vs' \<union> m_k ` set ?r. m_k m < k" using vs(4) g(2) by blast
  obtain a f where se: "settle (with_key vs (m_k m)) (msgs_of (m # ms) (m_k m)) = Some (a, f)" using de by fast
  then have s: "settle v0 (m # takeWhile (\<lambda>x. m_k x = m_k m) ms) = Some (a, f)" unfolding g(1) vs(2) .
  obtain c h where r: "leaf_merge vs' ?r = Some (c, h)" "meets vs' ?r (c, h)" using IH [OF g(4) rest_defined [OF de same above]] by auto
  let ?g = "takeWhile (\<lambda>x. m_k x = m_k m) ms"
  have gk: "\<forall>x \<in> set ?g. m_k x = m_k m" by (rule group_facts(2))
  then have "\<forall>x \<in> set (m # ?g). m_k x = m_k m" by (metis set_ConsD)
  then have sf: "length a \<le> 1" "\<forall>x \<in> set a. kv_k x = m_k m" using settle_facts [OF s vs(3) _ v0] by blast+
  have ss: "set ms = set ?g \<union> set ?r" by (metis set_append takeWhile_dropWhile_id)
  have sub: "m_k ` set ?r \<subseteq> m_k ` set (m # ms)" unfolding list.set(2) ss by blast
  have "m_k ` set ?g \<subseteq> {m_k m}" using gk by blast
  then have sup: "m_k ` set (m # ms) \<subseteq> insert (m_k m) (m_k ` set ?r)" unfolding list.set(2) ss image_insert image_Un by blast
  have kk: "kv_k ` set vs' \<subseteq> kv_k ` set vs" by (auto simp: vs(1))
  have kin: "m_k m \<in> kv_k ` set vs \<union> m_k ` set (m # ms)" by simp
  have "meets vs (m # ms) (a @ c, f @ h)" by (rule meets_join [OF r(2) se _ above kin sf kk sub sup]) (rule same)
  then show ?thesis using s r(1) by (auto simp: joined_def)
qed

lemma leaf_merge_meets:
  "strict (map kv_k vs) \<Longrightarrow> sorted (map m_k ms) \<Longrightarrow> \<forall>k. settle (with_key vs k) (msgs_of ms k) \<noteq> None \<Longrightarrow>
     \<exists>r. leaf_merge vs ms = Some r \<and> meets vs ms r"
proof (induction vs ms rule: leaf_merge.induct)
  case (1 vs)
  then show ?case using meets_nil by simp
next
  case (2 m ms)
  show ?case unfolding leaf_merge.simps
    by (rule merge_group [OF "2.prems"(2,3)]) (use "2.IH" [OF "2.prems"(1)] in \<open>auto simp: with_key_def\<close>)
next
  case (3 v vs m ms)
  note st = strict_Cons_above [OF "3.prems"(1)]
  consider (lt) "kv_k v < m_k m" | (eq) "kv_k v = m_k m" | (gt) "m_k m < kv_k v" by fastforce
  then show ?case
  proof cases
    case lt
    have "\<forall>x \<in> set (m # ms). m_k m \<le> m_k x" using "3.prems"(2) by simp
    then have low: "\<forall>x \<in> set (m # ms). kv_k v < m_k x" using lt less_le_trans by blast
    have above: "\<forall>k \<in> kv_k ` set vs \<union> m_k ` set (m # ms). kv_k v < k" using st low by blast
    have same: "with_key (v # vs) k = with_key vs k \<and> msgs_of (m # ms) k = msgs_of (m # ms) k" if "k \<noteq> kv_k v" for k
      using that by (simp add: with_key_def)
    have w: "with_key (v # vs) (kv_k v) = [v]" "msgs_of (m # ms) (kv_k v) = []"
      using st low by (auto simp: with_key_def msgs_of_def filter_empty_conv)
    have se: "settle (with_key (v # vs) (kv_k v)) (msgs_of (m # ms) (kv_k v)) = Some ([v], [])" unfolding w by simp
    obtain c h where r: "leaf_merge vs (m # ms) = Some (c, h)" "meets vs (m # ms) (c, h)"
      using "3.IH"(1) [OF lt _ "3.prems"(2) rest_defined [OF "3.prems"(3) same above]] st by auto
    have "meets (v # vs) (m # ms) ([v] @ c, [] @ h)"
      by (rule meets_join [OF r(2) se same above]) auto
    then show ?thesis using lt r(1) by (auto simp: joined_def)
  next
    case eq
    have "with_key (v # vs) (m_k m) = [v]" using st eq by (auto simp: with_key_def filter_empty_conv)
    moreover have "\<not> kv_k v < m_k m" using eq by simp
    ultimately show ?thesis using merge_group [OF "3.prems"(2,3), of "[v]" vs] "3.IH"(2) [OF _ eq] st eq by simp
  next
    case gt
    then have n: "\<not> kv_k v < m_k m" "kv_k v \<noteq> m_k m" by auto
    have ab: "\<forall>x \<in> set (v # vs). m_k m < kv_k x" using st gt by (metis less_trans set_ConsD)
    then have "with_key (v # vs) (m_k m) = []" by (auto simp: with_key_def filter_empty_conv)
    then show ?thesis using merge_group [OF "3.prems"(2,3), of "[]" "v # vs"] "3.IH"(3) [OF n "3.prems"(1)] ab n by simp
  qed
qed

section \<open>Properties\<close>

lemma feeds_length: "feeds up j ms \<Longrightarrow> up_hi up = j + int (length ms)"
  by (induction ms arbitrary: j) auto

lemma updateleaf_merges:
  assumes b: "up_b p = Some b" "un_type b = TLEAF" "un_vals b \<noteq> []" and ms: "feeds up (up_lo up) ms" "0 \<le> up_lo up" "up_sz up = msgs_room ms"
    and room: "filledleaf b (up_sz up) = Some False" and mg: "leaf_merge (un_vals b) ms = Some (out, fr)"
  shows "\<exists>p'. updateleaf bp up p = Some (p', fr) \<and> up_npull p' = int (length ms) \<and> up_pullsz p' \<le> up_pullsz p + up_sz up
     \<and> up_nl p' = setb bp ((newnode TLEAF)\<lparr>un_vals := out\<rparr>)"
proof -
  let ?fill = "2 * un_nval b + un_valsz b"
  let ?s = "\<lparr>ls_i = 0, ls_j = up_lo up, ls_full = False, ls_spc = LEAFSPC - ?fill, ls_pullsz = up_pullsz p, ls_m = None,
    ls_n = newnode TLEAF, ls_freed = []\<rparr>"
  have f: "?fill = vals_room (un_vals b)" by (rule un_room)
  have r: "vals_room (un_vals b) + msgs_room ms \<le> LEAFSPC" using room b(2) ms(3) f by (simp add: filledleaf_def split: if_splits)
  then have "leaf_at up b ?s (un_vals b) ms" using b(3) ms(1) f by (simp add: leaf_at_def newnode_def)
  then obtain s' where s': "leaf_loop up b ?s = Some s'" "leaf_done up ?s s' (out, fr) ms" using leaf_loop_merges [OF _ mg] by blast
  have "ublkfill b = Some ?fill" using b(2) by (simp add: ublkfill_def)
  then show ?thesis
    using s' b(1,2) ms feeds_length [OF ms(1)] by (simp add: updateleaf_def leaf_done_def newnode_def)
qed

text \<open>
  C32: \<^verbatim>\<open>updateleaf\<close> moves a segment of messages, sorted by key, into a leaf that has at least one entry. When
  \<^verbatim>\<open>filledleaf\<close> says that there is room, which is when \<^verbatim>\<open>flush\<close> calls it, and no message of the segment
  fails (\<^verbatim>\<open>settle\<close> is defined for every key: sizes, pointers and stat fields are in order), it
  returns, takes every message of the segment, and the new leaf is sorted and holds for every key exactly what its
  old entry and its messages, applied in order, come to. The data blocks it gives up are those that
  the messages of each key give up. An empty leaf is left out: there the code reads a message it has not fetched.
\<close>

theorem updateleaf_applies_messages:
  assumes "up_b p = Some b" and "un_type b = TLEAF" and "un_vals b \<noteq> []" and "strict (map kv_k (un_vals b))"
    and "feeds up (up_lo up) ms" and "0 \<le> up_lo up" and "sorted (map m_k ms)" and "up_sz up = msgs_room ms" and "filledleaf b (up_sz up) = Some False"
    and "\<forall>k. settle (with_key (un_vals b) k) (msgs_of ms k) \<noteq> None"
  shows "\<exists>p' out fr. updateleaf bp up p = Some (p', fr) \<and> up_npull p' = int (length ms) \<and> up_nl p' = setb bp ((newnode TLEAF)\<lparr>un_vals := out\<rparr>)
     \<and> strict (map kv_k out) \<and> (\<forall>k. map_option fst (settle (with_key (un_vals b) k) (msgs_of ms k)) = Some (with_key out k))
     \<and> mset fr = (\<Sum>k \<in> m_k ` set ms. freed_at (un_vals b) ms k)"
proof -
  obtain out fr where r: "leaf_merge (un_vals b) ms = Some (out, fr)" "meets (un_vals b) ms (out, fr)"
    using leaf_merge_meets [OF assms(4,7,10)] by auto
  then show ?thesis
    using updateleaf_merges [OF assms(1,2,3,5,6,8,9) r(1), of bp] by (auto simp: meets_def)
qed

text \<open>A leaf with the keys 1 and 3; the messages delete 1, insert 2 and replace the entry of 3.\<close>

definition sample_umsgs :: "gmsg list" where
  "sample_umsgs = [\<lparr>m_op = ODELETE, m_k = [1], m_v = []\<rparr>, \<lparr>m_op = OINSERT, m_k = [2], m_v = [8]\<rparr>, \<lparr>m_op = OINSERT, m_k = [3], m_v = [9]\<rparr>]"

definition sample_unode :: unode where
  "sample_unode = (newnode TLEAF)\<lparr>un_vals := [\<lparr>kv_k = [1], kv_v = [5]\<rparr>, \<lparr>kv_k = [3], kv_v = [6]\<rparr>]\<rparr>"

definition sample_upath :: upath where
  "sample_upath = \<lparr>up_ins = Some sample_umsgs, up_b = Some sample_unode, up_idx = 0, up_lo = 0, up_hi = 3, up_sz = 26, up_op = POmod,
     up_nl = None, up_nr = None, up_midx = 0, up_npull = 0, up_pullsz = 0\<rparr>"

lemma sample_settles: "settle (with_key (un_vals sample_unode) k) (msgs_of sample_umsgs k) \<noteq> None"
  by (auto simp: sample_unode_def sample_umsgs_def newnode_def with_key_def msgs_of_def cpkvp_def msg_kvp_def dropped_ptr_def uapply_def keycmp_iff kept_def)

theorem updateleaf_applies_messages_witness:
  "\<exists>p' out fr. updateleaf zero_bptr sample_upath sample_upath = Some (p', fr) \<and> up_npull p' = 3 \<and> with_key out [1] = [] \<and> with_key out [2] = [\<lparr>kv_k = [2], kv_v = [8]\<rparr>]
     \<and> with_key out [3] = [\<lparr>kv_k = [3], kv_v = [9]\<rparr>] \<and> fr = []"
proof -
  let ?b = sample_unode and ?ms = sample_umsgs
  have 1: "up_b sample_upath = Some ?b" "un_type ?b = TLEAF" "un_vals ?b \<noteq> []" "0 \<le> up_lo sample_upath"
    by (simp_all add: sample_upath_def sample_unode_def newnode_def)
  have 2: "strict (map kv_k (un_vals ?b))" "sorted (map m_k ?ms)" by (simp_all add: sample_unode_def sample_umsgs_def strict_def)
  have 3: "feeds sample_upath (up_lo sample_upath) ?ms" by (simp add: sample_upath_def sample_umsgs_def up_msg_def)
  have 4: "up_sz sample_upath = msgs_room ?ms" "filledleaf ?b (up_sz sample_upath) = Some False"
    by (simp_all add: sample_upath_def sample_umsgs_def sample_unode_def newnode_def umsgsz_def filledleaf_def un_valsz_def uvalsz_def)
  obtain p' out fr where r: "updateleaf zero_bptr sample_upath sample_upath = Some (p', fr)" "up_npull p' = int (length ?ms)"
    "\<And>k. map_option fst (settle (with_key (un_vals ?b) k) (msgs_of ?ms k)) = Some (with_key out k)"
    "mset fr = (\<Sum>k \<in> m_k ` set ?ms. freed_at (un_vals ?b) ?ms k)"
    using updateleaf_applies_messages [OF 1(1-3) 2(1) 3 1(4) 2(2) 4, of zero_bptr] sample_settles by blast
  note ev = sample_unode_def sample_umsgs_def newnode_def with_key_def msgs_of_def cpkvp_def msg_kvp_def dropped_ptr_def uapply_def keycmp_iff kept_def
  have "with_key out [1] = []" "with_key out [2] = [\<lparr>kv_k = [2], kv_v = [8]\<rparr>]" "with_key out [3] = [\<lparr>kv_k = [3], kv_v = [9]\<rparr>]"
    using r(3) [of "[1]"] r(3) [of "[2]"] r(3) [of "[3]"] by (simp_all add: ev)
  moreover have "fr = []" using r(4) by (simp add: ev)
  ultimately show ?thesis using r(1,2) by (auto simp: sample_umsgs_def)
qed

end
