(* ===== verification/Buffers.thy ===== *)
theory Buffers
  imports Nodes
begin

text \<open>
  Message buffers of pivots in \<^verbatim>\<open>src/src/tree.c\<close>: \<^verbatim>\<open>fastupsert\<close>, which puts a batch into the buffer of the
  root, and \<^verbatim>\<open>victim\<close>, which chooses the child to flush to. The offset table of a buffer is the order of
  its message list.
\<close>

section \<open>Inserting a batch\<close>

primrec usetmsgs :: "unode \<Rightarrow> gmsg list \<Rightarrow> unode option" where
  "usetmsgs b [] = Some b"
| "usetmsgs b (m # ms) = Option.bind (usetmsg b m) (\<lambda>b. usetmsgs b ms)"

text \<open>The binary search: the position behind the messages with smaller or equal keys.\<close>

function ubound :: "gmsg list \<Rightarrow> key \<Rightarrow> int \<Rightarrow> int \<Rightarrow> int \<Rightarrow> int" where
  "ubound ms k ri lo hi =
     (if lo \<le> hi then
        (let mid = (hi + lo) div 2; c = keycmp k (m_k (ms ! nat mid))
         in if c = - 1 then ubound ms k ri lo (mid - 1)
            else if c = 0 then ubound ms k (mid + 1) (mid + 1) hi
            else ubound ms k ri (mid + 1) hi)
      else if ri = - 1 then hi + 1 else ri)"
  by pat_completeness auto
termination
  by (relation "measure (\<lambda>(ms, k, ri, lo, hi). nat (hi - lo + 1))") auto

declare ubound.simps [simp del]

text \<open>The \<^verbatim>\<open>memmove\<close> in the offset table: entry \<open>n\<close> goes to position \<open>ri\<close>.\<close>

definition move_to :: "nat \<Rightarrow> nat \<Rightarrow> 'a list \<Rightarrow> 'a list" where
  "move_to ri n ms = take ri ms @ ms ! n # take (n - ri) (drop ri ms) @ drop (Suc n) ms"

primrec insert_loop :: "gmsg list \<Rightarrow> nat \<Rightarrow> gmsg list \<Rightarrow> gmsg list" where
  "insert_loop [] n ms = ms"
| "insert_loop (m # msg) n ms = insert_loop msg (Suc n) (move_to (nat (ubound ms (m_k m) (- 1) 0 (int n - 1))) n ms)"

definition fastupsert :: "bptr \<Rightarrow> unode \<Rightarrow> gmsg list \<Rightarrow> unode option" where
  "fastupsert bp b msg = do {
     r \<leftarrow> usetmsgs b msg;
     Some (r\<lparr>un_bp := bp, un_msgs := insert_loop msg (length (un_msgs b)) (un_msgs r)\<rparr>)
   }"

section \<open>Choosing a child\<close>

text \<open>The inner loop: the end of the segment before the pivot \<open>kv\<close>, and its size.\<close>

function seg_end :: "unode \<Rightarrow> kvp option \<Rightarrow> int \<Rightarrow> int \<Rightarrow> int \<times> int" where
  "seg_end b kv j cursz =
     (if 0 \<le> j \<and> j < un_nbuf b then
        (let m = un_msgs b ! nat j
         in if kv \<noteq> None \<and> keycmp (m_k m) (kv_k (the kv)) \<ge> 0 then (j, cursz) else seg_end b kv (j + 1) (cursz + umsgsz m))
      else (j, cursz))"
  by pat_completeness auto
termination
  by (relation "measure (\<lambda>(b, kv, j, cursz). nat (un_nbuf b - j))") auto

declare seg_end.simps [simp del]

function victim_loop :: "unode \<Rightarrow> int \<Rightarrow> int \<Rightarrow> int \<Rightarrow> upath \<Rightarrow> upath" where
  "victim_loop b i j maxsz p =
     (if i \<le> un_nval b then
        (let kv = (if i < un_nval b then Some (un_vals b ! nat i) else None); (hi, cursz) = seg_end b kv j 0
         in if cursz > maxsz
            then victim_loop b (i + 1) hi cursz
              (p\<lparr>up_op := POmod, up_lo := j, up_hi := hi, up_sz := cursz, up_idx := i - 1, up_midx := i - 1, up_npull := 0, up_pullsz := 0\<rparr>)
            else victim_loop b (i + 1) hi maxsz p)
      else p)"
  by pat_completeness auto
termination
  by (relation "measure (\<lambda>(b, i, j, maxsz, p). nat (un_nval b + 1 - i))") auto

declare victim_loop.simps [simp del]

definition victim :: "unode \<Rightarrow> upath \<Rightarrow> upath" where
  "victim b p = victim_loop b 1 0 0 (p\<lparr>up_b := Some b\<rparr>)"

section \<open>The batch is sorted in\<close>

lemma sorted_mid: "sorted (map f (t @ d)) \<Longrightarrow> \<forall>y \<in> set d. f x < f y \<Longrightarrow> \<forall>y \<in> set t. f y \<le> f x \<Longrightarrow> sorted (map f (t @ x # d))"
  by (auto simp: sorted_append less_imp_le)

lemma sort_snoc: "sort_key f (ys @ [x]) = takeWhile (\<lambda>y. f y \<le> f x) (sort_key f ys) @ x # dropWhile (\<lambda>y. f y \<le> f x) (sort_key f ys)"
proof (rule properties_for_sort_key)
  let ?t = "takeWhile (\<lambda>y. f y \<le> f x) (sort_key f ys)" and ?d = "dropWhile (\<lambda>y. f y \<le> f x) (sort_key f ys)"
  have td: "?t @ ?d = sort_key f ys" by simp
  have "mset ?t + mset ?d = mset ys" by (metis mset_append mset_sort td)
  then show "mset (?t @ x # ?d) = mset (ys @ [x])" by simp
  have up: "\<forall>y \<in> set ?d. f x < f y"
  proof (cases "?d = []")
    case False
    then have h: "\<not> f (hd ?d) \<le> f x" using hd_dropWhile by blast
    have "sorted (map f (?t @ ?d))" unfolding td by simp
    then have "sorted (map f ?d)" by (simp only: map_append sorted_append)
    then have "f (hd ?d) \<le> f y" if "y \<in> set ?d" for y using that by (cases ?d) auto
    then show ?thesis using h by fastforce
  next
    case True
    show ?thesis unfolding True by simp
  qed
  have st: "sorted (map f (?t @ ?d))" unfolding td by simp
  have low: "\<forall>y \<in> set ?t. f y \<le> f x" by (auto dest: set_takeWhileD)
  show "sorted (map f (?t @ x # ?d))"
    by (rule sorted_mid [OF st up low])
  show "filter (\<lambda>y. f k = f y) (?t @ x # ?d) = filter (\<lambda>y. f k = f y) (ys @ [x])" if "k \<in> set (?t @ x # ?d)" for k
  proof -
    have s: "filter (\<lambda>y. f k = f y) ?t @ filter (\<lambda>y. f k = f y) ?d = filter (\<lambda>y. f k = f y) ys"
      using sort_key_stable [of f "f k" ys] by (metis (mono_tags, lifting) filter_append filter_cong td)
    show ?thesis
    proof (cases "f k = f x")
      case True
      then have "filter (\<lambda>y. f k = f y) ?d = []" using up by (fastforce simp: filter_empty_conv)
      then show ?thesis using s True by simp
    next
      case False
      then show ?thesis using s by simp
    qed
  qed
qed

lemma sort_key_append_sorted: "sort_key f (sort_key f xs @ ys) = sort_key f (xs @ ys)"
proof (induction ys rule: rev_induct)
  case (snoc y ys)
  then show ?case using sort_snoc [of f "sort_key f xs @ ys" y] sort_snoc [of f "xs @ ys" y] by simp
qed (simp add: sort_key_id_if_sorted)

lemma key_mono:
  assumes "sorted (map m_k (take n ms))" and "n \<le> length ms" and "i \<le> j" and "j < n"
  shows "m_k (ms ! i) \<le> m_k (ms ! j)"
  using sorted_nth_mono [OF assms(1,3)] assms by simp

lemma ubound_pos:
  "sorted (map m_k (take n ms)) \<Longrightarrow> n \<le> length ms \<Longrightarrow> 0 \<le> lo \<Longrightarrow> hi < int n \<Longrightarrow> lo \<le> hi + 1 \<Longrightarrow> (\<forall>i < nat lo. m_k (ms ! i) \<le> k) \<Longrightarrow>
     (\<forall>i. hi < int i \<and> i < n \<longrightarrow> k < m_k (ms ! i)) \<Longrightarrow> (ri \<noteq> - 1 \<longrightarrow> ri = lo \<and> 0 < lo \<and> m_k (ms ! nat (lo - 1)) = k) \<Longrightarrow>
     0 \<le> ubound ms k ri lo hi \<and> ubound ms k ri lo hi \<le> int n \<and> (\<forall>i < nat (ubound ms k ri lo hi). m_k (ms ! i) \<le> k)
       \<and> (\<forall>i. ubound ms k ri lo hi \<le> int i \<and> i < n \<longrightarrow> k < m_k (ms ! i))"
proof (induction ms k ri lo hi rule: ubound.induct)
  case (1 ms k ri lo hi)
  note mono = key_mono [OF "1.prems"(1,2)]
  show ?case
  proof (cases "lo \<le> hi")
    case False
    then have "ubound ms k ri lo hi = lo" using "1.prems"(5,8) by (auto simp: ubound.simps [of ms k ri lo hi])
    then show ?thesis using "1.prems"(3-7) False by auto
  next
    case True
    define mid where "mid = (hi + lo) div 2"
    have m: "lo \<le> mid" "mid \<le> hi" "nat mid < n" using True "1.prems"(3,4) by (auto simp: mid_def)
    have low: "\<forall>i < nat (mid + 1). m_k (ms ! i) \<le> m_k (ms ! nat mid)" using mono [of _ "nat mid"] m(3) by auto
    consider (lt) "k < m_k (ms ! nat mid)" | (eq) "m_k (ms ! nat mid) = k" | (gt) "m_k (ms ! nat mid) < k" by fastforce
    then show ?thesis
    proof cases
      case lt
      then have c: "keycmp k (m_k (ms ! nat mid)) = - 1" by (simp add: keycmp_iff)
      have e: "ubound ms k ri lo hi = ubound ms k ri lo (mid - 1)"
        using True c by (simp add: ubound.simps [of ms k ri lo hi] Let_def flip: mid_def)
      have hi: "\<forall>i. mid - 1 < int i \<and> i < n \<longrightarrow> k < m_k (ms ! i)"
      proof (intro allI impI)
        fix i
        assume "mid - 1 < int i \<and> i < n"
        then have "nat mid \<le> i" "i < n" by linarith+
        then have "m_k (ms ! nat mid) \<le> m_k (ms ! i)" using mono [of "nat mid" i] by simp
        then show "k < m_k (ms ! i)" using lt by simp
      qed
      show ?thesis
        unfolding e by (rule "1.IH"(1) [OF True mid_def refl c "1.prems"(1-3) _ _ "1.prems"(6) hi "1.prems"(8)]) (use m "1.prems"(4) in linarith)+
    next
      case eq
      then have c: "keycmp k (m_k (ms ! nat mid)) = 0" by (simp add: keycmp_iff)
      have e: "ubound ms k ri lo hi = ubound ms k (mid + 1) (mid + 1) hi"
        using True c by (simp add: ubound.simps [of ms k ri lo hi] Let_def flip: mid_def)
      have c1: "keycmp k (m_k (ms ! nat mid)) \<noteq> - 1" using c by simp
      have ri: "mid + 1 \<noteq> - 1 \<longrightarrow> mid + 1 = mid + 1 \<and> 0 < mid + 1 \<and> m_k (ms ! nat (mid + 1 - 1)) = k" using eq m(1) "1.prems"(3) by simp
      show ?thesis
        unfolding e by (rule "1.IH"(2) [OF True mid_def refl c1 c "1.prems"(1,2) _ "1.prems"(4) _ low [unfolded eq] "1.prems"(7) ri]) (use m "1.prems"(3) in linarith)+
    next
      case gt
      then have c: "keycmp k (m_k (ms ! nat mid)) = 1" by (simp add: keycmp_iff)
      have e: "ubound ms k ri lo hi = ubound ms k ri (mid + 1) hi"
        using True c by (simp add: ubound.simps [of ms k ri lo hi] Let_def flip: mid_def)
      have "ri = - 1"
      proof (rule ccontr)
        assume "ri \<noteq> - 1"
        then have "m_k (ms ! nat (lo - 1)) = k" "0 < lo" using "1.prems"(8) by auto
        moreover have "nat (lo - 1) \<le> nat mid" using m(1) by linarith
        then have "m_k (ms ! nat (lo - 1)) \<le> m_k (ms ! nat mid)" by (rule mono [OF _ m(3)])
        ultimately show False using gt by simp
      qed
      then have ri: "ri \<noteq> - 1 \<longrightarrow> ri = mid + 1 \<and> 0 < mid + 1 \<and> m_k (ms ! nat (mid + 1 - 1)) = k" by simp
      have c1: "keycmp k (m_k (ms ! nat mid)) \<noteq> - 1" "keycmp k (m_k (ms ! nat mid)) \<noteq> 0" using c by simp_all
      have lo: "\<forall>i < nat (mid + 1). m_k (ms ! i) \<le> k" using low gt order_trans less_imp_le by metis
      show ?thesis
        unfolding e by (rule "1.IH"(3) [OF True mid_def refl c1 "1.prems"(1,2) _ "1.prems"(4) _ lo "1.prems"(7) ri]) (use m "1.prems"(3) in linarith)+
    qed
  qed
qed

lemma ubound_takeWhile:
  assumes "sorted (map m_k (take n ms))" and "n \<le> length ms"
  shows "nat (ubound ms k (- 1) 0 (int n - 1)) = length (takeWhile (\<lambda>m. m_k m \<le> k) (take n ms))"
proof -
  let ?u = "ubound ms k (- 1) 0 (int n - 1)"
  have e: "\<forall>i. int n - 1 < int i \<and> i < n \<longrightarrow> k < m_k (ms ! i)" by auto
  have u: "0 \<le> ?u" "?u \<le> int n" "\<forall>i < nat ?u. m_k (ms ! i) \<le> k" "\<forall>i. ?u \<le> int i \<and> i < n \<longrightarrow> k < m_k (ms ! i)"
    using ubound_pos [OF assms, of 0 "int n - 1" k "- 1"] by (simp_all add: e)
  have "takeWhile (\<lambda>m. m_k m \<le> k) (take n ms) = take (nat ?u) (take n ms)"
  proof (rule takeWhile_eq_take_P_nth)
    fix i
    assume "i < nat ?u" "i < length (take n ms)"
    then show "m_k (take n ms ! i) \<le> k" using u(3) by simp
  next
    assume "nat ?u < length (take n ms)"
    then have "nat ?u < n" "?u \<le> int (nat ?u)" by simp_all
    then show "\<not> m_k (take n ms ! nat ?u) \<le> k" using u(4) by fastforce
  qed
  then show ?thesis using u(1,2) assms(2) by simp
qed

lemma move_to_append: "u \<le> length old \<Longrightarrow> move_to u (length old) (old @ m # msg) = (take u old @ m # drop u old) @ msg"
  by (simp add: move_to_def)

lemma insert_loop_sorts:
  "sorted (map m_k old) \<Longrightarrow> insert_loop msg (length old) (old @ msg) = sort_key m_k (old @ msg)"
proof (induction msg arbitrary: old)
  case Nil
  then show ?case by (simp add: sort_key_id_if_sorted)
next
  case (Cons m msg)
  let ?t = "takeWhile (\<lambda>x. m_k x \<le> m_k m) old" and ?d = "dropWhile (\<lambda>x. m_k x \<le> m_k m) old"
  let ?u = "nat (ubound (old @ m # msg) (m_k m) (- 1) 0 (int (length old) - 1))"
  have u: "?u = length ?t" using ubound_takeWhile [of "length old" "old @ m # msg" "m_k m"] Cons.prems by simp
  have td: "take ?u old = ?t" "drop ?u old = ?d" unfolding u by (simp_all add: takeWhile_eq_take [symmetric] dropWhile_eq_drop [symmetric])
  have le: "?u \<le> length old" unfolding u by (rule length_takeWhile_le)
  have "move_to ?u (length old) (old @ m # msg) = (?t @ m # ?d) @ msg"
    using move_to_append [OF le] unfolding td by blast
  moreover have s: "?t @ m # ?d = sort_key m_k (old @ [m])"
    using sort_snoc [of m_k old m] Cons.prems by (simp add: sort_key_id_if_sorted)
  moreover have "length (?t @ m # ?d) = Suc (length old)" unfolding s by simp
  ultimately have "insert_loop (m # msg) (length old) (old @ m # msg) = insert_loop msg (length (?t @ m # ?d)) ((?t @ m # ?d) @ msg)" by simp
  also have "\<dots> = sort_key m_k ((?t @ m # ?d) @ msg)" by (rule Cons.IH) (simp add: s)
  also have "\<dots> = sort_key m_k (old @ m # msg)"
    unfolding s using sort_key_append_sorted [of m_k "old @ [m]" msg] by simp
  finally show ?case .
qed

lemma usetmsgs_ok:
  "un_type b = TPIVOT \<Longrightarrow> 2 * (un_nbuf b + int (length ms)) + un_bufsz b + (\<Sum>m \<leftarrow> ms. umsgsz m - 2) \<le> BUFSPC \<Longrightarrow>
     usetmsgs b ms = Some (b\<lparr>un_msgs := un_msgs b @ ms\<rparr>)"
proof (induction ms arbitrary: b)
  case (Cons m ms)
  have nn: "0 \<le> (\<Sum>m \<leftarrow> ms. umsgsz m - 2)" by (rule sum_list_nonneg) (auto simp: umsgsz_def)
  then have "usetmsg b m = Some (b\<lparr>un_msgs := un_msgs b @ [m]\<rparr>)"
    using Cons.prems by (simp add: usetmsg_def un_bufsz_def)
  then show ?case using Cons.IH [of "b\<lparr>un_msgs := un_msgs b @ [m]\<rparr>"] Cons.prems by (simp add: un_bufsz_def)
qed simp

text \<open>
  C33: \<^verbatim>\<open>fastupsert\<close> puts a batch of messages into the buffer of the root. When \<^verbatim>\<open>filledbuf\<close> says that the batch
  fits, which is when \<^verbatim>\<open>btupsert\<close> calls it, it returns, and its binary searches and moves of the offset
  table come to the stable sort of the old buffer followed by the batch: among messages for the
  same key the older ones stay in front. The entries of the node are untouched.
\<close>

theorem fastupsert_sorts_stably:
  assumes "un_type b = TPIVOT" and "sorted (map m_k (un_msgs b))" and "filledbuf b (int (length msg)) (\<Sum>m \<leftarrow> msg. umsgsz m) = Some False"
  shows "fastupsert bp b msg = Some (b\<lparr>un_bp := bp, un_msgs := sort_key m_k (un_msgs b @ msg)\<rparr>)"
proof -
  have "(\<Sum>m \<leftarrow> msg. umsgsz m - 2) \<le> (\<Sum>m \<leftarrow> msg. umsgsz m)" by (rule sum_list_mono) simp
  then have "usetmsgs b msg = Some (b\<lparr>un_msgs := un_msgs b @ msg\<rparr>)"
    using assms(1,3) by (intro usetmsgs_ok) (auto simp: filledbuf_def)
  then show ?thesis using insert_loop_sorts [OF assms(2)] by (simp add: fastupsert_def)
qed

definition sample_upivot :: unode where
  "sample_upivot = (newnode TPIVOT)\<lparr>un_vals := [\<lparr>kv_k = [0], kv_v = replicate 26 0\<rparr>, \<lparr>kv_k = [4], kv_v = replicate 26 0\<rparr>],
     un_msgs := [\<lparr>m_op = OINSERT, m_k = [2], m_v = [7]\<rparr>, \<lparr>m_op = OINSERT, m_k = [5], m_v = [7, 7]\<rparr>]\<rparr>"

theorem fastupsert_sorts_stably_witness:
  "map_option un_msgs (fastupsert zero_bptr sample_upivot [\<lparr>m_op = ODELETE, m_k = [2], m_v = []\<rparr>, \<lparr>m_op = OINSERT, m_k = [1], m_v = []\<rparr>])
     = Some [\<lparr>m_op = OINSERT, m_k = [1], m_v = []\<rparr>, \<lparr>m_op = OINSERT, m_k = [2], m_v = [7]\<rparr>, \<lparr>m_op = ODELETE, m_k = [2], m_v = []\<rparr>,
         \<lparr>m_op = OINSERT, m_k = [5], m_v = [7, 7]\<rparr>]"
  using fastupsert_sorts_stably [of sample_upivot "[\<lparr>m_op = ODELETE, m_k = [2], m_v = []\<rparr>, \<lparr>m_op = OINSERT, m_k = [1], m_v = []\<rparr>]" zero_bptr]
  by (simp add: sample_upivot_def newnode_def filledbuf_def un_bufsz_def umsgsz_def)

section \<open>The chosen child\<close>

lemma nth_mem_takeWhile_le: "n < length (takeWhile P xs) \<Longrightarrow> P (xs ! n)"
  by (metis nth_mem set_takeWhileD takeWhile_nth)

text \<open>The child a message goes to: the last pivot that is not above its key, the first for smaller keys.\<close>

definition route :: "unode \<Rightarrow> gmsg \<Rightarrow> nat" where
  "route b m = length (takeWhile (\<lambda>v. kv_k v \<le> m_k m) (tl (un_vals b)))"

abbreviation until :: "unode \<Rightarrow> nat \<Rightarrow> nat" where
  "until b c \<equiv> length (takeWhile (\<lambda>m. route b m < c) (un_msgs b))"

definition share :: "unode \<Rightarrow> nat \<Rightarrow> int" where
  "share b c = (\<Sum>m \<leftarrow> filter (\<lambda>m. route b m = c) (un_msgs b). umsgsz m)"

definition pivots_ok :: "unode \<Rightarrow> bool" where
  "pivots_ok b \<longleftrightarrow> un_vals b \<noteq> [] \<and> sorted_wrt (<) (map kv_k (un_vals b)) \<and> sorted (map m_k (un_msgs b))"

lemma route_less:
  assumes ok: "pivots_ok b" and i: "1 \<le> i" "i \<le> length (un_vals b)"
  shows "route b m < i \<longleftrightarrow> i = length (un_vals b) \<or> m_k m < kv_k (un_vals b ! i)"
proof -
  obtain v vs where v: "un_vals b = v # vs" using ok by (cases "un_vals b") (auto simp: pivots_ok_def)
  obtain n where n: "i = Suc n" "n \<le> length vs" using i v by (cases i) auto
  have st: "sorted_wrt (<) (map kv_k vs)" using ok v by (simp add: pivots_ok_def)
  let ?t = "takeWhile (\<lambda>v. kv_k v \<le> m_k m) vs"
  have "length ?t \<le> n \<longleftrightarrow> n = length vs \<or> m_k m < kv_k (vs ! n)"
  proof (cases "n = length vs")
    case True
    then show ?thesis by (simp add: length_takeWhile_le)
  next
    case False
    then have nl: "n < length vs" using n(2) by simp
    show ?thesis
    proof
      assume "length ?t \<le> n"
      then have "length ?t < length vs" using nl by simp
      then have "\<not> kv_k (vs ! length ?t) \<le> m_k m" by (rule nth_length_takeWhile)
      moreover have "kv_k (vs ! length ?t) \<le> kv_k (vs ! n)"
        using st nl \<open>length ?t \<le> n\<close> by (cases "length ?t = n") (auto simp: sorted_wrt_iff_nth_less less_imp_le)
      ultimately show "n = length vs \<or> m_k m < kv_k (vs ! n)" by auto
    next
      assume "n = length vs \<or> m_k m < kv_k (vs ! n)"
      then have "\<not> kv_k (vs ! n) \<le> m_k m" using False by simp
      then show "length ?t \<le> n" using nth_mem_takeWhile_le [of n "\<lambda>v. kv_k v \<le> m_k m" vs] by fastforce
    qed
  qed
  then show ?thesis using n by (simp add: route_def v less_Suc_eq_le)
qed

lemma route_mono:
  assumes "m_k m \<le> m_k m'"
  shows "route b m \<le> route b m'"
proof -
  have "length (takeWhile (\<lambda>v. kv_k v \<le> m_k m) vs) \<le> length (takeWhile (\<lambda>v. kv_k v \<le> m_k m') vs)" for vs
    using assms by (induction vs) (auto intro: order_trans)
  then show ?thesis by (simp add: route_def)
qed

lemma routes_sorted: "pivots_ok b \<Longrightarrow> sorted (map (route b) (un_msgs b))"
  unfolding pivots_ok_def sorted_map by (elim conjE, erule sorted_wrt_mono_rel [rotated]) (auto intro: route_mono)

lemma while_less:
  fixes f :: "'a \<Rightarrow> nat"
  assumes "sorted (map f xs)"
  shows "takeWhile (\<lambda>x. f x < c) xs = filter (\<lambda>x. f x < c) xs" "dropWhile (\<lambda>x. f x < c) xs = filter (\<lambda>x. \<not> f x < c) xs"
proof -
  have "takeWhile (\<lambda>x. f x < c) xs = filter (\<lambda>x. f x < c) xs \<and> dropWhile (\<lambda>x. f x < c) xs = filter (\<lambda>x. \<not> f x < c) xs"
    using assms
  proof (induction xs)
    case (Cons x xs)
    show ?case
    proof (cases "f x < c")
      case True
      then show ?thesis using Cons by simp
    next
      case False
      then have "\<forall>y \<in> set xs. \<not> f y < c" using Cons.prems by fastforce
      then show ?thesis using False by (simp add: filter_empty_conv filter_id_conv)
    qed
  qed simp
  then show "takeWhile (\<lambda>x. f x < c) xs = filter (\<lambda>x. f x < c) xs" "dropWhile (\<lambda>x. f x < c) xs = filter (\<lambda>x. \<not> f x < c) xs" by blast+
qed

lemma until_iff:
  assumes "pivots_ok b" and "t < length (un_msgs b)"
  shows "t < until b c \<longleftrightarrow> route b (un_msgs b ! t) < c"
proof
  assume "t < until b c"
  then show "route b (un_msgs b ! t) < c" by (rule nth_mem_takeWhile_le)
next
  assume r: "route b (un_msgs b ! t) < c"
  show "t < until b c"
  proof (rule ccontr)
    assume "\<not> t < until b c"
    then have le: "until b c \<le> t" by simp
    then have "until b c < length (un_msgs b)" using assms(2) by simp
    then have "\<not> route b (un_msgs b ! until b c) < c" by (rule nth_length_takeWhile)
    moreover have "route b (un_msgs b ! until b c) \<le> route b (un_msgs b ! t)"
      using sorted_nth_mono [OF routes_sorted [OF assms(1)] le] assms(2) le by simp
    ultimately show False using r by simp
  qed
qed

text \<open>The inner loop runs over the messages of one child.\<close>

lemma seg_end_runs:
  "0 \<le> j \<Longrightarrow> seg_end b kv j z = (j + int (length (takeWhile (\<lambda>m. kv = None \<or> m_k m < kv_k (the kv)) (drop (nat j) (un_msgs b)))),
     z + (\<Sum>m \<leftarrow> takeWhile (\<lambda>m. kv = None \<or> m_k m < kv_k (the kv)) (drop (nat j) (un_msgs b)). umsgsz m))"
proof (induction b kv j z rule: seg_end.induct)
  case (1 b kv j z)
  show ?case
  proof (cases "j < un_nbuf b")
    case False
    then show ?thesis using "1.prems" by (simp add: seg_end.simps [of b kv j z])
  next
    case True
    then have nj: "nat j < length (un_msgs b)" using "1.prems" by linarith
    have d: "drop (nat j) (un_msgs b) = un_msgs b ! nat j # drop (nat (j + 1)) (un_msgs b)"
      using Cons_nth_drop_Suc [OF nj] "1.prems" by (simp add: nat_add_distrib)
    have k: "keycmp (m_k m) (kv_k (the kv)) \<ge> 0 \<longleftrightarrow> \<not> m_k m < kv_k (the kv)" for m using keycmp_iff(4) [of "m_k m" "kv_k (the kv)"] by linarith
    show ?thesis
      using "1.IH" "1.prems" True unfolding d seg_end.simps [of b kv j z] by (auto simp: k Let_def)
  qed
qed

lemma takeWhile_split:
  assumes "c \<le> c'"
  shows "takeWhile (\<lambda>x. f x < (c' :: nat)) xs = takeWhile (\<lambda>x. f x < c) xs @ takeWhile (\<lambda>x. f x < c') (dropWhile (\<lambda>x. f x < c) xs)"
  using assms by (induction xs) auto

lemma seg_end_child:
  assumes ok: "pivots_ok b" and i: "1 \<le> i" "i \<le> length (un_vals b)"
  shows "seg_end b (if int i < un_nval b then Some (un_vals b ! i) else None) (int (until b (i - 1))) 0 = (int (until b i), share b (i - 1))"
proof -
  let ?kv = "if int i < un_nval b then Some (un_vals b ! i) else None"
  have p: "(\<lambda>m. ?kv = None \<or> m_k m < kv_k (the ?kv)) = (\<lambda>m. route b m < i)"
    using route_less [OF ok i] i(2) by auto
  have d: "drop (until b (i - 1)) (un_msgs b) = dropWhile (\<lambda>m. route b m < i - 1) (un_msgs b)" by (simp add: dropWhile_eq_drop)
  have t: "takeWhile (\<lambda>m. route b m < i) (un_msgs b) = takeWhile (\<lambda>m. route b m < i - 1) (un_msgs b) @ takeWhile (\<lambda>m. route b m < i) (dropWhile (\<lambda>m. route b m < i - 1) (un_msgs b))"
    by (rule takeWhile_split) simp
  have so: "sorted (map (route b) (un_msgs b))" by (rule routes_sorted [OF ok])
  have so2: "sorted (map (route b) (dropWhile (\<lambda>m. route b m < i - 1) (un_msgs b)))" using so by (simp add: dropWhile_eq_drop flip: drop_map)
  have "takeWhile (\<lambda>m. route b m < i) (dropWhile (\<lambda>m. route b m < i - 1) (un_msgs b))
      = filter (\<lambda>m. route b m < i) (dropWhile (\<lambda>m. route b m < i - 1) (un_msgs b))" by (rule while_less(1) [OF so2])
  also have "\<dots> = filter (\<lambda>m. route b m < i) (filter (\<lambda>m. \<not> route b m < i - 1) (un_msgs b))" by (simp only: while_less(2) [OF so])
  also have "\<dots> = filter (\<lambda>m. route b m = i - 1) (un_msgs b)" using i(1) by (auto intro: filter_cong)
  finally have "takeWhile (\<lambda>m. route b m < i) (dropWhile (\<lambda>m. route b m < i - 1) (un_msgs b)) = filter (\<lambda>m. route b m = i - 1) (un_msgs b)" .
  then show ?thesis
    using arg_cong [OF t, of length] unfolding seg_end_runs [of "int (until b (i - 1))" b ?kv 0, OF of_nat_0_le_iff] p nat_int d by (simp add: share_def)
qed

text \<open>After the children below \<open>n\<close>: the path describes the largest segment seen, if there is one.\<close>

definition best :: "unode \<Rightarrow> nat \<Rightarrow> int \<Rightarrow> upath \<Rightarrow> bool" where
  "best b n mx p \<longleftrightarrow> 0 \<le> mx \<and> up_b p = Some b \<and> (\<forall>c < n. share b c \<le> mx)
     \<and> (0 < mx \<longrightarrow> (\<exists>c < n. share b c = mx \<and> up_sz p = mx \<and> up_idx p = int c \<and> up_midx p = int c \<and> up_lo p = int (until b c) \<and> up_hi p = int (until b (Suc c))
          \<and> up_op p = POmod \<and> up_npull p = 0 \<and> up_pullsz p = 0))"

lemma victim_loop_best:
  assumes ok: "pivots_ok b"
  shows "1 \<le> i \<Longrightarrow> i \<le> Suc (length (un_vals b)) \<Longrightarrow> best b (i - 1) mx p \<Longrightarrow>
     \<exists>mx'. best b (length (un_vals b)) mx' (victim_loop b (int i) (int (until b (i - 1))) mx p)"
proof (induction "Suc (length (un_vals b)) - i" arbitrary: i mx p)
  case 0
  then show ?case by (auto simp: victim_loop.simps [of b "int i"])
next
  case (Suc d)
  then have i: "1 \<le> i" "i \<le> length (un_vals b)" by simp_all
  let ?p = "p\<lparr>up_op := POmod, up_lo := int (until b (i - 1)), up_hi := int (until b i), up_sz := share b (i - 1), up_idx := int i - 1, up_midx := int i - 1, up_npull := 0, up_pullsz := 0\<rparr>"
  have e: "victim_loop b (int i) (int (until b (i - 1))) mx p
      = (if share b (i - 1) > mx then victim_loop b (int (Suc i)) (int (until b (Suc i - 1))) (share b (i - 1)) ?p
         else victim_loop b (int (Suc i)) (int (until b (Suc i - 1))) mx p)"

  proof -
    have s: "seg_end b (if int i < un_nval b then Some (un_vals b ! nat (int i)) else None) (int (until b (i - 1))) 0 = (int (until b i), share b (i - 1))"
      unfolding nat_int by (rule seg_end_child [OF ok i])
    have le: "int i \<le> un_nval b" and st: "int i + 1 = int (Suc i)" "Suc i - 1 = i" using i(2) by simp_all
    show ?thesis by (simp only: victim_loop.simps [of b "int i" "int (until b (i - 1))" mx p] Let_def s le if_True prod.case st)
  qed
  have c: "c < i \<longleftrightarrow> c < i - 1 \<or> c = i - 1" for c using i(1) by auto
  have IH: "best b i mx1 p1 \<Longrightarrow> \<exists>mx'. best b (length (un_vals b)) mx' (victim_loop b (int (Suc i)) (int (until b (Suc i - 1))) mx1 p1)" for mx1 p1
    using Suc.hyps(1) [of "Suc i" mx1 p1] Suc.hyps(2) i by simp
  show ?case
  proof (cases "share b (i - 1) > mx")
    case True
    have "best b i (share b (i - 1)) ?p"
      unfolding best_def
    proof (intro conjI impI allI)
      show "0 \<le> share b (i - 1)" using True Suc.prems(3) by (simp add: best_def)
      show "up_b ?p = Some b" using Suc.prems(3) by (simp add: best_def)
      show "share b c \<le> share b (i - 1)" if "c < i" for c using that True Suc.prems(3) unfolding c best_def by fastforce
      show "\<exists>c < i. share b c = share b (i - 1) \<and> up_sz ?p = share b (i - 1) \<and> up_idx ?p = int c \<and> up_midx ?p = int c \<and> up_lo ?p = int (until b c)
        \<and> up_hi ?p = int (until b (Suc c)) \<and> up_op ?p = POmod \<and> up_npull ?p = 0 \<and> up_pullsz ?p = 0"
        using i(1) by (intro exI [of _ "i - 1"]) (simp add: of_nat_diff)
    qed
    then show ?thesis unfolding e using True IH by simp
  next
    case False
    then have "best b i mx p" using Suc.prems(3) unfolding best_def by (auto simp: c)
    then show ?thesis unfolding e using False IH by simp
  qed
qed

text \<open>
  C34: \<^verbatim>\<open>victim\<close> picks the child that a flush of a pivot goes to. For a pivot with sorted keys and a sorted,
  non-empty buffer it always picks one, the segment \<open>lo..hi\<close> it records is not empty and consists of
  exactly the messages that belong to that child, its size is recorded in \<^verbatim>\<open>sz\<close>, and no other child has
  messages of a larger total size.
\<close>

theorem victim_picks_largest_segment:
  assumes "pivots_ok b" and "un_msgs b \<noteq> []"
  shows "\<exists>c. up_b (victim b p) = Some b \<and> up_idx (victim b p) = int c \<and> c < length (un_vals b) \<and> up_lo (victim b p) < up_hi (victim b p)
     \<and> (\<forall>t < length (un_msgs b). up_lo (victim b p) \<le> int t \<and> int t < up_hi (victim b p) \<longleftrightarrow> route b (un_msgs b ! t) = c)
     \<and> up_sz (victim b p) = share b c \<and> (\<forall>c' < length (un_vals b). share b c' \<le> share b c)"
proof -
  have "best b 0 0 (p\<lparr>up_b := Some b\<rparr>)" by (simp add: best_def)
  moreover have "until b 0 = 0" by (cases "un_msgs b") simp_all
  ultimately obtain mx where be: "best b (length (un_vals b)) mx (victim b p)"
    using victim_loop_best [OF assms(1), of 1 0 "p\<lparr>up_b := Some b\<rparr>"] by (auto simp: victim_def)
  let ?m = "hd (un_msgs b)" and ?n = "length (un_vals b)"
  have "1 \<le> ?n" using assms(1) by (cases "un_vals b") (auto simp: pivots_ok_def)
  then have r: "route b ?m < ?n" using route_less [OF assms(1), of ?n ?m] by simp
  have nn: "umsgsz m \<ge> 7" for m by (simp add: umsgsz_def)
  have "?m \<in> set (filter (\<lambda>m. route b m = route b ?m) (un_msgs b))" using assms(2) by simp
  then have "umsgsz ?m \<le> share b (route b ?m)" unfolding share_def
    by (intro member_le_sum_list) (auto intro: order_trans [OF _ nn])
  then have "0 < mx" using be r nn [of ?m] unfolding best_def by fastforce
  then obtain c where c: "c < ?n" "share b c = mx" "up_sz (victim b p) = mx" "up_idx (victim b p) = int c" "up_lo (victim b p) = int (until b c)"
    "up_hi (victim b p) = int (until b (Suc c))" "up_b (victim b p) = Some b" "\<forall>c' < ?n. share b c' \<le> mx"
    using be unfolding best_def by blast
  have seg: "int (until b c) \<le> int t \<and> int t < int (until b (Suc c)) \<longleftrightarrow> route b (un_msgs b ! t) = c" if "t < length (un_msgs b)" for t
    using until_iff [OF assms(1) that, of c] until_iff [OF assms(1) that, of "Suc c"] by auto
  have "filter (\<lambda>m. route b m = c) (un_msgs b) \<noteq> []" using c(2) \<open>0 < mx\<close> by (auto simp: share_def)
  then obtain t where "t < length (un_msgs b)" "route b (un_msgs b ! t) = c" by (auto simp: filter_empty_conv in_set_conv_nth)
  then have "int (until b c) < int (until b (Suc c))" using seg by force
  then show ?thesis using c seg by auto
qed

text \<open>The pivot of the sample has a message of 9 bytes for its first child and one of 10 for its second.\<close>

definition sample_vpath :: upath where
  "sample_vpath = \<lparr>up_ins = None, up_b = None, up_idx = 0, up_lo = 0, up_hi = 0, up_sz = 0, up_op = POmod, up_nl = None, up_nr = None,
     up_midx = 0, up_npull = 0, up_pullsz = 0\<rparr>"

lemma sample_share: "share sample_upivot 1 = 10"
  by (simp add: share_def route_def sample_upivot_def newnode_def umsgsz_def)

theorem victim_picks_largest_segment_witness:
  "up_sz (victim sample_upivot sample_vpath) \<ge> 10 \<and> up_lo (victim sample_upivot sample_vpath) < up_hi (victim sample_upivot sample_vpath)"
proof -
  have ok: "pivots_ok sample_upivot" "un_msgs sample_upivot \<noteq> []" and l: "1 < length (un_vals sample_upivot)"
    by (simp_all add: pivots_ok_def sample_upivot_def newnode_def)
  obtain c where "up_lo (victim sample_upivot sample_vpath) < up_hi (victim sample_upivot sample_vpath)" "up_sz (victim sample_upivot sample_vpath) = share sample_upivot c"
    "\<forall>c' < length (un_vals sample_upivot). share sample_upivot c' \<le> share sample_upivot c"
    using victim_picks_largest_segment [OF ok, of sample_vpath] by blast
  then show ?thesis using l sample_share by metis
qed

end
