(* ===== verification/Pivots.thy ===== *)
theory Pivots
  imports Leafspec Buffers
begin

text \<open>
  Rebuilding a pivot (\<^verbatim>\<open>copyup\<close> and \<^verbatim>\<open>updatepiv\<close> of \<^verbatim>\<open>src/src/tree.c\<close>): the entries are copied, the child that
  changed is replaced, the messages that went down to it are left out, and messages from above are
  merged in as long as the buffer has room.
\<close>

section \<open>Entries\<close>

definition copyup1 :: "unode option \<Rightarrow> unode \<Rightarrow> unode option" where
  "copyup1 c n =
     (case c of
        None \<Rightarrow> Some n
      | Some c \<Rightarrow> do {
          kv \<leftarrow> ugetval c 0;
          k \<leftarrow> (if un_nbuf c > 0 then do {
                  m \<leftarrow> ugetmsg c 0;
                  Some (if keycmp (kv_k kv) (m_k m) > 0 then m_k m else kv_k kv)
                } else Some (kv_k kv));
          fill \<leftarrow> ublkfill c;
          usetptr n k (un_bp c) fill
        })"

definition copyup :: "unode \<Rightarrow> upath \<Rightarrow> unode option" where
  "copyup n pp = Option.bind (copyup1 (up_nl pp) n) (copyup1 (up_nr pp))"

function piv_vals :: "unode \<Rightarrow> upath \<Rightarrow> upath option \<Rightarrow> int \<Rightarrow> unode \<Rightarrow> unode option" where
  "piv_vals b p pp i n =
     (if i < un_nval b then
        (case pp of
           Some c \<Rightarrow>
             if i = up_midx p
             then Option.bind (copyup n c) (\<lambda>n. piv_vals b p pp (if up_op c = POrot \<or> up_op c = POmerge then i + 2 else i + 1) n)
             else Option.bind (ugetval b i) (\<lambda>kv. Option.bind (usetval n kv) (piv_vals b p pp (i + 1)))
         | None \<Rightarrow> Option.bind (ugetval b i) (\<lambda>kv. Option.bind (usetval n kv) (piv_vals b p pp (i + 1))))
      else Some n)"
  by pat_completeness auto
termination
  by (relation "measure (\<lambda>(b, p, pp, i, n). nat (un_nval b - i))") auto

declare piv_vals.simps [simp del]

section \<open>Messages\<close>

record pstate =
  ps_i :: int
  ps_j :: int
  ps_sz :: int
  ps_full :: bool
  ps_spc :: int
  ps_pullsz :: int
  ps_n :: unode

definition take_msg :: "gmsg \<Rightarrow> bool \<Rightarrow> pstate \<Rightarrow> pstate option" where
  "take_msg u full s = map_option (\<lambda>n. s\<lparr>ps_n := n, ps_sz := umsgsz u, ps_pullsz := ps_pullsz s + umsgsz u, ps_spc := ps_spc s - umsgsz u,
     ps_j := ps_j s + 1, ps_full := full\<rparr>) (usetmsg (ps_n s) u)"

lemma take_msg_j: "take_msg u full s = Some s' \<Longrightarrow> ps_j s' = ps_j s + 1"
  by (auto simp: take_msg_def)

text \<open>The inner loop: all messages from above with the key of the first one.\<close>

function pull_same :: "upath \<Rightarrow> key \<Rightarrow> pstate \<Rightarrow> pstate option" where
  "pull_same up k s =
     Option.bind (pullmsg up (ps_j s) (Some k) None (ps_full s) (ps_spc s)) (\<lambda>(c, u, full).
       if c = 0 \<and> ps_j s < up_hi up then Option.bind u (\<lambda>u. Option.bind (take_msg u full s) (\<lambda>s. pull_same up k s))
       else Some (s\<lparr>ps_full := full\<rparr>))"
  by pat_completeness auto
termination
  by (relation "measure (\<lambda>(up, k, s). nat (up_hi up - ps_j s))") (auto dest: take_msg_j)

declare pull_same.simps [simp del]

text \<open>The main loop over the messages of the node; the slice that went to the child is skipped.\<close>

partial_function (option) piv_msgs :: "upath \<Rightarrow> unode \<Rightarrow> int \<Rightarrow> upath option \<Rightarrow> pstate \<Rightarrow> pstate option" where
  "piv_msgs up b lo pp s =
     (if ps_i s < un_nbuf b then
        Option.bind (if ps_i s = lo then map_option (\<lambda>c. ps_i s + up_npull c) pp else Some (ps_i s)) (\<lambda>i.
          if i = un_nbuf b then Some (s\<lparr>ps_i := i\<rparr>)
          else Option.bind (ugetmsg b i) (\<lambda>m.
            Option.bind (pullmsg up (ps_j s) (Some (m_k m)) None (ps_full s) (ps_spc s - ps_sz s)) (\<lambda>(c, u, full).
              if c = 1
              then Option.bind u (\<lambda>u. Option.bind (cpkvp MSGMAX (msg_kvp u)) (\<lambda>v.
                Option.bind (pull_same up (kv_k v) (s\<lparr>ps_i := i, ps_full := full\<rparr>)) (piv_msgs up b lo pp)))
              else Option.bind (usetmsg (ps_n s) m) (\<lambda>n. piv_msgs up b lo pp (s\<lparr>ps_i := i + 1, ps_full := full, ps_n := n\<rparr>)))))
      else Some s)"

function pull_rest :: "upath \<Rightarrow> pstate \<Rightarrow> pstate option" where
  "pull_rest up s =
     (if ps_j s < up_hi up then
        Option.bind (pullmsg up (ps_j s) None None (ps_full s) (ps_spc s)) (\<lambda>(c, u, full).
          if full then Some (s\<lparr>ps_full := True\<rparr>) else Option.bind u (\<lambda>u. Option.bind (take_msg u full s) (\<lambda>s. pull_rest up s)))
      else Some s)"
  by pat_completeness auto
termination
  by (relation "measure (\<lambda>(up, s). nat (up_hi up - ps_j s))") (auto dest: take_msg_j)

declare pull_rest.simps [simp del]

definition updatepiv :: "bptr \<Rightarrow> upath \<Rightarrow> upath \<Rightarrow> upath option \<Rightarrow> upath option" where
  "updatepiv bp up p pp = do {
     b \<leftarrow> up_b p;
     n \<leftarrow> piv_vals b p pp 0 (newnode (un_type b));
     fill \<leftarrow> ubuffill b;
     let spc = BUFSPC - fill + (case pp of None \<Rightarrow> 0 | Some c \<Rightarrow> up_pullsz c);
     s \<leftarrow> piv_msgs up b (up_lo p) pp \<lparr>ps_i = 0, ps_j = up_lo up, ps_sz = 0, ps_full = False, ps_spc = spc, ps_pullsz = up_pullsz p, ps_n = n\<rparr>;
     s \<leftarrow> pull_rest up s;
     Some (p\<lparr>up_pullsz := ps_pullsz s, up_npull := ps_j s - up_lo up, up_op := POmod, up_nl := setb bp (ps_n s)\<rparr>)
   }"

section \<open>Merging stably\<close>

lemma sort_own:
  assumes "\<forall>x \<in> set P. f x < f m" and "\<forall>x \<in> set xs. f x \<le> f m"
  shows "sort_key f (xs @ P) @ [m] = sort_key f ((xs @ [m]) @ P)"
proof (rule properties_for_sort_key [symmetric])
  show "mset (sort_key f (xs @ P) @ [m]) = mset ((xs @ [m]) @ P)" by simp
  show "sorted (map f (sort_key f (xs @ P) @ [m]))" using assms by (auto simp: sorted_append less_imp_le)
  show "filter (\<lambda>x. f k = f x) (sort_key f (xs @ P) @ [m]) = filter (\<lambda>x. f k = f x) ((xs @ [m]) @ P)" if "k \<in> set (sort_key f (xs @ P) @ [m])" for k
  proof -
    have "filter (\<lambda>x. f k = f x) (sort_key f (xs @ P)) = filter (\<lambda>x. f k = f x) (xs @ P)"
      using sort_key_stable [of f "f k" "xs @ P"] by (simp add: eq_commute [of "f k"])
    moreover have "f k = f m \<Longrightarrow> filter (\<lambda>x. f k = f x) P = []" using assms(1) by (fastforce simp: filter_empty_conv)
    ultimately show ?thesis by (cases "f k = f m") simp_all
  qed
qed

lemma sort_pull:
  assumes "\<forall>x \<in> set (xs @ P). f x \<le> f u"
  shows "sort_key f (xs @ P) @ [u] = sort_key f (xs @ P @ [u])"
proof -
  have "\<forall>x \<in> set (sort_key f (xs @ P)). f x \<le> f u" using assms by simp
  then have td: "takeWhile (\<lambda>y. f y \<le> f u) (sort_key f (xs @ P)) = sort_key f (xs @ P)" "dropWhile (\<lambda>y. f y \<le> f u) (sort_key f (xs @ P)) = []"
    by (simp_all add: takeWhile_eq_all_conv)
  show ?thesis using sort_snoc [of f "xs @ P" u] unfolding td append_assoc by (rule sym)
qed

lemma sorted_take: "sorted (map f ms) \<Longrightarrow> c < length ms \<Longrightarrow> x \<in> set (take c ms) \<Longrightarrow> f x \<le> f (ms ! c)"
proof -
  assume a: "sorted (map f ms)" "c < length ms" "x \<in> set (take c ms)"
  then obtain i where "i < c" "x = ms ! i" by (auto simp: in_set_conv_nth)
  then show "f x \<le> f (ms ! c)" using sorted_nth_mono [OF a(1), of i c] a(2) by simp
qed

text \<open>
  Where the loop stands: the messages \<open>xs\<close> of the node and the first \<open>c\<close> of those from above, \<open>ms\<close>, are in the
  new buffer, the messages \<open>R\<close> of the node are to come.
\<close>

definition no_room :: "gmsg list \<Rightarrow> pstate \<Rightarrow> nat \<Rightarrow> bool" where
  "no_room ms s c \<longleftrightarrow> c < length ms \<and> ps_spc s < umsgsz (ms ! c) + ps_sz s"

definition piv_at :: "upath \<Rightarrow> unode \<Rightarrow> int \<Rightarrow> int \<Rightarrow> gmsg list \<Rightarrow> pstate \<Rightarrow> nat \<Rightarrow> gmsg list \<Rightarrow> gmsg list \<Rightarrow> bool" where
  "piv_at up n r z ms s c xs R \<longleftrightarrow>
     ps_n s = n\<lparr>un_msgs := sort_key m_k (xs @ take c ms)\<rparr> \<and> ps_j s = up_lo up + int c \<and> c \<le> length ms \<and> feeds up (up_lo up + int c) (drop c ms)
     \<and> un_type n = TPIVOT \<and> msgs_room (xs @ take c ms) + msgs_room R + ps_spc s = r \<and> r \<le> BUFSPC \<and> 0 \<le> ps_spc s
     \<and> (R \<noteq> [] \<longrightarrow> (\<forall>x \<in> set (take c ms). m_k x < m_k (hd R))) \<and> (\<not> ps_full s \<and> c < length ms \<longrightarrow> (\<forall>x \<in> set xs. m_k x \<le> m_k (ms ! c)))
     \<and> sorted (map m_k (xs @ R)) \<and> sorted (map m_k ms) \<and> ps_pullsz s = z + msgs_room (take c ms)
     \<and> ps_sz s = (if c = 0 then 0 else umsgsz (ms ! (c - 1))) \<and> (ps_full s \<longrightarrow> no_room ms s c)"

lemma piv_room: "2 * un_nbuf b + un_bufsz b = msgs_room (un_msgs b)"
proof -
  have "2 * int (length ms) + (\<Sum>m \<leftarrow> ms. umsgsz m - 2) = msgs_room ms" for ms by (induction ms) auto
  then show ?thesis by (simp add: un_bufsz_def)
qed

lemma usetmsg_ok:
  assumes "un_type n = TPIVOT" and "msgs_room (un_msgs n) + umsgsz m \<le> BUFSPC"
  shows "usetmsg n m = Some (n\<lparr>un_msgs := un_msgs n @ [m]\<rparr>)"
  using assms piv_room [of "n\<lparr>un_msgs := un_msgs n @ [m]\<rparr>"] by (simp add: usetmsg_def Let_def)

lemma room_sort: "msgs_room (sort_key f ms) = msgs_room ms"
  by (metis mset_map mset_sort sum_mset_sum_list)

lemma take_msg_step:
  assumes at: "piv_at up n r z ms s c xs R" and c: "c < length ms" "umsgsz (ms ! c) \<le> ps_spc s" and f: "\<not> ps_full s"
    and R: "R \<noteq> [] \<longrightarrow> m_k (ms ! c) < m_k (hd R)"
  shows "\<exists>s'. take_msg (ms ! c) False s = Some s' \<and> piv_at up n r z ms s' (Suc c) xs R \<and> ps_i s' = ps_i s \<and> \<not> ps_full s'"
proof -
  let ?u = "ms ! c"
  have a: "ps_n s = n\<lparr>un_msgs := sort_key m_k (xs @ take c ms)\<rparr>" "un_type n = TPIVOT" "msgs_room (xs @ take c ms) + msgs_room R + ps_spc s = r"
    "\<forall>x \<in> set xs. m_k x \<le> m_k ?u" "sorted (map m_k ms)" "R \<noteq> [] \<longrightarrow> (\<forall>x \<in> set (take c ms). m_k x < m_k (hd R))" "feeds up (up_lo up + int c) (drop c ms)" "r \<le> BUFSPC"
    using at f c(1) unfolding piv_at_def by blast+
  have tk: "take (Suc c) ms = take c ms @ [?u]" by (rule take_Suc_conv_app_nth [OF c(1)])
  have dr: "drop c ms = ?u # drop (Suc c) ms" by (rule Cons_nth_drop_Suc [OF c(1), symmetric])
  have low: "\<forall>x \<in> set (take c ms). m_k x \<le> m_k ?u" using sorted_take [OF a(5) c(1)] by blast
  have k: "\<forall>x \<in> set (xs @ take c ms). m_k x \<le> m_k ?u" using a(4) low by auto
  have "msgs_room (sort_key m_k (xs @ take c ms)) + umsgsz ?u \<le> BUFSPC"
    unfolding room_sort using a(3,8) c(2) msgs_room_nonneg [of R] by linarith
  then have "usetmsg (ps_n s) ?u = Some (n\<lparr>un_msgs := sort_key m_k (xs @ take (Suc c) ms)\<rparr>)"
    using usetmsg_ok [of "ps_n s" ?u] a(1,2) sort_pull [OF k] by (simp add: tk)
  then obtain s' where s': "take_msg ?u False s = Some s'" "s' = s\<lparr>ps_n := n\<lparr>un_msgs := sort_key m_k (xs @ take (Suc c) ms)\<rparr>, ps_sz := umsgsz ?u,
      ps_pullsz := ps_pullsz s + umsgsz ?u, ps_spc := ps_spc s - umsgsz ?u, ps_j := ps_j s + 1, ps_full := False\<rparr>"
    by (simp add: take_msg_def)
  have nx: "\<forall>x \<in> set xs. m_k x \<le> m_k (ms ! Suc c)" if "Suc c < length ms"
    using a(4) sorted_nth_mono [OF a(5), of c "Suc c"] that by fastforce
  have "piv_at up n r z ms s' (Suc c) xs R"
    using at c R a(6) nx umsgsz_pos(1) [of ?u] a(7) unfolding piv_at_def s'(2) by (simp add: tk dr algebra_simps)
  then show ?thesis using s' by simp
qed

lemma own_step:
  assumes at: "piv_at up n r z ms s c xs (m # R)" and f: "ps_full s \<longrightarrow> full" "full \<longrightarrow> no_room ms s c" and le: "full \<or> c = length ms \<or> m_k m \<le> m_k (ms ! c)"
  shows "\<exists>n'. usetmsg (ps_n s) m = Some n' \<and> piv_at up n r z ms (s\<lparr>ps_i := i, ps_full := full, ps_n := n'\<rparr>) c (xs @ [m]) R"
proof -
  have a: "ps_n s = n\<lparr>un_msgs := sort_key m_k (xs @ take c ms)\<rparr>" "un_type n = TPIVOT"
    "msgs_room (xs @ take c ms) + msgs_room (m # R) + ps_spc s = r" "0 \<le> ps_spc s"
    "\<forall>x \<in> set (take c ms). m_k x < m_k m" "sorted (map m_k (xs @ m # R))" "\<not> ps_full s \<and> c < length ms \<longrightarrow> (\<forall>x \<in> set xs. m_k x \<le> m_k (ms ! c))" "r \<le> BUFSPC"
    using at unfolding piv_at_def by (blast, blast, blast, blast, auto)
  have xm: "\<forall>x \<in> set xs. m_k x \<le> m_k m" using a(6) by (auto simp: sorted_append)
  have "msgs_room (sort_key m_k (xs @ take c ms)) + umsgsz m \<le> BUFSPC"
    unfolding room_sort using a(3,4,8) msgs_room_nonneg [of R] by simp
  then have u: "usetmsg (ps_n s) m = Some (n\<lparr>un_msgs := sort_key m_k ((xs @ [m]) @ take c ms)\<rparr>)"
    using usetmsg_ok [of "ps_n s" m] a(1,2) sort_own [OF a(5) xm] by simp
  have hd: "R \<noteq> [] \<longrightarrow> (\<forall>x \<in> set (take c ms). m_k x < m_k (hd R))"
  proof
    assume "R \<noteq> []"
    then have "m_k m \<le> m_k (hd R)" using a(6) by (cases R) (auto simp: sorted_append)
    then show "\<forall>x \<in> set (take c ms). m_k x < m_k (hd R)" using a(5) less_le_trans by blast
  qed
  have nx: "\<not> full \<and> c < length ms \<longrightarrow> (\<forall>x \<in> set (xs @ [m]). m_k x \<le> m_k (ms ! c))" using a(7) le f by auto
  have "piv_at up n r z ms (s\<lparr>ps_i := i, ps_full := full, ps_n := n\<lparr>un_msgs := sort_key m_k ((xs @ [m]) @ take c ms)\<rparr>\<rparr>) c (xs @ [m]) R"
    using at hd nx f(2) unfolding piv_at_def no_room_def by (simp add: algebra_simps)
  then show ?thesis using u by blast
qed

lemma piv_at_full: "piv_at up n r z ms s c xs R \<Longrightarrow> no_room ms s c \<Longrightarrow> piv_at up n r z ms (s\<lparr>ps_full := True\<rparr>) c xs R"
  "piv_at up n r z ms s c xs R \<Longrightarrow> piv_at up n r z ms (s\<lparr>ps_i := i\<rparr>) c xs R"
  "piv_at up n r z ms s c xs R \<Longrightarrow> ps_full s \<Longrightarrow> no_room ms s c"
  "piv_at up n r z ms s c xs R \<Longrightarrow> 0 \<le> ps_sz s"
  "piv_at up n r z ms s c xs R \<Longrightarrow> c < length ms \<Longrightarrow> ps_spc s < umsgsz (ms ! c) \<Longrightarrow> no_room ms s c"
  unfolding piv_at_def no_room_def using umsgsz_pos(1) [of "ms ! (c - 1)"] by (simp_all, auto)

text \<open>What \<^verbatim>\<open>pullmsg\<close> sees.\<close>

lemma pullmsg_at:
  assumes "piv_at up n r z ms s c xs R" and "\<not> ps_full s"
  shows "c < length ms \<Longrightarrow> ps_j s < up_hi up \<and> pullmsg up (ps_j s) k None False spc
       = Some (if umsgsz (ms ! c) \<le> spc then (case k of None \<Rightarrow> 0 | Some k \<Rightarrow> keycmp k (m_k (ms ! c)), Some (ms ! c), False) else (- 1, Some (ms ! c), True))"
    "c = length ms \<Longrightarrow> ps_j s = up_hi up" "pullmsg up (up_hi up) k None False spc = Some (- 1, None, False)"
proof -
  have f: "feeds up (ps_j s) (drop c ms)" "c \<le> length ms" using assms(1) unfolding piv_at_def by (metis, blast)
  show "ps_j s < up_hi up \<and> pullmsg up (ps_j s) k None False spc
       = Some (if umsgsz (ms ! c) \<le> spc then (case k of None \<Rightarrow> 0 | Some k \<Rightarrow> keycmp k (m_k (ms ! c)), Some (ms ! c), False) else (- 1, Some (ms ! c), True))" if c: "c < length ms"
    using f(1) unfolding Cons_nth_drop_Suc [OF c, symmetric] by (auto simp: pullmsg_def)
  show "ps_j s = up_hi up" if "c = length ms" using f(1) that by simp
  show "pullmsg up (up_hi up) k None False spc = Some (- 1, None, False)" by (simp add: pullmsg_def)
qed

lemma pull_same_runs:
  "piv_at up n r z ms s c xs R \<Longrightarrow> \<not> ps_full s \<Longrightarrow> R \<noteq> [] \<longrightarrow> k < m_k (hd R) \<Longrightarrow>
     \<exists>c' s'. pull_same up k s = Some s' \<and> piv_at up n r z ms s' c' xs R \<and> c \<le> c' \<and> ps_i s' = ps_i s
       \<and> (c < length ms \<and> m_k (ms ! c) = k \<and> umsgsz (ms ! c) \<le> ps_spc s \<longrightarrow> c < c')"
proof (induction "length ms - c" arbitrary: s c)
  case 0
  then have c: "c = length ms" by (simp add: piv_at_def)
  have "pull_same up k s = Some (s\<lparr>ps_full := False\<rparr>)"
    using pullmsg_at(2) [OF 0(2,3) c] pullmsg_at(3) [OF 0(2,3), of "Some k" "ps_spc s"] 0(3) by (simp add: pull_same.simps [of up k s])
  moreover have "s\<lparr>ps_full := False\<rparr> = s" using 0(3) by (cases s) simp
  ultimately show ?case using 0(2) c by auto
next
  case (Suc d)
  then have c: "c < length ms" by simp
  note pm = pullmsg_at(1) [OF Suc.prems(1,2) c, of "Some k" "ps_spc s"]
  have fs: "s\<lparr>ps_full := False\<rparr> = s" using Suc.prems(2) by (cases s) simp
  show ?case
  proof (cases "umsgsz (ms ! c) \<le> ps_spc s")
    case False
    then have "pull_same up k s = Some (s\<lparr>ps_full := True\<rparr>)" using pm Suc.prems(2) by (simp add: pull_same.simps [of up k s])
    then show ?thesis using piv_at_full(1) [OF Suc.prems(1)] piv_at_full(5) [OF Suc.prems(1) c] False by auto
  next
    case True
    show ?thesis
    proof (cases "m_k (ms ! c) = k")
      case False
      then have "keycmp k (m_k (ms ! c)) \<noteq> 0" by (auto simp: keycmp_iff)
      then have "pull_same up k s = Some s" using pm True Suc.prems(2) fs by (simp add: pull_same.simps [of up k s])
      then show ?thesis using Suc.prems(1) False by auto
    next
      case eq: True
      then have k0: "keycmp k (m_k (ms ! c)) = 0" by (simp add: keycmp_iff)
      obtain s1 where s1: "take_msg (ms ! c) False s = Some s1" "piv_at up n r z ms s1 (Suc c) xs R" "ps_i s1 = ps_i s" "\<not> ps_full s1"
        using take_msg_step [OF Suc.prems(1) c True Suc.prems(2)] Suc.prems(3) eq by blast
      have "pull_same up k s = pull_same up k s1" using pm True k0 s1(1) Suc.prems(2) by (simp add: pull_same.simps [of up k s])
      moreover have "d = length ms - Suc c" using Suc.hyps(2) by simp
      then obtain c' s' where "pull_same up k s1 = Some s'" "piv_at up n r z ms s' c' xs R" "Suc c \<le> c'" "ps_i s' = ps_i s1"
        using Suc.hyps(1) [OF _ s1(2,4) Suc.prems(3)] by blast
      ultimately show ?thesis using s1(3) by (intro exI [of _ c'] exI [of _ s']) auto
    qed
  qed
qed

lemma pull_rest_runs:
  "piv_at up n r z ms s c xs [] \<Longrightarrow> \<exists>c' s'. pull_rest up s = Some s' \<and> piv_at up n r z ms s' c' xs []
     \<and> (c' = length ms \<or> ps_full s')"
proof (induction "length ms - c" arbitrary: s c)
  case 0
  then have c: "c = length ms" "ps_j s = up_hi up" unfolding piv_at_def by auto
  then have "pull_rest up s = Some s" by (simp add: pull_rest.simps [of up s])
  then show ?case using 0(2) c by auto
next
  case (Suc d)
  then have c: "c < length ms" by simp
  then have j: "ps_j s < up_hi up" using Suc.prems unfolding piv_at_def by (auto simp: Cons_nth_drop_Suc [OF c, symmetric])
  show ?case
  proof (cases "ps_full s")
    case True
    then have "pull_rest up s = Some (s\<lparr>ps_full := True\<rparr>)" using j by (simp add: pull_rest.simps [of up s] pullmsg_def)
    then show ?thesis using piv_at_full(1) [OF Suc.prems] piv_at_full(3) [OF Suc.prems True] by fastforce
  next
    case f: False
    note pm = pullmsg_at(1) [OF Suc.prems f c, of None "ps_spc s"]
    show ?thesis
    proof (cases "umsgsz (ms ! c) \<le> ps_spc s")
      case False
      then have "pull_rest up s = Some (s\<lparr>ps_full := True\<rparr>)" using pm f by (simp add: pull_rest.simps [of up s])
      then show ?thesis using piv_at_full(1) [OF Suc.prems] piv_at_full(5) [OF Suc.prems c] False by fastforce
    next
      case True
      obtain s1 where s1: "take_msg (ms ! c) False s = Some s1" "piv_at up n r z ms s1 (Suc c) xs []"
        using take_msg_step [OF Suc.prems c True f] by blast
      have "pull_rest up s = pull_rest up s1" using pm True s1(1) f by (simp add: pull_rest.simps [of up s])
      moreover have "d = length ms - Suc c" using Suc.hyps(2) by simp
      ultimately show ?thesis using Suc.hyps(1) [OF _ s1(2)] by auto
    qed
  qed
qed

section \<open>The messages that stay\<close>

definition staying :: "unode \<Rightarrow> int \<Rightarrow> upath option \<Rightarrow> int \<Rightarrow> gmsg list" where
  "staying b lo pp i =
     (case pp of
        Some c \<Rightarrow> if i \<le> lo then take (nat (lo - i)) (drop (nat i) (un_msgs b)) @ drop (nat (lo + up_npull c)) (un_msgs b) else drop (nat i) (un_msgs b)
      | None \<Rightarrow> drop (nat i) (un_msgs b))"

text \<open>The slice that the child took lies in the buffer; a path that ends here has none.\<close>

definition slice_ok :: "unode \<Rightarrow> int \<Rightarrow> upath option \<Rightarrow> bool" where
  "slice_ok b lo pp \<longleftrightarrow> (case pp of Some c \<Rightarrow> 0 \<le> lo \<and> 0 \<le> up_npull c \<and> lo + up_npull c \<le> un_nbuf b | None \<Rightarrow> lo < 0)"

lemma staying_end: "slice_ok b lo pp \<Longrightarrow> un_nbuf b \<le> i \<Longrightarrow> staying b lo pp i = []"
  by (auto simp: staying_def slice_ok_def split: option.splits)

lemma drop_at: "0 \<le> i \<Longrightarrow> i < un_nbuf b \<Longrightarrow> drop (nat i) (un_msgs b) = un_msgs b ! nat i # drop (nat (i + 1)) (un_msgs b)"
proof -
  assume i: "0 \<le> i" "i < un_nbuf b"
  then have "nat i < length (un_msgs b)" "nat (i + 1) = Suc (nat i)" by linarith+
  then show ?thesis by (simp add: Cons_nth_drop_Suc)
qed

lemma staying_step:
  assumes ok: "slice_ok b lo pp" and i: "0 \<le> i" "i < un_nbuf b"
    and i': "(if i = lo then map_option (\<lambda>c. i + up_npull c) pp else Some i) = Some i'"
  shows "i \<le> i'" "i' \<le> un_nbuf b" "staying b lo pp i' = staying b lo pp i" "i' < un_nbuf b \<Longrightarrow> staying b lo pp i = un_msgs b ! nat i' # staying b lo pp (i' + 1)"
proof -
  show b1: "i \<le> i'" "i' \<le> un_nbuf b" using ok i i' by (auto simp: slice_ok_def split: if_splits option.splits)
  show same: "staying b lo pp i' = staying b lo pp i" using ok i i' by (auto simp: staying_def slice_ok_def split: if_splits option.splits)
  show "staying b lo pp i = un_msgs b ! nat i' # staying b lo pp (i' + 1)" if l: "i' < un_nbuf b"
  proof (cases pp)
    case None
    then show ?thesis using drop_at [of i' b] l b1(1) i(1) same by (simp add: staying_def)
  next
    case (Some c)
    show ?thesis
    proof (cases "i = lo")
      case True
      then have "i' = lo + up_npull c" using i' Some by simp
      then show ?thesis using drop_at [of i' b] l b1(1) i(1) True Some ok by (auto simp: staying_def slice_ok_def)
    next
      case False
      then have e: "i' = i" using i' by simp
      show ?thesis
      proof (cases "i < lo")
        case True
        then have "nat (lo - i) = Suc (nat (lo - (i + 1)))" by linarith
        then have "take (nat (lo - i)) (drop (nat i) (un_msgs b)) = un_msgs b ! nat i # take (nat (lo - (i + 1))) (drop (nat (i + 1)) (un_msgs b))"
          unfolding drop_at [OF i] by simp
        then show ?thesis using True Some e by (simp add: staying_def)
      next
        case ge: False
        then show ?thesis using drop_at [OF i] False Some e by (simp add: staying_def)
      qed
    qed
  qed
qed

lemma piv_msgs_runs:
  assumes ok: "slice_ok b lo pp" and ty: "un_type b = TPIVOT" and small: "\<forall>m \<in> set ms. length (m_k m) + length (m_v m) \<le> MSGMAX"
  shows "0 \<le> ps_i s \<Longrightarrow> piv_at up n r z ms s c xs (staying b lo pp (ps_i s)) \<Longrightarrow>
     \<exists>c' s'. piv_msgs up b lo pp s = Some s' \<and> piv_at up n r z ms s' c' (xs @ staying b lo pp (ps_i s)) []"
proof (induction "nat (un_nbuf b - ps_i s) + (length ms - c)" arbitrary: s c xs rule: less_induct)
  case less
  show ?case
  proof (cases "ps_i s < un_nbuf b")
    case False
    then have "piv_msgs up b lo pp s = Some s" by (simp add: piv_msgs.simps [of up b lo pp s])
    then show ?thesis using less.prems(2) staying_end [OF ok] False by auto
  next
    case True
    have "\<not> (ps_i s = lo \<and> pp = None)" using ok less.prems(1) by (auto simp: slice_ok_def split: option.splits)
    then obtain i where i: "(if ps_i s = lo then map_option (\<lambda>c. ps_i s + up_npull c) pp else Some (ps_i s)) = Some i"
      by (cases pp; cases "ps_i s = lo") auto
    note st = staying_step [OF ok less.prems(1) True i]
    show ?thesis
    proof (cases "i = un_nbuf b")
      case e: True
      then have "piv_msgs up b lo pp s = Some (s\<lparr>ps_i := i\<rparr>)" using True i by (simp add: piv_msgs.simps [of up b lo pp s])
      moreover have "staying b lo pp (ps_i s) = []" using st(3) staying_end [OF ok, of i] e by simp
      ultimately show ?thesis using piv_at_full(2) [OF less.prems(2)] by auto
    next
      case ne: False
      then have il: "i < un_nbuf b" "0 \<le> i" using st(1,2) less.prems(1) by auto
      let ?m = "un_msgs b ! nat i" and ?R = "staying b lo pp (i + 1)"
      have R: "staying b lo pp (ps_i s) = ?m # ?R" by (rule st(4) [OF il(1)])
      have at: "piv_at up n r z ms s c xs (?m # ?R)" using less.prems(2) unfolding R .
      have gm: "ugetmsg b i = Some ?m" using ty il by (simp add: ugetmsg_def)
      have own: "\<exists>c' s'. piv_msgs up b lo pp s = Some s' \<and> piv_at up n r z ms s' c' (xs @ staying b lo pp (ps_i s)) []"
        if pm: "pullmsg up (ps_j s) (Some (m_k ?m)) None (ps_full s) (ps_spc s - ps_sz s) = Some (q, u, full)" "q \<noteq> 1" "ps_full s \<longrightarrow> full" "full \<longrightarrow> no_room ms s c"
          and le: "full \<or> c = length ms \<or> m_k ?m \<le> m_k (ms ! c)" for q u full
      proof -
        obtain n' where n': "usetmsg (ps_n s) ?m = Some n'" "piv_at up n r z ms (s\<lparr>ps_i := i + 1, ps_full := full, ps_n := n'\<rparr>) c (xs @ [?m]) ?R"
          using own_step [OF at pm(3,4) le] by blast
        have "piv_msgs up b lo pp s = piv_msgs up b lo pp (s\<lparr>ps_i := i + 1, ps_full := full, ps_n := n'\<rparr>)"
          using True i ne gm pm(1,2) n'(1) by (simp add: piv_msgs.simps [of up b lo pp s])
        moreover have "nat (un_nbuf b - (i + 1)) + (length ms - c) < nat (un_nbuf b - ps_i s) + (length ms - c)" using st(1) il(1) by linarith
        ultimately show ?thesis
          using less.hyps [of "s\<lparr>ps_i := i + 1, ps_full := full, ps_n := n'\<rparr>" c "xs @ [?m]"] n'(2) il(2) R by simp
      qed
      show ?thesis
      proof (cases "ps_full s \<or> c = length ms")
        case True
        then have "\<exists>q u. pullmsg up (ps_j s) (Some (m_k ?m)) None (ps_full s) (ps_spc s - ps_sz s) = Some (q, u, ps_full s) \<and> q \<noteq> 1"
          using pullmsg_at(2) [OF at] by (cases "ps_full s") (auto simp: pullmsg_def)
        then show ?thesis using own True piv_at_full(3) [OF at] by blast
      next
        case nf: False
        then have c: "c < length ms" "\<not> ps_full s" using at unfolding piv_at_def by auto
        note sp = piv_at_full(4) [OF at]
        note pm = pullmsg_at(1) [OF at c(2,1), of "Some (m_k ?m)" "ps_spc s - ps_sz s"]
        show ?thesis
        proof (cases "umsgsz (ms ! c) \<le> ps_spc s - ps_sz s \<and> m_k (ms ! c) < m_k ?m")
          case False
          then show ?thesis
            using own [of "fst (the (pullmsg up (ps_j s) (Some (m_k ?m)) None False (ps_spc s - ps_sz s)))"] pm c keycmp_iff(3) [of "m_k ?m" "m_k (ms ! c)"]
            by (cases "umsgsz (ms ! c) \<le> ps_spc s - ps_sz s") (auto simp: not_less no_room_def)
        next
          case pull: True
          have k1: "keycmp (m_k ?m) (m_k (ms ! c)) = 1" using pull by (simp add: keycmp_iff)
          have cp: "cpkvp MSGMAX (msg_kvp (ms ! c)) = Some (msg_kvp (ms ! c))" using small c(1) by (simp add: cpkvp_def msg_kvp_def)
          let ?s = "s\<lparr>ps_i := i, ps_full := False\<rparr>"
          have fs: "?s = s\<lparr>ps_i := i\<rparr>" using c(2) by (cases s) simp
          have ats: "piv_at up n r z ms ?s c xs (?m # ?R)" unfolding fs by (rule piv_at_full(2) [OF at])
          obtain c' s' where s': "pull_same up (m_k (ms ! c)) ?s = Some s'" "piv_at up n r z ms s' c' xs (?m # ?R)" "ps_i s' = i" "c < c'"
            using pull_same_runs [OF ats, of "m_k (ms ! c)"] pull c sp by auto
          have e: "piv_msgs up b lo pp s = piv_msgs up b lo pp s'"
            using True i ne gm pm pull k1 cp s'(1) c(2) by (simp add: piv_msgs.simps [of up b lo pp s] msg_kvp_def)
          have "c' \<le> length ms" using s'(2) unfolding piv_at_def by blast
          then have "nat (un_nbuf b - ps_i s') + (length ms - c') < nat (un_nbuf b - ps_i s) + (length ms - c)" using s'(3,4) st(1) c(1) by linarith
          moreover have "piv_at up n r z ms s' c' xs (staying b lo pp (ps_i s'))" using s'(2) R st(3) unfolding s'(3) by simp
          ultimately show ?thesis unfolding e using less.hyps [of s' c' xs] s'(3) il(2) st(3) by simp
        qed
      qed
    qed
  qed
qed

section \<open>The room of the slice\<close>

text \<open>
  What the child does not report of the messages it took: a leaf does not count the first message of an
  entry it already had.
\<close>

definition unpulled :: "unode \<Rightarrow> int \<Rightarrow> upath option \<Rightarrow> int" where
  "unpulled b lo pp = (case pp of None \<Rightarrow> 0 | Some c \<Rightarrow> msgs_room (take (nat (up_npull c)) (drop (nat lo) (un_msgs b))) - up_pullsz c)"

lemma staying_room:
  assumes "slice_ok b lo (Some c)"
  shows "msgs_room (staying b lo (Some c) 0) + msgs_room (take (nat (up_npull c)) (drop (nat lo) (un_msgs b))) = msgs_room (un_msgs b)"
proof -
  have "nat (lo + up_npull c) = nat (up_npull c) + nat lo" using assms by (simp add: slice_ok_def nat_add_distrib add.commute)
  then have "un_msgs b = take (nat lo) (un_msgs b) @ take (nat (up_npull c)) (drop (nat lo) (un_msgs b)) @ drop (nat (lo + up_npull c)) (un_msgs b)"
    by (metis append_take_drop_id drop_drop)
  then have "msgs_room (un_msgs b) = msgs_room (take (nat lo) (un_msgs b)) + msgs_room (take (nat (up_npull c)) (drop (nat lo) (un_msgs b))) + msgs_room (drop (nat (lo + up_npull c)) (un_msgs b))"
    by (metis (no_types, lifting) add.assoc map_append sum_list_append)
  then show ?thesis using assms by (simp add: staying_def slice_ok_def)
qed

lemma staying_facts:
  assumes ok: "slice_ok b lo pp" and srt: "sorted (map m_k (un_msgs b))"
  shows "sorted (map m_k (staying b lo pp 0))" and "msgs_room (staying b lo pp 0) \<le> msgs_room (un_msgs b)"
proof -
  have "sorted (map m_k (take i xs @ drop j xs))" if "i \<le> j" "sorted (map m_k xs)" for i j and xs :: "gmsg list"
  proof -
    have "sorted (map m_k (take j xs @ drop j xs))" using that(2) by simp
    then have "\<forall>x \<in> set (take j xs). \<forall>y \<in> set (drop j xs). m_k x \<le> m_k y" unfolding map_append sorted_append by simp
    then have "\<forall>x \<in> set (take i xs). \<forall>y \<in> set (drop j xs). m_k x \<le> m_k y" using set_take_subset_set_take [OF that(1), of xs] by blast
    moreover have "sorted (take i (map m_k xs))" "sorted (drop j (map m_k xs))" using that(2) by (rule sorted_wrt_take, rule sorted_wrt_drop)
    ultimately show ?thesis by (simp add: sorted_append take_map drop_map)
  qed
  then show "sorted (map m_k (staying b lo pp 0))"
    using ok srt by (auto simp: staying_def slice_ok_def split: option.splits)
  show "msgs_room (staying b lo pp 0) \<le> msgs_room (un_msgs b)"
  proof (cases pp)
    case (Some c)
    then show ?thesis using staying_room [of b lo c] ok msgs_room_nonneg [of "take (nat (up_npull c)) (drop (nat lo) (un_msgs b))"] by simp
  qed (simp add: staying_def)
qed

section \<open>The entries of the rebuilt pivot\<close>

text \<open>
  What stands in a pivot for a child: its smallest key, which may be that of a message, its address
  and its fill.
\<close>

definition child_entry :: "unode \<Rightarrow> kvp" where
  "child_entry c =
     \<lparr>kv_k = (let k = kv_k (hd (un_vals c)) in if un_msgs c \<noteq> [] \<and> m_k (hd (un_msgs c)) < k then m_k (hd (un_msgs c)) else k),
      kv_v = packbp (un_bp c) @ pack16 (the (ublkfill c))\<rparr>"

definition child_ok :: "unode option \<Rightarrow> bool" where
  "child_ok c \<longleftrightarrow> (case c of None \<Rightarrow> True | Some c \<Rightarrow> un_vals c \<noteq> [] \<and> (un_type c = TPIVOT \<or> un_type c = TLEAF \<and> un_msgs c = []))"

definition new_entries :: "upath \<Rightarrow> kvp list" where
  "new_entries c = map child_entry (case up_nl c of None \<Rightarrow> [] | Some l \<Rightarrow> [l]) @ map child_entry (case up_nr c of None \<Rightarrow> [] | Some r \<Rightarrow> [r])"

definition entries_from :: "unode \<Rightarrow> int \<Rightarrow> upath option \<Rightarrow> int \<Rightarrow> kvp list" where
  "entries_from b mi pp i =
     (case pp of
        Some c \<Rightarrow> if i \<le> mi then take (nat (mi - i)) (drop (nat i) (un_vals b)) @ new_entries c
            @ drop (nat (if up_op c = POrot \<or> up_op c = POmerge then mi + 2 else mi + 1)) (un_vals b)
          else drop (nat i) (un_vals b)
      | None \<Rightarrow> drop (nat i) (un_vals b))"

lemma usetval_ok:
  assumes "un_type n = TPIVOT" and "vals_room (un_vals n @ [kv]) \<le> PIVSPC"
  shows "usetval n kv = Some (n\<lparr>un_vals := un_vals n @ [kv]\<rparr>)"
proof -
  have "2 * int (length vs) + (\<Sum>v \<leftarrow> vs. uvalsz v - 2) = vals_room vs" for vs by (induction vs) auto
  from this [of "un_vals n"] show ?thesis using assms by (simp add: usetval_def un_valsz_def Let_def)
qed

lemma copyup1_runs:
  assumes "child_ok c" and "un_type n = TPIVOT" and "vals_room (un_vals n @ map child_entry (case c of None \<Rightarrow> [] | Some c \<Rightarrow> [c])) \<le> PIVSPC"
  shows "copyup1 c n = Some (n\<lparr>un_vals := un_vals n @ map child_entry (case c of None \<Rightarrow> [] | Some c \<Rightarrow> [c])\<rparr>)"
proof (cases c)
  case (Some c')
  then have "copyup1 c n = usetval n (child_entry c')"
    using assms(1) by (auto simp: copyup1_def child_ok_def child_entry_def ugetval_def ugetmsg_def usetptr_def ublkfill_def hd_conv_nth keycmp_iff Let_def)
  then show ?thesis using usetval_ok [OF assms(2)] assms(3) Some by simp
qed (simp add: copyup1_def)

lemma copyup_runs:
  assumes "child_ok (up_nl c)" and "child_ok (up_nr c)" and "un_type n = TPIVOT" and "vals_room (un_vals n @ new_entries c) \<le> PIVSPC"
  shows "copyup n c = Some (n\<lparr>un_vals := un_vals n @ new_entries c\<rparr>)"
proof -
  let ?l = "map child_entry (case up_nl c of None \<Rightarrow> [] | Some c \<Rightarrow> [c])" and ?r = "map child_entry (case up_nr c of None \<Rightarrow> [] | Some c \<Rightarrow> [c])"
  have v: "vals_room (un_vals n @ ?l) \<le> PIVSPC" using assms(4) vals_room_nonneg [of ?r] unfolding new_entries_def map_append sum_list_append by linarith
  then show ?thesis
    using copyup1_runs [OF assms(1,3)] copyup1_runs [OF assms(2), of "n\<lparr>un_vals := un_vals n @ ?l\<rparr>"] assms(3,4)
    by (simp add: copyup_def new_entries_def algebra_simps)
qed

definition child_path_ok :: "unode \<Rightarrow> int \<Rightarrow> upath option \<Rightarrow> bool" where
  "child_path_ok b mi pp \<longleftrightarrow> (case pp of None \<Rightarrow> True | Some c \<Rightarrow> 0 \<le> mi \<and> mi < un_nval b \<and> child_ok (up_nl c) \<and> child_ok (up_nr c))"

lemma piv_vals_runs:
  assumes ok: "child_path_ok b (up_midx p) pp"
  shows "0 \<le> i \<Longrightarrow> un_type n = TPIVOT \<Longrightarrow> vals_room (un_vals n @ entries_from b (up_midx p) pp i) \<le> PIVSPC \<Longrightarrow>
     piv_vals b p pp i n = Some (n\<lparr>un_vals := un_vals n @ entries_from b (up_midx p) pp i\<rparr>)"
proof (induction "nat (un_nval b - i)" arbitrary: i n rule: less_induct)
  case less
  let ?E = "entries_from b (up_midx p) pp"
  show ?case
  proof (cases "i < un_nval b")
    case False
    then have "?E i = []" using ok by (auto simp: entries_from_def child_path_ok_def split: option.splits)
    then show ?thesis using False by (simp add: piv_vals.simps [of b p pp i n])
  next
    case True
    show ?thesis
    proof (cases "pp \<noteq> None \<and> i = up_midx p")
      case at: True
      then obtain c where c: "pp = Some c" "i = up_midx p" by auto
      let ?i = "if up_op c = POrot \<or> up_op c = POmerge then i + 2 else i + 1"
      have E: "?E i = new_entries c @ ?E ?i" using c by (auto simp: entries_from_def)
      have v: "vals_room (un_vals n @ new_entries c) \<le> PIVSPC"
        using less.prems(3) vals_room_nonneg [of "?E ?i"] unfolding E map_append sum_list_append by linarith
      have "piv_vals b p pp i n = piv_vals b p pp ?i (n\<lparr>un_vals := un_vals n @ new_entries c\<rparr>)"
        using copyup_runs [of c n] v ok less.prems(2) c True by (subst piv_vals.simps) (simp add: child_path_ok_def)
      then show ?thesis using less.hyps [of ?i "n\<lparr>un_vals := un_vals n @ new_entries c\<rparr>"] less.prems E True by simp
    next
      case other: False
      let ?v = "un_vals b ! nat i"
      have d: "nat i < length (un_vals b)" "nat (i + 1) = Suc (nat i)" using True less.prems(1) by linarith+
      have dr: "drop (nat i) (un_vals b) = ?v # drop (nat (i + 1)) (un_vals b)" using d by (simp add: Cons_nth_drop_Suc)
      have E: "?E i = ?v # ?E (i + 1)"
      proof (cases "pp \<noteq> None \<and> i < up_midx p")
        case lt: True
        then have "nat (up_midx p - i) = Suc (nat (up_midx p - (i + 1)))" by linarith
        then show ?thesis using lt dr by (auto simp: entries_from_def)
      next
        case False
        then show ?thesis using other dr by (auto simp: entries_from_def split: option.splits)
      qed
      have v: "vals_room (un_vals n @ [?v]) \<le> PIVSPC" using less.prems(3) vals_room_nonneg [of "?E (i + 1)"] unfolding E by simp
      have "ugetval b i = Some ?v" using True less.prems(1) by (simp add: ugetval_def)
      then have "piv_vals b p pp i n = piv_vals b p pp (i + 1) (n\<lparr>un_vals := un_vals n @ [?v]\<rparr>)"
        using usetval_ok [OF less.prems(2) v] other True by (auto simp: piv_vals.simps [of b p pp i n] split: option.splits)
      then show ?thesis using less.hyps [of "i + 1" "n\<lparr>un_vals := un_vals n @ [?v]\<rparr>"] less.prems E True by simp
    qed
  qed
qed

section \<open>The rebuilt pivot\<close>

text \<open>
  C35: \<^verbatim>\<open>updatepiv\<close> on a pivot that fits and messages from above in key order always returns. The new pivot
  has the old entries with the changed child (or the children it was merged with) replaced by the new ones, and its buffer
  holds, in key order and older before newer within a key, the messages that did not go down to the
  child and the first \<open>c\<close> from above. It reports \<open>c\<close> and their size. It stops short of all messages only
  when the size it computes exceeds \<^verbatim>\<open>Bufspc\<close>; that size counts the message taken last twice and the messages that went
  down without being reported as pulled, so that it may stop although the next message would fit. When nothing
  was taken it counts nothing twice: if the first fits into the room it counts on, it makes progress.
\<close>

theorem updatepiv_merges_buffers:
  assumes b: "up_b p = Some b" "un_type b = TPIVOT" "sorted (map m_k (un_msgs b))" "msgs_room (un_msgs b) \<le> BUFSPC"
    and pp: "child_path_ok b (up_midx p) pp" "slice_ok b (up_lo p) pp" "0 \<le> unpulled b (up_lo p) pp" "\<forall>c. pp = Some c \<longrightarrow> 0 \<le> up_pullsz c"
    and vals: "entries_from b (up_midx p) pp 0 \<noteq> []" "vals_room (entries_from b (up_midx p) pp 0) \<le> PIVSPC"
    and ms: "feeds up (up_lo up) ms" "sorted (map m_k ms)" "\<forall>m \<in> set ms. length (m_k m) + length (m_v m) \<le> MSGMAX"
  shows "\<exists>p' c. updatepiv bp up p pp = Some p' \<and> c \<le> length ms \<and> up_npull p' = int c \<and> up_pullsz p' = up_pullsz p + msgs_room (take c ms)
     \<and> up_nl p' = Some \<lparr>un_type = TPIVOT, un_bp = bp, un_vals = entries_from b (up_midx p) pp 0,
         un_msgs = sort_key m_k (staying b (up_lo p) pp 0 @ take c ms)\<rparr>
     \<and> (c < length ms \<longrightarrow> BUFSPC < unpulled b (up_lo p) pp + msgs_room (staying b (up_lo p) pp 0) + msgs_room (take c ms) + umsgsz (ms ! c) + (if c = 0 then 0 else umsgsz (ms ! (c - 1))))"
proof -
  let ?E = "entries_from b (up_midx p) pp 0" and ?R = "staying b (up_lo p) pp 0"
  let ?n = "(newnode TPIVOT)\<lparr>un_vals := ?E\<rparr>" and ?r = "BUFSPC - unpulled b (up_lo p) pp"
  let ?spc = "?r - msgs_room ?R"
  let ?s = "\<lparr>ps_i = 0, ps_j = up_lo up, ps_sz = 0, ps_full = False, ps_spc = ?spc, ps_pullsz = up_pullsz p, ps_n = ?n\<rparr>"
  have n: "piv_vals b p pp 0 (newnode TPIVOT) = Some ?n"
    using piv_vals_runs [OF pp(1), of 0 "newnode TPIVOT"] vals(2) by (simp add: newnode_def)
  note st = staying_facts [OF pp(2) b(3)]
  have spc: "BUFSPC - msgs_room (un_msgs b) + (case pp of None \<Rightarrow> 0 | Some c \<Rightarrow> up_pullsz c) = ?spc"
    using staying_room [of b "up_lo p"] pp(2) by (cases pp) (fastforce simp: staying_def unpulled_def)+
  then have sn: "0 \<le> ?spc" using b(4) pp(4) by (cases pp) auto
  have at: "piv_at up ?n ?r (up_pullsz p) ms ?s 0 [] (staying b (up_lo p) pp (ps_i ?s))"
    using ms st sn pp(3) unfolding piv_at_def by (simp add: newnode_def)
  obtain c1 s1 where s1: "piv_msgs up b (up_lo p) pp ?s = Some s1" "piv_at up ?n ?r (up_pullsz p) ms s1 c1 ?R []"
    using piv_msgs_runs [OF pp(2) b(2) ms(3) _ at] by auto
  obtain c s' where s': "pull_rest up s1 = Some s'" "piv_at up ?n ?r (up_pullsz p) ms s' c ?R []" "c = length ms \<or> ps_full s'"
    using pull_rest_runs [OF s1(2)] by blast
  have f: "ubuffill b = Some (msgs_room (un_msgs b))" using b(2) piv_room by (simp add: ubuffill_def)
  have u: "updatepiv bp up p pp = Some (p\<lparr>up_pullsz := ps_pullsz s', up_npull := ps_j s' - up_lo up, up_op := POmod, up_nl := setb bp (ps_n s')\<rparr>)"
    using b(1,2) n f s1(1) [folded spc] s'(1) by (simp add: updatepiv_def)
  have a: "ps_n s' = ?n\<lparr>un_msgs := sort_key m_k (?R @ take c ms)\<rparr>" "c \<le> length ms" "ps_j s' = up_lo up + int c" "ps_pullsz s' = up_pullsz p + msgs_room (take c ms)"
    "msgs_room (?R @ take c ms) + msgs_room [] + ps_spc s' = ?r" "ps_sz s' = (if c = 0 then 0 else umsgsz (ms ! (c - 1)))" "ps_full s' \<longrightarrow> no_room ms s' c"
    using s'(2) unfolding piv_at_def by blast+
  have "setb bp (ps_n s') = Some \<lparr>un_type = TPIVOT, un_bp = bp, un_vals = ?E, un_msgs = sort_key m_k (?R @ take c ms)\<rparr>"
    using vals(1) by (simp add: a(1) setb_def newnode_def)
  moreover have "c < length ms \<longrightarrow> BUFSPC < unpulled b (up_lo p) pp + msgs_room ?R + msgs_room (take c ms) + umsgsz (ms ! c) + (if c = 0 then 0 else umsgsz (ms ! (c - 1)))"
    using s'(3) a(5-7) unfolding no_room_def by auto
  ultimately show ?thesis using u a(2-4) by auto
qed

text \<open>
  A pivot over the keys 1 and 5 with messages for 1, 2 and 6. The first two went down to the child at
  1, which was rebuilt; from above come messages for 2, 6 and 7.
\<close>

definition put_msg :: "byte \<Rightarrow> byte \<Rightarrow> gmsg" where
  "put_msg k v = \<lparr>m_op = OINSERT, m_k = [k], m_v = [v]\<rparr>"

definition sample_child :: unode where
  "sample_child = (newnode TLEAF)\<lparr>un_vals := [\<lparr>kv_k = [1], kv_v = [5]\<rparr>]\<rparr>"

definition sample_pivot :: unode where
  "sample_pivot = (newnode TPIVOT)\<lparr>un_vals := [\<lparr>kv_k = [1], kv_v = []\<rparr>, \<lparr>kv_k = [5], kv_v = []\<rparr>], un_msgs := [put_msg 1 0, put_msg 2 0, put_msg 6 0]\<rparr>"

definition sample_downpath :: upath where
  "sample_downpath = sample_upath\<lparr>up_b := Some sample_pivot, up_lo := 0, up_hi := 2, up_midx := 0, up_npull := 2, up_pullsz := 18, up_nl := Some sample_child\<rparr>"

definition sample_uppath :: upath where
  "sample_uppath = sample_upath\<lparr>up_ins := Some [put_msg 2 1, put_msg 6 1, put_msg 7 1]\<rparr>"

theorem updatepiv_merges_buffers_witness:
  "\<exists>p'. updatepiv zero_bptr sample_uppath sample_downpath (Some sample_downpath) = Some p' \<and> up_npull p' = 3 \<and> up_pullsz p' = 45
     \<and> map_option un_msgs (up_nl p') = Some [put_msg 2 1, put_msg 6 0, put_msg 6 1, put_msg 7 1]
     \<and> map_option (map kv_k \<circ> un_vals) (up_nl p') = Some [[1], [5]]"
proof -
  let ?b = sample_pivot and ?p = sample_downpath and ?ms = "[put_msg 2 1, put_msg 6 1, put_msg 7 1]"
  note ev = sample_pivot_def sample_downpath_def sample_uppath_def sample_upath_def sample_child_def put_msg_def newnode_def
  have 1: "up_b ?p = Some ?b" "un_type ?b = TPIVOT" "sorted (map m_k (un_msgs ?b))" "msgs_room (un_msgs ?b) \<le> BUFSPC"
    by (simp_all add: ev umsgsz_def)
  have U: "unpulled ?b (up_lo ?p) (Some ?p) = 0" by (simp add: unpulled_def ev umsgsz_def)
  have 2: "child_path_ok ?b (up_midx ?p) (Some ?p)" "slice_ok ?b (up_lo ?p) (Some ?p)" "0 \<le> unpulled ?b (up_lo ?p) (Some ?p)" "\<forall>c. Some ?p = Some c \<longrightarrow> 0 \<le> up_pullsz c"
    unfolding U by (simp_all add: child_path_ok_def child_ok_def slice_ok_def ev)
  have E: "entries_from ?b (up_midx ?p) (Some ?p) 0 = [child_entry sample_child, \<lparr>kv_k = [5], kv_v = []\<rparr>]"
    by (simp add: entries_from_def new_entries_def ev)
  have C: "kv_k (child_entry sample_child) = [1]" "length (kv_v (child_entry sample_child)) = 26" by (simp_all add: child_entry_def ev)
  have 3: "entries_from ?b (up_midx ?p) (Some ?p) 0 \<noteq> []" "vals_room (entries_from ?b (up_midx ?p) (Some ?p) 0) \<le> PIVSPC"
    unfolding E using C by (simp_all add: uvalsz_def)
  have 4: "feeds sample_uppath (up_lo sample_uppath) ?ms" "sorted (map m_k ?ms)" "\<forall>m \<in> set ?ms. length (m_k m) + length (m_v m) \<le> MSGMAX"
    by (simp_all add: ev up_msg_def)
  have R: "staying ?b (up_lo ?p) (Some ?p) 0 = [put_msg 6 0]" by (simp add: staying_def ev)
  obtain p' c where r: "updatepiv zero_bptr sample_uppath ?p (Some ?p) = Some p'" "c \<le> length ?ms" "up_npull p' = int c" "up_pullsz p' = up_pullsz ?p + msgs_room (take c ?ms)"
    "up_nl p' = Some \<lparr>un_type = TPIVOT, un_bp = zero_bptr, un_vals = [child_entry sample_child, \<lparr>kv_k = [5], kv_v = []\<rparr>],
       un_msgs = sort_key m_k ([put_msg 6 0] @ take c ?ms)\<rparr>"
    "c < length ?ms \<longrightarrow> BUFSPC < 0 + msgs_room [put_msg 6 0] + msgs_room (take c ?ms) + umsgsz (?ms ! c) + (if c = 0 then 0 else umsgsz (?ms ! (c - 1)))"
    using updatepiv_merges_buffers [OF 1 2 3 4, of zero_bptr] unfolding E R U by blast
  have "c = 0 \<or> c = 1 \<or> c = 2 \<or> c = 3" using r(2) by auto
  then have "c = 3" using r(6) by (auto simp: put_msg_def umsgsz_def numeral_2_eq_2)
  then show ?thesis using r(1,3,4,5) C by (simp add: ev umsgsz_def numeral_3_eq_3)
qed

end
