(* ===== verification/Splits.thy ===== *)
theory Splits
  imports Pivots
begin

text \<open>
  Splitting, merging and rotating nodes of the upstream server's tree, and the walk that rebuilds a
  path (\<^verbatim>\<open>splitleaf\<close>, \<^verbatim>\<open>splitpiv\<close>, \<^verbatim>\<open>merge\<close>, \<^verbatim>\<open>rotate\<close>, \<^verbatim>\<open>trybalance\<close>, \<^verbatim>\<open>flush\<close> of \<^verbatim>\<open>src/src/tree.c\<close>). The pointers that the allocator and
  \<^verbatim>\<open>finalize\<close> give to new blocks are arguments, the block cache is a partial function from pointers to nodes.
\<close>

section \<open>Splitting a leaf\<close>

text \<open>\<open>ls_n\<close> of the leaf's loop is the block \<^verbatim>\<open>d\<close> that is being filled, \<open>ss_l\<close> the left one once \<^verbatim>\<open>d\<close> is the right one.\<close>

record sstate =
  ss_s :: lstate
  ss_right :: bool
  ss_l :: unode
  ss_copied :: int
  ss_mid :: "kvp option"

definition split_spc :: "int \<Rightarrow> int" where
  "split_spc halfsz = LEAFSPC - (halfsz + int MSGMAX)"

definition split_turn :: "unode \<Rightarrow> int \<Rightarrow> sstate \<Rightarrow> sstate option" where
  "split_turn b halfsz ss =
     (let i = ls_i (ss_s ss)
      in if \<not> ss_right ss \<and> (i = un_nval b - 2 \<or> (i \<ge> 2 \<and> ss_copied ss \<ge> halfsz))
         then map_option (\<lambda>v. ss\<lparr>ss_right := True, ss_l := ls_n (ss_s ss), ss_mid := Some v,
                ss_s := (ss_s ss)\<lparr>ls_n := newnode (un_type b), ls_spc := split_spc halfsz\<rparr>\<rparr>) (ugetval b i)
         else Some ss)"

definition split_step :: "upath \<Rightarrow> unode \<Rightarrow> sstate \<Rightarrow> sstate option" where
  "split_step up b ss =
     (let s = ss_s ss
      in do {
        v \<leftarrow> ugetval b (ls_i s);
        (c, m, full) \<leftarrow> pullmsg up (ls_j s) (Some (kv_k v)) (ls_m s) (ls_full s) (ls_spc s);
        let s = s\<lparr>ls_m := m, ls_full := full\<rparr>;
        if c = - 1 then map_option (\<lambda>s. ss\<lparr>ss_s := s, ss_copied := ss_copied ss + uvalsz v\<rparr>) (leaf_copy v s)
        else if c = 0 then map_option (\<lambda>s. ss\<lparr>ss_s := s, ss_copied := ss_copied ss + uvalsz v\<rparr>) (leaf_apply up v s)
        else do {
          m \<leftarrow> m;
          map_option (\<lambda>s. ss\<lparr>ss_s := s, ss_copied := ss_copied ss + uvalsz (msg_kvp m)\<rparr>) (leaf_insert up s)
        }
      })"

lemma leaf_steps_j:
  "leaf_copy v s = Some s' \<Longrightarrow> ls_i s' = ls_i s + 1 \<and> ls_j s' = ls_j s"
  "leaf_apply up v s = Some s' \<Longrightarrow> ls_i s' = ls_i s + 1 \<and> ls_j s \<le> ls_j s'"
  "leaf_insert up s = Some s' \<Longrightarrow> ls_i s' = ls_i s \<and> ls_j s < ls_j s'"
  unfolding leaf_copy_def leaf_apply_def leaf_insert_def by (auto dest!: copied_j split: bind_splits if_splits)

lemma split_turn_ij: "split_turn b h ss = Some ss' \<Longrightarrow> ls_i (ss_s ss') = ls_i (ss_s ss) \<and> ls_j (ss_s ss') = ls_j (ss_s ss)"
  by (auto simp: split_turn_def Let_def split: if_splits)

lemma pullmsg_hi: "pullmsg up j k m full spc = Some (c, m', full') \<Longrightarrow> c \<noteq> - 1 \<Longrightarrow> j < up_hi up"
  by (auto simp: pullmsg_def split: if_splits bind_splits)

lemma split_step_progress:
  assumes "split_step up b ss = Some ss'" and "ls_i (ss_s ss) < un_nval b"
  shows "nat (un_nval b - ls_i (ss_s ss')) + nat (up_hi up - ls_j (ss_s ss')) < nat (un_nval b - ls_i (ss_s ss)) + nat (up_hi up - ls_j (ss_s ss))"
  using assms unfolding split_step_def Let_def
  by (auto dest!: leaf_steps_j pullmsg_hi split: bind_splits if_splits)

function split_loop :: "upath \<Rightarrow> unode \<Rightarrow> int \<Rightarrow> sstate \<Rightarrow> sstate option" where
  "split_loop up b halfsz ss =
     (if ls_i (ss_s ss) < un_nval b
      then Option.bind (split_turn b halfsz ss) (\<lambda>ss. Option.bind (split_step up b ss) (split_loop up b halfsz))
      else Some ss)"
  by pat_completeness auto
termination
  by (relation "measure (\<lambda>(up, b, h, ss). nat (un_nval b - ls_i (ss_s ss)) + nat (up_hi up - ls_j (ss_s ss)))") (auto dest!: split_turn_ij split_step_progress)

declare split_loop.simps [simp del]

definition splitleaf :: "bptr \<Rightarrow> bptr \<Rightarrow> upath \<Rightarrow> upath \<Rightarrow> (upath \<times> kvp option \<times> bptr list) option" where
  "splitleaf bpl bpr up p = do {
     b \<leftarrow> up_b p;
     let halfsz = min ((2 * un_nval b + un_valsz b + up_sz up) div 2) (LEAFSPC div 2);
     if un_nval b < 4 then None
     else do {
       ss \<leftarrow> split_loop up b halfsz
         \<lparr>ss_s = \<lparr>ls_i = 0, ls_j = up_lo up, ls_full = False, ls_spc = split_spc halfsz, ls_pullsz = up_pullsz p, ls_m = None,
            ls_n = newnode (un_type b), ls_freed = []\<rparr>,
          ss_right = False, ss_l = newnode (un_type b), ss_copied = 0, ss_mid = None\<rparr>;
       let s = ss_s ss;
       let l = (if ss_right ss then ss_l ss else ls_n s);
       let r = (if ss_right ss then ls_n s else newnode (un_type b));
       Some (p\<lparr>up_pullsz := ls_pullsz s, up_npull := ls_j s - up_lo up, up_op := POsplit, up_nl := setb bpl l, up_nr := setb bpr r\<rparr>,
         ss_mid ss, ls_freed s)
     }
   }"

section \<open>Splitting a pivot\<close>

text \<open>
  What \<^verbatim>\<open>copyup\<close> adds to \<^verbatim>\<open>*nbytes\<close>: \<^verbatim>\<open>setptr\<close> has not changed \<^verbatim>\<open>kv\<close>, so this is the size of the first entry of the child
  with the key that was chosen, not of the pointer that was stored.
\<close>

definition copyup1_bytes :: "unode option \<Rightarrow> int option" where
  "copyup1_bytes c =
     (case c of
        None \<Rightarrow> Some 0
      | Some c \<Rightarrow> do {
          kv \<leftarrow> ugetval c 0;
          k \<leftarrow> (if un_nbuf c > 0 then do {
                  m \<leftarrow> ugetmsg c 0;
                  Some (if keycmp (kv_k kv) (m_k m) > 0 then m_k m else kv_k kv)
                } else Some (kv_k kv));
          Some (uvalsz (kv\<lparr>kv_k := k\<rparr>))
        })"

definition copyup_bytes :: "upath \<Rightarrow> int option" where
  "copyup_bytes pp = do { x \<leftarrow> copyup1_bytes (up_nl pp); y \<leftarrow> copyup1_bytes (up_nr pp); Some (x + y) }"

record vstate =
  vs_right :: bool
  vs_l :: unode
  vs_n :: unode
  vs_copied :: int
  vs_mid :: "kvp option"

definition piv_turn :: "unode \<Rightarrow> int \<Rightarrow> int \<Rightarrow> vstate \<Rightarrow> vstate option" where
  "piv_turn b halfsz i s =
     (if \<not> vs_right s \<and> (i = un_nval b - 2 \<or> (i \<ge> 2 \<and> vs_copied s \<ge> halfsz))
      then map_option (\<lambda>v. s\<lparr>vs_right := True, vs_l := vs_n s, vs_n := newnode (un_type b), vs_mid := Some v\<rparr>) (ugetval b i)
      else Some s)"

definition piv_entry :: "unode \<Rightarrow> upath \<Rightarrow> upath option \<Rightarrow> int \<Rightarrow> vstate \<Rightarrow> vstate option" where
  "piv_entry b p pp i s =
     (if i = up_idx p then do {
        c \<leftarrow> pp;
        z \<leftarrow> copyup_bytes c;
        n \<leftarrow> copyup (vs_n s) c;
        Some (s\<lparr>vs_n := n, vs_copied := vs_copied s + z\<rparr>)
      } else do {
        v \<leftarrow> ugetval b i;
        n \<leftarrow> usetval (vs_n s) v;
        Some (s\<lparr>vs_n := n, vs_copied := vs_copied s + uvalsz v\<rparr>)
      })"

function split_vals :: "unode \<Rightarrow> upath \<Rightarrow> upath option \<Rightarrow> int \<Rightarrow> int \<Rightarrow> vstate \<Rightarrow> vstate option" where
  "split_vals b p pp halfsz i s =
     (if i < un_nval b
      then Option.bind (piv_turn b halfsz i s) (\<lambda>s. Option.bind (piv_entry b p pp i s) (split_vals b p pp halfsz (i + 1)))
      else Some s)"
  by pat_completeness auto
termination
  by (relation "measure (\<lambda>(b, p, pp, h, i, s). nat (un_nval b - i))") auto

declare split_vals.simps [simp del]

text \<open>A slice of negative length would never end; \<open>None\<close> stands for that.\<close>

partial_function (option) split_msgs :: "unode \<Rightarrow> int \<Rightarrow> upath option \<Rightarrow> key \<Rightarrow> int \<Rightarrow> bool \<Rightarrow> unode \<Rightarrow> unode \<Rightarrow> (unode \<times> unode) option" where
  "split_msgs b lo pp mid i right l r =
     (if i < un_nbuf b then
        Option.bind (if i = lo then map_option (\<lambda>c. i + up_npull c) pp else Some i) (\<lambda>i.
          if i = un_nbuf b then Some (l, r)
          else Option.bind (ugetmsg b i) (\<lambda>m.
            if right \<or> keycmp (m_k m) mid \<ge> 0
            then Option.bind (usetmsg r m) (\<lambda>r. split_msgs b lo pp mid (i + 1) True l r)
            else Option.bind (usetmsg l m) (\<lambda>l. split_msgs b lo pp mid (i + 1) False l r)))
      else Some (l, r))"

definition splitpiv :: "bptr \<Rightarrow> bptr \<Rightarrow> upath \<Rightarrow> upath option \<Rightarrow> (upath \<times> kvp) option" where
  "splitpiv bpl bpr p pp = do {
     b \<leftarrow> up_b p;
     let halfsz = (2 * un_nval b + un_valsz b) div 2;
     if un_nval b < 4 then None
     else do {
       s \<leftarrow> split_vals b p pp halfsz 0 \<lparr>vs_right = False, vs_l = newnode (un_type b), vs_n = newnode (un_type b), vs_copied = 0, vs_mid = None\<rparr>;
       mid \<leftarrow> vs_mid s;
       (l, r) \<leftarrow> split_msgs b (up_lo p) pp (kv_k mid) 0 False (vs_l s) (vs_n s);
       Some (p\<lparr>up_op := POsplit, up_nl := setb bpl l, up_nr := setb bpr r\<rparr>, mid)
     }
   }"

section \<open>Merging and rotating\<close>

fun set_vals :: "unode \<Rightarrow> kvp list \<Rightarrow> unode option" where
  "set_vals d [] = Some d"
| "set_vals d (v # vs) = Option.bind (usetval d v) (\<lambda>d. set_vals d vs)"

fun set_msgs :: "unode \<Rightarrow> gmsg list \<Rightarrow> unode option" where
  "set_msgs d [] = Some d"
| "set_msgs d (m # ms) = Option.bind (usetmsg d m) (\<lambda>d. set_msgs d ms)"

definition merge_nodes :: "unode \<Rightarrow> unode \<Rightarrow> unode option" where
  "merge_nodes a b = do {
     d \<leftarrow> set_vals (newnode (un_type a)) (un_vals a);
     d \<leftarrow> set_vals d (un_vals b);
     if un_type a = TPIVOT then do { d \<leftarrow> set_msgs d (un_msgs a); set_msgs d (un_msgs b) } else Some d
   }"

definition merge :: "bptr \<Rightarrow> upath \<Rightarrow> upath \<Rightarrow> int \<Rightarrow> unode \<Rightarrow> unode \<Rightarrow> (upath \<times> upath) option" where
  "merge bp p pp idx a b = map_option (\<lambda>d. (p\<lparr>up_midx := idx\<rparr>, pp\<lparr>up_op := POmerge, up_nl := setb bp d\<rparr>)) (merge_nodes a b)"

text \<open>The result: does the buffer overflow, and the new \<^verbatim>\<open>*idx\<close>.\<close>

function spillscan_loop :: "unode \<Rightarrow> key \<Rightarrow> int \<Rightarrow> int \<Rightarrow> int \<Rightarrow> int \<Rightarrow> (bool \<times> int) option" where
  "spillscan_loop b k idx off i used =
     (if i < un_nbuf b then
        Option.bind (ugetmsg b i) (\<lambda>n.
          if keycmp k (m_k n) \<le> 0 then Some (False, i + off)
          else if used + umsgsz n > BUFSPC then Some (True, idx)
          else spillscan_loop b k idx off (i + 1) (used + umsgsz n))
      else Some (False, un_nbuf b))"
  by pat_completeness auto
termination
  by (relation "measure (\<lambda>(b, k, idx, off, i, used). nat (un_nbuf b - i))") auto

declare spillscan_loop.simps [simp del]

definition spillscan :: "unode \<Rightarrow> unode \<Rightarrow> key \<Rightarrow> int \<Rightarrow> int \<Rightarrow> (bool \<times> int) option" where
  "spillscan d b k idx off = spillscan_loop b k idx off idx (2 * un_nbuf d + un_bufsz d)"

definition spillsbuf :: "unode \<Rightarrow> unode \<Rightarrow> unode \<Rightarrow> key \<Rightarrow> int \<Rightarrow> (bool \<times> int) option" where
  "spillsbuf d l r k idx =
     (if un_type l = TLEAF then Some (False, idx)
      else do {
        (s, idx) \<leftarrow> (if idx < un_nbuf l then spillscan d l k idx 0 else Some (False, idx));
        if s then Some (True, idx)
        else if idx \<ge> un_nbuf l then spillscan d r k idx (un_nbuf l)
        else Some (False, idx)
      })"

record rstate =
  rs_right :: bool
  rs_l :: unode
  rs_r :: unode
  rs_cp :: int
  rs_sp :: int
  rs_idx :: int

fun rot_vals :: "unode \<Rightarrow> unode \<Rightarrow> int \<Rightarrow> kvp list \<Rightarrow> rstate \<Rightarrow> rstate option" where
  "rot_vals a b halfpiv [] s = Some s"
| "rot_vals a b halfpiv (v # vs) s = do {
     (turn, idx) \<leftarrow> (if rs_right s then Some (False, rs_idx s)
       else if rs_cp s \<ge> halfpiv then Some (True, rs_idx s)
       else spillsbuf (rs_l s) a b (kv_k v) (rs_idx s));
     let s = (if turn then s\<lparr>rs_right := True, rs_sp := idx, rs_idx := idx\<rparr> else s\<lparr>rs_idx := idx\<rparr>);
     s \<leftarrow> (if rs_right s then map_option (\<lambda>n. s\<lparr>rs_r := n\<rparr>) (usetval (rs_r s) v) else map_option (\<lambda>n. s\<lparr>rs_l := n\<rparr>) (usetval (rs_l s) v));
     rot_vals a b halfpiv vs (s\<lparr>rs_cp := rs_cp s + uvalsz v\<rparr>)
   }"

text \<open>The messages of both nodes; \<^verbatim>\<open>o\<close> counts those since the last change of \<^verbatim>\<open>d\<close>, which may come again.\<close>

fun rot_msgs :: "int \<Rightarrow> gmsg list \<Rightarrow> bool \<Rightarrow> int \<Rightarrow> unode \<Rightarrow> unode \<Rightarrow> (unode \<times> unode) option" where
  "rot_msgs sp [] right n l r = Some (l, r)"
| "rot_msgs sp (m # ms) right n l r =
     (let (right, n) = (if n = sp then (True, 0) else (right, n))
      in if right then Option.bind (usetmsg r m) (\<lambda>r. rot_msgs sp ms right (n + 1) l r)
         else Option.bind (usetmsg l m) (\<lambda>l. rot_msgs sp ms right (n + 1) l r))"

definition rotate_nodes :: "unode \<Rightarrow> unode \<Rightarrow> int \<Rightarrow> (unode \<times> unode) option" where
  "rotate_nodes a b halfpiv = do {
     s \<leftarrow> rot_vals a b halfpiv (un_vals a @ un_vals b)
       \<lparr>rs_right = False, rs_l = newnode (un_type a), rs_r = newnode (un_type a), rs_cp = 0, rs_sp = - 1, rs_idx = 0\<rparr>;
     if un_type a = TPIVOT then rot_msgs (rs_sp s) (un_msgs a @ un_msgs b) False 0 (rs_l s) (rs_r s) else Some (rs_l s, rs_r s)
   }"

definition rotate :: "bptr \<Rightarrow> bptr \<Rightarrow> upath \<Rightarrow> upath \<Rightarrow> int \<Rightarrow> unode \<Rightarrow> unode \<Rightarrow> int \<Rightarrow> (upath \<times> upath) option" where
  "rotate bpl bpr p pp midx a b halfpiv =
     map_option (\<lambda>(l, r). (p\<lparr>up_midx := midx\<rparr>, pp\<lparr>up_op := POrot, up_nl := setb bpl l, up_nr := setb bpr r\<rparr>)) (rotate_nodes a b halfpiv)"

definition rotmerge :: "bptr \<Rightarrow> bptr \<Rightarrow> upath \<Rightarrow> upath \<Rightarrow> int \<Rightarrow> unode \<Rightarrow> unode \<Rightarrow> (upath \<times> upath) option" where
  "rotmerge bpl bpr p pp idx a b =
     (if un_type a \<noteq> un_type b then None
      else let na = 2 * un_nval a + un_valsz a; nb = 2 * un_nval b + un_valsz b;
               ma = (if un_type a = TLEAF then 0 else 2 * un_nbuf a + un_bufsz a);
               mb = (if un_type a = TLEAF then 0 else 2 * un_nbuf b + un_bufsz b)
           in if na + nb < PIVSPC - 4 * int MSGMAX \<and> ma + mb < BUFSPC then merge bpl p pp idx a b
              else if \<bar>na - nb\<bar> > 4 * int MSGMAX then rotate bpl bpr p pp idx a b ((na + nb) div 2)
              else Some (p, pp))"

text \<open>\<open>get\<close> is \<^verbatim>\<open>getblk\<close>.\<close>

definition balance_with :: "(bptr \<Rightarrow> unode option) \<Rightarrow> bptr \<Rightarrow> bptr \<Rightarrow> upath \<Rightarrow> upath \<Rightarrow> int \<Rightarrow> unode \<Rightarrow> unode \<Rightarrow> (upath \<times> upath) option" where
  "balance_with get bpl bpr p pp idx b m = do {
     fill \<leftarrow> ublkfill m;
     let spc = (if un_type m = TLEAF then LEAFSPC else PIVSPC);
     lft \<leftarrow> (if idx - 1 \<ge> 0 then Option.bind (ugetval b (idx - 1)) ugetptr else Some (zero_bptr, spc));
     if idx - 1 \<ge> 0 \<and> snd lft + fill < spc then Option.bind (get (fst lft)) (\<lambda>l. rotmerge bpl bpr p pp (idx - 1) l m)
     else do {
       rgt \<leftarrow> (if idx + 1 < un_nval b then Option.bind (ugetval b (idx + 1)) ugetptr else Some (zero_bptr, spc));
       if idx + 1 < un_nval b \<and> snd rgt + fill < spc then Option.bind (get (fst rgt)) (\<lambda>r. rotmerge bpl bpr p pp idx m r)
       else Some (p, pp)
     }
   }"

definition trybalance :: "(bptr \<Rightarrow> unode option) \<Rightarrow> bptr \<Rightarrow> bptr \<Rightarrow> upath \<Rightarrow> upath option \<Rightarrow> int \<Rightarrow> (upath \<times> upath option) option" where
  "trybalance get bpl bpr p pp idx =
     (case pp of
        None \<Rightarrow> Some (p, None)
      | Some c \<Rightarrow>
          if up_idx p = - 1 \<or> up_nl c = None then Some (p, Some c)
          else if up_op c \<noteq> POmod \<or> up_op c \<noteq> POmerge then Some (p, Some c)
          else do {
            m \<leftarrow> up_nl c;
            b \<leftarrow> up_b p;
            (p, c) \<leftarrow> balance_with get bpl bpr p c idx b m;
            Some (p, Some c)
          })"

section \<open>Rebuilding a path\<close>

text \<open>
  The path is a list, \<^verbatim>\<open>up\<close> the element before \<^verbatim>\<open>p\<close>. \<open>bps i\<close> are the pointers of the blocks made for
  element \<open>i\<close>. The state is the path, \<^verbatim>\<open>rp\<close> and \<^verbatim>\<open>pp\<close> as indices, and the data blocks given up.
\<close>

type_synonym blocks = "nat \<Rightarrow> bptr \<times> bptr"

record fstate =
  fs_path :: "upath list"
  fs_rp :: "nat option"
  fs_pp :: "nat option"
  fs_freed :: "bptr list"

definition flush_leaf :: "blocks \<Rightarrow> upath list \<Rightarrow> (nat \<times> fstate) option" where
  "flush_leaf bps path =
     (let n = length path; p = path ! (n - 1); up = path ! (n - 2)
      in if n < 2 then None
         else do {
           b \<leftarrow> up_b p;
           if un_type b = TLEAF then do {
             full \<leftarrow> filledleaf b (up_sz up);
             (p', fr, rp) \<leftarrow> (if \<not> full then map_option (\<lambda>(p', fr). (p', fr, Some (n - 1))) (updateleaf (fst (bps (n - 1))) up p)
               else map_option (\<lambda>(p', mid, fr). (p', fr, None)) (splitleaf (fst (bps (n - 1))) (snd (bps (n - 1))) up p));
             Some (n - 2, \<lparr>fs_path = path[n - 1 := p'\<lparr>up_midx := - 1\<rparr>], fs_rp = rp, fs_pp = Some (n - 1), fs_freed = fr\<rparr>)
           }
           else Some (n - 1, \<lparr>fs_path = path, fs_rp = None, fs_pp = None, fs_freed = []\<rparr>)
         })"

text \<open>One round of the loop at \<open>p\<close>; the flag says that the root was merged away and the loop is left.\<close>

definition flush_step :: "(bptr \<Rightarrow> unode option) \<Rightarrow> blocks \<Rightarrow> nat \<Rightarrow> fstate \<Rightarrow> (bool \<times> fstate) option" where
  "flush_step get bps i s =
     (let p = fs_path s ! i; up = fs_path s ! (i - 1); pp = map_option ((!) (fs_path s)) (fs_pp s)
      in do {
        b \<leftarrow> up_b p;
        full \<leftarrow> filledpiv b 1;
        if \<not> full then do {
          (p, pp) \<leftarrow> trybalance get (fst (bps i)) (snd (bps i)) p pp (up_idx p);
          let path = (fs_path s)[i := p];
          let path = (case (fs_pp s, pp) of (Some j, Some c) \<Rightarrow> path[j := c] | _ \<Rightarrow> path);
          if i = 1 \<and> (case pp of None \<Rightarrow> False | Some c \<Rightarrow> up_op c = POmerge) \<and> un_nval b = 2
          then Some (True, s\<lparr>fs_path := path, fs_rp := fs_pp s\<rparr>)
          else do {
            p \<leftarrow> updatepiv (fst (bps i)) up p pp;
            Some (False, s\<lparr>fs_path := path[i := p], fs_rp := Some i, fs_pp := Some i\<rparr>)
          }
        } else do {
          (p, mid) \<leftarrow> splitpiv (fst (bps i)) (snd (bps i)) p pp;
          Some (False, s\<lparr>fs_path := (fs_path s)[i := p], fs_pp := Some i\<rparr>)
        }
      })"

fun flush_loop :: "(bptr \<Rightarrow> unode option) \<Rightarrow> blocks \<Rightarrow> nat \<Rightarrow> fstate \<Rightarrow> (bool \<times> fstate) option" where
  "flush_loop get bps 0 s = Some (False, s)"
| "flush_loop get bps (Suc i) s =
     Option.bind (flush_step get bps (Suc i) s) (\<lambda>(stop, s). if stop then Some (True, s) else flush_loop get bps i s)"

text \<open>The new root over two halves.\<close>

definition flush_root :: "blocks \<Rightarrow> fstate \<Rightarrow> fstate option" where
  "flush_root bps s = do {
     j \<leftarrow> fs_pp s;
     let pp = fs_path s ! j;
     if up_nl pp \<noteq> None \<and> up_nr pp \<noteq> None then do {
       n \<leftarrow> copyup (newnode TPIVOT) pp;
       Some (s\<lparr>fs_path := (fs_path s)[0 := (fs_path s ! 0)\<lparr>up_nl := Some (n\<lparr>un_bp := fst (bps 0)\<rparr>), up_npull := up_npull pp, up_pullsz := up_pullsz pp\<rparr>],
         fs_rp := Some 0\<rparr>)
     } else Some s
   }"

definition flush :: "(bptr \<Rightarrow> unode option) \<Rightarrow> blocks \<Rightarrow> upath list \<Rightarrow> fstate option" where
  "flush get bps path = do {
     (i, s) \<leftarrow> flush_leaf bps path;
     (stop, s) \<leftarrow> flush_loop get bps i s;
     if stop then Some s else flush_root bps s
   }"

text \<open>\<^verbatim>\<open>trybalance\<close> gives up when the operation is not \<^verbatim>\<open>POmod\<close> or not \<^verbatim>\<open>POmerge\<close>, which is always: nodes are never merged.\<close>

lemma trybalance_none: "trybalance get bpl bpr p pp idx = Some (p, pp)"
  by (cases pp) (auto simp: trybalance_def)

end
