(* ===== verification/Splitspec.thy ===== *)
theory Splitspec
  imports Splits
begin

text \<open>
  What splitting makes of a node: \<^verbatim>\<open>splitpiv\<close> divides the entries and messages of a pivot between two, \<^verbatim>\<open>splitleaf\<close>
  applies messages to a leaf on the way.
\<close>

section \<open>The entries of a split pivot\<close>

definition piv_e :: "unode \<Rightarrow> int \<Rightarrow> upath option \<Rightarrow> nat \<Rightarrow> kvp list" where
  "piv_e b idx pp k = (case pp of Some c \<Rightarrow> if int k = idx then new_entries c else [un_vals b ! k] | None \<Rightarrow> [un_vals b ! k])"

abbreviation piv_to :: "unode \<Rightarrow> int \<Rightarrow> upath option \<Rightarrow> nat \<Rightarrow> kvp list" where
  "piv_to b idx pp k \<equiv> concat (map (piv_e b idx pp) [0..<k])"

abbreviation piv_from :: "unode \<Rightarrow> int \<Rightarrow> upath option \<Rightarrow> nat \<Rightarrow> kvp list" where
  "piv_from b idx pp k \<equiv> concat (map (piv_e b idx pp) [k..<length (un_vals b)])"

lemma piv_to_from: "k \<le> length (un_vals b) \<Longrightarrow> piv_to b idx pp k @ piv_from b idx pp k = piv_to b idx pp (length (un_vals b))"
proof -
  assume "k \<le> length (un_vals b)"
  then have "[0..<length (un_vals b)] = [0..<k] @ [k..<length (un_vals b)]" using upt_add_eq_append [of 0 k "length (un_vals b) - k"] by simp
  then show ?thesis by simp
qed

lemma piv_from_Cons: "k < length (un_vals b) \<Longrightarrow> piv_from b idx pp k = piv_e b idx pp k @ piv_from b idx pp (Suc k)"
  by (simp add: upt_conv_Cons)

lemma piv_to_Suc: "piv_to b idx pp (Suc k) = piv_to b idx pp k @ piv_e b idx pp k"
  by simp

text \<open>The child at \<open>idx\<close>, when there is one; its new entries and the old ones are small, which keeps both halves within a pivot.\<close>

definition split_ok :: "unode \<Rightarrow> int \<Rightarrow> upath option \<Rightarrow> bool" where
  "split_ok b idx pp \<longleftrightarrow>
     (case pp of None \<Rightarrow> idx < 0 | Some c \<Rightarrow> 0 \<le> idx \<and> idx < un_nval b \<and> child_ok (up_nl c) \<and> child_ok (up_nr c) \<and> up_op c \<noteq> POrot \<and> up_op c \<noteq> POmerge
        \<and> (\<forall>v \<in> set (new_entries c). uvalsz v \<le> PIVSPC div 8))
     \<and> (\<forall>v \<in> set (un_vals b). uvalsz v \<le> PIVSPC div 8) \<and> vals_room (un_vals b) \<le> PIVSPC \<and> 4 \<le> length (un_vals b) \<and> un_type b = TPIVOT"

lemma piv_from_entries:
  assumes "split_ok b idx pp"
  shows "k \<le> length (un_vals b) \<Longrightarrow> piv_from b idx pp k = entries_from b idx pp (int k)"
proof (induction "length (un_vals b) - k" arbitrary: k)
  case 0
  then show ?case using assms by (auto simp: entries_from_def split_ok_def split: option.splits)
next
  case (Suc d)
  then have k: "k < length (un_vals b)" by simp
  have IH: "piv_from b idx pp (Suc k) = entries_from b idx pp (int k + 1)" using Suc.hyps(1) [of "Suc k"] Suc.hyps(2) k by (simp add: add.commute)
  have dr: "drop k (un_vals b) = un_vals b ! k # drop (Suc k) (un_vals b)" using k by (simp add: Cons_nth_drop_Suc)
  have n: "nat (int k + 1) = Suc k" by simp
  show ?case
  proof (cases pp)
    case None
    then show ?thesis unfolding piv_from_Cons [OF k] IH using dr by (simp add: piv_e_def entries_from_def n)
  next
    case (Some c)
    then have op: "up_op c \<noteq> POrot" "up_op c \<noteq> POmerge" "0 \<le> idx" using assms by (simp_all add: split_ok_def)
    consider "int k < idx" | "int k = idx" | "idx < int k" by linarith
    then show ?thesis
    proof cases
      case 1
      then have "nat (idx - int k) = Suc (nat (idx - (int k + 1)))" by linarith
      then show ?thesis unfolding piv_from_Cons [OF k] IH using 1 Some op dr by (simp add: piv_e_def entries_from_def n)
    next
      case 2
      then show ?thesis unfolding piv_from_Cons [OF k] IH using Some op by (auto simp: piv_e_def entries_from_def n)
    next
      case 3
      then show ?thesis unfolding piv_from_Cons [OF k] IH using Some op dr by (simp add: piv_e_def entries_from_def n)
    qed
  qed
qed

lemma new_entries_length: "length (new_entries c) \<le> 2"
  by (simp add: new_entries_def split: option.splits)

lemma room_le: "\<forall>v \<in> set vs. uvalsz v \<le> M \<Longrightarrow> vals_room vs \<le> int (length vs) * M"
  by (induction vs) (auto simp: algebra_simps)

lemma piv_e_room:
  assumes "split_ok b idx pp" and "k < length (un_vals b)"
  shows "vals_room (piv_e b idx pp k) \<le> 2 * (PIVSPC div 8)"
proof (cases "\<exists>c. pp = Some c \<and> int k = idx")
  case True
  then obtain c where c: "pp = Some c" "int k = idx" by blast
  then have "vals_room (new_entries c) \<le> int (length (new_entries c)) * (PIVSPC div 8)" using assms(1) by (intro room_le) (simp add: split_ok_def)
  also have "\<dots> \<le> 2 * (PIVSPC div 8)" using new_entries_length [of c] by simp
  finally show ?thesis using c by (simp add: piv_e_def)
next
  case False
  then have "piv_e b idx pp k = [un_vals b ! k]" by (auto simp: piv_e_def split: option.splits)
  moreover have "uvalsz (un_vals b ! k) \<le> PIVSPC div 8" using assms by (simp add: split_ok_def)
  ultimately show ?thesis by simp
qed

text \<open>One entry into the block that is being filled.\<close>

lemma copyup_bytes_pos: "child_ok (up_nl c) \<Longrightarrow> child_ok (up_nr c) \<Longrightarrow> \<exists>z. copyup_bytes c = Some z \<and> 0 \<le> z"
proof -
  have "\<exists>z. copyup1_bytes c = Some z \<and> 0 \<le> z" if "child_ok c" for c
    using that umsgsz_pos(2) by (auto simp: copyup1_bytes_def child_ok_def ugetval_def ugetmsg_def uvalsz_def split: option.splits)
  note one = this
  assume c: "child_ok (up_nl c)" "child_ok (up_nr c)"
  obtain x y where "copyup1_bytes (up_nl c) = Some x" "0 \<le> x" "copyup1_bytes (up_nr c) = Some y" "0 \<le> y" using one [OF c(1)] one [OF c(2)] by blast
  then show ?thesis by (simp add: copyup_bytes_def)
qed

lemma piv_entry_runs:
  assumes ok: "split_ok b (up_idx p) pp" and k: "k < length (un_vals b)"
    and n: "un_type (vs_n s) = TPIVOT" "vals_room (un_vals (vs_n s) @ piv_e b (up_idx p) pp k) \<le> PIVSPC"
  shows "\<exists>z. piv_entry b p pp (int k) s = Some (s\<lparr>vs_n := (vs_n s)\<lparr>un_vals := un_vals (vs_n s) @ piv_e b (up_idx p) pp k\<rparr>, vs_copied := vs_copied s + z\<rparr>)
     \<and> 0 \<le> z \<and> (int k \<noteq> up_idx p \<longrightarrow> z = uvalsz (un_vals b ! k))"
proof (cases "int k = up_idx p")
  case True
  then obtain c where c: "pp = Some c" "child_ok (up_nl c)" "child_ok (up_nr c)" using ok by (auto simp: split_ok_def split: option.splits)
  obtain z where z: "copyup_bytes c = Some z" "0 \<le> z" using copyup_bytes_pos [OF c(2,3)] by blast
  have e: "piv_e b (up_idx p) pp k = new_entries c" using True c by (simp add: piv_e_def)
  show ?thesis using copyup_runs [OF c(2,3) n(1)] n(2) z True c(1) unfolding e by (auto simp: piv_entry_def)
next
  case False
  then have e: "piv_e b (up_idx p) pp k = [un_vals b ! k]" by (auto simp: piv_e_def split: option.splits)
  have "ugetval b (int k) = Some (un_vals b ! k)" using k by (simp add: ugetval_def)
  then show ?thesis using usetval_ok [OF n(1)] n(2) False umsgsz_pos(2) [of "un_vals b ! k"] unfolding e by (simp add: piv_entry_def)
qed

lemma split_vals_right:
  assumes ok: "split_ok b (up_idx p) pp"
  shows "k \<le> length (un_vals b) \<Longrightarrow> vs_right s \<Longrightarrow> un_type (vs_n s) = TPIVOT \<Longrightarrow> vals_room (un_vals (vs_n s) @ piv_from b (up_idx p) pp k) \<le> PIVSPC \<Longrightarrow>
     \<exists>z. split_vals b p pp h (int k) s = Some (s\<lparr>vs_n := (vs_n s)\<lparr>un_vals := un_vals (vs_n s) @ piv_from b (up_idx p) pp k\<rparr>, vs_copied := z\<rparr>)"
proof (induction "length (un_vals b) - k" arbitrary: k s)
  case 0
  then have "split_vals b p pp h (int k) s = Some s" by (simp add: split_vals.simps [of b p pp h "int k"])
  then show ?case using 0 by (intro exI [of _ "vs_copied s"]) simp
next
  case (Suc d)
  then have k: "k < length (un_vals b)" by simp
  let ?e = "piv_e b (up_idx p) pp k" and ?R = "piv_from b (up_idx p) pp (Suc k)"
  have fr: "piv_from b (up_idx p) pp k = ?e @ ?R" by (rule piv_from_Cons [OF k])
  have room: "vals_room (un_vals (vs_n s) @ ?e) \<le> PIVSPC" using Suc.prems(4) vals_room_nonneg [of ?R] unfolding fr map_append sum_list_append by linarith
  obtain z where z: "piv_entry b p pp (int k) s = Some (s\<lparr>vs_n := (vs_n s)\<lparr>un_vals := un_vals (vs_n s) @ ?e\<rparr>, vs_copied := vs_copied s + z\<rparr>)"
    using piv_entry_runs [OF ok k Suc.prems(3) room] by blast
  let ?s = "s\<lparr>vs_n := (vs_n s)\<lparr>un_vals := un_vals (vs_n s) @ ?e\<rparr>, vs_copied := vs_copied s + z\<rparr>"
  have "piv_turn b h (int k) s = Some s" using Suc.prems(2) by (simp add: piv_turn_def)
  then have e: "split_vals b p pp h (int k) s = split_vals b p pp h (int (Suc k)) ?s"
    using k z by (simp add: split_vals.simps [of b p pp h "int k"] add.commute)
  have d: "d = length (un_vals b) - Suc k" "Suc k \<le> length (un_vals b)" using Suc.hyps(2) k by simp_all
  have p: "vs_right ?s" "un_type (vs_n ?s) = TPIVOT" "vals_room (un_vals (vs_n ?s) @ ?R) \<le> PIVSPC" using Suc.prems unfolding fr by simp_all
  obtain y where "split_vals b p pp h (int (Suc k)) ?s = Some (?s\<lparr>vs_n := (vs_n ?s)\<lparr>un_vals := un_vals (vs_n ?s) @ ?R\<rparr>, vs_copied := y\<rparr>)"
    using Suc.hyps(1) [OF d p] by blast
  then show ?case unfolding e fr by (intro exI [of _ y]) simp
qed

lemma piv_to_room: "split_ok b idx pp \<Longrightarrow> k \<le> length (un_vals b) \<Longrightarrow> vals_room (piv_to b idx pp k) \<le> int k * (2 * (PIVSPC div 8))"
proof (induction k)
  case (Suc k)
  then show ?case using piv_e_room [of b idx pp k] by (simp add: algebra_simps)
qed simp

lemma piv_from_last:
  assumes "split_ok b idx pp"
  shows "vals_room (piv_from b idx pp (length (un_vals b) - 2)) \<le> 4 * (PIVSPC div 8)"
proof -
  let ?n = "length (un_vals b)"
  have n: "4 \<le> ?n" using assms by (simp add: split_ok_def)
  obtain m where m: "?n = Suc (Suc m)" using n by (intro that [of "?n - 2"]) linarith
  have "[?n - 2..<?n] = [?n - 2, ?n - 1]" unfolding m by simp
  moreover have "?n - 2 < ?n" "?n - 1 < ?n" using n by simp_all
  then have "vals_room (piv_e b idx pp (?n - 2)) \<le> 2 * (PIVSPC div 8)" "vals_room (piv_e b idx pp (?n - 1)) \<le> 2 * (PIVSPC div 8)"
    using piv_e_room [OF assms] by blast+
  ultimately show ?thesis by simp
qed

text \<open>After the child the entries are the old ones; before it at most one piece is new.\<close>

lemma piv_from_after: "\<not> (pp \<noteq> None \<and> int k \<le> idx) \<Longrightarrow> k \<le> length (un_vals b) \<Longrightarrow> piv_from b idx pp k = drop k (un_vals b)"
proof (induction "length (un_vals b) - k" arbitrary: k)
  case (Suc d)
  then have k: "k < length (un_vals b)" by simp
  have "piv_e b idx pp k = [un_vals b ! k]" using Suc.prems(1) by (auto simp: piv_e_def split: option.splits)
  then show ?case using Suc.hyps(1) [of "Suc k"] Suc.hyps(2) Suc.prems k piv_from_Cons [OF k] by (auto simp: Cons_nth_drop_Suc)
qed simp

lemma piv_from_room: "split_ok b idx pp \<Longrightarrow> k \<le> length (un_vals b) \<Longrightarrow> vals_room (piv_from b idx pp k) \<le> vals_room (drop k (un_vals b)) + 2 * (PIVSPC div 8)"
proof (induction "length (un_vals b) - k" arbitrary: k)
  case (Suc d)
  then have k: "k < length (un_vals b)" by simp
  have dr: "drop k (un_vals b) = un_vals b ! k # drop (Suc k) (un_vals b)" using k by (simp add: Cons_nth_drop_Suc)
  show ?case
  proof (cases "pp \<noteq> None \<and> int k = idx")
    case True
    have "piv_from b idx pp (Suc k) = drop (Suc k) (un_vals b)" by (rule piv_from_after) (use True k in auto)
    then show ?thesis unfolding piv_from_Cons [OF k] dr using piv_e_room [OF Suc.prems(1) k] umsgsz_pos(2) [of "un_vals b ! k"] by simp
  next
    case False
    then have "piv_e b idx pp k = [un_vals b ! k]" by (auto simp: piv_e_def split: option.splits)
    then show ?thesis unfolding piv_from_Cons [OF k] dr using Suc.hyps(1) [of "Suc k"] Suc.hyps(2) Suc.prems k by simp
  qed
qed simp

definition left_at :: "unode \<Rightarrow> int \<Rightarrow> upath option \<Rightarrow> nat \<Rightarrow> vstate \<Rightarrow> bool" where
  "left_at b idx pp k s \<longleftrightarrow> \<not> vs_right s \<and> vs_n s = (newnode TPIVOT)\<lparr>un_vals := piv_to b idx pp k\<rparr>
     \<and> vals_room (piv_to b idx pp k) \<le> vs_copied s + 2 * (PIVSPC div 8)
     \<and> (pp \<noteq> None \<and> 0 \<le> idx \<and> idx < int k \<or> vs_copied s = vals_room (take k (un_vals b)) \<and> vals_room (piv_to b idx pp k) \<le> vs_copied s)"

lemma left_at_step:
  assumes ok: "split_ok b (up_idx p) pp" and k: "k < length (un_vals b)" and at: "left_at b (up_idx p) pp k s"
    and room: "vals_room (piv_to b (up_idx p) pp k @ piv_e b (up_idx p) pp k) \<le> PIVSPC"
  shows "\<exists>s'. piv_entry b p pp (int k) s = Some s' \<and> left_at b (up_idx p) pp (Suc k) s' \<and> vs_l s' = vs_l s \<and> vs_mid s' = vs_mid s"
proof -
  let ?e = "piv_e b (up_idx p) pp k" and ?t = "piv_to b (up_idx p) pp k"
  have n: "un_type (vs_n s) = TPIVOT" "un_vals (vs_n s) = ?t" using at by (simp_all add: left_at_def newnode_def)
  obtain z where z: "piv_entry b p pp (int k) s = Some (s\<lparr>vs_n := (vs_n s)\<lparr>un_vals := ?t @ ?e\<rparr>, vs_copied := vs_copied s + z\<rparr>)"
    "0 \<le> z" "int k \<noteq> up_idx p \<longrightarrow> z = uvalsz (un_vals b ! k)"
    using piv_entry_runs [OF ok k n(1)] room n(2) by auto
  have tk: "vals_room (take (Suc k) (un_vals b)) = vals_room (take k (un_vals b)) + uvalsz (un_vals b ! k)"
    using k by (simp add: take_Suc_conv_app_nth)
  have same: "\<not> (pp \<noteq> None \<and> int k = up_idx p) \<Longrightarrow> ?e = [un_vals b ! k]" by (auto simp: piv_e_def split: option.splits)
  have neg: "pp = None \<Longrightarrow> up_idx p < 0" using ok by (simp add: split_ok_def)
  have "left_at b (up_idx p) pp (Suc k) (s\<lparr>vs_n := (vs_n s)\<lparr>un_vals := ?t @ ?e\<rparr>, vs_copied := vs_copied s + z\<rparr>)"
  proof (cases "pp \<noteq> None \<and> int k = up_idx p")
    case True
    then show ?thesis using at z(2) piv_e_room [OF ok k] by (auto simp: left_at_def newnode_def)
  next
    case False
    then have zk: "z = uvalsz (un_vals b ! k)" using z(3) neg by (cases pp) auto
    show ?thesis using at zk same [OF False] tk False by (auto simp: left_at_def newnode_def)
  qed
  then show ?thesis using z(1) by simp
qed

lemma split_vals_left:
  assumes ok: "split_ok b (up_idx p) pp" and h: "h = vals_room (un_vals b) div 2"
  shows "k \<le> length (un_vals b) - 2 \<Longrightarrow> left_at b (up_idx p) pp k s \<Longrightarrow>
     \<exists>j z. k \<le> j \<and> 2 \<le> j \<and> j \<le> length (un_vals b) - 2 \<and> split_vals b p pp h (int k) s = Some \<lparr>vs_right = True,
       vs_l = (newnode TPIVOT)\<lparr>un_vals := piv_to b (up_idx p) pp j\<rparr>, vs_n = (newnode TPIVOT)\<lparr>un_vals := piv_from b (up_idx p) pp j\<rparr>,
       vs_copied = z, vs_mid = Some (un_vals b ! j)\<rparr>"
proof (induction "length (un_vals b) - k" arbitrary: k s)
  case 0
  moreover have "4 \<le> length (un_vals b)" using ok unfolding split_ok_def by blast
  ultimately have False by linarith
  then show ?case ..
next
  case (Suc d)
  let ?n = "length (un_vals b)"
  have n: "4 \<le> ?n" "un_type b = TPIVOT" "vals_room (un_vals b) \<le> PIVSPC" using ok by (simp_all add: split_ok_def)
  have k: "k < ?n" using Suc.prems(1) n(1) by linarith
  have M: "PIVSPC = 8187" "PIVSPC div 8 = (1023 :: int)" by simp_all
  note at = Suc.prems(2)[unfolded left_at_def]
  show ?case
  proof (cases "k = ?n - 2 \<or> (2 \<le> k \<and> vs_copied s \<ge> h)")
    case True
    have two: "2 \<le> k" using True n(1) by auto
    let ?s = "s\<lparr>vs_right := True, vs_l := vs_n s, vs_n := newnode TPIVOT, vs_mid := Some (un_vals b ! k)\<rparr>"
    have "int k = un_nval b - 2 \<longleftrightarrow> k = ?n - 2" using n(1) by linarith
    then have t: "piv_turn b h (int k) s = Some ?s" using True at k n(2) by (simp add: piv_turn_def ugetval_def)
    have t': "piv_turn b h (int k) ?s = Some ?s" by (simp add: piv_turn_def)
    have room: "vals_room (un_vals (newnode TPIVOT) @ piv_from b (up_idx p) pp k) \<le> PIVSPC"
    proof (cases "k = ?n - 2")
      case True
      have "vals_room (piv_from b (up_idx p) pp k) \<le> 4 * (PIVSPC div 8)" unfolding True by (rule piv_from_last [OF ok])
      then have "vals_room (piv_from b (up_idx p) pp k) \<le> PIVSPC" unfolding M by linarith
      then show ?thesis by (simp add: newnode_def)
    next
      case False
      then have c: "vs_copied s \<ge> h" using True by simp
      have td: "vals_room (take k (un_vals b)) + vals_room (drop k (un_vals b)) = vals_room (un_vals b)"
        by (metis append_take_drop_id map_append sum_list_append)
      show ?thesis
      proof (cases "pp \<noteq> None \<and> 0 \<le> up_idx p \<and> up_idx p < int k")
        case True
        then have "piv_from b (up_idx p) pp k = drop k (un_vals b)" using k by (intro piv_from_after) auto
        then show ?thesis using td n(3) vals_room_nonneg [of "take k (un_vals b)"] by (simp add: newnode_def)
      next
        case False
        then have "vs_copied s = vals_room (take k (un_vals b))" using at by blast
        then have "vals_room (drop k (un_vals b)) \<le> vals_room (un_vals b) - vals_room (un_vals b) div 2" using c td h by linarith
        then have "vals_room (piv_from b (up_idx p) pp k) \<le> PIVSPC" using piv_from_room [OF ok less_imp_le [OF k]] n(3) unfolding M by linarith
        then show ?thesis by (simp add: newnode_def)
      qed
    qed
    have e: "split_vals b p pp h (int k) s = split_vals b p pp h (int k) ?s"
      unfolding split_vals.simps [of b p pp h "int k" s] t unfolding split_vals.simps [of b p pp h "int k" ?s] t' using k by simp
    have sr: "vs_right ?s" "un_type (vs_n ?s) = TPIVOT" "vals_room (un_vals (vs_n ?s) @ piv_from b (up_idx p) pp k) \<le> PIVSPC"
      using room by (simp_all add: newnode_def)
    obtain z where "split_vals b p pp h (int k) ?s = Some (?s\<lparr>vs_n := (vs_n ?s)\<lparr>un_vals := un_vals (vs_n ?s) @ piv_from b (up_idx p) pp k\<rparr>, vs_copied := z\<rparr>)"
      using split_vals_right [OF ok less_imp_le [OF k] sr] by blast
    then show ?thesis unfolding e using two True at n(1) Suc.prems(1) by (intro exI [of _ k] exI [of _ z]) (simp add: newnode_def)
  next
    case False
    have lt: "k < ?n - 2" using False Suc.prems(1) by linarith
    have t: "piv_turn b h (int k) s = Some s" using False lt by (auto simp: piv_turn_def)
    have er: "vals_room (piv_e b (up_idx p) pp k) \<le> 2 * (PIVSPC div 8)" by (rule piv_e_room [OF ok k])
    have room: "vals_room (piv_to b (up_idx p) pp k @ piv_e b (up_idx p) pp k) \<le> PIVSPC"
    proof (cases "2 \<le> k")
      case True
      then have "vs_copied s < h" using False by simp
      moreover have "vals_room (piv_to b (up_idx p) pp k) \<le> vs_copied s + 2 * (PIVSPC div 8)" using at by blast
      ultimately show ?thesis using er n(3) unfolding h map_append sum_list_append M by linarith
    next
      case False
      then have "int k * (2 * (PIVSPC div 8)) \<le> 2 * (PIVSPC div 8)" unfolding M by simp
      then show ?thesis using piv_to_room [OF ok less_imp_le [OF k]] er unfolding map_append sum_list_append M by linarith
    qed
    obtain s' where s': "piv_entry b p pp (int k) s = Some s'" "left_at b (up_idx p) pp (Suc k) s'"
      using left_at_step [OF ok k Suc.prems(2) room] by blast
    have e: "split_vals b p pp h (int k) s = split_vals b p pp h (int (Suc k)) s'"
      using k t s'(1) by (simp add: split_vals.simps [of b p pp h "int k"] add.commute)
    have d: "d = ?n - Suc k" "Suc k \<le> ?n - 2" using Suc.hyps(2) lt by simp_all
    show ?thesis unfolding e using Suc.hyps(1) [OF d s'(2)] Suc_leD by blast
  qed
qed

section \<open>The messages of a split pivot\<close>

lemma split_msgs_runs:
  assumes ok: "slice_ok b lo pp" and ty: "un_type b = TPIVOT"
  shows "0 \<le> i \<Longrightarrow> un_type l = TPIVOT \<Longrightarrow> un_type r = TPIVOT \<Longrightarrow>
     S = staying b lo pp i \<Longrightarrow> A = (if right then [] else takeWhile (\<lambda>m. m_k m < mid) S) \<Longrightarrow> B = (if right then S else dropWhile (\<lambda>m. m_k m < mid) S) \<Longrightarrow>
     msgs_room (un_msgs l @ S) \<le> BUFSPC \<Longrightarrow> msgs_room (un_msgs r @ S) \<le> BUFSPC \<Longrightarrow>
     split_msgs b lo pp mid i right l r = Some (l\<lparr>un_msgs := un_msgs l @ A\<rparr>, r\<lparr>un_msgs := un_msgs r @ B\<rparr>)"
proof (induction "nat (un_nbuf b - i)" arbitrary: i right l r S A B rule: less_induct)
  case less
  show ?case
  proof (cases "i < un_nbuf b")
    case False
    then have "S = []" using less.prems(4) staying_end [OF ok] by simp
    then show ?thesis using False less.prems(5,6) by (simp add: split_msgs.simps [of b lo pp mid i])
  next
    case True
    have "\<not> (i = lo \<and> pp = None)" using ok less.prems(1) by (auto simp: slice_ok_def split: option.splits)
    then obtain j where j: "(if i = lo then map_option (\<lambda>c. i + up_npull c) pp else Some i) = Some j" by (cases pp; cases "i = lo") auto
    note st = staying_step [OF ok less.prems(1) True j]
    show ?thesis
    proof (cases "j = un_nbuf b")
      case e: True
      then have "S = []" using st(3) staying_end [OF ok, of j] less.prems(4) by simp
      then show ?thesis using True e j less.prems(5,6) by (simp add: split_msgs.simps [of b lo pp mid i])
    next
      case ne: False
      then have jl: "j < un_nbuf b" "0 \<le> j" using st(1,2) less.prems(1) by auto
      let ?m = "un_msgs b ! nat j"
      define T where "T = staying b lo pp (j + 1)"
      have S: "S = ?m # T" using st(4) [OF jl(1)] less.prems(4) by (simp add: T_def)
      have gm: "ugetmsg b j = Some ?m" using ty jl by (simp add: ugetmsg_def)
      have dec: "nat (un_nbuf b - (j + 1)) < nat (un_nbuf b - i)" using st(1) jl(1) by linarith
      have room: "msgs_room (un_msgs l) + umsgsz ?m + msgs_room T \<le> BUFSPC" "msgs_room (un_msgs r) + umsgsz ?m + msgs_room T \<le> BUFSPC"
        using less.prems(7,8) by (simp_all add: S)
      note pos = msgs_room_nonneg [of T] umsgsz_pos(1) [of ?m]
      have rest: "msgs_room (un_msgs l @ T) \<le> BUFSPC" "msgs_room (un_msgs r @ T) \<le> BUFSPC"
        "msgs_room ((un_msgs l @ [?m]) @ T) \<le> BUFSPC" "msgs_room ((un_msgs r @ [?m]) @ T) \<le> BUFSPC"
        using room pos unfolding map_append sum_list_append by simp_all
      show ?thesis
      proof (cases "right \<or> keycmp (m_k ?m) mid \<ge> 0")
        case True
        let ?r = "r\<lparr>un_msgs := un_msgs r @ [?m]\<rparr>"
        have u: "usetmsg r ?m = Some ?r" using usetmsg_ok [OF less.prems(3)] room(2) pos by simp
        have e: "split_msgs b lo pp mid i right l r = split_msgs b lo pp mid (j + 1) True l ?r"
          using \<open>i < un_nbuf b\<close> j ne gm True u by (simp add: split_msgs.simps [of b lo pp mid i])
        have ns: "right \<or> \<not> m_k ?m < mid" using True keycmp_iff(1) [of "m_k ?m" mid] by auto
        have "split_msgs b lo pp mid (j + 1) True l ?r = Some (l\<lparr>un_msgs := un_msgs l @ []\<rparr>, ?r\<lparr>un_msgs := un_msgs ?r @ T\<rparr>)"
          by (rule less.hyps [OF dec]) (use jl(2) less.prems(2,3) T_def rest in \<open>simp_all del: BUFSPC_def\<close>)
        then show ?thesis unfolding e less.prems(5,6) S using ns by auto
      next
        case False
        let ?l = "l\<lparr>un_msgs := un_msgs l @ [?m]\<rparr>"
        have u: "usetmsg l ?m = Some ?l" using usetmsg_ok [OF less.prems(2)] room(1) pos by simp
        have e: "split_msgs b lo pp mid i right l r = split_msgs b lo pp mid (j + 1) False ?l r"
          using \<open>i < un_nbuf b\<close> j ne gm False u by (simp add: split_msgs.simps [of b lo pp mid i])
        have ns: "\<not> right" "m_k ?m < mid" using False keycmp_iff [of "m_k ?m" mid] by (cases "keycmp (m_k ?m) mid"; auto)+
        have "split_msgs b lo pp mid (j + 1) False ?l r = Some (?l\<lparr>un_msgs := un_msgs ?l @ takeWhile (\<lambda>m. m_k m < mid) T\<rparr>, r\<lparr>un_msgs := un_msgs r @ dropWhile (\<lambda>m. m_k m < mid) T\<rparr>)"
          by (rule less.hyps [OF dec, where S = T and right = False]) (use jl(2) less.prems(2,3) T_def rest in \<open>simp_all del: BUFSPC_def\<close>)
        then show ?thesis unfolding e less.prems(5,6) S using ns by simp
      qed
    qed
  qed
qed

lemma dropWhile_above: "sorted (map f xs) \<Longrightarrow> x \<in> set (dropWhile (\<lambda>x. f x < c) xs) \<Longrightarrow> c \<le> f x"
  for f :: "'a \<Rightarrow> 'b :: linorder"
proof (induction xs)
  case (Cons y ys)
  then show ?case by (cases "f y < c") fastforce+
qed simp

lemma two_pieces:
  assumes "xs \<noteq> []" and "ys \<noteq> []"
  shows "2 \<le> length (xs @ ys @ zs)" "2 \<le> length (zs @ xs @ ys)"
  using assms by (cases xs; cases ys; simp)+

text \<open>Each half keeps an entry at least, and two when the child is not empty.\<close>

lemma halves_nonempty:
  assumes j: "2 \<le> j" "j \<le> length (un_vals b) - 2" and b: "4 \<le> length (un_vals b)"
  shows "piv_to b idx pp j \<noteq> []" "piv_from b idx pp j \<noteq> []"
    "pp = None \<or> new_entries (the pp) \<noteq> [] \<Longrightarrow> 2 \<le> length (piv_to b idx pp j) \<and> 2 \<le> length (piv_from b idx pp j)"
proof -
  obtain i where i: "j = Suc (Suc i)" using j(1) by (intro that [of "j - 2"]) linarith
  have to: "piv_to b idx pp j = piv_to b idx pp i @ piv_e b idx pp i @ piv_e b idx pp (Suc i)" unfolding i by simp
  have "j < length (un_vals b)" "Suc j < length (un_vals b)" using j b by linarith+
  then have fr: "piv_from b idx pp j = piv_e b idx pp j @ piv_e b idx pp (Suc j) @ piv_from b idx pp (Suc (Suc j))" by (simp add: piv_from_Cons)
  have one: "piv_e b idx pp k \<noteq> [] \<or> piv_e b idx pp (Suc k) \<noteq> []" for k by (auto simp: piv_e_def split: option.splits)
  show "piv_to b idx pp j \<noteq> []" "piv_from b idx pp j \<noteq> []" unfolding to fr using one [of i] one [of j] by auto
  assume "pp = None \<or> new_entries (the pp) \<noteq> []"
  then have "piv_e b idx pp k \<noteq> []" for k by (auto simp: piv_e_def split: option.splits)
  then show "2 \<le> length (piv_to b idx pp j) \<and> 2 \<le> length (piv_from b idx pp j)" unfolding to fr using two_pieces by blast
qed

section \<open>Properties\<close>

text \<open>
  C40: \<^verbatim>\<open>splitpiv\<close> on a full pivot returns. It divides the old entries before entry \<open>i\<close>, at least two to either
  side, and hands out this entry as the separator \<^verbatim>\<open>mid\<close>: the left node holds the first \<open>i\<close> entries in order, the
  right one the others, in either of them those of the child that was rebuilt in the place of its
  old entry. So both have at least two children unless nothing is left of the rebuilt child. The
  messages that did not go down are divided at the key of \<^verbatim>\<open>mid\<close>, those below it to the left and the others to
  the right.
\<close>

theorem splitpiv_divides_node:
  assumes "up_b p = Some b" and "split_ok b (up_idx p) pp" and "slice_ok b (up_lo p) pp" and "sorted (map m_k (un_msgs b))" and "msgs_room (un_msgs b) \<le> BUFSPC"
  shows "\<exists>p' i lv lm rv rm. splitpiv bpl bpr p pp = Some (p', un_vals b ! i) \<and> 2 \<le> i \<and> i \<le> length (un_vals b) - 2 \<and> up_op p' = POsplit
     \<and> up_nl p' = Some \<lparr>un_type = TPIVOT, un_bp = bpl, un_vals = lv, un_msgs = lm\<rparr> \<and> up_nr p' = Some \<lparr>un_type = TPIVOT, un_bp = bpr, un_vals = rv, un_msgs = rm\<rparr>
     \<and> lv = concat (map (piv_e b (up_idx p) pp) [0..<i]) \<and> rv = concat (map (piv_e b (up_idx p) pp) [i..<length (un_vals b)])
     \<and> lv @ rv = entries_from b (up_idx p) pp 0 \<and> (pp = None \<or> new_entries (the pp) \<noteq> [] \<longrightarrow> 2 \<le> length lv \<and> 2 \<le> length rv)
     \<and> lm @ rm = staying b (up_lo p) pp 0 \<and> (\<forall>m \<in> set lm. m_k m < kv_k (un_vals b ! i)) \<and> (\<forall>m \<in> set rm. kv_k (un_vals b ! i) \<le> m_k m)"
proof -
  have ok: "4 \<le> length (un_vals b)" "un_type b = TPIVOT" using assms(2) by (simp_all add: split_ok_def)
  let ?s = "\<lparr>vs_right = False, vs_l = newnode TPIVOT, vs_n = newnode TPIVOT, vs_copied = 0, vs_mid = None\<rparr>"
  have "left_at b (up_idx p) pp 0 ?s" by (simp add: left_at_def newnode_def)
  then obtain j z where j: "2 \<le> j" "j \<le> length (un_vals b) - 2" "split_vals b p pp (vals_room (un_vals b) div 2) (int 0) ?s = Some \<lparr>vs_right = True,
      vs_l = (newnode TPIVOT)\<lparr>un_vals := piv_to b (up_idx p) pp j\<rparr>, vs_n = (newnode TPIVOT)\<lparr>un_vals := piv_from b (up_idx p) pp j\<rparr>,
      vs_copied = z, vs_mid = Some (un_vals b ! j)\<rparr>"
    using split_vals_left [OF assms(2) refl, of 0 ?s] by auto
  let ?mid = "un_vals b ! j" and ?S = "staying b (up_lo p) pp 0"
  let ?l = "(newnode TPIVOT)\<lparr>un_vals := piv_to b (up_idx p) pp j\<rparr>" and ?r = "(newnode TPIVOT)\<lparr>un_vals := piv_from b (up_idx p) pp j\<rparr>"
  let ?A = "takeWhile (\<lambda>m. m_k m < kv_k ?mid) ?S" and ?B = "dropWhile (\<lambda>m. m_k m < kv_k ?mid) ?S"
  note st = staying_facts [OF assms(3,4)]
  have room: "msgs_room (un_msgs ?l @ ?S) \<le> BUFSPC" "msgs_room (un_msgs ?r @ ?S) \<le> BUFSPC" using st(2) assms(5) by (simp_all add: newnode_def)
  have m: "split_msgs b (up_lo p) pp (kv_k ?mid) 0 False ?l ?r = Some (?l\<lparr>un_msgs := un_msgs ?l @ ?A\<rparr>, ?r\<lparr>un_msgs := un_msgs ?r @ ?B\<rparr>)"
    by (rule split_msgs_runs [OF assms(3) ok(2) _ _ _ refl _ _ room]) (simp_all add: newnode_def)
  have nm: "un_msgs (newnode t) = []" for t by (simp add: newnode_def)
  have h: "(2 * un_nval b + un_valsz b) div 2 = vals_room (un_vals b) div 2" by (simp only: un_room)
  have j3: "split_vals b p pp ((2 * un_nval b + un_valsz b) div 2) 0 ?s = Some \<lparr>vs_right = True, vs_l = ?l, vs_n = ?r, vs_copied = z, vs_mid = Some ?mid\<rparr>"
    using j(3) unfolding h by simp
  let ?p' = "p\<lparr>up_op := POsplit, up_nl := setb bpl (?l\<lparr>un_msgs := ?A\<rparr>), up_nr := setb bpr (?r\<lparr>un_msgs := ?B\<rparr>)\<rparr>"
  have sp: "splitpiv bpl bpr p pp = Some (?p', ?mid)"
    using assms(1) ok j3 m unfolding splitpiv_def by (simp add: nm)
  note ne = halves_nonempty [OF j(1,2) ok(1), where idx = "up_idx p" and pp = pp]
  have "piv_to b (up_idx p) pp j @ piv_from b (up_idx p) pp j = entries_from b (up_idx p) pp 0"
    using piv_to_from [of j b "up_idx p" pp] j(2) piv_from_entries [OF assms(2), of 0] by simp
  moreover have "\<forall>m \<in> set ?A. m_k m < kv_k ?mid" by (auto dest: set_takeWhileD)
  moreover have "\<forall>m \<in> set ?B. kv_k ?mid \<le> m_k m" using dropWhile_above [OF st(1)] by blast
  ultimately show ?thesis
    using sp ne j(1,2) by (intro exI [of _ ?p'] exI [of _ j] exI [of _ "piv_to b (up_idx p) pp j"] exI [of _ ?A] exI [of _ "piv_from b (up_idx p) pp j"] exI [of _ ?B])
      (simp add: setb_def newnode_def)
qed

text \<open>Four children and three messages; the separator is the third entry.\<close>

definition sample_full :: unode where
  "sample_full = (newnode TPIVOT)\<lparr>un_vals := map (\<lambda>k. \<lparr>kv_k = [k], kv_v = []\<rparr>) [1, 3, 5, 7], un_msgs := [put_msg 2 0, put_msg 5 0, put_msg 6 0]\<rparr>"

definition sample_fullpath :: upath where
  "sample_fullpath = sample_upath\<lparr>up_b := Some sample_full, up_idx := - 1, up_lo := - 1, up_hi := - 1\<rparr>"

theorem splitpiv_divides_node_witness:
  "\<exists>p' mid lv lm rv rm. splitpiv zero_bptr zero_bptr sample_fullpath None = Some (p', mid) \<and> kv_k mid = [5]
     \<and> up_nl p' = Some \<lparr>un_type = TPIVOT, un_bp = zero_bptr, un_vals = lv, un_msgs = lm\<rparr> \<and> up_nr p' = Some \<lparr>un_type = TPIVOT, un_bp = zero_bptr, un_vals = rv, un_msgs = rm\<rparr>
     \<and> map kv_k lv = [[1], [3]] \<and> map kv_k rv = [[5], [7]] \<and> lm @ rm = [put_msg 2 0, put_msg 5 0, put_msg 6 0]
     \<and> (\<forall>m \<in> set lm. m_k m < kv_k mid)"
proof -
  let ?p = sample_fullpath and ?b = sample_full
  note ev = sample_fullpath_def sample_full_def sample_upath_def newnode_def put_msg_def
  have 1: "up_b ?p = Some ?b" "split_ok ?b (up_idx ?p) None" "slice_ok ?b (up_lo ?p) None" "sorted (map m_k (un_msgs ?b))" "msgs_room (un_msgs ?b) \<le> BUFSPC"
    by (simp_all add: ev split_ok_def slice_ok_def uvalsz_def umsgsz_def)
  have S: "staying ?b (up_lo ?p) None 0 = [put_msg 2 0, put_msg 5 0, put_msg 6 0]" by (simp add: staying_def ev)
  obtain p' i lv lm rv rm where r: "splitpiv zero_bptr zero_bptr ?p None = Some (p', un_vals ?b ! i)" "2 \<le> i" "i \<le> length (un_vals ?b) - 2"
    "up_nl p' = Some \<lparr>un_type = TPIVOT, un_bp = zero_bptr, un_vals = lv, un_msgs = lm\<rparr>" "up_nr p' = Some \<lparr>un_type = TPIVOT, un_bp = zero_bptr, un_vals = rv, un_msgs = rm\<rparr>"
    "lv = concat (map (piv_e ?b (up_idx ?p) None) [0..<i])" "rv = concat (map (piv_e ?b (up_idx ?p) None) [i..<length (un_vals ?b)])"
    "lm @ rm = staying ?b (up_lo ?p) None 0" "\<forall>m \<in> set lm. m_k m < kv_k (un_vals ?b ! i)"
    using splitpiv_divides_node [OF 1, of zero_bptr zero_bptr] by blast
  have i: "i = 2" using r(2,3) by (simp add: ev)
  have "map kv_k lv = [[1], [3]]" "map kv_k rv = [[5], [7]]" "kv_k (un_vals ?b ! i) = [5]" using r(6,7) unfolding i by (simp_all add: ev piv_e_def upt_rec)
  then show ?thesis using r(1,4,5,8,9) S by metis
qed

end
