(* ===== verification/Leafsplit.thy ===== *)
theory Leafsplit
  imports Splitspec
begin

text \<open>
  \<^verbatim>\<open>splitleaf\<close>: a full leaf is divided in two while messages are applied to it. It may stop in the middle of the
  messages, even of those for one key; what it has taken has had its effect.
\<close>

section \<open>Prefixes of messages\<close>

lemma run_msgs_append:
  "run_msgs ok v (a @ c) = do { (ok1, v1, f1) \<leftarrow> run_msgs ok v a; (ok2, v2, f2) \<leftarrow> run_msgs ok1 v1 c; Some (ok2, v2, f1 @ f2) }"
  by (induction a arbitrary: ok v) (auto split: bind_splits)

lemma run_msgs_prefix: "run_msgs ok v (a @ c) \<noteq> None \<Longrightarrow> run_msgs ok v a \<noteq> None"
  unfolding run_msgs_append by (cases "run_msgs ok v a") simp_all

lemma settle_defined:
  "settle [] (m # ms) \<noteq> None \<longleftrightarrow> cpkvp MSGMAX (msg_kvp m) \<noteq> None \<and> run_msgs (m_op m \<noteq> OCLEARB \<and> m_op m \<noteq> OCLOBBER) (msg_kvp m) ms \<noteq> None"
  "settle (v # vs) (m # ms) \<noteq> None \<longleftrightarrow> cpkvp MSGMAX v \<noteq> None \<and> run_msgs True v (m # ms) \<noteq> None"
  subgoal by (cases "run_msgs (m_op m \<noteq> OCLEARB \<and> m_op m \<noteq> OCLOBBER) (msg_kvp m) ms") (simp_all add: cpkvp_def del: OCLEARB_def OCLOBBER_def)
  subgoal by (cases "run_msgs True v (m # ms)") (simp_all add: cpkvp_def del: run_msgs.simps)
  done

lemma settle_prefix: "settle vs (a @ c) \<noteq> None \<Longrightarrow> settle vs a \<noteq> None"
proof (cases a)
  case (Cons m ms)
  assume d: "settle vs (a @ c) \<noteq> None"
  show ?thesis
  proof (cases vs)
    case Nil
    then show ?thesis using d Cons settle_defined(1) [of m] run_msgs_prefix by (metis append_Cons)
  next
    case (Cons v ws)
    then show ?thesis using d \<open>a = m # ms\<close> settle_defined(2) [of v ws m] run_msgs_prefix by (metis append_Cons)
  qed
qed simp

section \<open>The reference merge in parts\<close>

lemma joined_assoc: "joined (joined x y) z = joined x (joined y z)"
  by (cases x; cases y; cases z) (auto simp: joined_def split: bind_splits)

lemma joined_nil: "joined (Some ([], [])) x = x" "joined x (Some ([], [])) = x"
  by (cases x; auto simp: joined_def)+

definition keys_below :: "kvp list \<Rightarrow> gmsg list \<Rightarrow> key set \<Rightarrow> bool" where
  "keys_below vs ms K \<longleftrightarrow> (\<forall>k \<in> kv_k ` set vs \<union> m_k ` set ms. \<forall>k' \<in> K. k < k')"

abbreviation keys_of :: "kvp list \<Rightarrow> gmsg list \<Rightarrow> key set" where
  "keys_of vs ms \<equiv> kv_k ` set vs \<union> m_k ` set ms"

lemma keys_below_vals: "keys_below vs [] (keys_of vs2 ms2) \<Longrightarrow> leaf_merge (vs @ vs2) ms2 = joined (Some (vs, [])) (leaf_merge vs2 ms2)"
proof (induction vs)
  case (Cons v vs)
  show ?case
  proof (cases ms2)
    case Nil
    then show ?thesis by (simp add: joined_def)
  next
    case m: (Cons m ms)
    have "kv_k v < m_k m" using Cons.prems m by (simp add: keys_below_def)
    moreover have "leaf_merge (vs @ vs2) ms2 = joined (Some (vs, [])) (leaf_merge vs2 ms2)" using Cons by (simp add: keys_below_def)
    ultimately show ?thesis using m joined_assoc [of "Some ([v], [])" "Some (vs, [])"] by (simp add: joined_def)
  qed
qed (simp add: joined_nil)

lemma group_split:
  assumes "\<forall>x \<in> set ms2. m_k m < m_k x"
  shows "takeWhile (\<lambda>x. m_k x = m_k m) (ms @ ms2) = takeWhile (\<lambda>x. m_k x = m_k m) ms"
    "dropWhile (\<lambda>x. m_k x = m_k m) (ms @ ms2) = dropWhile (\<lambda>x. m_k x = m_k m) ms @ ms2"
proof -
  have n: "takeWhile (\<lambda>x. m_k x = m_k m) ms2 = []" "dropWhile (\<lambda>x. m_k x = m_k m) ms2 = ms2"
    using assms by (cases ms2; auto)+
  show "takeWhile (\<lambda>x. m_k x = m_k m) (ms @ ms2) = takeWhile (\<lambda>x. m_k x = m_k m) ms"
    by (induction ms) (simp_all add: n)
  show "dropWhile (\<lambda>x. m_k x = m_k m) (ms @ ms2) = dropWhile (\<lambda>x. m_k x = m_k m) ms @ ms2"
    by (induction ms) (simp_all add: n)
qed

lemma keys_below_drop: "keys_below vs (m # ms) K \<Longrightarrow> keys_below vs (dropWhile P ms) K"
  by (auto simp: keys_below_def dest: set_dropWhileD)

lemma leaf_merge_append: "keys_below vs ms (keys_of vs2 ms2) \<Longrightarrow> leaf_merge (vs @ vs2) (ms @ ms2) = joined (leaf_merge vs ms) (leaf_merge vs2 ms2)"
proof (induction vs ms rule: leaf_merge.induct)
  case (1 vs)
  then show ?case using keys_below_vals by simp
next
  case (2 m ms)
  let ?P = "\<lambda>x. m_k x = m_k m"
  have g: "\<forall>x \<in> set ms2. m_k m < m_k x" "\<forall>x \<in> set vs2. m_k m < kv_k x" using "2.prems" by (auto simp: keys_below_def)
  note sp = group_split [OF g(1), of ms]
  have IH: "leaf_merge vs2 (dropWhile ?P ms @ ms2) = joined (leaf_merge [] (dropWhile ?P ms)) (leaf_merge vs2 ms2)"
    using "2.IH" [OF keys_below_drop [OF "2.prems"]] by simp
  show ?case
  proof (cases vs2)
    case Nil
    then show ?thesis using IH sp by (simp add: joined_assoc)
  next
    case (Cons v vs3)
    then have v: "\<not> kv_k v < m_k m" "kv_k v \<noteq> m_k m" using g(2) by auto
    then have "leaf_merge vs2 (m # ms @ ms2) = joined (settle [] (m # takeWhile ?P ms)) (leaf_merge vs2 (dropWhile ?P ms @ ms2))"
      using sp Cons by simp
    then show ?thesis using IH by (simp add: joined_assoc)
  qed
next
  case (3 v vs m ms)
  let ?P = "\<lambda>x. m_k x = m_k m"
  have g: "\<forall>x \<in> set ms2. m_k m < m_k x" using "3.prems" by (auto simp: keys_below_def)
  note sp = group_split [OF g, of ms]
  have b: "keys_below vs (m # ms) (keys_of vs2 ms2)" using "3.prems" by (simp add: keys_below_def)
  consider (lt) "kv_k v < m_k m" | (eq) "kv_k v = m_k m" | (gt) "m_k m < kv_k v" by fastforce
  then show ?case
  proof cases
    case lt
    then show ?thesis using "3.IH"(1) [OF lt b] by (simp add: joined_assoc)
  next
    case eq
    then have "\<not> kv_k v < m_k m" by simp
    then show ?thesis using "3.IH"(2) [OF _ eq keys_below_drop [OF b]] eq sp by (simp add: joined_assoc)
  next
    case gt
    then have n: "\<not> kv_k v < m_k m" "kv_k v \<noteq> m_k m" by auto
    then show ?thesis using "3.IH"(3) [OF n keys_below_drop [OF "3.prems"]] sp by (simp add: joined_assoc)
  qed
qed

text \<open>One more value, or one more group of messages.\<close>

lemma merge_more_value:
  assumes "leaf_merge vs ms = Some (c, f)" and "keys_below vs ms {kv_k v}"
  shows "leaf_merge (vs @ [v]) ms = Some (c @ [v], f)"
  using leaf_merge_append [of vs ms "[v]" "[]"] assms by (simp add: joined_def)

lemma merge_more_group:
  assumes "leaf_merge vs ms = Some (c, f)" and "keys_below vs ms {m_k m}" and v0: "v0 = [] \<or> (\<exists>v. v0 = [v] \<and> kv_k v = m_k m)"
    and g: "\<forall>x \<in> set g. m_k x = m_k m" and se: "settle v0 (m # g) = Some (a, h)"
  shows "leaf_merge (vs @ v0) (ms @ m # g) = Some (c @ a, f @ h)"
proof -
  have td: "takeWhile (\<lambda>x. m_k x = m_k m) g = g" "dropWhile (\<lambda>x. m_k x = m_k m) g = []" using g by (simp_all add: takeWhile_eq_all_conv)
  have "leaf_merge v0 (m # g) = Some (a, h)" using v0 se by (auto simp: td joined_nil simp del: settle.simps)
  moreover have "keys_below vs ms (keys_of v0 (m # g))" using assms(2) v0 g by (auto simp: keys_below_def)
  ultimately show ?thesis using leaf_merge_append [of vs ms v0 "m # g"] assms(1) by (simp add: joined_def)
qed

section \<open>Messages until there is no room\<close>

lemma copyloop_takes:
  "feeds up (ls_j s) ms \<Longrightarrow> run_msgs ok v (takeWhile (\<lambda>m. m_k m = kv_k v) ms) \<noteq> None \<Longrightarrow>
     \<exists>c ok' v' fr m' full'. c \<le> length (takeWhile (\<lambda>m. m_k m = kv_k v) ms) \<and> run_msgs ok v (take c ms) = Some (ok', v', fr)
       \<and> copyloop up ok v s = Some (ok', v', s\<lparr>ls_j := ls_j s + int c, ls_m := m', ls_full := full', ls_pullsz := ls_pullsz s + msgs_room (take c ms), ls_freed := ls_freed s @ fr\<rparr>)
       \<and> (\<not> full' \<longrightarrow> \<not> ls_full s \<and> c = length (takeWhile (\<lambda>m. m_k m = kv_k v) ms))"
proof (induction ms arbitrary: s ok v)
  case Nil
  then have "copyloop up ok v s = Some (ok, v, s)" by (simp add: copyloop.simps [of up ok v s])
  then show ?case by (intro exI [of _ 0] exI [of _ ok] exI [of _ v] exI [of _ "[]"] exI [of _ "ls_m s"] exI [of _ "ls_full s"]) simp
next
  case (Cons m ms)
  have j: "ls_j s < up_hi up" "0 \<le> ls_j s" "up_msg up (ls_j s) = Some m" "feeds up (ls_j s + 1) ms" using Cons.prems(1) by auto
  show ?case
  proof (cases "ls_full s")
    case True
    then have "copyloop up ok v s = Some (ok, v, s\<lparr>ls_m := ls_m s, ls_full := True\<rparr>)"
      using j(1) by (simp add: copyloop.simps [of up ok v s] pullmsg_def)
    then show ?thesis by (intro exI [of _ 0] exI [of _ ok] exI [of _ v] exI [of _ "[]"] exI [of _ "ls_m s"] exI [of _ True]) simp
  next
    case nf: False
    show ?thesis
    proof (cases "umsgsz m \<le> ls_spc s")
      case False
      then have "copyloop up ok v s = Some (ok, v, s\<lparr>ls_m := Some m, ls_full := True\<rparr>)"
        using j nf by (simp add: copyloop.simps [of up ok v s] pullmsg_def)
      then show ?thesis by (intro exI [of _ 0] exI [of _ ok] exI [of _ v] exI [of _ "[]"] exI [of _ "Some m"] exI [of _ True]) simp
    next
      case fits: True
      then have pm: "pullmsg up (ls_j s) (Some (kv_k v)) (ls_m s) (ls_full s) (ls_spc s) = Some (keycmp (kv_k v) (m_k m), Some m, False)"
        using j nf by (simp add: pullmsg_def)
      show ?thesis
      proof (cases "m_k m = kv_k v")
        case False
        then have "keycmp (kv_k v) (m_k m) \<noteq> 0" by (auto simp: keycmp_iff)
        then have "copyloop up ok v s = Some (ok, v, s\<lparr>ls_m := Some m, ls_full := False\<rparr>)"
          using j(1) pm by (simp add: copyloop.simps [of up ok v s])
        then show ?thesis using nf False by (intro exI [of _ 0] exI [of _ ok] exI [of _ v] exI [of _ "[]"] exI [of _ "Some m"] exI [of _ False]) simp
      next
        case True
        let ?g = "takeWhile (\<lambda>m. m_k m = kv_k v) ms"
        obtain fr1 ok1 v1 where r: "(if ok then dropped_ptr v m else Some []) = Some fr1" "uapply v m = Some (ok1, v1)" "run_msgs ok1 v1 ?g \<noteq> None"
          using Cons.prems(2) True by (auto split: bind_splits)
        have k: "kv_k v1 = kv_k v" by (rule uapply_facts(1) [OF r(2) True])
        let ?s = "s\<lparr>ls_j := ls_j s + 1, ls_full := False, ls_pullsz := ls_pullsz s + umsgsz m, ls_m := Some m, ls_freed := ls_freed s @ fr1\<rparr>"
        have z: "keycmp (kv_k v) (m_k m) = 0" using True by (simp add: keycmp_iff)
        have e: "copyloop up ok v s = copyloop up ok1 v1 ?s" using j(1) pm z r(1,2) by (simp add: copyloop.simps [of up ok v s])
        have f: "feeds up (ls_j ?s) ms" "run_msgs ok1 v1 (takeWhile (\<lambda>m. m_k m = kv_k v1) ms) \<noteq> None" using j(4) r(3) k by simp_all
        obtain c ok' v' fr m' full' where c: "c \<le> length ?g" "run_msgs ok1 v1 (take c ms) = Some (ok', v', fr)"
          "copyloop up ok1 v1 ?s = Some (ok', v', ?s\<lparr>ls_j := ls_j ?s + int c, ls_m := m', ls_full := full', ls_pullsz := ls_pullsz ?s + msgs_room (take c ms), ls_freed := ls_freed ?s @ fr\<rparr>)"
          "\<not> full' \<longrightarrow> c = length ?g"
          using Cons.IH [OF f] unfolding k by blast
        show ?thesis
          unfolding e c(3) using c r(1,2) nf True
          by (intro exI [of _ "Suc c"] exI [of _ ok'] exI [of _ v'] exI [of _ "fr1 @ fr"] exI [of _ m'] exI [of _ full']) (simp add: algebra_simps)
      qed
    qed
  qed
qed

lemma take_group: "c \<le> length (takeWhile P ms) \<Longrightarrow> take c ms = take c (takeWhile P ms)"
  by (metis takeWhile_eq_take take_take min.absorb1)

lemma group_keys: "c \<le> length (takeWhile (\<lambda>m. m_k m = k) ms) \<Longrightarrow> \<forall>x \<in> set (take c ms). m_k x = k"
  by (metis in_set_takeD set_takeWhileD take_group)

lemma room_take: "msgs_room (take c ms) \<le> msgs_room ms" "msgs_room (take c ms) + msgs_room (drop c ms) = msgs_room ms"
proof -
  show "msgs_room (take c ms) + msgs_room (drop c ms) = msgs_room ms" by (metis append_take_drop_id map_append sum_list_append)
  then show "msgs_room (take c ms) \<le> msgs_room ms" using msgs_room_nonneg [of "drop c ms"] by linarith
qed

lemma copied_takes:
  assumes f: "feeds up (ls_j s) ms" and r: "run_msgs ok v (takeWhile (\<lambda>m. m_k m = kv_k v) ms) \<noteq> None"
    and n: "un_type (ls_n s) = TLEAF" "vals_room (un_vals (ls_n s)) + uvalsz v + msgs_room ms \<le> LEAFSPC"
  shows "\<exists>c ok' v' fr m' full'. c \<le> length (takeWhile (\<lambda>m. m_k m = kv_k v) ms) \<and> run_msgs ok v (take c ms) = Some (ok', v', fr)
     \<and> copied up ok v s = Some (s\<lparr>ls_j := ls_j s + int c, ls_m := m', ls_full := full', ls_pullsz := ls_pullsz s + msgs_room (take c ms), ls_freed := ls_freed s @ fr,
         ls_n := (ls_n s)\<lparr>un_vals := un_vals (ls_n s) @ (if ok' then [v'] else [])\<rparr>\<rparr>)
     \<and> (\<not> full' \<longrightarrow> \<not> ls_full s \<and> c = length (takeWhile (\<lambda>m. m_k m = kv_k v) ms))"
proof -
  obtain c ok' v' fr m' full' where c: "c \<le> length (takeWhile (\<lambda>m. m_k m = kv_k v) ms)" "run_msgs ok v (take c ms) = Some (ok', v', fr)"
    "copyloop up ok v s = Some (ok', v', s\<lparr>ls_j := ls_j s + int c, ls_m := m', ls_full := full', ls_pullsz := ls_pullsz s + msgs_room (take c ms), ls_freed := ls_freed s @ fr\<rparr>)"
    "\<not> full' \<longrightarrow> \<not> ls_full s \<and> c = length (takeWhile (\<lambda>m. m_k m = kv_k v) ms)"
    using copyloop_takes [OF f r] by blast
  have "uvalsz v' \<le> uvalsz v + msgs_room (take c ms)" using run_msgs_facts [OF c(2)] group_keys [OF c(1)] by blast
  then have "vals_room (un_vals (ls_n s)) + uvalsz v' \<le> LEAFSPC" using n(2) room_take(1) [of c ms] by linarith
  then have "usetval (ls_n s) v' = Some ((ls_n s)\<lparr>un_vals := un_vals (ls_n s) @ [v']\<rparr>)" by (rule usetval_leaf [OF n(1)])
  then have "copied up ok v s = Some (s\<lparr>ls_j := ls_j s + int c, ls_m := m', ls_full := full', ls_pullsz := ls_pullsz s + msgs_room (take c ms), ls_freed := ls_freed s @ fr,
         ls_n := (ls_n s)\<lparr>un_vals := un_vals (ls_n s) @ (if ok' then [v'] else [])\<rparr>\<rparr>)"
    using c(3) by (simp add: copied_def)
  then show ?thesis using c by blast
qed

text \<open>
  A step that takes \<open>c\<close> messages: what it adds to the new block and what it gives up. It stops before the
  end of the group only when there is no more room.
\<close>

definition took :: "lstate \<Rightarrow> lstate \<Rightarrow> nat \<Rightarrow> kvp list \<Rightarrow> bptr list \<Rightarrow> bool" where
  "took s s' c a fr \<longleftrightarrow> ls_j s' = ls_j s + int c \<and> ls_n s' = (ls_n s)\<lparr>un_vals := un_vals (ls_n s) @ a\<rparr> \<and> ls_freed s' = ls_freed s @ fr"

lemma apply_takes:
  assumes f: "feeds up (ls_j s) (m # ms)" and m: "ls_m s = Some m" "kv_k v = m_k m" and d: "settle [v] (m # takeWhile (\<lambda>x. m_k x = m_k m) ms) \<noteq> None"
    and n: "un_type (ls_n s) = TLEAF" "vals_room (un_vals (ls_n s)) + uvalsz v + msgs_room (m # ms) \<le> LEAFSPC"
  shows "\<exists>c a fr s'. c \<le> length (takeWhile (\<lambda>x. m_k x = m_k m) ms) \<and> settle [v] (m # take c ms) = Some (a, fr) \<and> leaf_apply up v s = Some s'
     \<and> took s s' (Suc c) a fr \<and> ls_i s' = ls_i s + 1 \<and> (\<not> ls_full s' \<longrightarrow> \<not> ls_full s \<and> c = length (takeWhile (\<lambda>x. m_k x = m_k m) ms))"
proof -
  let ?g = "takeWhile (\<lambda>x. m_k x = m_k m) ms"
  obtain fr0 ok1 v1 where r: "cpkvp MSGMAX v = Some v" "dropped_ptr v m = Some fr0" "uapply v m = Some (ok1, v1)" "run_msgs ok1 v1 ?g \<noteq> None"
    using d by (auto simp: cpkvp_def split: bind_splits if_splits)
  note u = uapply_facts [OF r(3) m(2) [symmetric]]
  have k: "kv_k v1 = m_k m" using u(1) m(2) by simp
  let ?s = "s\<lparr>ls_i := ls_i s + 1, ls_j := ls_j s + 1, ls_freed := ls_freed s @ fr0\<rparr>"
  have f1: "feeds up (ls_j ?s) ms" "un_type (ls_n ?s) = TLEAF" using f n(1) by simp_all
  have room: "vals_room (un_vals (ls_n ?s)) + uvalsz v1 + msgs_room ms \<le> LEAFSPC" using n(2) u(2) by simp
  obtain c ok' v' fr m' full' where c: "c \<le> length ?g" "run_msgs ok1 v1 (take c ms) = Some (ok', v', fr)"
    "copied up ok1 v1 ?s = Some (?s\<lparr>ls_j := ls_j ?s + int c, ls_m := m', ls_full := full', ls_pullsz := ls_pullsz ?s + msgs_room (take c ms), ls_freed := ls_freed ?s @ fr,
         ls_n := (ls_n ?s)\<lparr>un_vals := un_vals (ls_n ?s) @ (if ok' then [v'] else [])\<rparr>\<rparr>)"
    "\<not> full' \<longrightarrow> \<not> ls_full ?s \<and> c = length ?g"
    using copied_takes [OF f1(1) r(4) [folded k] f1(2) room] unfolding k by blast
  have "settle [v] (m # take c ms) = Some (if ok' then [v'] else [], fr0 @ fr)" using r(1-3) c(2) by (simp add: kept_def)
  moreover have "leaf_apply up v s = copied up ok1 v1 ?s" using m(1) r(1-3) by (simp add: leaf_apply_def)
  ultimately show ?thesis using c(1,3,4)
    by (intro exI [of _ c] exI [of _ "if ok' then [v'] else []"] exI [of _ "fr0 @ fr"]) (simp add: took_def)
qed

lemma insert_takes:
  assumes f: "feeds up (ls_j s) (m # ms)" and m: "ls_m s = Some m" and d: "settle [] (m # takeWhile (\<lambda>x. m_k x = m_k m) ms) \<noteq> None"
    and n: "un_type (ls_n s) = TLEAF" "vals_room (un_vals (ls_n s)) + msgs_room (m # ms) \<le> LEAFSPC"
  shows "\<exists>c a fr s'. c \<le> length (takeWhile (\<lambda>x. m_k x = m_k m) ms) \<and> settle [] (m # take c ms) = Some (a, fr) \<and> leaf_insert up s = Some s'
     \<and> took s s' (Suc c) a fr \<and> ls_i s' = ls_i s \<and> (\<not> ls_full s' \<longrightarrow> \<not> ls_full s \<and> c = length (takeWhile (\<lambda>x. m_k x = m_k m) ms))"
proof -
  let ?g = "takeWhile (\<lambda>x. m_k x = m_k m) ms" and ?ok = "m_op m \<noteq> OCLEARB \<and> m_op m \<noteq> OCLOBBER" and ?v = "msg_kvp m"
  have r: "cpkvp MSGMAX ?v = Some ?v" "run_msgs ?ok ?v ?g \<noteq> None"
    using d unfolding settle_defined by (auto simp: cpkvp_def split: if_splits)
  have k: "kv_k ?v = m_k m" "uvalsz ?v = umsgsz m - 1" by (simp_all add: msg_kvp_def uvalsz_def umsgsz_def)
  define s1 where "s1 = (if ?ok then s\<lparr>ls_j := ls_j s + 1, ls_spc := ls_spc s - uvalsz ?v, ls_pullsz := ls_pullsz s + umsgsz m\<rparr> else s\<lparr>ls_j := ls_j s + 1\<rparr>)"
  have s1: "ls_j s1 = ls_j s + 1" "ls_n s1 = ls_n s" "ls_freed s1 = ls_freed s" "ls_full s1 = ls_full s" "ls_i s1 = ls_i s" by (simp_all add: s1_def)
  have f1: "feeds up (ls_j s1) ms" "un_type (ls_n s1) = TLEAF" using f n(1) by (simp_all add: s1)
  have room: "vals_room (un_vals (ls_n s1)) + uvalsz ?v + msgs_room ms \<le> LEAFSPC" using n(2) k(2) by (simp add: s1)
  obtain c ok' v' fr m' full' where c: "c \<le> length ?g" "run_msgs ?ok ?v (take c ms) = Some (ok', v', fr)"
    "copied up ?ok ?v s1 = Some (s1\<lparr>ls_j := ls_j s1 + int c, ls_m := m', ls_full := full', ls_pullsz := ls_pullsz s1 + msgs_room (take c ms), ls_freed := ls_freed s1 @ fr,
         ls_n := (ls_n s1)\<lparr>un_vals := un_vals (ls_n s1) @ (if ok' then [v'] else [])\<rparr>\<rparr>)"
    "\<not> full' \<longrightarrow> \<not> ls_full s1 \<and> c = length ?g"
    using copied_takes [OF f1(1) r(2) [folded k(1)] f1(2) room] unfolding k(1) by blast
  have "settle [] (m # take c ms) = Some (if ok' then [v'] else [], fr)" using r(1) c(2) by (simp add: kept_def del: OCLEARB_def OCLOBBER_def)
  moreover have "leaf_insert up s = copied up ?ok ?v s1" using m r(1) by (auto simp: leaf_insert_def s1_def)
  ultimately show ?thesis using c(1,3,4)
    by (intro exI [of _ c] exI [of _ "if ok' then [v'] else []"] exI [of _ fr]) (simp add: took_def s1)
qed

section \<open>Where the loop stands\<close>

text \<open>The leaf, the messages and the size at which the right block begins.\<close>

definition full_leaf :: "unode \<Rightarrow> gmsg list \<Rightarrow> int \<Rightarrow> bool" where
  "full_leaf b MS h \<longleftrightarrow> un_type b = TLEAF \<and> 4 \<le> length (un_vals b) \<and> strict (map kv_k (un_vals b)) \<and> sorted (map m_k MS)
     \<and> (\<forall>v \<in> set (un_vals b). uvalsz v \<le> LEAFSPC div 8) \<and> vals_room (un_vals b) \<le> LEAFSPC \<and> msgs_room MS \<le> 3 * (LEAFSPC div 8)
     \<and> LEAFSPC div 2 - 1 \<le> h \<and> h \<le> LEAFSPC div 2 \<and> (\<forall>k. settle (with_key (un_vals b) k) (msgs_of MS k) \<noteq> None)"

text \<open>\<open>i\<close> entries and \<open>c\<close> messages are done.\<close>

definition split_done :: "unode \<Rightarrow> gmsg list \<Rightarrow> sstate \<Rightarrow> nat \<Rightarrow> nat \<Rightarrow> bool" where
  "split_done b MS ss i c \<longleftrightarrow>
     leaf_merge (take i (un_vals b)) (take c MS) = Some ((if ss_right ss then un_vals (ss_l ss) else []) @ un_vals (ls_n (ss_s ss)), ls_freed (ss_s ss))
     \<and> keys_below (take i (un_vals b)) (take c MS) (kv_k ` set (drop i (un_vals b)))
     \<and> (\<not> ls_full (ss_s ss) \<longrightarrow> keys_below (take i (un_vals b)) (take c MS) (m_k ` set (drop c MS)))
     \<and> un_type (ls_n (ss_s ss)) = TLEAF \<and> un_msgs (ls_n (ss_s ss)) = [] \<and> un_type (ss_l ss) = TLEAF \<and> un_msgs (ss_l ss) = []"

definition split_room :: "unode \<Rightarrow> gmsg list \<Rightarrow> int \<Rightarrow> sstate \<Rightarrow> nat \<Rightarrow> nat \<Rightarrow> bool" where
  "split_room b MS h ss i c \<longleftrightarrow>
     (let n = vals_room (un_vals (ls_n (ss_s ss)))
      in if ss_right ss then n + vals_room (drop i (un_vals b)) + msgs_room (drop c MS) \<le> LEAFSPC
         else i \<le> length (un_vals b) - 2 \<and> n \<le> vals_room (take i (un_vals b)) + msgs_room (take c MS) \<and> vals_room (take i (un_vals b)) \<le> ss_copied ss
           \<and> ss_copied ss \<le> vals_room (take i (un_vals b)) + msgs_room (take c MS) \<and> vals_room (take i (un_vals b)) \<le> h + LEAFSPC div 8)"

definition split_at :: "upath \<Rightarrow> unode \<Rightarrow> gmsg list \<Rightarrow> int \<Rightarrow> sstate \<Rightarrow> nat \<Rightarrow> nat \<Rightarrow> bool" where
  "split_at up b MS h ss i c \<longleftrightarrow> ls_i (ss_s ss) = int i \<and> i \<le> length (un_vals b) \<and> c \<le> length MS \<and> ls_j (ss_s ss) = up_lo up + int c
     \<and> feeds up (up_lo up + int c) (drop c MS) \<and> split_done b MS ss i c \<and> split_room b MS h ss i c"

lemma full_leafD:
  assumes "full_leaf b MS h"
  shows "un_type b = TLEAF" "4 \<le> length (un_vals b)" "strict (map kv_k (un_vals b))" "sorted (map m_k MS)" "vals_room (un_vals b) \<le> LEAFSPC"
    "msgs_room MS \<le> 3 * (LEAFSPC div 8)" "LEAFSPC div 2 - 1 \<le> h" "h \<le> LEAFSPC div 2" "v \<in> set (un_vals b) \<Longrightarrow> uvalsz v \<le> LEAFSPC div 8"
    "settle (with_key (un_vals b) k) (msgs_of MS k) \<noteq> None"
  using assms unfolding full_leaf_def by blast+

lemma leafspc: "LEAFSPC = 16378" "LEAFSPC div 8 = (2047 :: int)" "LEAFSPC div 2 = (8189 :: int)"
  by simp_all

lemma vals_room_split: "vals_room (take i vs) + vals_room (drop i vs) = vals_room vs"
  by (metis append_take_drop_id map_append sum_list_append)

lemma room_last2:
  assumes "full_leaf b MS h"
  shows "vals_room (drop (length (un_vals b) - 2) (un_vals b)) \<le> 2 * (LEAFSPC div 8)"
proof -
  have "vals_room (drop (length (un_vals b) - 2) (un_vals b)) \<le> int (length (drop (length (un_vals b) - 2) (un_vals b))) * (LEAFSPC div 8)"
    using full_leafD(9) [OF assms] by (intro room_le) (auto dest: in_set_dropD)
  also have "\<dots> \<le> 2 * (LEAFSPC div 8)" unfolding leafspc by simp
  finally show ?thesis .
qed

lemma room_first:
  assumes "full_leaf b MS h" and "i \<le> 2"
  shows "vals_room (take i (un_vals b)) \<le> 2 * (LEAFSPC div 8)"
proof -
  have "vals_room (take i (un_vals b)) \<le> int (length (take i (un_vals b))) * (LEAFSPC div 8)"
    using full_leafD(9) [OF assms(1)] by (intro room_le) (auto dest: in_set_takeD)
  also have "\<dots> \<le> 2 * (LEAFSPC div 8)" unfolding leafspc using assms(2) by simp
  finally show ?thesis .
qed

text \<open>The turn to the right block.\<close>

lemma split_turn_at:
  assumes F: "full_leaf b MS h" and at: "split_at up b MS h ss i c" and i: "i < length (un_vals b)"
  shows "\<exists>ss'. split_turn b h ss = Some ss' \<and> split_at up b MS h ss' i c \<and> (ss_right ss' \<or> i < length (un_vals b) - 2 \<and> (i < 2 \<or> ss_copied ss' < h))"
proof -
  note D = full_leafD(2,5,6,7) [OF F]
  have I: "ls_i (ss_s ss) = int i" using at unfolding split_at_def by blast
  have n2: "int i = un_nval b - 2 \<longleftrightarrow> i = length (un_vals b) - 2" using D(1) by linarith
  show ?thesis
  proof (cases "\<not> ss_right ss \<and> (i = length (un_vals b) - 2 \<or> 2 \<le> i \<and> ss_copied ss \<ge> h)")
    case False
    then have t: "split_turn b h ss = Some ss" using I n2 by (auto simp: split_turn_def Let_def)
    have "\<not> ss_right ss \<Longrightarrow> i \<le> length (un_vals b) - 2" using at by (simp add: split_at_def split_room_def Let_def)
    then have "ss_right ss \<or> i < length (un_vals b) - 2 \<and> (i < 2 \<or> ss_copied ss < h)" using False by linarith
    then show ?thesis using t at by blast
  next
    case True
    let ?ss = "ss\<lparr>ss_right := True, ss_l := ls_n (ss_s ss), ss_mid := Some (un_vals b ! i),
                ss_s := (ss_s ss)\<lparr>ls_n := newnode (un_type b), ls_spc := split_spc h\<rparr>\<rparr>"
    have t: "split_turn b h ss = Some ?ss" using True I n2 i by (auto simp: split_turn_def Let_def ugetval_def)
    have left: "ss_copied ss \<le> vals_room (take i (un_vals b)) + msgs_room (take c MS)" "split_done b MS ss i c"
      using at True by (simp_all add: split_at_def split_room_def Let_def)
    have "vals_room (drop i (un_vals b)) + msgs_room (drop c MS) \<le> LEAFSPC"
    proof (cases "i = length (un_vals b) - 2")
      case True
      have "vals_room (drop i (un_vals b)) \<le> 2 * (LEAFSPC div 8)" unfolding True by (rule room_last2 [OF F])
      then show ?thesis using D(3) room_take(2) [of c MS] msgs_room_nonneg [of "take c MS"] unfolding leafspc by linarith
    next
      case False
      then have "h \<le> ss_copied ss" using True by simp
      then show ?thesis using left(1) vals_room_split [of i "un_vals b"] room_take(2) [of c MS] D(2-4) unfolding leafspc by linarith
    qed
    then have "split_room b MS h ?ss i c" by (simp add: split_room_def newnode_def)
    moreover have "split_done b MS ?ss i c" using left(2) True full_leafD(1) [OF F] by (simp add: split_done_def newnode_def)
    ultimately have "split_at up b MS h ?ss i c" using at by (simp add: split_at_def)
    then show ?thesis using t by auto
  qed
qed

text \<open>The keys around entry \<open>i\<close> and message \<open>c\<close>.\<close>

lemma entry_order:
  assumes "strict (map kv_k vs)" and "i < length vs"
  shows "take (Suc i) vs = take i vs @ [vs ! i]" "drop i vs = vs ! i # drop (Suc i) vs" "\<forall>x \<in> set (drop (Suc i) vs). kv_k (vs ! i) < kv_k x"
proof -
  show "take (Suc i) vs = take i vs @ [vs ! i]" using assms(2) by (rule take_Suc_conv_app_nth)
  show d: "drop i vs = vs ! i # drop (Suc i) vs" using assms(2) by (rule Cons_nth_drop_Suc [symmetric])
  have "strict (map kv_k (take i vs @ drop i vs))" using assms(1) by simp
  then have "strict (map kv_k (vs ! i # drop (Suc i) vs))" unfolding d by (simp add: strict_def sorted_wrt_append)
  then show "\<forall>x \<in> set (drop (Suc i) vs). kv_k (vs ! i) < kv_k x" using strict_Cons_above by blast
qed

lemma message_order:
  assumes "sorted (map m_k MS)" and "drop c MS = m # rest"
  shows "sorted (map m_k (m # rest))" "take (c + Suc c1) MS = take c MS @ m # take c1 rest" "drop (c + Suc c1) MS = drop c1 rest" "c < length MS"
proof -
  have "sorted (drop c (map m_k MS))" by (rule sorted_wrt_drop [OF assms(1)])
  then show "sorted (map m_k (m # rest))" unfolding drop_map assms(2) .
  show "take (c + Suc c1) MS = take c MS @ m # take c1 rest" unfolding take_add assms(2) by simp
  have "drop (c + Suc c1) MS = drop (Suc c1) (drop c MS)" by (simp add: add.commute)
  then show "drop (c + Suc c1) MS = drop c1 rest" unfolding assms(2) by simp
  show "c < length MS" using assms(2) by (metis drop_all list.discI not_le)
qed

lemma done_group:
  assumes F: "full_leaf b MS h" and dn: "split_done b MS ss i c" and i: "i < length (un_vals b)" and ms: "drop c MS = m # rest"
    and v0: "v0 = [un_vals b ! i] \<and> kv_k (un_vals b ! i) = m_k m \<or> v0 = [] \<and> m_k m < kv_k (un_vals b ! i) \<and> \<not> ls_full (ss_s ss)"
    and c1: "c1 \<le> length (takeWhile (\<lambda>x. m_k x = m_k m) rest)" and se: "settle v0 (m # take c1 rest) = Some (a, fr)"
    and t: "took (ss_s ss) s' (Suc c1) a fr" and nf: "\<not> ls_full s' \<longrightarrow> \<not> ls_full (ss_s ss) \<and> c1 = length (takeWhile (\<lambda>x. m_k x = m_k m) rest)"
    and ss': "ss_right ss' = ss_right ss" "ss_l ss' = ss_l ss" "ss_s ss' = s'"
  shows "split_done b MS ss' (i + length v0) (c + Suc c1)" "vals_room a \<le> vals_room v0 + msgs_room (m # take c1 rest)"
proof -
  let ?vs = "un_vals b" and ?v = "un_vals b ! i" and ?g = "take c1 rest" and ?o = "(if ss_right ss then un_vals (ss_l ss) else []) @ un_vals (ls_n (ss_s ss))"
  note eo = entry_order [OF full_leafD(3) [OF F] i] and mo = message_order [OF full_leafD(4) [OF F] ms]
  have d: "leaf_merge (take i ?vs) (take c MS) = Some (?o, ls_freed (ss_s ss))" "keys_below (take i ?vs) (take c MS) (kv_k ` set (drop i ?vs))"
    "\<not> ls_full (ss_s ss) \<longrightarrow> keys_below (take i ?vs) (take c MS) (m_k ` set (drop c MS))"
    using dn unfolding split_done_def by blast+
  have gk: "\<forall>x \<in> set ?g. m_k x = m_k m" by (rule group_keys [OF c1])
  have bm: "keys_below (take i ?vs) (take c MS) {m_k m}"
    using v0 d(2,3) unfolding eo(2) ms by (auto simp: keys_below_def)
  have v0k: "v0 = [] \<or> (\<exists>v. v0 = [v] \<and> kv_k v = m_k m)" "length v0 \<le> 1" "\<forall>v \<in> set v0. kv_k v = m_k m" using v0 by auto
  have tv: "take (i + length v0) ?vs = take i ?vs @ v0" using v0 eo(1) by auto
  have mg: "leaf_merge (take (i + length v0) ?vs) (take (c + Suc c1) MS) = Some (?o @ a, ls_freed (ss_s ss) @ fr)"
    unfolding tv mo(2) by (rule merge_more_group [OF d(1) bm v0k(1) gk se])
  have dv: "\<forall>x \<in> set (drop (i + length v0) ?vs). m_k m < kv_k x \<and> x \<in> set (drop i ?vs)" using v0 eo(2,3) by (auto intro: less_trans)
  have b1: "keys_below (take (i + length v0) ?vs) (take (c + Suc c1) MS) (kv_k ` set (drop (i + length v0) ?vs))"
    unfolding tv mo(2) using d(2) dv v0k(3) gk by (auto simp: keys_below_def)
  have b2: "keys_below (take (i + length v0) ?vs) (take (c + Suc c1) MS) (m_k ` set (drop (c + Suc c1) MS))" if "\<not> ls_full s'"
  proof -
    have nf': "\<not> ls_full (ss_s ss)" "drop c1 rest = dropWhile (\<lambda>x. m_k x = m_k m) rest" using nf that by (simp_all add: dropWhile_eq_drop)
    have "\<forall>x \<in> set (drop c1 rest). m_k m < m_k x \<and> x \<in> set rest" unfolding nf'(2) using sorted_group(2) [OF mo(1)] by (auto dest: set_dropWhileD)
    then show ?thesis unfolding tv mo(2,3) using d(3) nf'(1) v0k(3) gk unfolding ms by (auto simp: keys_below_def)
  qed
  show "split_done b MS ss' (i + length v0) (c + Suc c1)"
    using mg b1 b2 dn t unfolding split_done_def ss' took_def by simp
  have "\<forall>x \<in> set (m # ?g). m_k x = m_k m" using gk by simp
  then show "vals_room a \<le> vals_room v0 + msgs_room (m # ?g)" using settle_facts [OF se v0k(2) _ v0k(3)] by blast
qed

lemma filter_rest: "filter P (take i xs) = [] \<Longrightarrow> filter P xs = filter P (drop i xs)"
  by (metis append_Nil append_take_drop_id filter_append)

text \<open>The messages for the key that comes next have an effect.\<close>

lemma group_defined:
  assumes F: "full_leaf b MS h" and dn: "split_done b MS ss i c" and i: "i < length (un_vals b)" and ms: "drop c MS = m # rest"
    and v0: "v0 = [un_vals b ! i] \<and> kv_k (un_vals b ! i) = m_k m \<or> v0 = [] \<and> m_k m < kv_k (un_vals b ! i) \<and> \<not> ls_full (ss_s ss)"
  shows "settle v0 (m # takeWhile (\<lambda>x. m_k x = m_k m) rest) \<noteq> None"
proof -
  let ?vs = "un_vals b"
  note eo = entry_order [OF full_leafD(3) [OF F] i] and mo = message_order [OF full_leafD(4) [OF F] ms]
  have "keys_below (take i ?vs) (take c MS) {m_k m}"
    using v0 dn unfolding split_done_def eo(2) ms by (auto simp: keys_below_def)
  then have "\<forall>x \<in> set (take i ?vs). kv_k x < m_k m" "\<forall>x \<in> set (take c MS). m_k x < m_k m" by (simp_all add: keys_below_def)
  then have no: "with_key (take i ?vs) (m_k m) = []" "msgs_of (take c MS) (m_k m) = []" by (fastforce simp: with_key_def msgs_of_def filter_empty_conv)+
  have "with_key ?vs (m_k m) = with_key (drop i ?vs) (m_k m)" using no(1) unfolding with_key_def by (rule filter_rest)
  also have "\<dots> = v0"
  proof -
    have "\<forall>x \<in> set (drop (Suc i) ?vs). kv_k x \<noteq> m_k m" using eo(3) v0 by auto
    then have "with_key (drop (Suc i) ?vs) (m_k m) = []" by (simp add: with_key_def filter_empty_conv)
    then show ?thesis using v0 unfolding eo(2) by (auto simp: with_key_def)
  qed
  finally have w: "with_key ?vs (m_k m) = v0" .
  have "msgs_of MS (m_k m) = msgs_of (drop c MS) (m_k m)" using no(2) unfolding msgs_of_def by (rule filter_rest)
  then have "msgs_of MS (m_k m) = msgs_of (m # rest) (m_k m)" unfolding ms .
  then have "msgs_of MS (m_k m) = m # takeWhile (\<lambda>x. m_k x = m_k m) rest" using sorted_group(1) [OF mo(1)] by simp
  then show ?thesis using full_leafD(10) [OF F, of "m_k m"] unfolding w by simp
qed

text \<open>The room that is left before entry \<open>i\<close> is handled.\<close>

lemma room_before:
  assumes F: "full_leaf b MS h" and at: "split_at up b MS h ss i c" and i: "i < length (un_vals b)"
    and turn: "ss_right ss \<or> i < length (un_vals b) - 2 \<and> (i < 2 \<or> ss_copied ss < h)"
  shows "vals_room (un_vals (ls_n (ss_s ss))) + uvalsz (un_vals b ! i) + msgs_room (drop c MS) \<le> LEAFSPC"
    "\<not> ss_right ss \<Longrightarrow> vals_room (take (Suc i) (un_vals b)) \<le> h + LEAFSPC div 8"
proof -
  note D = full_leafD(6,7,8) [OF F] and eo = entry_order [OF full_leafD(3) [OF F] i]
  have v: "uvalsz (un_vals b ! i) \<le> LEAFSPC div 8" using full_leafD(9) [OF F] i by simp
  have r: "split_room b MS h ss i c" using at by (simp add: split_at_def)
  show left: "vals_room (take (Suc i) (un_vals b)) \<le> h + LEAFSPC div 8" if "\<not> ss_right ss"
  proof (cases "i < 2")
    case True
    then have "vals_room (take (Suc i) (un_vals b)) \<le> 2 * (LEAFSPC div 8)" by (intro room_first [OF F]) simp
    then show ?thesis using D(2) unfolding leafspc by linarith
  next
    case False
    then have "vals_room (take i (un_vals b)) < h" using turn r that by (simp add: split_room_def Let_def)
    then show ?thesis using v unfolding eo(1) by simp
  qed
  show "vals_room (un_vals (ls_n (ss_s ss))) + uvalsz (un_vals b ! i) + msgs_room (drop c MS) \<le> LEAFSPC"
  proof (cases "ss_right ss")
    case True
    then show ?thesis using r vals_room_nonneg [of "drop (Suc i) (un_vals b)"] unfolding split_room_def eo(2) by simp
  next
    case False
    have "vals_room (un_vals (ls_n (ss_s ss))) + uvalsz (un_vals b ! i) \<le> vals_room (take (Suc i) (un_vals b)) + msgs_room (take c MS)"
      using r False unfolding split_room_def eo(1) by simp
    then show ?thesis using left [OF False] room_take(2) [of c MS] D unfolding leafspc by linarith
  qed
qed

text \<open>The room after a step that added \<open>a\<close> for \<open>v0\<close> and some messages.\<close>

lemma room_after:
  assumes F: "full_leaf b MS h" and at: "split_at up b MS h ss i c" and i: "i < length (un_vals b)"
    and turn: "ss_right ss \<or> i < length (un_vals b) - 2 \<and> (i < 2 \<or> ss_copied ss < h)"
    and v0: "v0 = [] \<or> v0 = [un_vals b ! i]" and a: "vals_room a \<le> vals_room v0 + msgs_room g" and g: "drop c MS = g @ drop (c + length g) MS"
    and n: "un_vals (ls_n (ss_s ss')) = un_vals (ls_n (ss_s ss)) @ a" "ss_right ss' = ss_right ss"
    and z: "ss_copied ss' = ss_copied ss + z" "vals_room v0 \<le> z" "z \<le> vals_room v0 + msgs_room g"
  shows "split_room b MS h ss' (i + length v0) (c + length g)"
proof -
  note eo = entry_order [OF full_leafD(3) [OF F] i]
  have r: "split_room b MS h ss i c" using at by (simp add: split_at_def)
  have tv: "vals_room (take (i + length v0) (un_vals b)) = vals_room (take i (un_vals b)) + vals_room v0"
    "vals_room (drop i (un_vals b)) = vals_room v0 + vals_room (drop (i + length v0) (un_vals b))"
    using v0 eo(1,2) by auto
  have tm: "msgs_room (drop c MS) = msgs_room g + msgs_room (drop (c + length g) MS)" using arg_cong [OF g, of msgs_room] by simp
  then have tm': "msgs_room (take (c + length g) MS) = msgs_room (take c MS) + msgs_room g"
    using room_take(2) [of c MS] room_take(2) [of "c + length g" MS] by linarith
  show ?thesis
  proof (cases "ss_right ss")
    case True
    then show ?thesis using r a tv(2) tm n by (simp add: split_room_def)
  next
    case False
    have "vals_room (take (i + length v0) (un_vals b)) \<le> h + LEAFSPC div 8"
      using v0 room_before(2) [OF F at i turn False] r False by (auto simp: split_room_def Let_def)
    moreover have "i + length v0 \<le> length (un_vals b) - 2" using turn False v0 by auto
    ultimately show ?thesis using r a tv(1) tm' n z False by (simp add: split_room_def Let_def)
  qed
qed

lemma split_step_at:
  assumes F: "full_leaf b MS h" and at: "split_at up b MS h ss i c" and i: "i < length (un_vals b)" and lo: "0 \<le> up_lo up"
    and turn: "ss_right ss \<or> i < length (un_vals b) - 2 \<and> (i < 2 \<or> ss_copied ss < h)"
  shows "\<exists>ss' i' c'. split_step up b ss = Some ss' \<and> split_at up b MS h ss' i' c' \<and> ss_right ss' = ss_right ss"
proof -
  let ?s = "ss_s ss" and ?v = "un_vals b ! i"
  note eo = entry_order [OF full_leafD(3) [OF F] i] and rb = room_before(1) [OF F at i turn]
  have I: "ls_i ?s = int i" "c \<le> length MS" "ls_j ?s = up_lo up + int c" "feeds up (up_lo up + int c) (drop c MS)" "split_done b MS ss i c"
    using at unfolding split_at_def by blast+
  have gv: "ugetval b (ls_i ?s) = Some ?v" using I(1) i by (simp add: ugetval_def)
  have tl: "un_type (ls_n ?s) = TLEAF" using I(5) by (simp add: split_done_def)
  have mr: "0 \<le> msgs_room (drop c MS)" by (rule msgs_room_nonneg)
  have copy: "\<exists>ss' i' c'. split_step up b ss = Some ss' \<and> split_at up b MS h ss' i' c' \<and> ss_right ss' = ss_right ss"
    if pm: "pullmsg up (ls_j ?s) (Some (kv_k ?v)) (ls_m ?s) (ls_full ?s) (ls_spc ?s) = Some (- 1, m, full)"
      and nf: "\<not> full \<longrightarrow> \<not> ls_full ?s \<and> (\<forall>x \<in> set (drop c MS). kv_k ?v < m_k x)" for m full
  proof -
    let ?s1 = "?s\<lparr>ls_m := m, ls_full := full\<rparr>"
    let ?s2 = "?s1\<lparr>ls_i := ls_i ?s + 1, ls_n := (ls_n ?s)\<lparr>un_vals := un_vals (ls_n ?s) @ [?v]\<rparr>\<rparr>"
    let ?ss = "ss\<lparr>ss_s := ?s2, ss_copied := ss_copied ss + uvalsz ?v\<rparr>"
    have "usetval (ls_n ?s) ?v = Some ((ls_n ?s)\<lparr>un_vals := un_vals (ls_n ?s) @ [?v]\<rparr>)" using usetval_leaf [OF tl] rb mr by simp
    then have st: "split_step up b ss = Some ?ss" using gv pm by (simp add: split_step_def leaf_copy_def Let_def)
    have dn: "leaf_merge (take i (un_vals b)) (take c MS) = Some ((if ss_right ss then un_vals (ss_l ss) else []) @ un_vals (ls_n ?s), ls_freed ?s)"
      "keys_below (take i (un_vals b)) (take c MS) (kv_k ` set (drop i (un_vals b)))" "\<not> ls_full ?s \<longrightarrow> keys_below (take i (un_vals b)) (take c MS) (m_k ` set (drop c MS))"
      using I(5) unfolding split_done_def by blast+
    have bv: "keys_below (take i (un_vals b)) (take c MS) {kv_k ?v}" using dn(2) unfolding eo(2) by (auto simp: keys_below_def)
    have "split_done b MS ?ss (i + 1) c"
      using merge_more_value [OF dn(1) bv] dn(2,3) bv nf eo(1,3) I(5) unfolding split_done_def eo(2) by (auto simp: keys_below_def)
    moreover have "split_room b MS h ?ss (i + length [?v]) (c + length ([] :: gmsg list))"
      by (rule room_after [OF F at i turn, where a = "[?v]" and z = "uvalsz ?v"]) simp_all
    ultimately have "split_at up b MS h ?ss (i + 1) c" using I i by (simp add: split_at_def)
    then show ?thesis using st by auto
  qed
  have neg: "ls_full ?s \<or> drop c MS = [] \<Longrightarrow> ?thesis"
  proof -
    assume a: "ls_full ?s \<or> drop c MS = []"
    have "drop c MS = [] \<Longrightarrow> up_hi up = ls_j ?s" using I(3,4) by auto
    then have "pullmsg up (ls_j ?s) (Some (kv_k ?v)) (ls_m ?s) (ls_full ?s) (ls_spc ?s) = Some (- 1, ls_m ?s, ls_full ?s)"
      using a by (auto simp: pullmsg_def)
    then show ?thesis by (rule copy) (use a in auto)
  qed
  show ?thesis
  proof (cases "ls_full ?s \<or> drop c MS = []")
    case True
    then show ?thesis by (rule neg)
  next
    case False
    then obtain m rest where ms: "drop c MS = m # rest" and nfl: "\<not> ls_full ?s" by (cases "drop c MS") auto
    note mo = message_order [OF full_leafD(4) [OF F] ms]
    have f: "0 \<le> ls_j ?s" "ls_j ?s < up_hi up" "up_msg up (ls_j ?s) = Some m" using I(3,4) unfolding ms by auto
    show ?thesis
    proof (cases "umsgsz m \<le> ls_spc ?s")
      case False
      then have "pullmsg up (ls_j ?s) (Some (kv_k ?v)) (ls_m ?s) (ls_full ?s) (ls_spc ?s) = Some (- 1, Some m, True)" using f nfl by (simp add: pullmsg_def)
      then show ?thesis by (rule copy) simp
    next
      case True
      then have pm: "pullmsg up (ls_j ?s) (Some (kv_k ?v)) (ls_m ?s) (ls_full ?s) (ls_spc ?s) = Some (keycmp (kv_k ?v) (m_k m), Some m, False)"
        using f nfl by (simp add: pullmsg_def)
      let ?s1 = "?s\<lparr>ls_m := Some m, ls_full := False\<rparr>"
      have s1: "feeds up (ls_j ?s1) (m # rest)" "ls_m ?s1 = Some m" "un_type (ls_n ?s1) = TLEAF" using I(3,4) tl unfolding ms by simp_all
      have room: "vals_room (un_vals (ls_n ?s1)) + uvalsz ?v + msgs_room (m # rest) \<le> LEAFSPC" using rb unfolding ms by simp
      have fin: ?thesis if v0: "v0 = [?v] \<and> kv_k ?v = m_k m \<or> v0 = [] \<and> m_k m < kv_k ?v \<and> \<not> ls_full ?s"
        and c1: "c1 \<le> length (takeWhile (\<lambda>x. m_k x = m_k m) rest)" "settle v0 (m # take c1 rest) = Some (a, fr)" and t: "took ?s1 s2 (Suc c1) a fr"
        and i2: "ls_i s2 = ls_i ?s + int (length v0)" and nf: "\<not> ls_full s2 \<longrightarrow> c1 = length (takeWhile (\<lambda>x. m_k x = m_k m) rest)"
        and st: "split_step up b ss = Some (ss\<lparr>ss_s := s2, ss_copied := ss_copied ss + z\<rparr>)" and z: "vals_room v0 \<le> z" "z \<le> vals_room v0 + umsgsz m" for v0 c1 a fr s2 z
      proof -
        let ?ss = "ss\<lparr>ss_s := s2, ss_copied := ss_copied ss + z\<rparr>"
        have t': "took ?s s2 (Suc c1) a fr" using t by (simp add: took_def)
        note dg = done_group [OF F I(5) i ms v0 c1 t', of ?ss]
        have dn: "split_done b MS ?ss (i + length v0) (c + Suc c1)" "vals_room a \<le> vals_room v0 + msgs_room (m # take c1 rest)"
          using dg nf nfl by simp_all
        have le: "c1 \<le> length rest" using c1(1) length_takeWhile_le le_trans by blast
        then have lg: "length (m # take c1 rest) = Suc c1" by simp
        have g: "drop c MS = (m # take c1 rest) @ drop (c + length (m # take c1 rest)) MS" unfolding lg mo(3) ms by simp
        have "split_room b MS h ?ss (i + length v0) (c + length (m # take c1 rest))"
          by (rule room_after [OF F at i turn, where a = a and z = z]) (use v0 dn(2) g t' z msgs_room_nonneg [of "take c1 rest"] in \<open>auto simp: took_def\<close>)
        moreover have "feeds up (up_lo up + int (c + Suc c1)) (drop (c + Suc c1) MS)"
        proof -
          have "feeds up (up_lo up + int c) ((m # take c1 rest) @ drop (c + Suc c1) MS)" using I(4) g unfolding lg by simp
          then show ?thesis using feeds_drop lg by (fastforce simp: algebra_simps)
        qed
        moreover have "c + Suc c1 \<le> length MS" using le arg_cong [OF ms, of length] by simp
        moreover have "i + length v0 \<le> length (un_vals b)" using v0 i by auto
        ultimately have "split_at up b MS h ?ss (i + length v0) (c + Suc c1)"
          using dn(1) I(1,3) i2 t' unfolding lg by (simp add: split_at_def took_def)
        then show ?thesis using st by auto
      qed
      consider (lt) "kv_k ?v < m_k m" | (eq) "kv_k ?v = m_k m" | (gt) "m_k m < kv_k ?v" by fastforce
      then show ?thesis
      proof cases
        case lt
        have "\<forall>x \<in> set (m # rest). m_k m \<le> m_k x" using mo(1) by simp
        then have "\<forall>x \<in> set (drop c MS). kv_k ?v < m_k x" unfolding ms using lt less_le_trans by blast
        moreover have "keycmp (kv_k ?v) (m_k m) = - 1" using lt by (simp add: keycmp_iff)
        ultimately show ?thesis using copy [of "Some m" False] pm nfl by simp
      next
        case eq
        have d: "settle [?v] (m # takeWhile (\<lambda>x. m_k x = m_k m) rest) \<noteq> None" by (rule group_defined [OF F I(5) i ms]) (simp add: eq)
        obtain c1 a fr s2 where r: "c1 \<le> length (takeWhile (\<lambda>x. m_k x = m_k m) rest)" "settle [?v] (m # take c1 rest) = Some (a, fr)"
          "leaf_apply up ?v ?s1 = Some s2" "took ?s1 s2 (Suc c1) a fr" "ls_i s2 = ls_i ?s1 + 1"
          "\<not> ls_full s2 \<longrightarrow> \<not> ls_full ?s1 \<and> c1 = length (takeWhile (\<lambda>x. m_k x = m_k m) rest)"
          using apply_takes [OF s1(1,2) eq d s1(3) room] by blast
        have "keycmp (kv_k ?v) (m_k m) = 0" using eq by (simp add: keycmp_iff)
        then have "split_step up b ss = Some (ss\<lparr>ss_s := s2, ss_copied := ss_copied ss + uvalsz ?v\<rparr>)"
          using gv pm r(3) by (simp add: split_step_def Let_def)
        then show ?thesis using fin [of "[?v]" c1 a fr s2 "uvalsz ?v"] eq r umsgsz_pos(1) [of m] by simp
      next
        case gt
        have d: "settle [] (m # takeWhile (\<lambda>x. m_k x = m_k m) rest) \<noteq> None" by (rule group_defined [OF F I(5) i ms]) (simp add: gt nfl)
        have room': "vals_room (un_vals (ls_n ?s1)) + msgs_room (m # rest) \<le> LEAFSPC" using room umsgsz_pos(2) [of ?v] by simp
        obtain c1 a fr s2 where r: "c1 \<le> length (takeWhile (\<lambda>x. m_k x = m_k m) rest)" "settle [] (m # take c1 rest) = Some (a, fr)"
          "leaf_insert up ?s1 = Some s2" "took ?s1 s2 (Suc c1) a fr" "ls_i s2 = ls_i ?s1"
          "\<not> ls_full s2 \<longrightarrow> \<not> ls_full ?s1 \<and> c1 = length (takeWhile (\<lambda>x. m_k x = m_k m) rest)"
          using insert_takes [OF s1(1,2) d s1(3) room'] by blast
        have "keycmp (kv_k ?v) (m_k m) = 1" using gt by (simp add: keycmp_iff)
        then have "split_step up b ss = Some (ss\<lparr>ss_s := s2, ss_copied := ss_copied ss + uvalsz (msg_kvp m)\<rparr>)"
          using gv pm r(3) by (simp add: split_step_def Let_def)
        moreover have "uvalsz (msg_kvp m) \<le> umsgsz m" "0 \<le> uvalsz (msg_kvp m)" by (simp_all add: msg_kvp_def uvalsz_def umsgsz_def)
        ultimately show ?thesis using fin [of "[]" c1 a fr s2 "uvalsz (msg_kvp m)"] gt nfl r by simp
      qed
    qed
  qed
qed

text \<open>
  Once the right half has begun: it began at entry \<open>i\<close>, which is the separator, with \<open>c\<close> messages taken;
  the left leaf is what these entries and messages come to, and nothing that is still to come belongs
  to one of its keys.
\<close>

definition turned :: "upath \<Rightarrow> unode \<Rightarrow> gmsg list \<Rightarrow> sstate \<Rightarrow> nat \<Rightarrow> nat \<Rightarrow> bool" where
  "turned up b MS ss i c \<longleftrightarrow> ss_right ss \<and> ss_mid ss = Some (un_vals b ! i) \<and> 2 \<le> i \<and> i \<le> length (un_vals b) - 2
     \<and> (\<exists>fr. leaf_merge (take i (un_vals b)) (take c MS) = Some (un_vals (ss_l ss), fr))
     \<and> keys_below (take i (un_vals b)) (take c MS) (kv_k ` set (drop i (un_vals b))) \<and> up_lo up + int c \<le> ls_j (ss_s ss)
     \<and> (ls_full (ss_s ss) \<and> ls_j (ss_s ss) = up_lo up + int c \<or> keys_below (take i (un_vals b)) (take c MS) (m_k ` set (drop c MS)))"

lemma split_turn_turned:
  assumes F: "full_leaf b MS h" and at: "split_at up b MS h ss i c" and t: "split_turn b h ss = Some ss'"
    and old: "ss_right ss \<Longrightarrow> \<exists>i0 c0. turned up b MS ss i0 c0" and right: "ss_right ss'"
  shows "\<exists>i0 c0. turned up b MS ss' i0 c0"
proof (cases "ss_right ss")
  case True
  then have "ss' = ss" using t by (simp add: split_turn_def Let_def)
  then show ?thesis using old True by simp
next
  case False
  note D = full_leafD(2) [OF F]
  have I: "ls_i (ss_s ss) = int i" "ls_j (ss_s ss) = up_lo up + int c" "split_done b MS ss i c" "i \<le> length (un_vals b) - 2"
    using at False unfolding split_at_def split_room_def Let_def by auto
  have c: "i = length (un_vals b) - 2 \<or> 2 \<le> i"
    using t right False I(1) D by (auto simp: split_turn_def Let_def split: if_splits)
  then have i: "2 \<le> i" "i < length (un_vals b)" using D I(4) by auto
  then have "ss' = ss\<lparr>ss_right := True, ss_l := ls_n (ss_s ss), ss_mid := Some (un_vals b ! i),
      ss_s := (ss_s ss)\<lparr>ls_n := newnode (un_type b), ls_spc := split_spc h\<rparr>\<rparr>"
    using t right False I(1) by (auto simp: split_turn_def Let_def ugetval_def split: if_splits)
  then have "turned up b MS ss' i c" using I(2-4) i False unfolding turned_def split_done_def by auto
  then show ?thesis by blast
qed

lemma split_step_turned:
  assumes st: "split_step up b ss = Some ss'" and t: "turned up b MS ss i c"
  shows "turned up b MS ss' i c"
proof -
  have same: "ss_right ss' = ss_right ss" "ss_l ss' = ss_l ss" "ss_mid ss' = ss_mid ss"
    using st unfolding split_step_def Let_def by (auto split: bind_splits if_splits)
  have j: "ls_j (ss_s ss) \<le> ls_j (ss_s ss')"
    using st unfolding split_step_def Let_def by (auto dest!: leaf_steps_j split: bind_splits if_splits)
  have full: "ls_full (ss_s ss') \<and> ls_j (ss_s ss') = ls_j (ss_s ss)" if "ls_full (ss_s ss)"
    using st that unfolding split_step_def Let_def by (auto simp: pullmsg_def leaf_copy_def split: bind_splits)
  show ?thesis using t same j full unfolding turned_def by auto
qed

lemma split_loop_at:
  assumes F: "full_leaf b MS h" and lo: "0 \<le> up_lo up"
  shows "split_at up b MS h ss i c \<Longrightarrow> (ss_right ss \<Longrightarrow> \<exists>i0 c0. turned up b MS ss i0 c0) \<Longrightarrow>
     \<exists>ss' c'. split_loop up b h ss = Some ss' \<and> split_at up b MS h ss' (length (un_vals b)) c' \<and> (ss_right ss' \<longrightarrow> (\<exists>i0 c0. turned up b MS ss' i0 c0))"
proof (induction "nat (un_nval b - ls_i (ss_s ss)) + nat (up_hi up - ls_j (ss_s ss))" arbitrary: ss i c rule: less_induct)
  case less
  have I: "ls_i (ss_s ss) = int i" "i \<le> length (un_vals b)" using less.prems(1) unfolding split_at_def by blast+
  show ?case
  proof (cases "i < length (un_vals b)")
    case False
    then have "i = length (un_vals b)" using I(2) by simp
    moreover have "split_loop up b h ss = Some ss" using I False by (simp add: split_loop.simps [of up b h ss])
    ultimately show ?thesis using less.prems by blast
  next
    case True
    obtain s1 where s1: "split_turn b h ss = Some s1" "split_at up b MS h s1 i c" "ss_right s1 \<or> i < length (un_vals b) - 2 \<and> (i < 2 \<or> ss_copied s1 < h)"
      using split_turn_at [OF F less.prems(1) True] by blast
    obtain s2 i2 c2 where s2: "split_step up b s1 = Some s2" "split_at up b MS h s2 i2 c2" "ss_right s2 = ss_right s1"
      using split_step_at [OF F s1(2) True lo s1(3)] by blast
    have t2: "\<exists>i0 c0. turned up b MS s2 i0 c0" if "ss_right s2"
      using split_turn_turned [OF F less.prems(1) s1(1) less.prems(2)] split_step_turned [OF s2(1)] s2(3) that by blast
    have e: "split_loop up b h ss = split_loop up b h s2" using I(1) True s1(1) s2(1) by (simp add: split_loop.simps [of up b h ss])
    note ij = split_turn_ij [OF s1(1)]
    have "ls_i (ss_s s1) < un_nval b" using ij I(1) True by simp
    then have "nat (un_nval b - ls_i (ss_s s2)) + nat (up_hi up - ls_j (ss_s s2)) < nat (un_nval b - ls_i (ss_s ss)) + nat (up_hi up - ls_j (ss_s ss))"
      using split_step_progress [OF s2(1)] ij by simp
    then show ?thesis unfolding e using less.hyps [OF _ s2(2) t2] by blast
  qed
qed

text \<open>
  What the halves hold. The whole is what all entries and messages come to; a key of the left part has
  nothing in the right one, so each half is what its own entries and messages come to.
\<close>

lemma halves_meet:
  assumes whole: "meets (vs1 @ vs2) (ms1 @ ms2) (lv @ rv, fr)" and left: "leaf_merge vs1 ms1 = Some (lv, fl)"
    and st: "strict (map kv_k vs1)" "sorted (map m_k ms1)" and d: "\<forall>k. settle (with_key vs1 k) (msgs_of ms1 k) \<noteq> None"
    and below: "keys_below vs1 ms1 (kv_k ` set vs2)" "ms2 = [] \<or> keys_below vs1 ms1 (m_k ` set ms2)"
  shows "map_option fst (settle (with_key vs1 k) (msgs_of ms1 k)) = Some (with_key lv k)"
    and "map_option fst (settle (with_key vs2 k) (msgs_of ms2 k)) = Some (with_key rv k)"
    and "x \<in> set lv \<Longrightarrow> kv_k x \<in> keys_of vs1 ms1"
proof -
  have m: "meets vs1 ms1 (lv, fl)" using leaf_merge_meets [OF st d] left by auto
  then show l: "map_option fst (settle (with_key vs1 k) (msgs_of ms1 k)) = Some (with_key lv k)"
    and "x \<in> set lv \<Longrightarrow> kv_k x \<in> keys_of vs1 ms1" for k by (auto simp: meets_def)
  have w: "map_option fst (settle (with_key vs1 k @ with_key vs2 k) (msgs_of ms1 k @ msgs_of ms2 k)) = Some (with_key lv k @ with_key rv k)"
    using whole by (simp add: meets_def with_key_def msgs_of_def)
  show "map_option fst (settle (with_key vs2 k) (msgs_of ms2 k)) = Some (with_key rv k)"
  proof (cases "k \<in> keys_of vs1 ms1")
    case True
    then have "k \<notin> kv_k ` set vs2" "k \<notin> m_k ` set ms2" using below unfolding keys_below_def by (auto dest: order.asym)
    note n = with_key_none(1) [OF this(1)] with_key_none(2) [OF this(2)]
    then have "with_key rv k = []" using w l [of k] by simp
    then show ?thesis using n by simp
  next
    case False
    then have n: "with_key vs1 k = []" "msgs_of ms1 k = []" using with_key_none(1) [of k vs1] with_key_none(2) [of k ms1] by auto
    then have "with_key lv k = []" using l [of k] by simp
    then show ?thesis using n w by simp
  qed
qed

section \<open>The halves\<close>

text \<open>Parts of the entries and messages.\<close>

lemma sorted_taken: "sorted (map m_k ms) \<Longrightarrow> sorted (map m_k (take c ms))"
  unfolding take_map [symmetric] by (rule sorted_wrt_take)

lemma strict_taken: "strict (map kv_k vs) \<Longrightarrow> strict (map kv_k (take i vs))"
  unfolding take_map [symmetric] strict_def by (rule sorted_wrt_take)

lemma set_drop_taken: "set (drop d (take c ms)) \<subseteq> set (drop d ms)"
  by (metis drop_take set_take_subset)

lemma settle_taken:
  assumes "\<forall>k. settle (with_key vs k) (msgs_of ms k) \<noteq> None"
  shows "settle (with_key vs k) (msgs_of (take c ms) k) \<noteq> None"
  using settle_prefix [of "with_key vs k" "msgs_of (take c ms) k" "msgs_of (drop c ms) k"] assms
  by (metis append_take_drop_id filter_append msgs_of_def)

text \<open>Below entry \<open>i\<close> a key with messages is settled as in the whole.\<close>

lemma settle_part:
  assumes "keys_below (take i vs) (take d ms) (kv_k ` set (drop i vs))" and "settle (with_key vs k) (msgs_of (take d ms) k) \<noteq> None"
  shows "settle (with_key (take i vs) k) (msgs_of (take d ms) k) \<noteq> None"
proof (cases "k \<in> keys_of (take i vs) (take d ms)")
  case True
  then have "k \<notin> kv_k ` set (drop i vs)" using assms(1) unfolding keys_below_def by blast
  then have "with_key vs k = with_key (take i vs) k"
    using with_key_none(1) [of k "drop i vs"] append_take_drop_id [of i vs] unfolding with_key_def by (metis append_Nil2 filter_append)
  then show ?thesis using assms(2) by simp
next
  case False
  then show ?thesis using with_key_none(1) [of k "take i vs"] with_key_none(2) [of k "take d ms"] by auto
qed

lemma turned_halves:
  assumes t: "turned up b ms ss i d" and j: "ls_j (ss_s ss) = up_lo up + int c" and m: "meets (un_vals b) (take c ms) (un_vals (ss_l ss) @ rv, fr)"
    and st: "strict (map kv_k (un_vals b))" "sorted (map m_k ms)" and pre: "\<forall>k. settle (with_key (un_vals b) k) (msgs_of ms k) \<noteq> None"
  shows "ss_mid ss = Some (un_vals b ! i) \<and> 2 \<le> i \<and> i \<le> length (un_vals b) - 2 \<and> d \<le> c
    \<and> (\<forall>k. map_option fst (settle (with_key (take i (un_vals b)) k) (msgs_of (take d ms) k)) = Some (with_key (un_vals (ss_l ss)) k))
    \<and> (\<forall>v \<in> set (un_vals (ss_l ss)). kv_k v < kv_k (un_vals b ! i))
    \<and> (\<forall>k. map_option fst (settle (with_key (drop i (un_vals b)) k) (msgs_of (drop d (take c ms)) k)) = Some (with_key rv k))"
proof -
  let ?vs = "un_vals b"
  obtain fl where t: "ss_mid ss = Some (?vs ! i)" "2 \<le> i" "i \<le> length ?vs - 2" "leaf_merge (take i ?vs) (take d ms) = Some (un_vals (ss_l ss), fl)"
    "keys_below (take i ?vs) (take d ms) (kv_k ` set (drop i ?vs))" "d \<le> c" "c = d \<or> keys_below (take i ?vs) (take d ms) (m_k ` set (drop d ms))"
    using t j unfolding turned_def by auto
  have "take d (take c ms) = take d ms" using t(6) by (simp add: min_absorb1)
  then have tc: "take d ms @ drop d (take c ms) = take c ms" by (metis append_take_drop_id)
  have m': "meets (take i ?vs @ drop i ?vs) (take d ms @ drop d (take c ms)) (un_vals (ss_l ss) @ rv, fr)"
    unfolding append_take_drop_id tc by (rule m)
  have b2: "drop d (take c ms) = [] \<or> keys_below (take i ?vs) (take d ms) (m_k ` set (drop d (take c ms)))"
    using t(7) set_drop_taken [of d c ms] unfolding keys_below_def by auto
  have dl: "\<forall>k. settle (with_key (take i ?vs) k) (msgs_of (take d ms) k) \<noteq> None"
    using settle_part [OF t(5) settle_taken [OF pre]] by blast
  note h = halves_meet [OF m' t(4) strict_taken [OF st(1)] sorted_taken [OF st(2)] dl t(5) b2]
  have "i < length ?vs" using t(2,3) by linarith
  then have "?vs ! i \<in> set (drop i ?vs)" by (metis Cons_nth_drop_Suc list.set_intros(1))
  then have "\<forall>v \<in> set (un_vals (ss_l ss)). kv_k v < kv_k (?vs ! i)" using h(3) t(5) unfolding keys_below_def by blast
  then show ?thesis using t(1-3,6) h(1,2) by blast
qed

lemma leaf_node: "un_type n = TLEAF \<Longrightarrow> un_msgs n = [] \<Longrightarrow> setb bp n = setb bp ((newnode TLEAF)\<lparr>un_vals := un_vals n\<rparr>)"
  by (cases n) (simp add: setb_def newnode_def)

lemma splitleaf_splits:
  assumes h: "h = min ((2 * un_nval b + un_valsz b + up_sz up) div 2) (LEAFSPC div 2)"
    and F: "full_leaf b ms h" and p: "up_b p = Some b" "un_type b = TLEAF" "4 \<le> length (un_vals b)" and f: "feeds up (up_lo up) ms" "0 \<le> up_lo up"
  shows "\<exists>ss c. splitleaf bpl bpr up p = Some (p\<lparr>up_pullsz := ls_pullsz (ss_s ss), up_npull := int c, up_op := POsplit,
      up_nl := setb bpl (ss_l ss), up_nr := setb bpr (ls_n (ss_s ss))\<rparr>, ss_mid ss, ls_freed (ss_s ss))
    \<and> split_at up b ms h ss (length (un_vals b)) c \<and> ss_right ss \<and> (\<exists>i d. turned up b ms ss i d)"
proof -
  let ?s = "\<lparr>ls_i = 0, ls_j = up_lo up, ls_full = False, ls_spc = split_spc h, ls_pullsz = up_pullsz p, ls_m = None, ls_n = newnode (un_type b), ls_freed = []\<rparr>"
  let ?ss = "\<lparr>ss_s = ?s, ss_right = False, ss_l = newnode (un_type b), ss_copied = 0, ss_mid = None\<rparr>"
  have "0 \<le> h" using full_leafD(7) [OF F] unfolding leafspc by linarith
  then have "split_at up b ms h ?ss 0 0"
    using p(2) f(1) by (simp add: split_at_def split_done_def split_room_def keys_below_def newnode_def del: LEAFSPC_def) (simp add: leafspc)
  then obtain ss c where ss: "split_loop up b h ?ss = Some ss" "split_at up b ms h ss (length (un_vals b)) c" "ss_right ss \<longrightarrow> (\<exists>i d. turned up b ms ss i d)"
    using split_loop_at [OF F f(2)] by fastforce
  have right: "ss_right ss" using ss(2) p(3) unfolding split_at_def split_room_def Let_def by (auto split: if_splits)
  have "ls_j (ss_s ss) = up_lo up + int c" using ss(2) unfolding split_at_def by blast
  then have "splitleaf bpl bpr up p = Some (p\<lparr>up_pullsz := ls_pullsz (ss_s ss), up_npull := int c, up_op := POsplit,
      up_nl := setb bpl (ss_l ss), up_nr := setb bpr (ls_n (ss_s ss))\<rparr>, ss_mid ss, ls_freed (ss_s ss))"
    using p(1,3) ss(1) right unfolding splitleaf_def Let_def h by simp
  then show ?thesis using ss right by blast
qed

text \<open>
  C39: \<^verbatim>\<open>splitleaf\<close> on a leaf that is full for the messages of the segment, as \<^verbatim>\<open>filledleaf\<close> says, returns. It takes the
  first \<open>c\<close> messages. The right leaf begins at entry \<open>i\<close> of the old one, with at least two old entries on
  either side, and this entry is what it hands out as the separator \<^verbatim>\<open>mid\<close>. The left leaf holds for every
  key what the first \<open>i\<close> entries and the \<open>d\<close> messages taken until then come to, all its keys below
  \<^verbatim>\<open>mid\<close>; the right one what the other entries and the messages taken after them come to (a message
  below \<^verbatim>\<open>mid\<close> that comes first there goes right as well; \<^verbatim>\<open>flush\<close> does not use \<^verbatim>\<open>mid\<close>). Both are sorted, all keys
  of the left below those of the right, and the data blocks given up are those that the
  messages taken give up.
\<close>

theorem splitleaf_applies_messages:
  assumes "up_b p = Some b" and "un_type b = TLEAF" and "4 \<le> length (un_vals b)" and "strict (map kv_k (un_vals b))"
    and "\<forall>v \<in> set (un_vals b). uvalsz v \<le> LEAFSPC div 8" and "vals_room (un_vals b) \<le> LEAFSPC"
    and "feeds up (up_lo up) ms" and "0 \<le> up_lo up" and "sorted (map m_k ms)" and "up_sz up = msgs_room ms" and "msgs_room ms \<le> 3 * (LEAFSPC div 8)"
    and "filledleaf b (up_sz up) = Some True" and "\<forall>k. settle (with_key (un_vals b) k) (msgs_of ms k) \<noteq> None"
  shows "\<exists>p' fr c i d lv rv. splitleaf bpl bpr up p = Some (p', Some (un_vals b ! i), fr) \<and> 2 \<le> i \<and> i \<le> length (un_vals b) - 2
     \<and> d \<le> c \<and> c \<le> length ms \<and> up_npull p' = int c \<and> up_op p' = POsplit
     \<and> up_nl p' = setb bpl ((newnode TLEAF)\<lparr>un_vals := lv\<rparr>) \<and> up_nr p' = setb bpr ((newnode TLEAF)\<lparr>un_vals := rv\<rparr>) \<and> strict (map kv_k (lv @ rv))
     \<and> (\<forall>k. map_option fst (settle (with_key (take i (un_vals b)) k) (msgs_of (take d ms) k)) = Some (with_key lv k))
     \<and> (\<forall>v \<in> set lv. kv_k v < kv_k (un_vals b ! i))
     \<and> (\<forall>k. map_option fst (settle (with_key (drop i (un_vals b)) k) (msgs_of (drop d (take c ms)) k)) = Some (with_key rv k))
     \<and> (\<forall>k. map_option fst (settle (with_key (un_vals b) k) (msgs_of (take c ms) k)) = Some (with_key (lv @ rv) k))
     \<and> mset fr = (\<Sum>k \<in> m_k ` set (take c ms). freed_at (un_vals b) (take c ms) k)"
proof -
  let ?h = "min ((2 * un_nval b + un_valsz b + up_sz up) div 2) (LEAFSPC div 2)"
  have "LEAFSPC < vals_room (un_vals b) + 2 + up_sz up" using assms(2,12) un_room [of b] by (simp add: filledleaf_def)
  then have "LEAFSPC div 2 - 1 \<le> ?h" unfolding leafspc un_room by linarith
  then have F: "full_leaf b ms ?h" using assms by (simp add: full_leaf_def del: LEAFSPC_def)
  obtain ss c where ss: "splitleaf bpl bpr up p = Some (p\<lparr>up_pullsz := ls_pullsz (ss_s ss), up_npull := int c, up_op := POsplit,
      up_nl := setb bpl (ss_l ss), up_nr := setb bpr (ls_n (ss_s ss))\<rparr>, ss_mid ss, ls_freed (ss_s ss))"
    "split_at up b ms ?h ss (length (un_vals b)) c" "ss_right ss" "\<exists>i d. turned up b ms ss i d"
    using splitleaf_splits [OF refl F assms(1,2,3,7,8)] by blast
  have e: "c \<le> length ms" "ls_j (ss_s ss) = up_lo up + int c" "leaf_merge (un_vals b) (take c ms) = Some (un_vals (ss_l ss) @ un_vals (ls_n (ss_s ss)), ls_freed (ss_s ss))"
    "un_type (ls_n (ss_s ss)) = TLEAF" "un_msgs (ls_n (ss_s ss)) = []" "un_type (ss_l ss) = TLEAF" "un_msgs (ss_l ss) = []"
    using ss(2,3) unfolding split_at_def split_done_def by simp_all
  note pre = settle_taken [OF assms(13)]
  have m: "meets (un_vals b) (take c ms) (un_vals (ss_l ss) @ un_vals (ls_n (ss_s ss)), ls_freed (ss_s ss))"
    using leaf_merge_meets [OF assms(4) sorted_taken [OF assms(9)], of c] pre [of _ c] e(3) by (metis (no_types, lifting) option.inject)
  obtain i d where t: "turned up b ms ss i d" using ss(4) by blast
  note h = turned_halves [OF t e(2) m assms(4,9,13)]
  show ?thesis
    using ss(1) e(1) leaf_node [OF e(6,7)] leaf_node [OF e(4,5)] h m
    by (intro exI [of _ "p\<lparr>up_pullsz := ls_pullsz (ss_s ss), up_npull := int c, up_op := POsplit, up_nl := setb bpl (ss_l ss), up_nr := setb bpr (ls_n (ss_s ss))\<rparr>"]
        exI [of _ "ls_freed (ss_s ss)"] exI [of _ c] exI [of _ i] exI [of _ d] exI [of _ "un_vals (ss_l ss)"] exI [of _ "un_vals (ls_n (ss_s ss))"])
      (simp add: meets_def)
qed

text \<open>A leaf with the keys 2, 4, \<dots>, 42 and large values, and a message that inserts 5.\<close>

definition sample_leafkv :: "byte \<Rightarrow> kvp" where
  "sample_leafkv k = \<lparr>kv_k = [k], kv_v = replicate 760 0\<rparr>"

definition sample_bigleaf :: unode where
  "sample_bigleaf = (newnode TLEAF)\<lparr>un_vals := map sample_leafkv [2, 4, 6, 8, 10, 12, 14, 16, 18, 20, 22, 24, 26, 28, 30, 32, 34, 36, 38, 40, 42]\<rparr>"

definition sample_bigmsg :: gmsg where
  "sample_bigmsg = \<lparr>m_op = OINSERT, m_k = [5], m_v = replicate 300 1\<rparr>"

definition sample_leafpath :: upath where
  "sample_leafpath = sample_upath\<lparr>up_ins := Some [sample_bigmsg], up_b := Some sample_bigleaf, up_lo := 0, up_hi := 1, up_sz := 308\<rparr>"

lemma sample_leafkv_facts [simp]: "kv_k (sample_leafkv k) = [k]" "uvalsz (sample_leafkv k) = 767"
  by (simp_all add: sample_leafkv_def uvalsz_def)

theorem splitleaf_applies_messages_witness:
  "\<exists>p' mid fr lv rv. splitleaf zero_bptr zero_bptr sample_leafpath sample_leafpath = Some (p', mid, fr) \<and> up_npull p' \<le> 1
     \<and> up_nl p' = setb zero_bptr ((newnode TLEAF)\<lparr>un_vals := lv\<rparr>) \<and> up_nr p' = setb zero_bptr ((newnode TLEAF)\<lparr>un_vals := rv\<rparr>)
     \<and> strict (map kv_k (lv @ rv)) \<and> with_key (lv @ rv) [2] = [sample_leafkv 2] \<and> with_key (lv @ rv) [42] = [sample_leafkv 42] \<and> with_key (lv @ rv) [3] = []"
proof -
  let ?p = sample_leafpath and ?b = sample_bigleaf and ?ms = "[sample_bigmsg]"
  have 1: "up_b ?p = Some ?b" "un_type ?b = TLEAF" "4 \<le> length (un_vals ?b)" by (simp_all add: sample_leafpath_def sample_bigleaf_def newnode_def)
  have 2: "strict (map kv_k (un_vals ?b))" by (simp add: sample_bigleaf_def strict_def)
  have 3: "\<forall>v \<in> set (un_vals ?b). uvalsz v \<le> LEAFSPC div 8" "vals_room (un_vals ?b) \<le> LEAFSPC" by (simp_all add: sample_bigleaf_def)
  have 4: "feeds ?p (up_lo ?p) ?ms" "0 \<le> up_lo ?p" "sorted (map m_k ?ms)" "up_sz ?p = msgs_room ?ms" "msgs_room ?ms \<le> 3 * (LEAFSPC div 8)"
    by (simp_all add: sample_leafpath_def sample_upath_def sample_bigmsg_def up_msg_def umsgsz_def)
  have 5: "filledleaf ?b (up_sz ?p) = Some True"
    using un_room [of ?b] by (simp add: filledleaf_def sample_leafpath_def sample_bigleaf_def newnode_def)
  have 6: "\<forall>k. settle (with_key (un_vals ?b) k) (msgs_of ?ms k) \<noteq> None"
  proof
    fix k
    show "settle (with_key (un_vals ?b) k) (msgs_of ?ms k) \<noteq> None"
    proof (cases "k = [5]")
      case True
      have "with_key (un_vals ?b) [5] = []" by (simp add: with_key_def sample_bigleaf_def)
      moreover have "msgs_of ?ms [5] = ?ms" by (simp add: msgs_of_def sample_bigmsg_def)
      ultimately show ?thesis unfolding True by (simp add: sample_bigmsg_def msg_kvp_def cpkvp_def kept_def)
    next
      case False
      then have "msgs_of ?ms k = []" by (simp add: msgs_of_def sample_bigmsg_def)
      then show ?thesis by simp
    qed
  qed
  obtain p' mid fr c lv rv where r: "splitleaf zero_bptr zero_bptr ?p ?p = Some (p', mid, fr)" "c \<le> length ?ms" "up_npull p' = int c"
    "up_nl p' = setb zero_bptr ((newnode TLEAF)\<lparr>un_vals := lv\<rparr>)" "up_nr p' = setb zero_bptr ((newnode TLEAF)\<lparr>un_vals := rv\<rparr>)" "strict (map kv_k (lv @ rv))"
    "\<And>k. map_option fst (settle (with_key (un_vals ?b) k) (msgs_of (take c ?ms) k)) = Some (with_key (lv @ rv) k)"
    using splitleaf_applies_messages [OF 1 2 3 4 5 6, of zero_bptr zero_bptr] by blast
  have "msgs_of (take c ?ms) k = []" if "k \<noteq> [5]" for k using that by (cases c) (simp_all add: msgs_of_def sample_bigmsg_def)
  then have "with_key (lv @ rv) k = with_key (un_vals ?b) k" if "k \<noteq> [5]" for k using r(7) [of k] that by simp
  then have "with_key (lv @ rv) [2] = [sample_leafkv 2]" "with_key (lv @ rv) [42] = [sample_leafkv 42]" "with_key (lv @ rv) [3] = []"
    by (simp_all add: with_key_def sample_bigleaf_def)
  then show ?thesis using r(1-6) by auto
qed

end
