(* ===== verification/Epochs.thy ===== *)
theory Epochs
  imports Prelude "HOL-Library.Multiset"
begin

text \<open>
  Deferred reclamation of the upstream server (\<^verbatim>\<open>limbo\<close>, \<^verbatim>\<open>epochstart\<close>, \<^verbatim>\<open>epochend\<close>, \<^verbatim>\<open>epochwait\<close> and
  \<^verbatim>\<open>epochclean\<close> of \<^verbatim>\<open>src/src/blk.c\<close>) as steps of processes over shared memory. Every atomic access of the code is
  one step, so that all interleavings are covered; what a process has read and where it stands is its
  program counter. The fields of the state after \<open>e_nlimbo\<close> are not in the code: they say what
  readers may hold and count the advances of the epoch.
\<close>

section \<open>State\<close>

definition EACTIVE :: "32 word" where [simp]: "EACTIVE = 2 ^ 30"

datatype limbo_op = DFblk | DFbp | DFmnt | DFtree

type_synonym lim = "limbo_op \<times> nat"

text \<open>
  \<open>Lim\<dots>\<close> is \<^verbatim>\<open>limbo\<close>, entered inside of an epoch or outside (the flag), \<open>Cl\<dots>\<close> is \<^verbatim>\<open>epochclean\<close> with the values read
  so far, \<open>ClAgain\<close> and \<open>ClWait\<close> the calls of \<^verbatim>\<open>epochwait\<close> in it: in the loop at worker \<open>i\<close> or the last one.
\<close>

datatype epc =
    Outside
  | Starting "32 word"
  | Inside
  | Ending "32 word"
  | LimGet bool lim
  | LimTop bool lim "32 word"
  | LimCas bool lim "32 word" "lim option"
  | LimInc bool
  | ClGet int
  | ClScan int "32 word" nat
  | ClAgain int "32 word" "nat option"
  | ClWait int "32 word" "nat option" "32 word" nat
  | ClTake "32 word"
  | ClSet "32 word" "lim list"
  | ClFree "lim list"
  | ClDec "lim list"

record epst =
  e_epoch :: "32 word"
  e_lepoch :: "nat \<Rightarrow> 32 word"
  e_limbo :: "nat \<Rightarrow> lim list"
  e_nlimbo :: int
  e_pc :: "nat \<Rightarrow> epc"
  e_reach :: "nat set"
  e_used :: "nat set"
  e_held :: "nat \<Rightarrow> nat set"
  e_freed :: "nat set"
  e_pushed :: "nat set"
  e_gone :: "nat list"
  e_qfree :: "nat list"
  e_adv :: nat
  e_at :: "nat \<Rightarrow> nat"
  e_lab :: "nat \<Rightarrow> nat"

text \<open>What a process does next where the code leaves it open; \<open>Go\<close> is the next atomic access.\<close>

datatype ech = Enter | Look nat | Link nat | Unlink nat | Release limbo_op nat | Leave | Clean | Go

section \<open>Steps\<close>

definition lagging :: "32 word \<Rightarrow> 32 word \<Rightarrow> bool" where
  "lagging e ge \<longleftrightarrow> e AND EACTIVE \<noteq> 0 \<and> e \<noteq> ge OR EACTIVE"

definition goto :: "nat \<Rightarrow> epc \<Rightarrow> epst \<Rightarrow> epst" where
  "goto t pc s = s\<lparr>e_pc := (e_pc s)(t := pc)\<rparr>"

definition epochstart :: "nat \<Rightarrow> 32 word \<Rightarrow> epst \<Rightarrow> epst" where
  "epochstart t ge s = goto t Inside (s\<lparr>e_lepoch := (e_lepoch s)(t := ge OR EACTIVE), e_at := (e_at s)(t := e_adv s)\<rparr>)"

definition epochend :: "nat \<Rightarrow> 32 word \<Rightarrow> epst \<Rightarrow> epst" where
  "epochend t le s = goto t Outside (s\<lparr>e_lepoch := (e_lepoch s)(t := le AND NOT EACTIVE)\<rparr>)"

text \<open>The compare-and-swap of the head of the list, and the return to where \<^verbatim>\<open>limbo\<close> was called.\<close>

definition limbo_step :: "nat \<Rightarrow> epst \<Rightarrow> epst option" where
  "limbo_step t s =
     (case e_pc s t of
        LimGet b l \<Rightarrow> Some (goto t (LimTop b l (e_epoch s)) (s\<lparr>e_lab := (e_lab s)(snd l := e_adv s)\<rparr>))
      | LimTop b l ge \<Rightarrow> Some (goto t (LimCas b l ge (case e_limbo s (unat ge) of [] \<Rightarrow> None | p # _ \<Rightarrow> Some p)) s)
      | LimCas b l ge p \<Rightarrow>
          if (case e_limbo s (unat ge) of [] \<Rightarrow> None | p # _ \<Rightarrow> Some p) = p
          then Some (goto t (LimInc b) (s\<lparr>e_limbo := (e_limbo s)(unat ge := l # e_limbo s (unat ge)), e_pushed := insert (snd l) (e_pushed s)\<rparr>))
          else Some (goto t (LimGet b l) s)
      | LimInc b \<Rightarrow> Some (goto t (if b then Inside else Outside) (s\<lparr>e_nlimbo := e_nlimbo s + 1\<rparr>))
      | _ \<Rightarrow> None)"

definition epochwait_step :: "nat \<Rightarrow> nat \<Rightarrow> epst \<Rightarrow> epst option" where
  "epochwait_step nw t s =
     (case e_pc s t of
        ClAgain c ge r \<Rightarrow> Some (goto t (ClWait c ge r (e_epoch s) 0) s)
      | ClWait c ge r g j \<Rightarrow>
          if j < nw then Some (goto t (if lagging (e_lepoch s j) g then ClAgain c ge r else ClWait c ge r g (j + 1)) s)
          else Some (goto t (case r of Some i \<Rightarrow> ClScan c ge (i + 1) | None \<Rightarrow> ClTake ge) s)
      | _ \<Rightarrow> None)"

definition reclaim :: "lim \<Rightarrow> epst \<Rightarrow> epst" where
  "reclaim l s = s\<lparr>e_gone := snd l # e_gone s, e_qfree := (if fst l = DFblk \<or> fst l = DFbp then e_qfree s @ [snd l] else e_qfree s)\<rparr>"

definition epochclean_step :: "nat \<Rightarrow> int \<Rightarrow> nat \<Rightarrow> epst \<Rightarrow> epst option" where
  "epochclean_step nw cmax t s =
     (case e_pc s t of
        ClGet c \<Rightarrow> Some (goto t (ClScan c (e_epoch s) 0) s)
      | ClScan c ge i \<Rightarrow>
          if i < nw then
            Some (goto t (if lagging (e_lepoch s i) ge then if c < cmax div 4 then Outside else ClAgain c ge (Some i) else ClScan c ge (i + 1)) s)
          else Some (goto t (ClAgain c ge None) s)
      | ClTake ge \<Rightarrow>
          (let k = unat ((ge + 1) mod 3) in Some (goto t (ClSet ge (e_limbo s k)) (s\<lparr>e_limbo := (e_limbo s)(k := [])\<rparr>)))
      | ClSet ge ps \<Rightarrow> Some (goto t (ClFree ps) (s\<lparr>e_epoch := (ge + 1) mod 3, e_adv := e_adv s + 1\<rparr>))
      | ClFree [] \<Rightarrow> Some (goto t Outside s)
      | ClFree (p # ps) \<Rightarrow> Some (goto t (ClDec ps) (reclaim p s))
      | ClDec ps \<Rightarrow> Some (goto t (ClFree ps) (s\<lparr>e_nlimbo := e_nlimbo s - 1\<rparr>))
      | _ \<Rightarrow> None)"

text \<open>
  What the callers do. Inside of an epoch a process may find what is reachable, link new blocks and unlink; a
  block is released once. \<open>early\<close> allows what \<^verbatim>\<open>updateleaf\<close> does with data blocks: they are released before
  the new root that no longer leads to them is published. That a block is released once, and without \<open>early\<close>
  only when it is no longer reachable, is assumed of the callers; \<^verbatim>\<open>limbo\<close> does not check it. \<open>cl\<close> says which
  processes clean.
\<close>

definition call_step :: "nat \<Rightarrow> (nat \<Rightarrow> bool) \<Rightarrow> bool \<Rightarrow> nat \<Rightarrow> ech \<Rightarrow> epst \<Rightarrow> epst option" where
  "call_step nw cl early t ch s =
     (case ch of
        Enter \<Rightarrow> if e_pc s t = Outside \<and> t < nw then Some (goto t (Starting (e_epoch s)) s) else None
      | Look i \<Rightarrow> if e_pc s t = Inside \<and> i \<in> e_reach s then Some (s\<lparr>e_held := (e_held s)(t := insert i (e_held s t))\<rparr>) else None
      | Link i \<Rightarrow> if e_pc s t = Inside \<and> i \<notin> e_used s then Some (s\<lparr>e_reach := insert i (e_reach s), e_used := insert i (e_used s)\<rparr>) else None
      | Unlink i \<Rightarrow> if e_pc s t = Inside then Some (s\<lparr>e_reach := e_reach s - {i}\<rparr>) else None
      | Release x i \<Rightarrow>
          if (e_pc s t = Inside \<or> e_pc s t = Outside) \<and> t < nw \<and> i \<in> e_used s \<and> i \<notin> e_freed s \<and> (early \<or> i \<notin> e_reach s)
          then Some (goto t (LimGet (e_pc s t = Inside) (x, i)) (s\<lparr>e_freed := insert i (e_freed s), e_lab := (e_lab s)(i := e_adv s)\<rparr>))
          else None
      | Leave \<Rightarrow> if e_pc s t = Inside then Some (goto t (Ending (e_lepoch s t)) (s\<lparr>e_held := (e_held s)(t := {})\<rparr>)) else None
      | Clean \<Rightarrow> if e_pc s t = Outside \<and> t < nw \<and> cl t then Some (goto t (ClGet (e_nlimbo s)) s) else None
      | Go \<Rightarrow> None)"

definition epstep :: "nat \<Rightarrow> int \<Rightarrow> (nat \<Rightarrow> bool) \<Rightarrow> bool \<Rightarrow> nat \<Rightarrow> ech \<Rightarrow> epst \<Rightarrow> epst option" where
  "epstep nw cmax cl early t ch s =
     (if ch = Go then
        (case e_pc s t of
           Starting ge \<Rightarrow> Some (epochstart t ge s)
         | Ending le \<Rightarrow> Some (epochend t le s)
         | LimGet _ _ \<Rightarrow> limbo_step t s | LimTop _ _ _ \<Rightarrow> limbo_step t s | LimCas _ _ _ _ \<Rightarrow> limbo_step t s | LimInc _ \<Rightarrow> limbo_step t s
         | ClAgain _ _ _ \<Rightarrow> epochwait_step nw t s | ClWait _ _ _ _ _ \<Rightarrow> epochwait_step nw t s
         | _ \<Rightarrow> epochclean_step nw cmax t s)
      else call_step nw cl early t ch s)"

definition epinit :: "nat set \<Rightarrow> epst" where
  "epinit blocks = \<lparr>e_epoch = 0, e_lepoch = (\<lambda>_. 0), e_limbo = (\<lambda>_. []), e_nlimbo = 0, e_pc = (\<lambda>_. Outside),
     e_reach = blocks, e_used = blocks, e_held = (\<lambda>_. {}), e_freed = {}, e_pushed = {}, e_gone = [], e_qfree = [],
     e_adv = 0, e_at = (\<lambda>_. 0), e_lab = (\<lambda>_. 0)\<rparr>"

inductive ereach :: "nat \<Rightarrow> int \<Rightarrow> (nat \<Rightarrow> bool) \<Rightarrow> bool \<Rightarrow> nat set \<Rightarrow> epst \<Rightarrow> bool"
  for nw cmax cl early blocks where
    ereach_init: "ereach nw cmax cl early blocks (epinit blocks)"
  | ereach_step: "ereach nw cmax cl early blocks s \<Longrightarrow> epstep nw cmax cl early t ch s = Some s' \<Longrightarrow> ereach nw cmax cl early blocks s'"

fun eprun :: "nat \<Rightarrow> int \<Rightarrow> (nat \<Rightarrow> bool) \<Rightarrow> bool \<Rightarrow> (nat \<times> ech) list \<Rightarrow> epst \<Rightarrow> epst option" where
  "eprun nw cmax cl early [] s = Some s"
| "eprun nw cmax cl early ((t, ch) # xs) s = Option.bind (epstep nw cmax cl early t ch s) (eprun nw cmax cl early xs)"

lemma eprun_ereach: "ereach nw cmax cl early blocks s \<Longrightarrow> eprun nw cmax cl early xs s = Some s' \<Longrightarrow> ereach nw cmax cl early blocks s'"
proof (induction xs arbitrary: s)
  case (Cons x xs)
  then show ?case by (cases x) (auto split: bind_splits dest: ereach_step)
qed simp

section \<open>Epoch numbers\<close>

definition tag :: "nat \<Rightarrow> 32 word" where
  "tag m = of_nat (m mod 3) OR EACTIVE"

lemma mod3: "m mod 3 = 0 \<or> m mod 3 = 1 \<or> m mod 3 = (2::nat)"
  by linarith

lemma tag_eq: "of_nat (m mod 3) OR EACTIVE = tag k \<longleftrightarrow> m mod 3 = k mod 3"
  using mod3 [of m] mod3 [of k] by (auto simp: tag_def)

lemma tag_inj: "tag m = tag k \<longleftrightarrow> m mod 3 = k mod 3"
  using tag_eq [of m k] by (simp add: tag_def)

lemma lagging_tag: "lagging (tag m) (of_nat (k mod 3)) \<longleftrightarrow> m mod 3 \<noteq> k mod 3"
  using mod3 [of m] mod3 [of k] by (auto simp: lagging_def tag_def)

lemma epoch_unat: "unat (of_nat (m mod 3) :: 32 word) = m mod 3"
  using mod3 [of m] by auto

lemma epoch_next: "((of_nat (m mod 3) :: 32 word) + 1) mod 3 = of_nat (Suc m mod 3)"
  using mod3 [of m] by (auto simp: mod_Suc)

section \<open>The invariant with one cleaning process\<close>

fun active :: "epc \<Rightarrow> bool" where
  "active Inside = True"
| "active (Ending _) = True"
| "active (LimGet b _) = b"
| "active (LimTop b _ _) = b"
| "active (LimCas b _ _ _) = b"
| "active (LimInc b) = b"
| "active _ = False"

fun releasing :: "epc \<Rightarrow> nat option" where
  "releasing (LimGet _ l) = Some (snd l)"
| "releasing (LimTop _ l _) = Some (snd l)"
| "releasing (LimCas _ l _ _) = Some (snd l)"
| "releasing _ = None"

fun cleaning :: "epc \<Rightarrow> bool" where
  "cleaning (ClGet _) = True"
| "cleaning (ClScan _ _ _) = True"
| "cleaning (ClAgain _ _ _) = True"
| "cleaning (ClWait _ _ _ _ _) = True"
| "cleaning (ClTake _) = True"
| "cleaning (ClSet _ _) = True"
| "cleaning (ClFree _) = True"
| "cleaning (ClDec _) = True"
| "cleaning _ = False"

text \<open>The first \<open>j\<close> workers that entered before the last advance have the current epoch.\<close>

definition settled :: "epst \<Rightarrow> nat \<Rightarrow> bool" where
  "settled s j \<longleftrightarrow> (\<forall>u < j. active (e_pc s u) \<and> e_at s u < e_adv s \<longrightarrow> e_lepoch s u = tag (e_adv s))"

fun pc_ok :: "nat \<Rightarrow> epst \<Rightarrow> nat \<Rightarrow> epc \<Rightarrow> bool" where
  "pc_ok nw s t (Starting e) \<longleftrightarrow> t < nw \<and> (\<exists>k. e = of_nat (k mod 3))"
| "pc_ok nw s t (Ending e) \<longleftrightarrow> e = e_lepoch s t \<and> e_held s t = {}"
| "pc_ok nw s t (LimGet b l) \<longleftrightarrow> snd l \<in> e_freed s - e_pushed s"
| "pc_ok nw s t (LimTop b l e) \<longleftrightarrow> snd l \<in> e_freed s - e_pushed s \<and> e = of_nat (e_lab s (snd l) mod 3)"
| "pc_ok nw s t (LimCas b l e p) \<longleftrightarrow> snd l \<in> e_freed s - e_pushed s \<and> e = of_nat (e_lab s (snd l) mod 3)"
| "pc_ok nw s t (ClScan c ge i) \<longleftrightarrow> ge = e_epoch s"
| "pc_ok nw s t (ClAgain c ge r) \<longleftrightarrow> ge = e_epoch s"
| "pc_ok nw s t (ClWait c ge r g j) \<longleftrightarrow> ge = e_epoch s \<and> g = e_epoch s \<and> settled s j"
| "pc_ok nw s t (ClTake ge) \<longleftrightarrow> ge = e_epoch s \<and> settled s nw"
| "pc_ok nw s t (ClSet ge ps) \<longleftrightarrow> ge = e_epoch s \<and> settled s nw \<and> (\<forall>l \<in> set ps. snd l \<in> e_pushed s \<and> e_lab s (snd l) + 2 \<le> e_adv s)"
| "pc_ok nw s t (ClFree ps) \<longleftrightarrow> (\<forall>l \<in> set ps. snd l \<in> e_pushed s \<and> e_lab s (snd l) + 3 \<le> e_adv s)"
| "pc_ok nw s t (ClDec ps) \<longleftrightarrow> (\<forall>l \<in> set ps. snd l \<in> e_pushed s \<and> e_lab s (snd l) + 3 \<le> e_adv s)"
| "pc_ok nw s t _ \<longleftrightarrow> True"

text \<open>
  A process inside entered before at most two advances, and every advance since then found it with the
  epoch of that time. What it may hold was released after it entered. What is in a list was released in an
  epoch of that number, what is reclaimed three advances ago.
\<close>

definition worker_ok :: "nat \<Rightarrow> epst \<Rightarrow> nat \<Rightarrow> bool" where
  "worker_ok nw s t \<longleftrightarrow> t < nw \<and> e_at s t \<le> e_adv s \<and> (\<exists>k. e_lepoch s t = tag k) \<and> (\<forall>m. e_at s t < m \<and> m < e_adv s \<longrightarrow> e_lepoch s t = tag m)"

definition threads_ok :: "nat \<Rightarrow> nat \<Rightarrow> epst \<Rightarrow> bool" where
  "threads_ok nw c0 s \<longleftrightarrow> (\<forall>t. pc_ok nw s t (e_pc s t) \<and> (cleaning (e_pc s t) \<longrightarrow> t = c0))"

definition workers_ok :: "nat \<Rightarrow> epst \<Rightarrow> bool" where
  "workers_ok nw s \<longleftrightarrow> (\<forall>t. if active (e_pc s t) then worker_ok nw s t else e_held s t = {})"

definition lists_ok :: "epst \<Rightarrow> bool" where
  "lists_ok s \<longleftrightarrow> (\<forall>k. \<forall>l \<in> set (e_limbo s k). snd l \<in> e_pushed s \<and> e_lab s (snd l) mod 3 = k)
     \<and> (\<forall>i \<in> set (e_gone s). i \<in> e_pushed s \<and> e_lab s i + 3 \<le> e_adv s)"

definition labels_ok :: "epst \<Rightarrow> bool" where
  "labels_ok s \<longleftrightarrow> (\<forall>t i. i \<in> e_held s t \<and> i \<in> e_freed s \<longrightarrow> e_at s t \<le> e_lab s i) \<and> (\<forall>i \<in> e_freed s. e_lab s i \<le> e_adv s)"

definition blocks_ok :: "epst \<Rightarrow> bool" where
  "blocks_ok s \<longleftrightarrow> e_freed s \<inter> e_reach s = {} \<and> e_freed s \<subseteq> e_used s \<and> e_reach s \<subseteq> e_used s \<and> e_pushed s \<subseteq> e_freed s"

definition releases_ok :: "epst \<Rightarrow> bool" where
  "releases_ok s \<longleftrightarrow> (\<forall>t u i. releasing (e_pc s t) = Some i \<and> releasing (e_pc s u) = Some i \<longrightarrow> t = u)"

definition einv :: "nat \<Rightarrow> nat \<Rightarrow> epst \<Rightarrow> bool" where
  "einv nw c0 s \<longleftrightarrow> e_epoch s = of_nat (e_adv s mod 3) \<and> threads_ok nw c0 s \<and> workers_ok nw s \<and> lists_ok s \<and> labels_ok s \<and> blocks_ok s \<and> releases_ok s"

lemma einv_epoch: "einv nw c0 s \<Longrightarrow> e_epoch s = of_nat (e_adv s mod 3)"
  by (simp add: einv_def)

lemma einv_pc: "einv nw c0 s \<Longrightarrow> pc_ok nw s t (e_pc s t)" "einv nw c0 s \<Longrightarrow> cleaning (e_pc s t) \<Longrightarrow> t = c0"
  by (simp_all add: einv_def threads_ok_def)

lemma einv_worker: "einv nw c0 s \<Longrightarrow> active (e_pc s t) \<Longrightarrow> worker_ok nw s t" "einv nw c0 s \<Longrightarrow> \<not> active (e_pc s t) \<Longrightarrow> e_held s t = {}"
  unfolding einv_def workers_ok_def by (metis, metis)

lemma settled_goto: "settled (goto t p s) j \<longleftrightarrow> (\<forall>u < j. active (if u = t then p else e_pc s u) \<and> e_at s u < e_adv s \<longrightarrow> e_lepoch s u = tag (e_adv s))"
  by (auto simp: settled_def goto_def)

lemma goto_fields: "e_epoch (goto t p s) = e_epoch s" "e_lepoch (goto t p s) = e_lepoch s" "e_limbo (goto t p s) = e_limbo s"
  "e_nlimbo (goto t p s) = e_nlimbo s" "e_pc (goto t p s) = (e_pc s)(t := p)" "e_reach (goto t p s) = e_reach s" "e_used (goto t p s) = e_used s"
  "e_held (goto t p s) = e_held s" "e_freed (goto t p s) = e_freed s" "e_pushed (goto t p s) = e_pushed s" "e_gone (goto t p s) = e_gone s"
  "e_qfree (goto t p s) = e_qfree s" "e_adv (goto t p s) = e_adv s" "e_at (goto t p s) = e_at s" "e_lab (goto t p s) = e_lab s"
  by (simp_all add: goto_def)

lemma settled_mono:
  assumes "settled s j" and "\<And>u. active (e_pc s' u) \<Longrightarrow> e_at s' u < e_adv s' \<Longrightarrow> active (e_pc s u) \<and> e_at s u = e_at s' u \<and> e_lepoch s u = e_lepoch s' u"
    and "e_adv s' = e_adv s"
  shows "settled s' j"
  using assms unfolding settled_def by metis

lemma pc_ok_mono:
  assumes "pc_ok nw s t p" and "\<And>j. settled s j \<Longrightarrow> settled s' j"
    and "e_epoch s' = e_epoch s" "e_lepoch s' t = e_lepoch s t" "e_held s' t = e_held s t" "e_freed s \<subseteq> e_freed s'" "e_pushed s \<subseteq> e_pushed s'" "e_adv s' = e_adv s"
      "\<And>i. i \<in> e_pushed s \<Longrightarrow> e_lab s' i = e_lab s i" "\<And>i. releasing p = Some i \<Longrightarrow> e_lab s' i = e_lab s i \<and> i \<notin> e_pushed s' - e_pushed s"
  shows "pc_ok nw s' t p"
  using assms by (cases p) auto

text \<open>A step of process \<open>t\<close> to \<open>p\<close> that leaves the epoch and the others alone.\<close>

definition idle_step :: "epst \<Rightarrow> epst \<Rightarrow> nat \<Rightarrow> epc \<Rightarrow> bool" where
  "idle_step s s' t p \<longleftrightarrow>
     e_pc s' = (e_pc s)(t := p) \<and> e_epoch s' = e_epoch s \<and> e_adv s' = e_adv s \<and> e_freed s \<subseteq> e_freed s' \<and> e_pushed s \<subseteq> e_pushed s'
     \<and> (\<forall>u. u \<noteq> t \<longrightarrow> e_at s' u = e_at s u \<and> e_lepoch s' u = e_lepoch s u \<and> e_held s' u = e_held s u)
     \<and> (active p \<longrightarrow> e_at s' t = e_adv s \<or> active (e_pc s t) \<and> e_at s' t = e_at s t \<and> e_lepoch s' t = e_lepoch s t)
     \<and> (\<forall>i. e_lab s' i \<noteq> e_lab s i \<or> i \<in> e_pushed s' - e_pushed s \<longrightarrow> i \<notin> e_pushed s \<and> (\<forall>u. u \<noteq> t \<longrightarrow> releasing (e_pc s u) \<noteq> Some i))"

lemma idle_step_settled: "idle_step s s' t p \<Longrightarrow> settled s j \<Longrightarrow> settled s' j"
  unfolding idle_step_def settled_def by (metis fun_upd_apply less_irrefl)

lemma idle_step_other:
  assumes q: "idle_step s s' t p" and "u \<noteq> t" "pc_ok nw s u (e_pc s u)"
  shows "pc_ok nw s' u (e_pc s u)"
  by (rule pc_ok_mono [OF assms(3) idle_step_settled [OF q]]) (use q assms(2) in \<open>unfold idle_step_def, blast+\<close>)

lemma idle_step_einv:
  assumes I: "einv nw c0 s" and q: "idle_step s s' t p" and p: "pc_ok nw s' t p" "cleaning p \<longrightarrow> t = c0"
    and w: "if active p then worker_ok nw s' t else e_held s' t = {}" and r: "releasing p = None \<or> releasing p = releasing (e_pc s t)"
    and parts: "lists_ok s'" "labels_ok s'" "blocks_ok s'"
  shows "einv nw c0 s'"
proof -
  have pc: "e_pc s' = (e_pc s)(t := p)" using q by (simp add: idle_step_def)
  have "threads_ok nw c0 s'"
    unfolding threads_ok_def pc using p idle_step_other [OF q _ einv_pc(1) [OF I]] einv_pc(2) [OF I] by simp
  moreover have "\<forall>u. u \<noteq> t \<longrightarrow> (worker_ok nw s u \<longrightarrow> worker_ok nw s' u) \<and> e_held s' u = e_held s u" using q by (simp add: idle_step_def worker_ok_def)
  then have "workers_ok nw s'" unfolding workers_ok_def pc using w einv_worker [OF I] by simp
  moreover have rel: "releasing (e_pc s' u) = Some i \<Longrightarrow> releasing (e_pc s u) = Some i" for u i unfolding pc using r by (auto split: if_splits)
  have "releases_ok s" using I by (simp add: einv_def)
  then have "releases_ok s'" unfolding releases_ok_def using rel by blast
  moreover have "e_epoch s' = of_nat (e_adv s' mod 3)" using I q by (simp add: einv_def idle_step_def)
  ultimately show ?thesis using parts by (simp add: einv_def)
qed

lemma einv_parts: "einv nw c0 s \<Longrightarrow> lists_ok s \<and> labels_ok s \<and> blocks_ok s"
  by (simp add: einv_def)

text \<open>A step that only moves the process on.\<close>

lemma einv_goto:
  assumes I: "einv nw c0 s" and p: "pc_ok nw (goto t p s) t p" "active p = active (e_pc s t)" "cleaning p \<longrightarrow> t = c0"
    "releasing p = None \<or> releasing p = releasing (e_pc s t)"
  shows "einv nw c0 (goto t p s)"
proof (rule idle_step_einv [OF I _ p(1,3) _ p(4)])
  show "idle_step s (goto t p s) t p" using p(2) by (simp add: idle_step_def goto_fields)
  show "if active p then worker_ok nw (goto t p s) t else e_held (goto t p s) t = {}"
    using einv_worker [OF I, of t] p(2) by (simp add: goto_fields worker_ok_def)
  show "lists_ok (goto t p s)" "labels_ok (goto t p s)" "blocks_ok (goto t p s)"
    using einv_parts [OF I] by (simp_all add: lists_ok_def labels_ok_def blocks_ok_def goto_fields)
qed

lemma held_active: "einv nw c0 s \<Longrightarrow> i \<in> e_held s t \<Longrightarrow> e_at s t \<le> e_adv s"
  using einv_worker [of nw c0 s t] by (cases "active (e_pc s t)") (auto simp: worker_ok_def)

lemma releases_unique: "einv nw c0 s \<Longrightarrow> releasing (e_pc s t) = Some i \<Longrightarrow> u \<noteq> t \<Longrightarrow> releasing (e_pc s u) \<noteq> Some i"
  unfolding einv_def releases_ok_def by blast

lemma einv_start:
  assumes I: "einv nw c0 s" and pc: "e_pc s t = Starting ge"
  shows "einv nw c0 (epochstart t ge s)"
proof (rule idle_step_einv [OF I, where t = t and p = Inside])
  note f = epochstart_def goto_fields
  obtain k where k: "t < nw" "ge = of_nat (k mod 3)" using einv_pc(1) [OF I, of t] pc by auto
  have h: "e_held s t = {}" using einv_worker(2) [OF I, of t] pc by simp
  show "idle_step s (epochstart t ge s) t Inside" by (simp add: idle_step_def f)
  show "if active Inside then worker_ok nw (epochstart t ge s) t else e_held (epochstart t ge s) t = {}"
    using k by (auto simp: f worker_ok_def tag_def)
  show "lists_ok (epochstart t ge s)" "blocks_ok (epochstart t ge s)" "labels_ok (epochstart t ge s)"
    using einv_parts [OF I] h by (simp_all add: lists_ok_def labels_ok_def blocks_ok_def f)
qed simp_all

lemma einv_end:
  assumes I: "einv nw c0 s" and pc: "e_pc s t = Ending le"
  shows "einv nw c0 (epochend t le s)"
proof (rule idle_step_einv [OF I, where t = t and p = Outside])
  note f = epochend_def goto_fields
  have h: "e_held s t = {}" using einv_pc(1) [OF I, of t] pc by simp
  show "idle_step s (epochend t le s) t Outside" by (simp add: idle_step_def f)
  show "if active Outside then worker_ok nw (epochend t le s) t else e_held (epochend t le s) t = {}" using h by (simp add: f)
  show "lists_ok (epochend t le s)" "blocks_ok (epochend t le s)" "labels_ok (epochend t le s)"
    using einv_parts [OF I] by (simp_all add: lists_ok_def labels_ok_def blocks_ok_def f)
qed simp_all

lemma einv_limbo:
  assumes I: "einv nw c0 s" and st: "limbo_step t s = Some s'"
  shows "einv nw c0 s'"
proof -
  note parts = einv_parts [OF I]
  note W = einv_worker [OF I, of t]
  show ?thesis
  proof (cases "e_pc s t")
    case (LimGet b l)
    let ?p = "LimTop b l (e_epoch s)"
    have s': "s' = goto t ?p (s\<lparr>e_lab := (e_lab s)(snd l := e_adv s)\<rparr>)" using st LimGet by (simp add: limbo_step_def)
    have l: "snd l \<in> e_freed s - e_pushed s" using einv_pc(1) [OF I, of t] LimGet by simp
    show ?thesis
    proof (rule idle_step_einv [OF I, where t = t and p = ?p])
      show "idle_step s s' t ?p" using l releases_unique [OF I, of t "snd l"] LimGet by (auto simp: idle_step_def s' goto_fields)
      show "pc_ok nw s' t ?p" using l einv_epoch [OF I] by (simp add: s' goto_fields)
      show "if active ?p then worker_ok nw s' t else e_held s' t = {}" using W LimGet by (simp add: s' goto_fields worker_ok_def)
      show "lists_ok s'" using parts l by (fastforce simp: lists_ok_def s' goto_fields)
      show "labels_ok s'" using parts held_active [OF I] by (auto simp: labels_ok_def s' goto_fields)
    qed (use parts LimGet in \<open>simp_all add: blocks_ok_def s' goto_fields\<close>)
  next
    case (LimTop b l e)
    then show ?thesis using st einv_pc(1) [OF I, of t] by (auto simp: limbo_step_def goto_fields intro!: einv_goto [OF I])
  next
    case (LimCas b l e p)
    have l: "snd l \<in> e_freed s - e_pushed s" "e = of_nat (e_lab s (snd l) mod 3)" using einv_pc(1) [OF I, of t] LimCas by simp_all
    show ?thesis
    proof (cases "(case e_limbo s (unat e) of [] \<Rightarrow> None | p # _ \<Rightarrow> Some p) = p")
      case False
      then show ?thesis using st l LimCas by (auto simp: limbo_step_def goto_fields intro!: einv_goto [OF I])
    next
      case True
      let ?p = "LimInc b"
      have s': "s' = goto t ?p (s\<lparr>e_limbo := (e_limbo s)(unat e := l # e_limbo s (unat e)), e_pushed := insert (snd l) (e_pushed s)\<rparr>)"
        using st LimCas True by (simp add: limbo_step_def)
      show ?thesis
      proof (rule idle_step_einv [OF I, where t = t and p = ?p])
        show "idle_step s s' t ?p" using l releases_unique [OF I, of t "snd l"] LimCas by (auto simp: idle_step_def s' goto_fields)
        show "if active ?p then worker_ok nw s' t else e_held s' t = {}" using W LimCas by (simp add: s' goto_fields worker_ok_def)
        show "lists_ok s'" using parts unfolding l(2) epoch_unat by (auto simp: lists_ok_def s' goto_fields l(2) epoch_unat)
        show "blocks_ok s'" using parts l by (auto simp: blocks_ok_def s' goto_fields)
      qed (use parts in \<open>simp_all add: labels_ok_def s' goto_fields\<close>)
    qed
  next
    case (LimInc b)
    let ?p = "if b then Inside else Outside"
    have s': "s' = goto t ?p (s\<lparr>e_nlimbo := e_nlimbo s + 1\<rparr>)" using st LimInc by (simp add: limbo_step_def)
    show ?thesis
      by (rule idle_step_einv [OF I, where t = t and p = ?p])
        (use parts W LimInc in \<open>auto simp: idle_step_def s' goto_fields worker_ok_def lists_ok_def labels_ok_def blocks_ok_def\<close>)
  qed (use st in \<open>simp_all add: limbo_step_def\<close>)
qed

lemma einv_wait:
  assumes I: "einv nw c0 s" and st: "epochwait_step nw t s = Some s'"
  shows "einv nw c0 s'"
proof -
  note P = einv_pc [OF I, of t] and E = einv_epoch [OF I]
  show ?thesis
  proof (cases "e_pc s t")
    case (ClAgain c ge r)
    then show ?thesis using st P by (auto simp: epochwait_step_def goto_fields settled_def intro!: einv_goto [OF I])
  next
    case (ClWait c ge r g j)
    have p: "ge = e_epoch s" "g = e_epoch s" "settled s j" "t = c0" using P ClWait by simp_all
    have g: "settled (goto t q s) j'" if "settled s j'" "\<not> active q" for q j' using that by (auto simp: settled_def goto_fields)
    show ?thesis
    proof (cases "j < nw")
      case True
      show ?thesis
      proof (cases "lagging (e_lepoch s j) g")
        case False
        have "settled s (j + 1)"
          unfolding settled_def
        proof (intro allI impI)
          fix u assume u: "u < j + 1" "active (e_pc s u) \<and> e_at s u < e_adv s"
          show "e_lepoch s u = tag (e_adv s)"
          proof (cases "u = j")
            case eq: True
            obtain k where k: "e_lepoch s u = tag k" using einv_worker(1) [OF I, of u] u(2) by (auto simp: worker_ok_def)
            have "lagging (tag k) (of_nat (e_adv s mod 3)) \<longleftrightarrow> lagging (e_lepoch s j) g" using k eq p(2) E by simp
            then show ?thesis using False by (simp add: k tag_inj lagging_tag)
          next
            case False
            then show ?thesis using p(3) u by (simp add: settled_def)
          qed
        qed
        then show ?thesis using st ClWait True False p g by (auto simp: epochwait_step_def goto_fields intro!: einv_goto [OF I])
      next
        case lag: True
        then show ?thesis using st ClWait True p by (auto simp: epochwait_step_def goto_fields intro!: einv_goto [OF I])
      qed
    next
      case False
      have "settled s nw" using p(3) False by (simp add: settled_def)
      then show ?thesis using st ClWait False p g by (auto simp: epochwait_step_def goto_fields split: option.splits intro!: einv_goto [OF I])
    qed
  qed (use st in \<open>simp_all add: epochwait_step_def\<close>)
qed

lemma einv_clean:
  assumes I: "einv nw c0 s" and st: "epochclean_step nw cmax t s = Some s'"
  shows "einv nw c0 s'"
proof -
  note P = einv_pc [OF I, of t] and E = einv_epoch [OF I] and parts = einv_parts [OF I] and W = einv_worker [OF I, of t]
  show ?thesis
  proof (cases "e_pc s t")
    case (ClGet c)
    then show ?thesis using st P by (auto simp: epochclean_step_def goto_fields intro!: einv_goto [OF I])
  next
    case (ClScan c ge i)
    then show ?thesis using st P by (auto simp: epochclean_step_def goto_fields split: if_splits intro!: einv_goto [OF I])
  next
    case (ClTake ge)
    let ?k = "Suc (e_adv s) mod 3"
    let ?p = "ClSet ge (e_limbo s ?k)"
    have p: "ge = e_epoch s" "settled s nw" "t = c0" using P ClTake by simp_all
    have k: "unat ((ge + 1) mod 3) = ?k" using epoch_next [of "e_adv s"] epoch_unat [of "Suc (e_adv s)"] unfolding p(1) E by simp
    have s': "s' = goto t ?p (s\<lparr>e_limbo := (e_limbo s)(?k := [])\<rparr>)" using st ClTake k by (simp add: epochclean_step_def Let_def)
    have old: "e_lab s (snd l) + 2 \<le> e_adv s" "snd l \<in> e_pushed s" if "l \<in> set (e_limbo s ?k)" for l
    proof -
      have l: "snd l \<in> e_pushed s" "e_lab s (snd l) mod 3 = ?k" using parts that unfolding lists_ok_def by blast+
      then have "e_lab s (snd l) \<le> e_adv s" using parts by (auto simp: blocks_ok_def labels_ok_def)
      then show "e_lab s (snd l) + 2 \<le> e_adv s" using l(2) by presburger
      show "snd l \<in> e_pushed s" by (rule l(1))
    qed
    have q: "idle_step s s' t ?p" by (simp add: idle_step_def s' goto_fields)
    show ?thesis
    proof (rule idle_step_einv [OF I q])
      show "pc_ok nw s' t ?p" using p old idle_step_settled [OF q p(2)] by (simp add: s' goto_fields)
      show "if active ?p then worker_ok nw s' t else e_held s' t = {}" using W ClTake by (simp add: s' goto_fields)
      show "lists_ok s'" using parts by (auto simp: lists_ok_def s' goto_fields)
    qed (use parts p in \<open>simp_all add: labels_ok_def blocks_ok_def s' goto_fields\<close>)
  next
    case (ClSet ge ps)
    have p: "ge = e_epoch s" "settled s nw" "\<forall>l \<in> set ps. snd l \<in> e_pushed s \<and> e_lab s (snd l) + 2 \<le> e_adv s" "t = c0" using P ClSet by simp_all
    have s': "s' = goto t (ClFree ps) (s\<lparr>e_epoch := of_nat (Suc (e_adv s) mod 3), e_adv := e_adv s + 1\<rparr>)"
      using st ClSet epoch_next [of "e_adv s"] unfolding p(1) E by (simp add: epochclean_step_def)
    have "worker_ok nw s' u" if "worker_ok nw s u" "active (e_pc s u)" for u
      using that p(2) unfolding worker_ok_def settled_def s' goto_fields by (auto simp: less_Suc_eq)
    then have "workers_ok nw s'" using einv_worker [OF I] ClSet by (simp add: workers_ok_def s' goto_fields)
    moreover have "threads_ok nw c0 s'"
    proof -
      have "pc_ok nw s' u (e_pc s u)" if "u \<noteq> t" for u
        using einv_pc [OF I, of u] that p(4) by (cases "e_pc s u") (simp_all add: s' goto_fields)
      then show ?thesis using p einv_pc(2) [OF I] by (auto simp: threads_ok_def s' goto_fields)
    qed
    moreover have "releases_ok s'" using I by (auto simp: einv_def releases_ok_def s' goto_fields)
    moreover have "lists_ok s'" "labels_ok s'" "blocks_ok s'" using parts by (auto simp: lists_ok_def labels_ok_def blocks_ok_def s' goto_fields)
    ultimately show ?thesis by (simp add: einv_def s' goto_fields)
  next
    case (ClFree ps)
    show ?thesis
    proof (cases ps)
      case Nil
      then show ?thesis using st ClFree by (auto simp: epochclean_step_def goto_fields intro!: einv_goto [OF I])
    next
      case (Cons l ls)
      have s': "s' = goto t (ClDec ls) (reclaim l s)" using st ClFree Cons by (simp add: epochclean_step_def)
      show ?thesis
        by (rule idle_step_einv [OF I, where t = t and p = "ClDec ls"])
          (use parts P W ClFree Cons in \<open>auto simp: idle_step_def s' goto_fields reclaim_def lists_ok_def labels_ok_def blocks_ok_def\<close>)
    qed
  next
    case (ClDec ps)
    have s': "s' = goto t (ClFree ps) (s\<lparr>e_nlimbo := e_nlimbo s - 1\<rparr>)" using st ClDec by (simp add: epochclean_step_def)
    show ?thesis
      by (rule idle_step_einv [OF I, where t = t and p = "ClFree ps"])
        (use parts P W ClDec in \<open>auto simp: idle_step_def s' goto_fields lists_ok_def labels_ok_def blocks_ok_def\<close>)
  qed (use st in \<open>simp_all add: epochclean_step_def\<close>)
qed

lemma einv_call:
  assumes I: "einv nw c0 s" and st: "call_step nw cl False t ch s = Some s'" and cl: "\<forall>t. cl t \<longrightarrow> t = c0"
  shows "einv nw c0 s'"
proof -
  note P = einv_pc [OF I, of t] and E = einv_epoch [OF I] and parts = einv_parts [OF I] and W = einv_worker [OF I, of t]
  have inside: "idle_step s s' t Inside \<Longrightarrow> e_pc s t = Inside \<Longrightarrow> worker_ok nw s' t \<Longrightarrow> lists_ok s' \<Longrightarrow> labels_ok s' \<Longrightarrow> blocks_ok s' \<Longrightarrow> einv nw c0 s'"
    by (rule idle_step_einv [OF I, where t = t and p = Inside]) simp_all
  show ?thesis
  proof (cases ch)
    case Enter
    then show ?thesis using st E by (auto simp: call_step_def goto_fields split: if_splits intro!: einv_goto [OF I])
  next
    case (Look i)
    then have a: "e_pc s t = Inside" "i \<in> e_reach s" "s' = s\<lparr>e_held := (e_held s)(t := insert i (e_held s t))\<rparr>" using st by (auto simp: call_step_def split: if_splits)
    then have "i \<notin> e_freed s" using parts by (auto simp: blocks_ok_def)
    then show ?thesis using a W parts
      by (intro inside) (auto simp: idle_step_def worker_ok_def lists_ok_def labels_ok_def blocks_ok_def)
  next
    case (Link i)
    then have a: "e_pc s t = Inside" "i \<notin> e_used s" "s' = s\<lparr>e_reach := insert i (e_reach s), e_used := insert i (e_used s)\<rparr>" using st by (auto simp: call_step_def split: if_splits)
    then show ?thesis using W parts
      by (intro inside) (auto simp: idle_step_def worker_ok_def lists_ok_def labels_ok_def blocks_ok_def)
  next
    case (Unlink i)
    then have a: "e_pc s t = Inside" "s' = s\<lparr>e_reach := e_reach s - {i}\<rparr>" using st by (auto simp: call_step_def split: if_splits)
    then show ?thesis using W parts
      by (intro inside) (auto simp: idle_step_def worker_ok_def lists_ok_def labels_ok_def blocks_ok_def)
  next
    case (Release x i)
    let ?p = "LimGet (e_pc s t = Inside) (x, i)"
    have a: "e_pc s t = Inside \<or> e_pc s t = Outside" "i \<in> e_used s" "i \<notin> e_freed s" "i \<notin> e_reach s"
      "s' = goto t ?p (s\<lparr>e_freed := insert i (e_freed s), e_lab := (e_lab s)(i := e_adv s)\<rparr>)"
      using st Release by (auto simp: call_step_def split: if_splits)
    have np: "i \<notin> e_pushed s" using parts a(3) by (auto simp: blocks_ok_def)
    have nr: "releasing (e_pc s u) \<noteq> Some i" for u using einv_pc(1) [OF I, of u] a(3) by (cases "e_pc s u") auto
    have q: "idle_step s s' t ?p" using np nr a(1) by (auto simp: idle_step_def a(5) goto_fields)
    have "threads_ok nw c0 s'"
      using idle_step_other [OF q _ einv_pc(1) [OF I]] einv_pc(2) [OF I] np by (auto simp: threads_ok_def a(5) goto_fields)
    moreover have "workers_ok nw s'" using einv_worker [OF I] a(1) by (auto simp: workers_ok_def a(5) goto_fields worker_ok_def)
    moreover have "releases_ok s'" using I nr by (auto simp: einv_def releases_ok_def a(5) goto_fields split: if_splits)
    moreover have "lists_ok s'" using parts np by (fastforce simp: lists_ok_def a(5) goto_fields)
    moreover have "labels_ok s'" using parts held_active [OF I] by (auto simp: labels_ok_def a(5) goto_fields)
    moreover have "blocks_ok s'" using parts a by (auto simp: blocks_ok_def goto_fields)
    ultimately show ?thesis using E by (simp add: einv_def a(5) goto_fields)
  next
    case Leave
    let ?p = "Ending (e_lepoch s t)"
    have a: "e_pc s t = Inside" "s' = goto t ?p (s\<lparr>e_held := (e_held s)(t := {})\<rparr>)" using st Leave by (auto simp: call_step_def split: if_splits)
    then show ?thesis using W parts
      by (intro idle_step_einv [OF I, where t = t and p = ?p]) (auto simp: idle_step_def goto_fields worker_ok_def lists_ok_def labels_ok_def blocks_ok_def)
  next
    case Clean
    then show ?thesis using st cl by (auto simp: call_step_def goto_fields split: if_splits intro!: einv_goto [OF I])
  next
    case Go
    then show ?thesis using st by (simp add: call_step_def)
  qed
qed

lemma einv_step:
  assumes I: "einv nw c0 s" and st: "epstep nw cmax cl False t ch s = Some s'" and cl: "\<forall>t. cl t \<longrightarrow> t = c0"
  shows "einv nw c0 s'"
proof (cases "ch = Go")
  case True
  then show ?thesis
    using st einv_start [OF I] einv_end [OF I] einv_limbo [OF I] einv_wait [OF I] einv_clean [OF I]
    by (auto simp: epstep_def split: epc.splits)
next
  case False
  then show ?thesis using st einv_call [OF I _ cl] by (simp add: epstep_def)
qed

lemma einv_reach: "ereach nw cmax cl False blocks s \<Longrightarrow> \<forall>t. cl t \<longrightarrow> t = c0 \<Longrightarrow> einv nw c0 s"
proof (induction rule: ereach.induct)
  case ereach_init
  then show ?case by (auto simp: einv_def epinit_def threads_ok_def workers_ok_def lists_ok_def labels_ok_def blocks_ok_def releases_ok_def)
next
  case (ereach_step s t ch s')
  then show ?case by (blast intro: einv_step)
qed

text \<open>A process inside has seen at most two advances.\<close>

lemma two_advances: "worker_ok nw s t \<Longrightarrow> e_adv s \<le> e_at s t + 2"
proof (rule ccontr)
  assume w: "worker_ok nw s t" and n: "\<not> e_adv s \<le> e_at s t + 2"
  then have "e_lepoch s t = tag (e_at s t + 1)" "e_lepoch s t = tag (e_at s t + 2)" unfolding worker_ok_def by simp_all
  then have "(e_at s t + 1) mod 3 = (e_at s t + 2) mod 3" by (simp add: tag_inj)
  then show False by presburger
qed

section \<open>Nothing is reclaimed under a reader\<close>

text \<open>
  C36: As long as one process cleans and every block is released after the last path to it is gone (\<open>early\<close> is false),
  no block is reclaimed while a process that may have found it is still inside the epoch in which it
  found it, whatever the interleaving of the atomic accesses and however long any process is delayed between
  two of them. The condition on releases is an assumption on the callers: \<^verbatim>\<open>updateleaf\<close> does not keep it for data
  blocks, and without it the statement fails even with one cleaner (\<open>early_release_reclaims_held\<close>).
\<close>

theorem held_blocks_stay:
  assumes "ereach nw cmax cl False blocks s" and "\<forall>t. cl t \<longrightarrow> t = c0"
  shows "e_held s t \<inter> set (e_gone s) = {}"
proof -
  have I: "einv nw c0 s" by (rule einv_reach [OF assms])
  have False if i: "i \<in> e_held s t" "i \<in> set (e_gone s)" for i
  proof -
    have w: "worker_ok nw s t" using einv_worker [OF I, of t] i(1) by (cases "active (e_pc s t)") auto
    have "i \<in> e_pushed s" "e_lab s i + 3 \<le> e_adv s" using einv_parts [OF I] i(2) by (auto simp: lists_ok_def)
    moreover have "e_at s t \<le> e_lab s i" using einv_parts [OF I] i(1) calculation(1) by (auto simp: labels_ok_def blocks_ok_def)
    ultimately show False using two_advances [OF w] by simp
  qed
  then show ?thesis by blast
qed

text \<open>A process that reads block 1 while it is unlinked and released; the cleaner must wait for it.\<close>

definition sample_epochs :: "(nat \<times> ech) list" where
  "sample_epochs = [(1, Enter), (1, Go), (1, Look 1), (0, Enter), (0, Go), (0, Unlink 1), (0, Release DFblk 1), (0, Go), (0, Go), (0, Go), (0, Go),
     (0, Leave), (0, Go), (0, Clean), (0, Go), (0, Go), (0, Go), (0, Go), (0, Go), (0, Go), (0, Go), (0, Go), (0, Go), (0, Go), (0, Go)]"

lemma sample_epochs_run:
  "\<exists>s. eprun 2 0 (\<lambda>t. t = 0) False sample_epochs (epinit {1}) = Some s \<and> e_held s 1 = {1} \<and> e_limbo s 0 = [(DFblk, 1)] \<and> e_epoch s = 1"
  by (simp add: sample_epochs_def epstep_def call_step_def epinit_def goto_def epochstart_def epochend_def limbo_step_def epochclean_step_def epochwait_step_def lagging_def)

theorem held_blocks_stay_witness:
  "\<exists>s. ereach 2 0 (\<lambda>t. t = 0) False {1} s \<and> e_limbo s 0 = [(DFblk, 1)] \<and> e_epoch s = 1 \<and> 1 \<in> e_held s 1 \<and> 1 \<notin> set (e_gone s)"
proof -
  obtain s where s: "eprun 2 0 (\<lambda>t. t = 0) False sample_epochs (epinit {1}) = Some s" "e_held s 1 = {1}" "e_limbo s 0 = [(DFblk, 1)]" "e_epoch s = 1"
    using sample_epochs_run by blast
  have r: "ereach 2 0 (\<lambda>t. t = 0) False {1} s" by (rule eprun_ereach [OF ereach_init s(1)])
  have "e_held s 1 \<inter> set (e_gone s) = {}" by (rule held_blocks_stay [OF r, of 0]) simp
  then show ?thesis using r s(2-4) by auto
qed

section \<open>Two cleaners, and releasing early\<close>

definition clean_to_take :: "nat \<Rightarrow> (nat \<times> ech) list" where
  "clean_to_take t = (t, Clean) # replicate 10 (t, Go)"

definition two_cleaners :: "(nat \<times> ech) list" where
  "two_cleaners = clean_to_take 1 @ clean_to_take 0 @ replicate 3 (0, Go) @ [(2, Enter), (2, Go), (2, Look 1)]
     @ [(0, Enter), (0, Go), (0, Unlink 1), (0, Release DFblk 1)] @ replicate 4 (0, Go) @ replicate 3 (1, Go)"

definition early_release :: "(nat \<times> ech) list" where
  "early_release = (0, Enter) # clean_to_take 1 @ replicate 3 (1, Go) @ clean_to_take 1 @ replicate 3 (1, Go) @ clean_to_take 1
     @ [(0, Go), (0, Release DFbp 1)] @ replicate 4 (0, Go) @ replicate 3 (1, Go) @ clean_to_take 1 @ replicate 3 (1, Go)
     @ [(2, Enter), (2, Go), (2, Look 1), (0, Unlink 1), (0, Leave), (0, Go)] @ clean_to_take 1 @ replicate 3 (1, Go)"

lemma gos: "replicate 3 x = [x, x, x]" "replicate 4 x = [x, x, x, x]" "replicate 10 x = [x, x, x, x, x, x, x, x, x, x]"
  by (simp_all add: numeral_eq_Suc)

lemmas ep_run = gos epstep_def call_step_def epinit_def goto_def epochstart_def epochend_def limbo_step_def epochclean_step_def epochwait_step_def
  lagging_def reclaim_def

text \<open>
  C38: \<^verbatim>\<open>epochclean\<close> is called by \<^verbatim>\<open>runmutate\<close> and by \<^verbatim>\<open>runsweep\<close> with no lock held. With two cleaning processes a block can be
  reclaimed while a reader inside its epoch has it: both see that everybody has moved on, one advances the
  epoch and its process releases a block into the list that the other one then takes.
\<close>

theorem two_cleaners_reclaim_held:
  "\<exists>s. ereach 3 1000 (\<lambda>t. t < 2) False {1} s \<and> 1 \<in> e_held s 2 \<and> 1 \<in> set (e_gone s)"
proof -
  have "\<exists>s. eprun 3 1000 (\<lambda>t. t < 2) False two_cleaners (epinit {1}) = Some s \<and> 1 \<in> e_held s 2 \<and> 1 \<in> set (e_gone s)"
    by (simp add: two_cleaners_def clean_to_take_def ep_run)
  then show ?thesis using eprun_ereach [OF ereach_init] by blast
qed

text \<open>
  Nor is it safe to release before unlinking, as \<^verbatim>\<open>updateleaf\<close> does with data blocks: a process delayed between the two accesses of
  \<^verbatim>\<open>epochstart\<close> enters with the number of three advances ago.
\<close>

theorem early_release_reclaims_held:
  "\<exists>s. ereach 3 0 (\<lambda>t. t = 1) True {1} s \<and> 1 \<in> e_held s 2 \<and> 1 \<in> set (e_gone s)"
proof -
  have "\<exists>s. eprun 3 0 (\<lambda>t. t = 1) True early_release (epinit {1}) = Some s \<and> 1 \<in> e_held s 2 \<and> 1 \<in> set (e_gone s)"
    by (simp add: early_release_def clean_to_take_def ep_run)
  then show ?thesis using eprun_ereach [OF ereach_init] by blast
qed

section \<open>Every released block is in one place\<close>

fun in_hand :: "epc \<Rightarrow> lim list" where
  "in_hand (ClSet _ ps) = ps"
| "in_hand (ClFree ps) = ps"
| "in_hand (ClDec ps) = ps"
| "in_hand _ = []"

text \<open>Everything on its way, and what \<^verbatim>\<open>nlimbo\<close> counts: a process that pushed has not counted yet, one that reclaimed still has to.\<close>

definition on_way :: "nat \<Rightarrow> epst \<Rightarrow> nat multiset" where
  "on_way nw s = mset (map snd (e_limbo s 0 @ e_limbo s 1 @ e_limbo s 2)) + (\<Sum>t < nw. mset (map snd (in_hand (e_pc s t))))"

fun uncounted :: "epc \<Rightarrow> int" where
  "uncounted (LimInc _) = 1"
| "uncounted (ClDec _) = - 1"
| "uncounted _ = 0"

fun small_epoch :: "nat \<Rightarrow> nat \<Rightarrow> epc \<Rightarrow> bool" where
  "small_epoch nw t (LimTop _ _ e) \<longleftrightarrow> unat e < 3 \<and> t < nw"
| "small_epoch nw t (LimCas _ _ e _) \<longleftrightarrow> unat e < 3 \<and> t < nw"
| "small_epoch nw t (ClSet e _) \<longleftrightarrow> unat e < 3 \<and> t < nw"
| "small_epoch nw t (ClTake e) \<longleftrightarrow> unat e < 3 \<and> t < nw"
| "small_epoch nw t (ClScan _ e _) \<longleftrightarrow> unat e < 3 \<and> t < nw"
| "small_epoch nw t (ClAgain _ e _) \<longleftrightarrow> unat e < 3 \<and> t < nw"
| "small_epoch nw t (ClWait _ e _ _ _) \<longleftrightarrow> unat e < 3 \<and> t < nw"
| "small_epoch nw t Outside \<longleftrightarrow> True"
| "small_epoch nw t _ \<longleftrightarrow> t < nw"

definition account :: "nat \<Rightarrow> epst \<Rightarrow> bool" where
  "account nw s \<longleftrightarrow>
     unat (e_epoch s) < 3 \<and> finite (e_pushed s) \<and> e_pushed s \<subseteq> e_freed s \<and> (\<forall>t. small_epoch nw t (e_pc s t))
     \<and> (\<forall>t i. releasing (e_pc s t) = Some i \<longrightarrow> i \<in> e_freed s - e_pushed s) \<and> releases_ok s
     \<and> on_way nw s + mset (e_gone s) = mset_set (e_pushed s)
     \<and> e_nlimbo s + (\<Sum>t < nw. uncounted (e_pc s t)) + int (length (e_gone s)) = int (card (e_pushed s))"

definition lists :: "epst \<Rightarrow> nat multiset" where
  "lists s = mset (map snd (e_limbo s 0 @ e_limbo s 1 @ e_limbo s 2)) + mset (e_gone s)"

lemma sum_at:
  fixes nw t :: nat and f :: "epc \<Rightarrow> 'a :: comm_monoid_add"
  assumes "t < nw"
  shows "(\<Sum>u < nw. f ((pc(t := p)) u)) + f (pc t) = (\<Sum>u < nw. f (pc u)) + f p"
proof -
  have r: "(\<Sum>u < nw. g u) = g t + (\<Sum>u \<in> {..<nw} - {t}. g u)" for g :: "nat \<Rightarrow> 'a" by (rule sum.remove) (use assms in simp_all)
  have "(\<Sum>u \<in> {..<nw} - {t}. f ((pc(t := p)) u)) = (\<Sum>u \<in> {..<nw} - {t}. f (pc u))" by (rule sum.cong) auto
  then have "(\<Sum>u < nw. f ((pc(t := p)) u)) = f p + (\<Sum>u \<in> {..<nw} - {t}. f (pc u))" using r [of "\<lambda>u. f ((pc(t := p)) u)"] by (simp only: fun_upd_same)
  moreover have "(\<Sum>u < nw. f (pc u)) = f (pc t) + (\<Sum>u \<in> {..<nw} - {t}. f (pc u))" by (rule r)
  ultimately show ?thesis by (simp add: ac_simps)
qed

lemma account_frame:
  assumes A: "account nw s" and pc: "e_pc s' = (e_pc s)(t := p)" and t: "t < nw" and e: "unat (e_epoch s') < 3" "small_epoch nw t p"
    and r: "releasing p = None \<or> releasing p = releasing (e_pc s t)" "\<And>i. i \<in> X \<Longrightarrow> releasing p = None \<and> releasing (e_pc s t) = Some i"
    and X: "e_pushed s' = e_pushed s \<union> X" "X \<inter> e_pushed s = {}" "finite X" "e_freed s \<subseteq> e_freed s'"
    and m: "lists s' + mset (map snd (in_hand p)) = lists s + mset (map snd (in_hand (e_pc s t))) + mset_set X"
    and n: "e_nlimbo s' + uncounted p + int (length (e_gone s')) = e_nlimbo s + uncounted (e_pc s t) + int (length (e_gone s)) + int (card X)"
  shows "account nw s'"
proof -
  have a: "finite (e_pushed s)" "e_pushed s \<subseteq> e_freed s" "\<And>u. small_epoch nw u (e_pc s u)" "\<And>u i. releasing (e_pc s u) = Some i \<Longrightarrow> i \<in> e_freed s - e_pushed s"
    "releases_ok s" "on_way nw s + mset (e_gone s) = mset_set (e_pushed s)"
    "e_nlimbo s + (\<Sum>t < nw. uncounted (e_pc s t)) + int (length (e_gone s)) = int (card (e_pushed s))"
    using A unfolding account_def by blast+
  have rel: "releasing (e_pc s u) = Some i \<and> i \<notin> X"
    if "releasing (e_pc s' u) = Some i" for u i
  proof (cases "u = t")
    case True
    then show ?thesis using that r unfolding pc by auto
  next
    case False
    then have "releasing (e_pc s u) = Some i" using that unfolding pc by simp
    then show ?thesis using r(2) a(5) False unfolding releases_ok_def by blast
  qed
  have "releases_ok s'" using a(5) rel unfolding releases_ok_def by blast
  moreover have "e_pushed s' \<subseteq> e_freed s'" using a(2) a(4) [of t] r(2) X(1,4) by fastforce
  moreover have "\<And>u i. releasing (e_pc s' u) = Some i \<Longrightarrow> i \<in> e_freed s' - e_pushed s'" subgoal for u i using rel [of u i] a(4) [of u i] X(1,4) by auto done
  moreover have "on_way nw s' + mset (e_gone s') = mset_set (e_pushed s')"
  proof -
    have w: "on_way nw q + mset (e_gone q) = lists q + (\<Sum>t < nw. mset (map snd (in_hand (e_pc q t))))" for q by (simp add: on_way_def lists_def ac_simps)
    have "on_way nw s' + mset (e_gone s') + mset (map snd (in_hand (e_pc s t))) = lists s' + ((\<Sum>u < nw. mset (map snd (in_hand (e_pc s u)))) + mset (map snd (in_hand p)))"
      unfolding w using sum_at [OF t, of "\<lambda>p. mset (map snd (in_hand p))" "e_pc s" p] by (simp add: pc ac_simps)
    also have "\<dots> = on_way nw s + mset (e_gone s) + mset_set X + mset (map snd (in_hand (e_pc s t)))" unfolding w using m by (simp add: ac_simps)
    finally have "on_way nw s' + mset (e_gone s') = mset_set (e_pushed s) + mset_set X" using a(6) by simp
    moreover have "mset_set (e_pushed s \<union> X) = mset_set (e_pushed s) + mset_set X" by (rule mset_set_Union) (use a(1) X(2,3) in auto)
    ultimately show ?thesis by (simp add: X(1))
  qed
  moreover have "card (e_pushed s') = card (e_pushed s) + card X" unfolding X(1) by (rule card_Un_disjoint) (use a(1) X(2,3) in auto)
  then have "e_nlimbo s' + (\<Sum>t < nw. uncounted (e_pc s' t)) + int (length (e_gone s')) = int (card (e_pushed s'))"
    using a(7) n sum_at [OF t, of uncounted "e_pc s" p] unfolding pc by simp
  moreover have "finite (e_pushed s')" using a(1) X(1,3) by simp
  moreover have "small_epoch nw u (e_pc s' u)" for u unfolding pc using a(3) e(2) by simp
  ultimately show ?thesis using e(1) unfolding account_def by blast
qed

lemma account_goto:
  assumes A: "account nw s" and pc: "e_pc s' = (e_pc s)(t := p)" and t: "t < nw" and e: "e_epoch s' = e_epoch s" "small_epoch nw t p"
    and r: "releasing p = None \<or> releasing p = releasing (e_pc s t)" and h: "in_hand p = in_hand (e_pc s t)" "uncounted p = uncounted (e_pc s t)"
    and f: "e_pushed s' = e_pushed s" "e_freed s' = e_freed s" "e_limbo s' = e_limbo s" "e_gone s' = e_gone s" "e_nlimbo s' = e_nlimbo s"
  shows "account nw s'"
  by (rule account_frame [OF A pc t _ e(2) r, where X = "{}"]) (use A e(1) h f in \<open>simp_all add: lists_def account_def\<close>)

lemma account_pc: "account nw s \<Longrightarrow> small_epoch nw t (e_pc s t)" "account nw s \<Longrightarrow> unat (e_epoch s) < 3"
  "account nw s \<Longrightarrow> releasing (e_pc s t) = Some i \<Longrightarrow> i \<in> e_freed s - e_pushed s"
  unfolding account_def by blast+

lemma small3: "n < 3 \<Longrightarrow> n = 0 \<or> n = 1 \<or> n = (2::nat)"
  by linarith

lemma next_epoch_small: "unat ((ge + 1 :: 32 word) mod 3) < 3"
  by (simp add: unat_mod)

lemma account_limbo:
  assumes A: "account nw s" and st: "limbo_step t s = Some s'"
  shows "account nw s'"
proof (cases "e_pc s t")
  case (LimGet b l)
  then show ?thesis using st account_pc(1,3) [OF A, of t] account_pc(2) [OF A]
    by (intro account_goto [OF A, where t = t and p = "LimTop b l (e_epoch s)"]) (auto simp: limbo_step_def goto_fields)
next
  case (LimTop b l e)
  then show ?thesis using st account_pc(1) [OF A, of t] by (auto simp: limbo_step_def goto_fields intro: account_goto [OF A])
next
  case (LimCas b l e p)
  have e: "unat e < 3" "t < nw" using account_pc(1) [OF A, of t] LimCas by auto
  have l: "snd l \<notin> e_pushed s" using account_pc(3) [OF A, of t] LimCas by simp
  show ?thesis
  proof (cases "(case e_limbo s (unat e) of [] \<Rightarrow> None | p # _ \<Rightarrow> Some p) = p")
    case False
    then have "s' = goto t (LimGet b l) s" using st LimCas by (simp add: limbo_step_def)
    then show ?thesis using e LimCas by (intro account_goto [OF A, where t = t and p = "LimGet b l"]) (simp_all add: goto_fields)
  next
    case True
    then have s': "s' = goto t (LimInc b) (s\<lparr>e_limbo := (e_limbo s)(unat e := l # e_limbo s (unat e)), e_pushed := insert (snd l) (e_pushed s)\<rparr>)"
      using st LimCas by (simp add: limbo_step_def)
    have "lists s' = lists s + {#snd l#}" using small3 [OF e(1)] by (auto simp: s' goto_fields lists_def)
    then show ?thesis using e l LimCas A
      by (intro account_frame [OF A, where t = t and p = "LimInc b" and X = "{snd l}"]) (auto simp: s' goto_fields account_def)
  qed
next
  case (LimInc b)
  then have s': "s' = goto t (if b then Inside else Outside) (s\<lparr>e_nlimbo := e_nlimbo s + 1\<rparr>)" using st by (simp add: limbo_step_def)
  show ?thesis
    by (rule account_frame [OF A, where t = t and p = "if b then Inside else Outside" and X = "{}"])
      (use account_pc(1,3) [OF A, of t] account_pc(2) [OF A] LimInc in \<open>auto simp: s' goto_fields lists_def\<close>)
qed (use st in \<open>simp_all add: limbo_step_def\<close>)

lemma account_wait:
  assumes A: "account nw s" and st: "epochwait_step nw t s = Some s'"
  shows "account nw s'"
proof (cases "e_pc s t")
  case (ClAgain c ge r)
  then show ?thesis using st account_pc(1) [OF A, of t] by (auto simp: epochwait_step_def goto_fields intro: account_goto [OF A])
next
  case (ClWait c ge r g j)
  then show ?thesis using st account_pc(1) [OF A, of t]
    by (auto simp: epochwait_step_def goto_fields split: if_splits option.splits intro: account_goto [OF A])
qed (use st in \<open>simp_all add: epochwait_step_def\<close>)

lemma account_clean:
  assumes A: "account nw s" and st: "epochclean_step nw cmax t s = Some s'"
  shows "account nw s'"
proof (cases "e_pc s t")
  case (ClGet c)
  then show ?thesis using st account_pc(1,3) [OF A, of t] account_pc(2) [OF A] by (auto simp: epochclean_step_def goto_fields intro: account_goto [OF A])
next
  case (ClScan c ge i)
  then show ?thesis using st account_pc(1) [OF A, of t] by (auto simp: epochclean_step_def goto_fields split: if_splits intro: account_goto [OF A])
next
  case (ClTake ge)
  define k where "k = unat ((ge + 1) mod 3)"
  have k: "k < 3" "t < nw" "unat ge < 3" using account_pc(1) [OF A, of t] ClTake next_epoch_small by (auto simp: k_def)
  have s': "s' = goto t (ClSet ge (e_limbo s k)) (s\<lparr>e_limbo := (e_limbo s)(k := [])\<rparr>)" using st ClTake by (simp add: epochclean_step_def k_def Let_def)
  have "lists s' + mset (map snd (e_limbo s k)) = lists s" using small3 [OF k(1)] by (auto simp: s' goto_fields lists_def)
  then show ?thesis using k ClTake account_pc(2) [OF A]
    by (intro account_frame [OF A, where t = t and p = "ClSet ge (e_limbo s k)" and X = "{}"]) (simp_all add: s' goto_fields)
next
  case (ClSet ge ps)
  then have s': "s' = goto t (ClFree ps) (s\<lparr>e_epoch := (ge + 1) mod 3, e_adv := e_adv s + 1\<rparr>)" using st by (simp add: epochclean_step_def)
  show ?thesis
    by (rule account_frame [OF A, where t = t and p = "ClFree ps" and X = "{}"])
      (use account_pc(1) [OF A, of t] ClSet next_epoch_small [of ge] in \<open>auto simp: s' goto_fields lists_def\<close>)
next
  case (ClFree ps)
  show ?thesis
  proof (cases ps)
    case Nil
    then show ?thesis using st ClFree account_pc(1) [OF A, of t] by (auto simp: epochclean_step_def goto_fields intro: account_goto [OF A])
  next
    case (Cons l ls)
    then have s': "s' = goto t (ClDec ls) (reclaim l s)" using st ClFree by (simp add: epochclean_step_def)
    show ?thesis
      by (rule account_frame [OF A, where t = t and p = "ClDec ls" and X = "{}"])
        (use account_pc(1,3) [OF A, of t] account_pc(2) [OF A] ClFree Cons in \<open>auto simp: s' goto_fields lists_def reclaim_def\<close>)
  qed
next
  case (ClDec ps)
  then have s': "s' = goto t (ClFree ps) (s\<lparr>e_nlimbo := e_nlimbo s - 1\<rparr>)" using st by (simp add: epochclean_step_def)
  show ?thesis
    by (rule account_frame [OF A, where t = t and p = "ClFree ps" and X = "{}"])
      (use account_pc(1,3) [OF A, of t] account_pc(2) [OF A] ClDec in \<open>auto simp: s' goto_fields lists_def\<close>)
qed (use st in \<open>simp_all add: epochclean_step_def\<close>)

lemma account_same:
  assumes A: "account nw s" and f: "e_pc s' = e_pc s" "e_epoch s' = e_epoch s" "e_pushed s' = e_pushed s" "e_freed s' = e_freed s" "e_limbo s' = e_limbo s"
    "e_gone s' = e_gone s" "e_nlimbo s' = e_nlimbo s"
  shows "account nw s'"
  using A f by (simp add: account_def on_way_def releases_ok_def)

lemma account_call:
  assumes A: "account nw s" and st: "call_step nw cl early t ch s = Some s'"
  shows "account nw s'"
proof (cases ch)
  case (Release x i)
  let ?p = "LimGet (e_pc s t = Inside) (x, i)"
  have a: "e_pc s t = Inside \<or> e_pc s t = Outside" "i \<notin> e_freed s" "t < nw"
    "s' = goto t ?p (s\<lparr>e_freed := insert i (e_freed s), e_lab := (e_lab s)(i := e_adv s)\<rparr>)"
    using st Release by (auto simp: call_step_def split: if_splits)
  have np: "i \<notin> e_pushed s" using A a(2) by (auto simp: account_def)
  have nr: "releasing (e_pc s u) \<noteq> Some i" for u using account_pc(3) [OF A, of u i] a(2) by blast
  have "releases_ok s'" using A nr by (auto simp: account_def releases_ok_def a(4) goto_fields split: if_splits)
  moreover have "releasing (e_pc s' u) = Some j \<Longrightarrow> j \<in> e_freed s' - e_pushed s'" for u j
    using account_pc(3) [OF A, of u j] np by (auto simp: a(4) goto_fields split: if_splits)
  moreover have "on_way nw s' = on_way nw s"
    using sum_at [OF a(3), of "\<lambda>p. mset (map snd (in_hand p))" "e_pc s" ?p] a(1) by (auto simp: on_way_def a(4) goto_fields)
  moreover have "(\<Sum>t < nw. uncounted (e_pc s' t)) = (\<Sum>t < nw. uncounted (e_pc s t))"
    using sum_at [OF a(3), of uncounted "e_pc s" ?p] a(1) by (auto simp: a(4) goto_fields)
  moreover have "small_epoch nw u (e_pc s' u)" for u using account_pc(1) [OF A, of u] a(3) by (simp add: a(4) goto_fields)
  ultimately show ?thesis using A unfolding account_def by (auto simp: a(4) goto_fields)
next
  case Leave
  then show ?thesis using st account_pc(1) [OF A, of t]
    by (intro account_goto [OF A, where t = t and p = "Ending (e_lepoch s t)"]) (auto simp: call_step_def goto_fields split: if_splits)
next
  case Enter
  then show ?thesis using st by (auto simp: call_step_def goto_fields split: if_splits intro: account_goto [OF A])
next
  case Clean
  then show ?thesis using st by (auto simp: call_step_def goto_fields split: if_splits intro: account_goto [OF A])
qed (use st in \<open>auto simp: call_step_def split: if_splits intro: account_same [OF A]\<close>)

lemma account_reach: "ereach nw cmax cl early blocks s \<Longrightarrow> account nw s"
proof (induction rule: ereach.induct)
  case ereach_init
  show ?case by (simp add: account_def epinit_def releases_ok_def on_way_def)
next
  case (ereach_step s t ch s')
  note A = ereach_step.IH
  have "account nw (epochstart t ge s)" if "e_pc s t = Starting ge" for ge
    using that account_pc(1) [OF A, of t]
    by (intro account_goto [OF A, where t = t and p = Inside]) (auto simp: epochstart_def goto_fields)
  moreover have "account nw (epochend t ge s)" if "e_pc s t = Ending ge" for ge
    using that account_pc(1) [OF A, of t]
    by (intro account_goto [OF A, where t = t and p = Outside]) (auto simp: epochend_def goto_fields)
  ultimately show ?case
    using ereach_step.hyps(2) account_limbo [OF A] account_wait [OF A] account_clean [OF A] account_call [OF A]
    by (auto simp: epstep_def split: if_splits epc.splits)
qed

text \<open>
  C37: Whoever cleans and in whatever order blocks are released, every block that \<^verbatim>\<open>limbo\<close> has pushed is in exactly one place: one of
  the three lists, the hands of a process that cleans, or reclaimed, so none is lost and none is reclaimed
  twice. \<^verbatim>\<open>nlimbo\<close> counts those not reclaimed, up to the processes that are about to count.
\<close>

theorem released_blocks_accounted:
  assumes "ereach nw cmax cl early blocks s"
  shows "on_way nw s + mset (e_gone s) = mset_set (e_pushed s) \<and> distinct (e_gone s)
     \<and> e_nlimbo s + (\<Sum>t < nw. uncounted (e_pc s t)) = int (size (on_way nw s))"
proof -
  have A: "on_way nw s + mset (e_gone s) = mset_set (e_pushed s)" "finite (e_pushed s)"
    "e_nlimbo s + (\<Sum>t < nw. uncounted (e_pc s t)) + int (length (e_gone s)) = int (card (e_pushed s))"
    using account_reach [OF assms] unfolding account_def by blast+
  have "count (mset (e_gone s)) i \<le> count (mset_set (e_pushed s)) i" for i using arg_cong [OF A(1), of "\<lambda>M. count M i"] by simp
  then have "count (mset (e_gone s)) i \<le> 1" for i by (rule order_trans) (cases "i \<in> e_pushed s"; simp add: A(2))
  then have "count (mset (e_gone s)) i = (if i \<in> set (e_gone s) then 1 else 0)" for i
    using count_greater_zero_iff [of "mset (e_gone s)" i] by (cases "i \<in> set (e_gone s)") (simp_all add: le_antisym Suc_le_eq not_in_iff)
  then have "distinct (e_gone s)" unfolding distinct_count_atmost_1 by blast
  moreover have "int (size (on_way nw s)) + int (length (e_gone s)) = int (card (e_pushed s))"
    using arg_cong [OF A(1), of size] by simp
  ultimately show ?thesis using A by simp
qed

theorem released_blocks_accounted_witness:
  "\<exists>s. ereach 2 0 (\<lambda>t. t = 0) False {1} s \<and> on_way 2 s + mset (e_gone s) = {#1#} \<and> e_nlimbo s + (\<Sum>t < 2. uncounted (e_pc s t)) = 1"
proof -
  obtain s where s: "eprun 2 0 (\<lambda>t. t = 0) False sample_epochs (epinit {1}) = Some s" "e_pushed s = {1}" "e_gone s = []"
    by (simp add: sample_epochs_def ep_run)
  have r: "ereach 2 0 (\<lambda>t. t = 0) False {1} s" by (rule eprun_ereach [OF ereach_init s(1)])
  then show ?thesis using released_blocks_accounted [OF r] s(2,3) by auto
qed

end
