(* ===== verification/Spec2Isabelle.thy ===== *)
theory Spec2Isabelle
  imports Format_Spec Store_Spec Samplefs Samplepivot Formatter Checkspec Syncq Recovery Leafsplit Epochs
begin

text \<open>
  \<^bold>\<open>GEFS for FUSE: a verification library.\<close>

  The repository is a FUSE port of GEFS, a copy-on-write filesystem on B-epsilon trees. Its own
  code is \<^verbatim>\<open>src/src/gefs_storage.c\<close> and \<^verbatim>\<open>.h\<close> (the storage layer), \<^verbatim>\<open>gefs_fuse.c\<close> (the FUSE callbacks),
  \<^verbatim>\<open>gefs_ream.c\<close> (\<^verbatim>\<open>mkfs.gefs\<close>) and \<^verbatim>\<open>gefs_check.c\<close> (\<^verbatim>\<open>fsck.gefs\<close>). The Plan 9 server it was derived from lies
  beside it and is not built; its allocation log, its write queue, the nodes of its tree and its epochs
  are part of this library because the port keeps their formats and their design.

  \<^bold>\<open>How the parts work together.\<close> A callback resolves a path by looking up directory entries in the
  active tree; a lookup walks from the root block to a leaf through the block cache. A change
  collects messages and gives them to \<^verbatim>\<open>gefs_btupsert\<close>, which merges them with the root leaf into a
  newly allocated block. File data is written to new blocks whose pointers are entries of the tree.
  \<^verbatim>\<open>gefs_sync_fs\<close> stores the active tree in the snapshot catalog and writes arena headers and
  superblocks. Opening an image reads them back and replays the allocation logs.

  \<^bold>\<open>The theories,\<close> in the order of the code:

  \<^item> \<^verbatim>\<open>Prelude\<close>: bytes, memory as a function from offsets, big-endian packing.
  \<^item> \<^verbatim>\<open>MetroHash\<close>: the checksums of the port and of \<^verbatim>\<open>hash.c\<close>.
  \<^item> \<^verbatim>\<open>Serial\<close>: keys, directory entries, block pointers, trees, the superblock.
  \<^item> \<^verbatim>\<open>Keys\<close>: the key order and the sort of a batch.
  \<^item> \<^verbatim>\<open>Blocks\<close>, \<^verbatim>\<open>Search\<close>: entries and messages in a block, block headers, binary search. The locale
    \<^verbatim>\<open>keyed_items\<close> is what the search needs; it is interpreted for entries and for messages.
  \<^item> \<^verbatim>\<open>Cache\<close>, \<^verbatim>\<open>Store\<close>: the block cache as a heap of blocks with pointers, its invariant, and the locale
    \<^verbatim>\<open>block_store\<close> that states what clients may rely on; the cache is its interpretation.
  \<^item> \<^verbatim>\<open>Btree\<close>: lookup, and abstract trees (\<^verbatim>\<open>tree_at\<close>, \<^verbatim>\<open>tree_get\<close>) that it refines.
  \<^item> \<^verbatim>\<open>Context\<close>: \<^verbatim>\<open>GefsCtx\<close>, the allocation log, the allocator, the invariant \<^verbatim>\<open>fs_ok\<close>.
  \<^item> \<^verbatim>\<open>Upsert\<close>: \<^verbatim>\<open>gefs_btupsert\<close> against the reference merge \<^verbatim>\<open>merge_spec\<close>.
  \<^item> \<^verbatim>\<open>Snapshot\<close>, \<^verbatim>\<open>Fileops\<close>, \<^verbatim>\<open>Scan\<close>, \<^verbatim>\<open>Fileio\<close>: snapshots and mounting, the namespace operations, scans and
    directory listings, file contents and symbolic links.
  \<^item> \<^verbatim>\<open>Ream\<close>, \<^verbatim>\<open>Check\<close>, \<^verbatim>\<open>Fuse\<close>: the formatter, the checker, the callbacks, and a mount as a step relation.
  \<^item> \<^verbatim>\<open>Namespace\<close>, \<^verbatim>\<open>Dirspec\<close>, \<^verbatim>\<open>Listing\<close>, \<^verbatim>\<open>Filespec\<close>: the namespace, listing and file operations against a map
    of directory entries and the bytes of files.
  \<^item> \<^verbatim>\<open>Mount\<close>, \<^verbatim>\<open>Pathspec\<close>: the abstract filesystem \<^verbatim>\<open>afs\<close>, the locale \<^verbatim>\<open>budgeted_service\<close> and its interpretation
    on sixteen of the eighteen registered callbacks (\<^verbatim>\<open>statfs\<close> and \<^verbatim>\<open>fsync\<close> have their models in \<^verbatim>\<open>Fuse\<close>); what paths lead to
    after an update.
  \<^item> \<^verbatim>\<open>Reamspec\<close>, \<^verbatim>\<open>Formatter\<close>: what the formatter leaves on the image, and what opening it then does.
  \<^item> \<^verbatim>\<open>Syncspec\<close>: what \<^verbatim>\<open>gefs_sync_fs\<close> makes durable, and the snapshot catalog: \<^verbatim>\<open>catalog\<close> is the invariant under
    which creating, opening and deleting snapshots is verified, \<^verbatim>\<open>find_snap\<close> the reference of \<^verbatim>\<open>gefs_opensnap\<close>.
  \<^item> \<^verbatim>\<open>Checkspec\<close>: the verdict of \<^verbatim>\<open>fsck.gefs\<close> on leaves and on trees of every height.
  \<^item> \<^verbatim>\<open>Syncq\<close>: the write queue of \<^verbatim>\<open>blk.c\<close>, a heap in an array, against the locale \<^verbatim>\<open>ordered_queue\<close>.
  \<^item> \<^verbatim>\<open>Ranges\<close>, \<^verbatim>\<open>Alloclog\<close>, \<^verbatim>\<open>Crash\<close>, \<^verbatim>\<open>Recovery\<close>: the free ranges and the allocation log of \<^verbatim>\<open>blk.c\<close>. \<^verbatim>\<open>tracks\<close> relates an
    arena in memory to its log on disk and in memory, \<^verbatim>\<open>astep\<close> is what the server does to an arena, and
    \<^verbatim>\<open>saved\<close> what a crash cannot take away; \<^verbatim>\<open>Recovery\<close> has the properties of formatting, running and recovery.
  \<^item> \<^verbatim>\<open>Nodes\<close>, \<^verbatim>\<open>Leafspec\<close>, \<^verbatim>\<open>Buffers\<close>, \<^verbatim>\<open>Pivots\<close>: nodes of the tree of \<^verbatim>\<open>tree.c\<close>, messages and how they move down: \<^verbatim>\<open>updateleaf\<close>
    against the effect of messages key by key (\<^verbatim>\<open>settle\<close>), \<^verbatim>\<open>fastupsert\<close> against the stable sort, \<^verbatim>\<open>victim\<close> against
    the sizes of the children's messages, \<^verbatim>\<open>updatepiv\<close> against the stable merge of the messages that stay with those from above.
  \<^item> \<^verbatim>\<open>Splits\<close>, \<^verbatim>\<open>Splitspec\<close>, \<^verbatim>\<open>Leafsplit\<close>: splitting, merging and rotating those nodes and the walk \<^verbatim>\<open>flush\<close> that rebuilds a path;
    \<^verbatim>\<open>splitpiv\<close> and \<^verbatim>\<open>splitleaf\<close> against the two halves of what they rebuild.
  \<^item> \<^verbatim>\<open>Epochs\<close>: the deferred reclamation of \<^verbatim>\<open>blk.c\<close> as steps of processes over shared memory. \<^verbatim>\<open>einv\<close> is the invariant under one
    cleaning process, \<^verbatim>\<open>account\<close> the one that holds always.
  \<^item> \<^verbatim>\<open>Format_Spec\<close>, \<^verbatim>\<open>Store_Spec\<close> and this theory: the other properties. \<^verbatim>\<open>Sample\<close>, \<^verbatim>\<open>Samplefs\<close> and
    \<^verbatim>\<open>Samplepivot\<close> hold the concrete contexts on which they are exercised.

  \<^bold>\<open>Modelling.\<close> A pointer is an index into a heap, \<^verbatim>\<open>NULL\<close> is \<open>None\<close>. A function that would leave a buffer,
  dereference a null pointer or overflow a signed integer returns \<open>None\<close>, so that a result
  \<open>Some\<close> says that none of this happens. Errors are \<open>Inl\<close> of the error number. Fixed-width integers are
  words where they wrap, and integers with the conversion written out for the 16-bit counters of a
  block. The device is a function from offsets to bytes with a size; writes and reads of it succeed
  inside it. The clock (before the year 2262), the user ids and the way an image file opens are arguments. \<^verbatim>\<open>calloc\<close> succeeds.
  An operation of the allocation log is one step, also when it writes two blocks; a process of \<^verbatim>\<open>Epochs\<close> releases a block
  once, and when \<open>early\<close> is false only after it was unlinked, which is up to the callers.

  \<^bold>\<open>Fuel and loops.\<close> Loops over blocks of a file, entries and messages are functions with termination
  proofs. Loops that follow pointers or the log chain are partial functions, whose results the
  lemmas prove to exist. The height of a tree bounds the descent.

  \<^bold>\<open>What the properties need.\<close> The mounted tree is a single leaf, which is the only shape \<^verbatim>\<open>gefs_btupsert\<close>
  builds; lookup is verified for trees of every height. \<^verbatim>\<open>stands_for\<close> carries a budget of free blocks
  and leaf bytes, because the code has no check that a leaf is full (see \<^verbatim>\<open>setval_writes_outside\<close>).
  Paths are C strings whose last component has at most 244 bytes. A lookup is verified for \<^verbatim>\<open>tree_tame\<close> messages: a
  deletion followed by a stat message makes the code report a key that is gone (\<^verbatim>\<open>stat_revives\<close>).

  \<^bold>\<open>Not modelled.\<close> The Plan 9 server apart from its sort, checksum, allocation log, write queue, epochs and the
  node operations above (its 9P service, console and block cache are processes that share memory), the diagnostic reader, the test
  programs, argument parsing and printing, memory exhaustion, short writes and failing device
  writes, concurrency (the callbacks share one context and take no lock).
\<close>

section \<open>The mounted filesystem\<close>

text \<open>
  C1: any sequence of the sixteen requests of \<^verbatim>\<open>req\<close> (create, mkdir, unlink, rmdir, rename, truncate, chmod,
  chown, utimens, symlink, readlink, readdir, open, write, read, getattr) on a writable mount is
  answered, request by request, exactly as the abstract filesystem answers it, errors included, and
  every one of these callbacks returns. The requests must be \<^verbatim>\<open>allowed\<close> (the restrictions are listed
  there) and their cost in blocks and leaf bytes covered by the budget, which leaves \<^verbatim>\<open>ENOSPC\<close> and full
  leaves out. Of the eighteen registered callbacks \<^verbatim>\<open>statfs\<close>, which only reads the superblock, and
  \<^verbatim>\<open>fsync\<close> (see \<^verbatim>\<open>sync_publishes_active_tree\<close>) are not requests here. The context still stands for the
  abstract state at the end.
\<close>

theorem requests_refine_filesystem:
  assumes "stands_for s a (b + sum_list (map req_blocks qs)) (r + sum_list (map req_room qs))" and "0 \<le> b" and "0 \<le> r"
    and "all_allowed a_serve allowed qs a"
  shows "\<exists>s'. run_all serve qs s = Some (s', snd (spec_all a_serve qs a)) \<and> stands_for s' (fst (spec_all a_serve qs a)) b r"
  by (rule mount.trace [OF assms])

text \<open>
  On the sample mount: write three bytes to a file, read them, link to it, read the link, list the root.
\<close>

theorem requests_refine_filesystem_witness:
  "\<exists>s'. run_all serve [ReqWrite sample_env [0x2f, 0x61] [1, 2, 3] 0, ReqRead [0x2f, 0x61] 3 0, ReqSymlink sample_env sample_env [0x61] [0x2f, 0x63],
      ReqReadlink [0x2f, 0x63] 16, ReqReaddir [0x2f]] sample_mount
    = Some (s', [Count 3, Data [1, 2, 3], Done, Data [0x61, 0], Names [cstr ''.'', cstr ''..''] 2 {[0x61], [0x63]}])"
proof -
  let ?qs = "[ReqWrite sample_env [0x2f, 0x61] [1, 2, 3] 0, ReqRead [0x2f, 0x61] 3 0, ReqSymlink sample_env sample_env [0x61] [0x2f, 0x63],
      ReqReadlink [0x2f, 0x63] 16, ReqReaddir [0x2f]]"
  note defs = sample_afs_def a_create_def at_parent_def split_path_def resolve_def node_def a_set_def writable_def linkable_def name_fits_def
    new_dir_def zero_dir_def a_write_def a_read_def a_symlink_def a_readlink_def place_def splice_def written_dir_def bump_vers_def is_dir_def
    upt_rec nblks_def
  have names: "names_in ([(0, [0x61]) \<mapsto> w, (- 1, []) \<mapsto> x, (0, [0x61]) \<mapsto> y, (0, [0x63]) \<mapsto> z]) 0 = {[0x61], [0x63]}" for w x y z
    by (auto simp: names_in_def)
  have "all_allowed a_serve allowed ?qs sample_afs" by (simp add: defs)
  moreover have "snd (spec_all a_serve ?qs sample_afs)
      = [Count 3, Data [1, 2, 3], Done, Data [0x61, 0], Names [cstr ''.'', cstr ''..''] 2 {[0x61], [0x63]}]"
    using names by (simp add: defs)
  moreover have "stands_for sample_mount sample_afs (0 + sum_list (map req_blocks ?qs)) (0 + sum_list (map req_room ?qs))"
    using sample_stands [of 8 2470] by (simp add: nblks_def)
  ultimately show ?thesis using requests_refine_filesystem [of sample_mount sample_afs 0 ?qs 0] by auto
qed

text \<open>
  C5: after \<^verbatim>\<open>gefs_fuse_write\<close> writes bytes at an offset of a regular file, \<^verbatim>\<open>gefs_fuse_read\<close> of as
  many bytes at that offset returns them, whatever the file held before and however the range
  lies across 16 KiB blocks.
\<close>

theorem write_then_read:
  assumes st: "stands_for s a (b + req_blocks (ReqWrite e p bs off)) (r + req_room (ReqWrite e p bs off))" and nn: "0 \<le> b" "0 \<le> r"
    and ok: "writable (a_dirs a) p" "off + length bs < 2 ^ 63" and d: "resolve (a_dirs a) p = Inr d" "\<not> is_dir d"
  shows "\<exists>s1 s2. fuse_write e s p bs off = Some (s1, Inr (length bs)) \<and> fuse_read s1 p (length bs) off = Some (s2, Inr bs)"
proof -
  note w = a_write_read [OF ok d refl, of e]
  obtain s1 where s1: "serve (ReqWrite e p bs off) s = Some (s1, Count (length bs))" "stands_for s1 (fst (a_write a e p bs off)) b r"
    using mount.answer [OF st nn] ok w(1) by auto
  then obtain s2 where "serve (ReqRead p (length bs) off) s1 = Some (s2, Data bs)"
    using mount.answer [of s1 "fst (a_write a e p bs off)" b "ReqRead p (length bs) off" r] nn w(2,3) by auto
  then show ?thesis using s1(1) by (auto dest: replyD)
qed

text \<open>Writing two bytes to the empty file \<^verbatim>\<open>/a\<close> behind a hole.\<close>

theorem write_then_read_witness:
  "\<exists>s1 s2. fuse_write sample_env sample_mount [0x2f, 0x61] [7, 8] 100 = Some (s1, Inr 2)
     \<and> fuse_read s1 [0x2f, 0x61] 2 100 = Some (s2, Inr [7, 8])"
  using write_then_read [of sample_mount sample_afs 0 sample_env "[0x2f, 0x61]" "[7, 8]" 100 0 sample_file] sample_stands [of 3 641]
  by (simp add: sample_afs_def split_path_def resolve_def node_def writable_def name_fits_def is_dir_def nblks_def flip: numeral_2_eq_2)

text \<open>
  C6: after \<^verbatim>\<open>gefs_fuse_create\<close> of a free name, \<^verbatim>\<open>gefs_fuse_getattr\<close> of the path reports a regular file
  (\<^verbatim>\<open>S_IFREG\<close>) with the next free id as inode number, the permission bits that were asked for, one link,
  length and blocks 0, and the user and group of the process that serves the mount (\<^verbatim>\<open>getuid\<close>, \<^verbatim>\<open>getgid\<close>);
  creating it again fails with \<^verbatim>\<open>EEXIST\<close>.
\<close>

theorem create_then_getattr:
  assumes st: "stands_for s a (b + 2) (r + 1188)" and nn: "0 \<le> b" "0 \<le> r" and ok: "creatable (a_dirs a) p"
  shows "\<exists>s1 s2 s3 d st. fuse_create e s p m = Some (s1, Inr d) \<and> fuse_getattr e s1 p = Some (s2, Inr st)
     \<and> st_ino st = a_next a \<and> st_mode st = 0x8000 OR (m AND 0x1FF) \<and> st_nlink st = 1 \<and> st_size st = 0 \<and> st_blocks st = 0
     \<and> st_uid st = e_uid e \<and> st_gid st = e_gid e
     \<and> fuse_create e' s2 p m' = Some (s3, Inl EEXIST)"
proof -
  have fit: "name_fits p" using ok by (simp add: creatable_def)
  obtain parent name a' where c: "a_serve (ReqCreate e p m) a = (a', Done)" "split_path p = Some (parent, name)"
    "resolve (a_dirs a') p = Inr (new_dir e (a_next a) QTFILE (m AND 0x1FF) name)"
    using a_create_found [OF ok refl, of 1 "new_dir e (a_next a) QTFILE (m AND 0x1FF)"] by auto
  obtain s1 where s1: "serve (ReqCreate e p m) s = Some (s1, Done)" "stands_for s1 a' (b + 1) (r + 594)"
    using mount.answer [of s a "b + 1" "ReqCreate e p m" "r + 594"] st nn fit c(1) by (auto simp: ac_simps)
  obtain s2 where s2: "serve (ReqGetattr e p) s1 = Some (s2, Attr (attr_of e (new_dir e (a_next a) QTFILE (m AND 0x1FF) name)))"
    "stands_for s2 a' (b + 1) (r + 594)"
    using mount.answer [of s1 a' "b + 1" "ReqGetattr e p" "r + 594"] s1(2) nn c(3) by auto
  have "snd (a_serve (ReqCreate e' p m') a') = Err EEXIST"
    using created_twice [OF ok refl] c(1) by (simp add: a_set_def)
  then obtain s3 where "serve (ReqCreate e' p m') s2 = Some (s3, Err EEXIST)"
    using mount.answer [of s2 a' b "ReqCreate e' p m'" r] s2(2) nn fit by auto
  then have "\<exists>d. fuse_create e s p m = Some (s1, Inr d)" "fuse_create e' s2 p m' = Some (s3, Inl EEXIST)"
    "fuse_getattr e s1 p = Some (s2, Inr (attr_of e (new_dir e (a_next a) QTFILE (m AND 0x1FF) name)))"
    using s1(1) s2(1) by (auto dest!: replyD)
  then show ?thesis using attr_of_new_file [of e "a_next a" m name] by blast
qed

theorem create_then_getattr_witness:
  "\<exists>s1 s2 s3 d st. fuse_create sample_env sample_mount [0x2f, 0x62] 0x1A4 = Some (s1, Inr d)
     \<and> fuse_getattr sample_env s1 [0x2f, 0x62] = Some (s2, Inr st)
     \<and> st_ino st = 16 \<and> st_mode st = 0x81A4 \<and> st_nlink st = 1 \<and> st_size st = 0 \<and> st_blocks st = 0 \<and> st_uid st = 0 \<and> st_gid st = 0
     \<and> fuse_create sample_env s2 [0x2f, 0x62] 0x1FF = Some (s3, Inl EEXIST)"
  using create_then_getattr [of sample_mount sample_afs 0 0 "[0x2f, 0x62]" sample_env "0x1A4" sample_env "0x1FF"] sample_stands [of 2 1188]
  by (simp add: sample_afs_def sample_env_def split_path_def resolve_def node_def creatable_def name_fits_def)

text \<open>
  C7: \<^verbatim>\<open>gefs_fuse_unlink\<close> of a path that leads to no directory removes exactly its entry: the mount then stands
  for the abstract filesystem without that entry, every other entry, the file contents and the next
  id as they were, and \<^verbatim>\<open>gefs_fuse_getattr\<close> of the path fails with \<^verbatim>\<open>ENOENT\<close>. Unlinking a directory fails with
  \<^verbatim>\<open>EISDIR\<close>, and the mount stands for the same abstract filesystem as before.
\<close>

theorem unlink_then_getattr:
  assumes st: "stands_for s a (b + 1) (r + 594)" and nn: "0 \<le> b" "0 \<le> r" and ok: "writable (a_dirs a) p"
    and d: "resolve (a_dirs a) p = Inr d"
  shows "\<exists>s1 s2 k. place (a_dirs a) p = Some k \<and> a_dirs a k = Some d
     \<and> fuse_unlink s p = Some (s1, if qtype (xqid d) AND QTDIR = 0 then Inr () else Inl EISDIR)
     \<and> stands_for s1 (if qtype (xqid d) AND QTDIR = 0 then a\<lparr>a_dirs := (a_dirs a)(k := None)\<rparr> else a) b r
     \<and> fuse_getattr e s1 p = Some (s2, if qtype (xqid d) AND QTDIR = 0 then Inl ENOENT else Inr (attr_of e d))"
proof -
  obtain parent name where sp: "split_path p = Some (parent, name)" "length p \<le> 255" "name \<noteq> []" "name \<noteq> [0x2e]" "name_fits p"
    using ok d by (auto simp: writable_def split: option.splits)
  obtain pd where pd: "resolve (a_dirs a) parent = Inr pd" "a_dirs a (qpath (xqid pd), name) = Some d"
    "place (a_dirs a) p = Some (qpath (xqid pd), name)"
    using resolve_place [OF d sp(1-4)] by blast
  obtain er where er: "resolve ((a_dirs a)((qpath (xqid pd), name) := None)) p = Inl er"
    using resolve_removed [OF sp(1-4) pd(1)] by blast
  let ?a = "if qtype (xqid d) AND QTDIR = 0 then a\<lparr>a_dirs := (a_dirs a)((qpath (xqid pd), name) := None)\<rparr> else a"
  have u: "a_serve (ReqUnlink p) a = (?a, if qtype (xqid d) AND QTDIR = 0 then Done else Err EISDIR)"
    using d sp pd by (simp add: a_unlink_def at_parent_def a_set_def)
  obtain s1 where s1: "serve (ReqUnlink p) s = Some (s1, if qtype (xqid d) AND QTDIR = 0 then Done else Err EISDIR)" "stands_for s1 ?a b r"
    using mount.answer [of s a b "ReqUnlink p" r] st nn sp(5) u by (auto simp del: a_serve.simps serve.simps)
  then obtain s2 where "serve (ReqGetattr e p) s1 = Some (s2, snd (a_serve (ReqGetattr e p) ?a))"
    using mount.answer [of s1 ?a b "ReqGetattr e p" r] nn by auto
  then show ?thesis
    using s1 d pd er by (intro exI [of _ s1] exI [of _ s2] exI [of _ "(qpath (xqid pd), name)"]) (auto dest!: replyD split: if_splits)
qed

theorem unlink_then_getattr_witness:
  "\<exists>s1 s2. fuse_unlink sample_mount [0x2f, 0x61] = Some (s1, Inr ())
     \<and> stands_for s1 (sample_afs\<lparr>a_dirs := (a_dirs sample_afs)((0, [0x61]) := None)\<rparr>) 0 0
     \<and> fuse_getattr sample_env s1 [0x2f, 0x61] = Some (s2, Inl ENOENT)"
  using unlink_then_getattr [of sample_mount sample_afs 0 0 "[0x2f, 0x61]" sample_file sample_env] sample_stands [of 1 594]
  by (simp add: sample_afs_def split_path_def resolve_def node_def writable_def name_fits_def place_def)

text \<open>
  C8: \<^verbatim>\<open>gefs_fuse_rename\<close> of an entry to a free name moves it: the new path then has the attributes
  the old one had, and the old path fails with \<^verbatim>\<open>ENOENT\<close>. Both parents must be reachable without the
  entry itself, which the code does not check.
\<close>

theorem rename_then_getattr:
  assumes st: "stands_for s a (b + 1) (r + 594)" and nn: "0 \<le> b" "0 \<le> r"
    and old: "writable (a_dirs a) p" "resolve (a_dirs a) p = Inr d" "place (a_dirs a) p = Some k"
      "split_path p = Some (parent, name)" "resolve ((a_dirs a)(k := None)) parent = Inr pd"
    and new: "creatable ((a_dirs a)(k := None)) p'" "place (a_dirs a) p' \<noteq> Some k"
  shows "\<exists>s1 s2 s3. fuse_rename s p p' = Some (s1, Inr ())
     \<and> fuse_getattr e s1 p' = Some (s2, Inr (attr_of e d)) \<and> fuse_getattr e s2 p = Some (s3, Inl ENOENT)"
proof -
  obtain D' where D': "a_rename (a_dirs a) p p' = Inr D'" "resolve D' p = Inl ENOENT" "\<exists>d'. resolve D' p' = Inr d' \<and> attr_of e d' = attr_of e d"
    using a_rename_found [OF old new, of e] by blast
  have fit: "name_fits p" "name_fits p'" using old(1) new(1) by (auto simp: writable_def creatable_def)
  let ?a = "a\<lparr>a_dirs := D'\<rparr>"
  have "a_serve (ReqRename p p') a = (?a, Done)" using D'(1) by (simp add: a_set_def)
  then obtain s1 where s1: "serve (ReqRename p p') s = Some (s1, Done)" "stands_for s1 ?a b r"
    using mount.answer [of s a b "ReqRename p p'" r] st nn fit old(3) new(2) by auto
  obtain s2 where s2: "serve (ReqGetattr e p') s1 = Some (s2, Attr (attr_of e d))" "stands_for s2 ?a b r"
    using mount.answer [of s1 ?a b "ReqGetattr e p'" r] s1(2) nn D'(3) by auto
  obtain s3 where "serve (ReqGetattr e p) s2 = Some (s3, Err ENOENT)"
    using mount.answer [of s2 ?a b "ReqGetattr e p" r] s2(2) nn D'(2) by auto
  then show ?thesis using s1(1) s2(1) by (auto dest!: replyD)
qed

theorem rename_then_getattr_witness:
  "\<exists>s1 s2 s3. fuse_rename sample_mount [0x2f, 0x61] [0x2f, 0x62] = Some (s1, Inr ())
     \<and> fuse_getattr sample_env s1 [0x2f, 0x62] = Some (s2, Inr (attr_of sample_env sample_file))
     \<and> fuse_getattr sample_env s2 [0x2f, 0x61] = Some (s3, Inl ENOENT)"
  using rename_then_getattr [of sample_mount sample_afs 0 0 "[0x2f, 0x61]" sample_file "(0, [0x61])" "[0x2f]" "[0x61]" sample_root "[0x2f, 0x62]" sample_env]
    sample_stands [of 1 594]
  by (simp add: sample_afs_def split_path_def resolve_def node_def writable_def creatable_def name_fits_def place_def)

text \<open>
  C9: \<^verbatim>\<open>gefs_fuse_rmdir\<close> of a directory that still has an entry fails with \<^verbatim>\<open>ENOTEMPTY\<close>, and the
  filesystem is as it was.
\<close>

theorem rmdir_refuses_full:
  assumes "stands_for s a (b + 1) (r + 594)" and "0 \<le> b" and "0 \<le> r" and "name_fits p" and "resolve (a_dirs a) p = Inr d" and "is_dir d"
    and "n \<noteq> []" and "a_dirs a (qpath (xqid d), n) = Some c"
  shows "\<exists>s'. fuse_rmdir s p = Some (s', Inl ENOTEMPTY) \<and> stands_for s' a b r"
proof -
  have "a_serve (ReqRmdir p) a = (a, Err ENOTEMPTY)"
    using assms(5-8) by (auto simp: a_rmdir_def is_dir_def a_set_def)
  then show ?thesis using mount.answer [of s a b "ReqRmdir p" r] assms(1-4) by (auto dest: replyD)
qed

theorem rmdir_refuses_full_witness:
  "\<exists>s'. fuse_rmdir sample_mount [0x2f] = Some (s', Inl ENOTEMPTY) \<and> stands_for s' sample_afs 0 0"
  by (rule rmdir_refuses_full [where d = sample_root and n = "[0x61]" and c = sample_file])
    (use sample_stands in \<open>simp_all add: sample_afs_def resolve_def node_def name_fits_def split_path_def is_dir_def\<close>)

text \<open>
  C27: \<^verbatim>\<open>gefs_fuse_truncate\<close> only changes the length that is recorded. After a file is cut to length 0
  and extended to its old length again, \<^verbatim>\<open>gefs_fuse_read\<close> returns its old bytes, where POSIX asks
  for zeros.
\<close>

theorem truncate_keeps_old_bytes:
  assumes st: "stands_for s a (b + 2) (r + 1188)" and nn: "0 \<le> b" "0 \<le> r" and ok: "writable (a_dirs a) p"
    and d: "resolve (a_dirs a) p = Inr d" "\<not> is_dir d"
  shows "\<exists>s1 s2 s3. fuse_truncate e s p 0 = Some (s1, Inr ()) \<and> fuse_truncate e s1 p (xlength d) = Some (s2, Inr ())
     \<and> fuse_read s2 p (unat (xlength d)) 0 = Some (s3, Inr (map (a_file a (qpath (xqid d))) [0..<unat (xlength d)]))"
proof -
  obtain parent name where sp: "split_path p = Some (parent, name)" "length p \<le> 255" "name \<noteq> []" "name \<noteq> [0x2e]" "name_fits p"
    "unat (xlength d) < 2 ^ 63"
    using ok d(1) by (auto simp: writable_def split: option.splits)
  let ?f = "\<lambda>n d. bump_vers (d\<lparr>xlength := n, xmtime := now_ns e\<rparr>)"
  let ?d1 = "(?f 0 d)\<lparr>xname := Some name\<rparr>" and ?d2 = "(?f (xlength d) ((?f 0 d)\<lparr>xname := Some name\<rparr>))\<lparr>xname := Some name\<rparr>"
  obtain D1 where D1: "a_update (a_dirs a) p (?f 0) = Inr D1" "resolve D1 p = Inr ?d1"
    using a_update_found [OF d(1) sp(1-4), of "?f 0"] by (auto simp: bump_vers_def)
  obtain D2 where D2: "a_update D1 p (?f (xlength d)) = Inr D2" "resolve D2 p = Inr ?d2"
    using a_update_found [OF D1(2) sp(1-4), of "?f (xlength d)"] by (auto simp: bump_vers_def)
  obtain s1 where s1: "serve (ReqTruncate e p 0) s = Some (s1, Done)" "stands_for s1 (a\<lparr>a_dirs := D1\<rparr>) (b + 1) (r + 594)"
    using mount.answer [of s a "b + 1" "ReqTruncate e p 0" "r + 594"] st nn sp(5) D1(1) by (auto simp: a_set_def ac_simps)
  obtain s2 where s2: "serve (ReqTruncate e p (xlength d)) s1 = Some (s2, Done)" "stands_for s2 (a\<lparr>a_dirs := D2\<rparr>) b r"
    using mount.answer [of s1 "a\<lparr>a_dirs := D1\<rparr>" b "ReqTruncate e p (xlength d)" r] s1(2) nn sp(5) D2(1) by (auto simp: a_set_def)
  have "allowed (ReqRead p (unat (xlength d)) 0) (a\<lparr>a_dirs := D2\<rparr>)" using D2(2) sp(6) by (simp add: bump_vers_def)
  moreover have "a_read (a\<lparr>a_dirs := D2\<rparr>) p (unat (xlength d)) 0 = Data (map (a_file a (qpath (xqid d))) [0..<unat (xlength d)])"
    using D2(2) d(2) by (simp add: a_read_def bump_vers_def is_dir_def)
  ultimately obtain s3 where "serve (ReqRead p (unat (xlength d)) 0) s2 = Some (s3, Data (map (a_file a (qpath (xqid d))) [0..<unat (xlength d)]))"
    using mount.answer [of s2 "a\<lparr>a_dirs := D2\<rparr>" b "ReqRead p (unat (xlength d)) 0" r] s2(2) nn by auto
  then show ?thesis using s1(1) s2(1) by (auto dest!: replyD)
qed

text \<open>Three bytes written to \<^verbatim>\<open>/a\<close> are back after it was cut to nothing and extended.\<close>

theorem truncate_keeps_old_bytes_witness:
  "\<exists>s0 s1 s2 s3. fuse_write sample_env sample_mount [0x2f, 0x61] [7, 8, 9] 0 = Some (s0, Inr 3)
     \<and> fuse_truncate sample_env s0 [0x2f, 0x61] 0 = Some (s1, Inr ()) \<and> fuse_truncate sample_env s1 [0x2f, 0x61] 3 = Some (s2, Inr ())
     \<and> fuse_read s2 [0x2f, 0x61] 3 0 = Some (s3, Inr [7, 8, 9])"
proof -
  let ?d = "written_dir sample_env 3 sample_file" and ?w = "ReqWrite sample_env [0x2f, 0x61] [7, 8, 9] 0"
  let ?a = "fst (a_serve ?w sample_afs)"
  note defs = sample_afs_def split_path_def resolve_def node_def writable_def name_fits_def a_write_def place_def
  have d: "xlength ?d = 3" "\<not> is_dir ?d" "qpath (xqid ?d) = 5" by (simp_all add: written_dir_def bump_vers_def is_dir_def)
  have "allowed ?w sample_afs" "snd (a_serve ?w sample_afs) = Count 3" by (simp_all add: defs)
  then obtain s0 where s0: "serve ?w sample_mount = Some (s0, Count 3)" "stands_for s0 ?a 2 1188"
    using mount.answer [of sample_mount sample_afs 2 ?w 1188] sample_stands [of 5 1829] by (auto simp: nblks_def)
  have a: "resolve (a_dirs ?a) [0x2f, 0x61] = Inr ?d" "writable (a_dirs ?a) [0x2f, 0x61]" "map (a_file ?a 5) [0..<3] = [7, 8, 9]"
    using d by (simp_all add: defs splice_def upt_rec flip: numeral_3_eq_3)
  show ?thesis
    using truncate_keeps_old_bytes [of s0 ?a 0 0 "[0x2f, 0x61]" ?d sample_env] s0 a d by (auto dest!: replyD(1))
qed

text \<open>
  C10: \<^verbatim>\<open>gefs_fuse_readdir\<close> of a directory lists \<^verbatim>\<open>.\<close> and \<^verbatim>\<open>..\<close> and then each of its entries exactly once,
  and nothing else; it changes nothing a client can see.
\<close>

theorem readdir_lists_entries:
  assumes md: "mdirs s S es" and d: "resolve (dirs es) p = Inr d" "is_dir d"
  shows "\<exists>s' ns. fuse_readdir (\<lambda>xs n st. (xs @ [n], False)) s p [] = Some (s', Inr ([cstr ''.'', cstr ''..''] @ ns))
     \<and> distinct ns \<and> set ns = {n. n \<noteq> [] \<and> dirs es (qpath (xqid d), n) \<noteq> None} \<and> mdirs s' S es \<and> quiet S s s'"
  using readdir_names [OF assms] unfolding names_in_def .

theorem readdir_lists_entries_witness:
  "\<exists>s' ns. fuse_readdir (\<lambda>xs n st. (xs @ [n], False)) sample_mount [0x2f] [] = Some (s', Inr ([cstr ''.'', cstr ''..''] @ ns))
     \<and> distinct ns \<and> set ns = {[0x61]}"
proof -
  have "{n. n \<noteq> [] \<and> a_dirs sample_afs (qpath (xqid sample_root), n) \<noteq> None} = {[0x61]}" by (auto simp: sample_afs_def)
  then show ?thesis
    using readdir_lists_entries [OF sample_mdirs, of "[0x2f]" sample_root] unfolding sample_dirs
    by (auto simp: sample_afs_def resolve_def node_def is_dir_def)
qed

text \<open>
  C11: on a read-only mount no sequence of requests, of any kind and with any arguments, changes the
  device, the superblock, the trees, the free space or the dirty flag: only the cache moves.
\<close>

theorem readonly_mount_unchanged:
  assumes "served s s'" and "readonly s"
  shows "dev s' = dev s \<and> sb s' = sb s \<and> snap_tree s' = snap_tree s \<and> active_tree s' = active_tree s
     \<and> arenas s' = arenas s \<and> dirty s' = dirty s \<and> readonly s'"
  using same_fsD [OF served_readonly [OF assms]] assms(2) by simp

theorem readonly_mount_unchanged_witness:
  "\<exists>s'. fuse_unlink (sample_mount\<lparr>readonly := True\<rparr>) [0x2f, 0x61] = Some (s', Inl EROFS) \<and> dev s' = dev sample_mount"
proof -
  let ?s = "sample_mount\<lparr>readonly := True\<rparr>"
  have u: "fuse_unlink ?s [0x2f, 0x61] = Some (?s, Inl EROFS)" by (simp add: fuse_unlink_def guarded_def)
  from readonly_mount_unchanged [OF served_more [OF served_start unlink_req [OF u]]] u show ?thesis by simp
qed

section \<open>Trees\<close>

text \<open>
  C2: looking up a key with \<^verbatim>\<open>gefs_btlookup\<close> in a tree of any height, with messages pending in its
  pivots, returns exactly the value the abstract tree gives the key; the walk terminates without
  leaving any block's buffer, gives back every reference it took and leaves everything a client
  sees of the block store unchanged. The hypothesis \<^verbatim>\<open>tree_tame\<close> (\<^verbatim>\<open>Btree\<close>) is about the messages pending for
  this key: their values fit the caller's buffer, a stat message has the fields its flags
  announce, and what directly follows a message that leaves the key absent is an insertion or a
  deletion. The last point leaves out a deletion followed by a stat message, after which the code
  reports the key as present.
\<close>

theorem lookup_refines_tree:
  assumes "fs_ok s hs S" and "tree_at (seen_by s S) h (bp_addr (t_bp t)) T" and "sint (t_ht t) = int h"
    and "tree_tame n T k"
  shows "\<exists>s' r. lookup s t k n = Some (s', r) \<and> tree_get T k = Some r \<and> fs_ok s' hs S
     \<and> seen_by s' S = seen_by s S \<and> same_fs s s'"
  by (rule lookup_ok [OF assms])

text \<open>
  Looking up key 2 below a pivot: the leaf has a value for it, the pivot's buffer a deletion followed
  by an insertion.
\<close>

theorem lookup_refines_tree_witness:
  "\<exists>s'. lookup (pivot_ctx [\<lparr>kv_k = [1], kv_v = [7]\<rparr>, \<lparr>kv_k = [2], kv_v = [8]\<rparr>]) pivot_tree [2] 768 = Some (s', Some \<lparr>kv_k = [2], kv_v = [9]\<rparr>)
     \<and> fs_ok s' [] (insert 262144 sample_addrs)"
proof -
  let ?es = "[\<lparr>kv_k = [1], kv_v = [7]\<rparr>, \<lparr>kv_k = [2], kv_v = [8]\<rparr>]"
  have t: "tree_at (seen_by (pivot_ctx ?es) (insert 262144 sample_addrs)) 2 262144 (APivot [([1], ALeaf ?es)] pending_msgs)"
    by (rule pivot_tree_at) (simp_all add: leaf_fits_def kv_small_def kvs_size_def kvsz_def strict_def)
  have "tree_tame 768 (APivot [([1], ALeaf ?es)] pending_msgs) [2]"
    by (simp add: pending_msgs_def child_def for_key_def msg_eff_def drops_def)
  then show ?thesis
    using lookup_refines_tree [OF pivot_ok, of ?es 2 pivot_tree "APivot [([1], ALeaf ?es)] pending_msgs" 768 "[2]"] t
    by (simp add: pivot_tree_def zero_tree_def zero_bptr_def pending_msgs_def child_def for_key_def msg_eff_def drops_def) blast
qed

text \<open>
  C3: after \<^verbatim>\<open>gefs_btupsert\<close> succeeds on a leaf tree, looking up any key gives the effect of the
  batch's message for that key on the old entry, or the old entry if the batch has none, and
  the new leaf is on the device in the form the code reads back.
\<close>

theorem upsert_then_lookup:
  assumes "fs_ok s hs S" and "\<not> readonly s" and "msgs \<noteq> []" and "free_ranges s \<noteq> []"
    and "tree_at (seen_by s S) 1 (bp_addr (t_bp (tree_of tr s))) (ALeaf es)"
    and "distinct (map m_k msgs)"
    and "merge_spec es (sort_key m_k msgs) = Some out" and "leaf_fits out" and "small_entries n out"
  shows "\<exists>s1 s2. btupsert s tr msgs = Some (s1, Inr ())
     \<and> lookup s1 (tree_of tr s1) k n
         = Some (s2, case msg_for msgs k of None \<Rightarrow> entry es k | Some m \<Rightarrow> upd m (entry es k))
     \<and> (\<exists>v. on_disk (dev s1) (bp_addr (t_bp (tree_of tr s1))) = Some v \<and> leaf_rep v out)"
proof -
  have es: "strict (map kv_k es)" using assms(5) by (auto elim: tree_at_leafE simp: strict_iff)
  note ms = strict_sort [OF assms(6)]
  obtain s1 bp where u: "btupsert s tr msgs = Some (s1, Inr ())" "upserted s s1 tr bp"
    "fs_ok s1 hs (insert (bp_addr bp) S)" "tree_at (seen_by s1 (insert (bp_addr bp) S)) 1 (bp_addr bp) (ALeaf out)"
    "\<exists>v. on_disk (dev s1) (bp_addr bp) = Some v \<and> leaf_rep v out"
    using btupsert_leaf [OF assms(1-5,7,8) merge_spec_strict [OF assms(7) es ms]] by blast
  then obtain s2 where "lookup s1 (tree_of tr s1) k n = Some (s2, entry out k)"
    using lookup_leaf [OF u(3), of "tree_of tr s1" out n k] assms(9) by (auto simp: upserted_def)
  then show ?thesis
    using u merge_spec_entry [OF assms(7) es ms, of k] msg_for_sort [OF assms(6), of k] by (auto simp: upserted_def)
qed

theorem upsert_then_lookup_witness:
  "\<exists>s1 s2. btupsert (sample_ctx [\<lparr>kv_k = [1], kv_v = [7]\<rparr>] []) TActive
         [\<lparr>m_op = 1, m_k = [2], m_v = [9]\<rparr>, \<lparr>m_op = 2, m_k = [1], m_v = []\<rparr>] = Some (s1, Inr ())
     \<and> lookup s1 (tree_of TActive s1) [2] 768 = Some (s2, Some \<lparr>kv_k = [2], kv_v = [9]\<rparr>)
     \<and> (\<exists>v. on_disk (dev s1) (bp_addr (t_bp (tree_of TActive s1))) = Some v \<and> leaf_rep v [\<lparr>kv_k = [2], kv_v = [9]\<rparr>])"
  using upsert_then_lookup [OF sample_ok, of "[\<lparr>kv_k = [1], kv_v = [7]\<rparr>]" "[]"
      "[\<lparr>m_op = 1, m_k = [2], m_v = [9]\<rparr>, \<lparr>m_op = 2, m_k = [1], m_v = []\<rparr>]" TActive
      "[\<lparr>kv_k = [1], kv_v = [7]\<rparr>]" "[\<lparr>kv_k = [2], kv_v = [9]\<rparr>]" 768 "[2]"]
    sample_trees(1) [of "[\<lparr>kv_k = [1], kv_v = [7]\<rparr>]" "[]"]
  by (simp add: sample_ctx_def sample_tree_def zero_tree_def zero_bptr_def leaf_fits_def kv_small_def kvs_size_def kvsz_def
      strict_def free_ranges_def apply_old_def apply_new_def small_entries_def msg_for_def upd_def)

text \<open>
  C4: an update is copy on write. Every tree that could be read before the update, snapshots
  included, can still be read after it and gives every key the same value.
\<close>

theorem upsert_keeps_other_trees:
  assumes "fs_ok s hs S" and "\<not> readonly s" and "msgs \<noteq> []" and "free_ranges s \<noteq> []"
    and "tree_at (seen_by s S) 1 (bp_addr (t_bp (tree_of tr s))) (ALeaf es)"
    and "distinct (map m_k msgs)"
    and "merge_spec es (sort_key m_k msgs) = Some out" and "leaf_fits out"
    and "tree_at (seen_by s S) h (bp_addr (t_bp t)) T" and "sint (t_ht t) = int h" and "tree_tame n T k"
  shows "\<exists>s1 s2 r. btupsert s tr msgs = Some (s1, Inr ()) \<and> lookup s1 t k n = Some (s2, r) \<and> tree_get T k = Some r"
proof -
  have es: "strict (map kv_k es)" using assms(5) by (auto elim: tree_at_leafE simp: strict_iff)
  obtain s1 bp where u: "btupsert s tr msgs = Some (s1, Inr ())" "fs_ok s1 hs (insert (bp_addr (bp :: bptr)) S)"
    "seen_by s S \<subseteq>\<^sub>m seen_by s1 (insert (bp_addr bp) S)"
    using btupsert_leaf [OF assms(1-5,7,8) merge_spec_strict [OF assms(7) es strict_sort [OF assms(6)]]]
    by blast
  then show ?thesis
    using lookup_ok [OF u(2) tree_at_mono [OF assms(9) u(3)] assms(10,11)] by blast
qed

theorem upsert_keeps_other_trees_witness:
  "\<exists>s1 s2 r. btupsert (sample_ctx [] [\<lparr>kv_k = [3], kv_v = [5]\<rparr>]) TActive [\<lparr>m_op = 1, m_k = [2], m_v = [9]\<rparr>] = Some (s1, Inr ())
     \<and> lookup s1 (sample_tree 32768 0) [3] 768 = Some (s2, r) \<and> tree_get (ALeaf [\<lparr>kv_k = [3], kv_v = [5]\<rparr>]) [3] = Some r"
  using upsert_keeps_other_trees [OF sample_ok, of "[]" "[\<lparr>kv_k = [3], kv_v = [5]\<rparr>]"
      "[\<lparr>m_op = 1, m_k = [2], m_v = [9]\<rparr>]" TActive "[]" "[\<lparr>kv_k = [2], kv_v = [9]\<rparr>]" 1 "sample_tree 32768 0"
      "ALeaf [\<lparr>kv_k = [3], kv_v = [5]\<rparr>]" 768 "[3]"]
    sample_trees [of "[]" "[\<lparr>kv_k = [3], kv_v = [5]\<rparr>]"]
  by (simp add: sample_ctx_def sample_tree_def zero_tree_def zero_bptr_def leaf_fits_def kv_small_def kvs_size_def kvsz_def
      strict_def free_ranges_def apply_new_def)

end
